(* ===== verification/CPrelude.thy ===== *)
theory CPrelude
  imports Main "HOL-Library.Word" "HOL-Library.Monad_Syntax" "HOL-Library.Code_Target_Numeral"
begin

text \<open>
  What every component of the model shares.

  \<^item> \<open>None\<close> of a result of type \<open>'a option\<close> is undefined behaviour of the C
    program: a NULL pointer dereferenced (or handed to \<open>strdup\<close>, \<open>strcmp\<close>, \<open>sscanf\<close>),
    an object used after \<open>free\<close>, an index out of its array, a shift by the width or
    more, a division by zero. \<open>Some r\<close> is an execution that returns \<open>r\<close>. The
    \<open>do\<close> notation of HOL-Library.Monad_Syntax sequences such executions.
  \<^item> A pointer that may be NULL and is tested by the code is an \<open>option\<close> value.
  \<^item> Objects that are shared or freed live in a \<open>heap\<close>; an address is never reused, so
    that a dangling pointer never becomes valid again.
  \<^item> Writes past the end of a buffer do not stop an execution: they are recorded in the
    ledger of overruns of the state, with the place and the number of bytes.
  \<^item> C strings are \<open>string\<close>s (lists of bytes) without the terminating NUL;
    \<open>c_str\<close> is what a C string function sees of a block of bytes.
\<close>

named_theorems c_inv \<open>operations keep the well-formedness invariants\<close>
named_theorems c_frame \<open>what an operation leaves unchanged\<close>

type_synonym u8 = "8 word"
type_synonym u16 = "16 word"
type_synonym u32 = "32 word"
type_synonym u64 = "64 word"
type_synonym cstring = string

lemma unat_u8: "unat (w :: u8) < 2 ^ 8"
  using unsigned_less [of w, where ?'a = nat] by simp

lemma unat_u32: "unat (w :: u32) < 2 ^ 32"
  using unsigned_less [of w, where ?'a = nat] by simp

lemma unat_u64: "unat (w :: u64) < 2 ^ 64"
  using unsigned_less [of w, where ?'a = nat] by simp

section \<open>Undefined behaviour\<close>

definition require :: "bool \<Rightarrow> unit option" where
  "require b = (if b then Some () else None)"

lemma require_eq_Some [simp]: "require b = Some u \<longleftrightarrow> b"
  by (cases u) (simp add: require_def)

lemma require_bind_eq_Some [simp]: "(require b \<bind> f = Some r) \<longleftrightarrow> b \<and> f () = Some r"
  by (simp add: require_def)

lemma require_simps [simp]: "require True = Some ()" "require False = None"
  by (simp_all add: require_def)

lemma bind_Some_iff: "(m \<bind> f = Some r) \<longleftrightarrow> (\<exists>x. m = Some x \<and> f x = Some r)"
  by (cases m) auto

lemma bind_None_iff: "(m \<bind> f = None) \<longleftrightarrow> m = None \<or> (\<exists>x. m = Some x \<and> f x = None)"
  by (cases m) auto

text \<open>Reading element \<open>i\<close> of an array: out of range is undefined.\<close>

definition at :: "'a list \<Rightarrow> nat \<Rightarrow> 'a option" where
  "at xs i = (if i < length xs then Some (xs ! i) else None)"

lemma at_eq_Some [simp]: "at xs i = Some x \<longleftrightarrow> i < length xs \<and> xs ! i = x"
  by (auto simp: at_def)

lemma at_eq_None [simp]: "at xs i = None \<longleftrightarrow> length xs \<le> i"
  by (auto simp: at_def)

lemma at_lt [simp]: "i < length xs \<Longrightarrow> at xs i = Some (xs ! i)"
  by (simp add: at_def)

lemma at_Cons_numeral [simp]: "at (x # xs) 0 = Some x" "at (x # xs) (Suc i) = at xs i"
  by (simp_all add: at_def)

text \<open>A loop over a list that threads a state and stops at undefined behaviour.\<close>

fun fold_ub :: "('a \<Rightarrow> 's \<Rightarrow> 's option) \<Rightarrow> 'a list \<Rightarrow> 's \<Rightarrow> 's option" where
  "fold_ub f [] s = Some s"
| "fold_ub f (x # xs) s = do { s' \<leftarrow> f x s; fold_ub f xs s' }"

lemma fold_ub_append: "fold_ub f (xs @ ys) s = fold_ub f xs s \<bind> fold_ub f ys"
  by (induction xs arbitrary: s) (auto split: Option.bind_split)

lemma fold_ub_invariant:
  assumes "fold_ub f xs s = Some s'" and "P s"
    and "\<And>x t t'. x \<in> set xs \<Longrightarrow> P t \<Longrightarrow> f x t = Some t' \<Longrightarrow> P t'"
  shows "P s'"
  using assms
proof (induction xs arbitrary: s)
  case Nil
  then show ?case by simp
next
  case (Cons x xs)
  from Cons.prems(1) obtain t where t: "f x s = Some t" "fold_ub f xs t = Some s'"
    by (auto simp: bind_Some_iff)
  have "P t" using Cons.prems(2) Cons.prems(3) [OF _ Cons.prems(2) t(1)] by simp
  with t(2) show ?case by (rule Cons.IH) (use Cons.prems(3) in auto)
qed

lemma fold_ub_total:
  assumes "P s" and "\<And>x t. x \<in> set xs \<Longrightarrow> P t \<Longrightarrow> \<exists>t'. f x t = Some t' \<and> P t'"
  shows "\<exists>s'. fold_ub f xs s = Some s' \<and> P s'"
  using assms
proof (induction xs arbitrary: s)
  case Nil
  then show ?case by simp
next
  case (Cons x xs)
  from Cons.prems(2) [of x s] Cons.prems(1) obtain t where t: "f x s = Some t" "P t" by auto
  from Cons.IH [OF t(2)] Cons.prems(2) obtain s' where "fold_ub f xs t = Some s' \<and> P s'" by auto
  with t show ?case by auto
qed

text \<open>Reading a list of pointers, all of which must be valid.\<close>

fun map_ub :: "('a \<Rightarrow> 'b option) \<Rightarrow> 'a list \<Rightarrow> 'b list option" where
  "map_ub f [] = Some []"
| "map_ub f (x # xs) = do { y \<leftarrow> f x; ys \<leftarrow> map_ub f xs; Some (y # ys) }"

lemma map_ub_eq_Some:
  "map_ub f xs = Some ys \<longleftrightarrow> length ys = length xs \<and> (\<forall>i < length xs. f (xs ! i) = Some (ys ! i))"
proof (induction xs arbitrary: ys)
  case Nil
  then show ?case by auto
next
  case (Cons x xs)
  then show ?case
    by (cases ys) (auto simp: bind_Some_iff nth_Cons less_Suc_eq_0_disj split: nat.splits)
qed

lemma map_ub_total: "(\<And>x. x \<in> set xs \<Longrightarrow> f x \<noteq> None) \<Longrightarrow> \<exists>ys. map_ub f xs = Some ys"
  by (induction xs) (auto simp: bind_Some_iff)

lemma map_ub_None: "map_ub f xs = None \<longleftrightarrow> (\<exists>x \<in> set xs. f x = None)"
  by (induction xs) (auto simp: bind_None_iff)

lemma map_ub_map: "(\<And>x. x \<in> set xs \<Longrightarrow> f x = Some (g x)) \<Longrightarrow> map_ub f xs = Some (map g xs)"
  by (induction xs) auto

section \<open>Heaps\<close>

record 'v heap =
  cells :: "nat \<rightharpoonup> 'v"
  next_addr :: nat

definition empty_heap :: "'v heap" where
  "empty_heap = \<lparr>cells = Map.empty, next_addr = 0\<rparr>"

definition alloc :: "'v \<Rightarrow> 'v heap \<Rightarrow> nat \<times> 'v heap" where
  "alloc v h = (next_addr h,
     h\<lparr>cells := (cells h)(next_addr h \<mapsto> v), next_addr := Suc (next_addr h)\<rparr>)"

definition hfree :: "nat \<Rightarrow> 'v heap \<Rightarrow> 'v heap option" where
  "hfree a h = (case cells h a of None \<Rightarrow> None | Some _ \<Rightarrow> Some (h\<lparr>cells := (cells h)(a := None)\<rparr>))"

definition deref :: "'v heap \<Rightarrow> nat \<Rightarrow> 'v option" where
  "deref h a = cells h a"

definition hwrite :: "nat \<Rightarrow> 'v \<Rightarrow> 'v heap \<Rightarrow> 'v heap option" where
  "hwrite a v h = (case cells h a of None \<Rightarrow> None | Some _ \<Rightarrow> Some (h\<lparr>cells := (cells h)(a \<mapsto> v)\<rparr>))"

definition heap_ok :: "'v heap \<Rightarrow> bool" where
  "heap_ok h \<longleftrightarrow> (\<forall>a. next_addr h \<le> a \<longrightarrow> cells h a = None)"

lemma heap_ok_empty [simp]: "heap_ok empty_heap"
  by (simp add: heap_ok_def empty_heap_def)

lemma heap_ok_alloc [c_inv]: "heap_ok h \<Longrightarrow> heap_ok (snd (alloc v h))"
  by (simp add: heap_ok_def alloc_def)

lemma heap_ok_hfree [c_inv]: "heap_ok h \<Longrightarrow> hfree a h = Some h' \<Longrightarrow> heap_ok h'"
  by (auto simp: heap_ok_def hfree_def split: option.splits)

lemma heap_ok_hwrite [c_inv]: "heap_ok h \<Longrightarrow> hwrite a v h = Some h' \<Longrightarrow> heap_ok h'"
  by (auto simp: heap_ok_def hwrite_def split: option.splits if_splits)

lemma hfree_twice: "hfree a h = Some h' \<Longrightarrow> hfree a h' = None"
  by (auto simp: hfree_def split: option.splits)

section \<open>C strings\<close>

definition c_str :: "cstring \<Rightarrow> cstring" where
  "c_str bytes = takeWhile (\<lambda>c. c \<noteq> CHR 0x00) bytes"

definition nul_free :: "cstring \<Rightarrow> bool" where
  "nul_free s \<longleftrightarrow> CHR 0x00 \<notin> set s"

lemma c_str_nul_free [simp]: "nul_free (c_str s)"
  by (auto simp: nul_free_def c_str_def dest: set_takeWhileD)

lemma c_str_id [simp]: "nul_free s \<Longrightarrow> c_str s = s"
  by (auto simp: nul_free_def c_str_def takeWhile_eq_all_conv)

lemma nul_free_Cons [simp]: "nul_free (c # s) \<longleftrightarrow> c \<noteq> CHR 0x00 \<and> nul_free s"
  by (auto simp: nul_free_def)

lemma nul_free_Nil [simp]: "nul_free []"
  by (simp add: nul_free_def)

lemma nul_free_append [simp]: "nul_free (s @ t) \<longleftrightarrow> nul_free s \<and> nul_free t"
  by (auto simp: nul_free_def)

text \<open>
  A write of \<open>needed\<close> bytes into a buffer of \<open>available\<close> bytes: the bytes that land past
  its end, as an entry of the ledger.
\<close>

datatype site =
    Error_reply | Status_reply | Connection_reply | Measurement_reply | Group_reply
  | Message_50 | Sensor_list_entry | Value_text | Topic_200 | Base_topic_100
  | Command_80 | Mqtt_host_100

type_synonym ledger = "(site \<times> nat) list"

definition overrun :: "site \<Rightarrow> nat \<Rightarrow> nat \<Rightarrow> ledger" where
  "overrun p available needed = (if needed \<le> available then [] else [(p, needed - available)])"

lemma overrun_fits [simp]: "needed \<le> available \<Longrightarrow> overrun p available needed = []"
  by (simp add: overrun_def)

lemma overrun_Nil_iff [simp]: "overrun p available needed = [] \<longleftrightarrow> needed \<le> available"
  by (simp add: overrun_def)

section \<open>Reachable states\<close>

text \<open>
  The states that a step relation reaches from its initial states, and the contract of an
  invariant: it holds at the start and every step keeps it.
\<close>

inductive reach :: "('s \<Rightarrow> bool) \<Rightarrow> ('s \<Rightarrow> 's \<Rightarrow> bool) \<Rightarrow> 's \<Rightarrow> bool" for init step where
  reach_init: "init s \<Longrightarrow> reach init step s"
| reach_step: "reach init step s \<Longrightarrow> step s t \<Longrightarrow> reach init step t"

locale step_invariant =
  fixes init :: "'s \<Rightarrow> bool"
    and step :: "'s \<Rightarrow> 's \<Rightarrow> bool"
    and inv :: "'s \<Rightarrow> bool"
  assumes inv_init: "init s \<Longrightarrow> inv s"
    and inv_step: "step s t \<Longrightarrow> inv s \<Longrightarrow> inv t"
begin

lemma reach_inv: "reach init step s \<Longrightarrow> inv s"
  by (induction rule: reach.induct) (blast intro: inv_init inv_step)+

lemma steps_inv: "step\<^sup>*\<^sup>* s t \<Longrightarrow> inv s \<Longrightarrow> inv t"
  by (induction rule: rtranclp_induct) (blast intro: inv_step)+

end

section \<open>Refinement of a total specification\<close>

text \<open>
  An operation that may be undefined refines a total one when, on states with the invariant
  and valid inputs, it is defined, keeps the invariant, and gives the output and the abstract
  state of the specification. Then so does every sequence of operations.
\<close>

fun run_ub :: "('i \<Rightarrow> 's \<Rightarrow> ('r \<times> 's) option) \<Rightarrow> 'i list \<Rightarrow> 's \<Rightarrow> ('r list \<times> 's) option" where
  "run_ub f [] s = Some ([], s)"
| "run_ub f (i # is) s = do { (r, s1) \<leftarrow> f i s; (rs, s2) \<leftarrow> run_ub f is s1; Some (r # rs, s2) }"

fun run_spec :: "('i \<Rightarrow> 's \<Rightarrow> 'r \<times> 's) \<Rightarrow> 'i list \<Rightarrow> 's \<Rightarrow> 'r list \<times> 's" where
  "run_spec f [] s = ([], s)"
| "run_spec f (i # is) s = (let (r, s1) = f i s; (rs, s2) = run_spec f is s1 in (r # rs, s2))"

locale functional_refinement =
  fixes inv :: "'c \<Rightarrow> bool"
    and abs :: "'c \<Rightarrow> 'a"
    and valid :: "'i \<Rightarrow> bool"
    and impl :: "'i \<Rightarrow> 'c \<Rightarrow> ('r \<times> 'c) option"
    and spec :: "'i \<Rightarrow> 'a \<Rightarrow> 'r \<times> 'a"
  assumes refines: "inv c \<Longrightarrow> valid i \<Longrightarrow> \<exists>r c'. impl i c = Some (r, c') \<and> inv c' \<and> spec i (abs c) = (r, abs c')"
begin

lemma runs_refine:
  "inv c \<Longrightarrow> \<forall>i \<in> set is. valid i \<Longrightarrow>
    \<exists>rs c'. run_ub impl is c = Some (rs, c') \<and> inv c' \<and> run_spec spec is (abs c) = (rs, abs c')"
proof (induction "is" arbitrary: c)
  case (Cons i "is")
  from refines [of c i] Cons.prems obtain r c1 where
    c1: "impl i c = Some (r, c1)" "inv c1" "spec i (abs c) = (r, abs c1)" by auto
  from Cons.IH [OF c1(2)] Cons.prems(2) c1 show ?case by fastforce
qed simp

end

end
