(* ===== verification/CText.thy ===== *)
theory CText
  imports CPrelude
begin

text \<open>
  The text and number functions of the C library that the program calls: \<open>isspace\<close>,
  \<open>%u\<close> and \<open>%d\<close> of \<open>printf\<close>, \<open>sscanf\<close> with \<open>SCNu32\<close>, \<open>atoi\<close> (glibc on a 64-bit
  target, C locale), and \<open>strcmp\<close>-style comparison as equality of strings.
  \<open>scan_u32_show\<close> is the round trip the configuration handlers rest on.
\<close>

section \<open>Characters\<close>

definition isspace :: "char \<Rightarrow> bool" where
  "isspace c \<longleftrightarrow> c \<in> {CHR 0x09, CHR 0x0A, CHR 0x0B, CHR 0x0C, CHR 0x0D, CHR 0x20}"

definition skip_ws :: "cstring \<Rightarrow> cstring" where
  "skip_ws s = dropWhile isspace s"

definition is_digit :: "char \<Rightarrow> bool" where
  "is_digit c \<longleftrightarrow> (48::nat) \<le> of_char c \<and> of_char c \<le> (57::nat)"

definition digit_val :: "char \<Rightarrow> nat" where
  "digit_val c = of_char c - 48"

definition digit_char :: "nat \<Rightarrow> char" where
  "digit_char d = char_of (48 + d)"

lemma of_digit_char [simp]: "d < 10 \<Longrightarrow> of_char (digit_char d) = 48 + d"
  by (simp add: digit_char_def)

lemma digit_val_char [simp]: "d < 10 \<Longrightarrow> digit_val (digit_char d) = d"
  by (simp add: digit_val_def)

lemma is_digit_char [simp]: "d < 10 \<Longrightarrow> is_digit (digit_char d)"
  by (simp add: is_digit_def)

lemma digit_not_space: "is_digit c \<Longrightarrow> \<not> isspace c"
  by (auto simp: is_digit_def isspace_def)

lemma digit_not_special:
  "is_digit c \<Longrightarrow> c \<noteq> CHR ''-'' \<and> c \<noteq> CHR ''+'' \<and> c \<noteq> CHR 0x00 \<and> c \<noteq> CHR ''.'' \<and> c \<noteq> CHR ''x'' \<and> c \<noteq> CHR ''X''"
  by (auto simp: is_digit_def)

section \<open>Printing: the decimal digits of a number\<close>

fun show_nat :: "nat \<Rightarrow> cstring" where
  "show_nat n = (if n < 10 then [digit_char n] else show_nat (n div 10) @ [digit_char (n mod 10)])"

declare show_nat.simps [simp del]

lemma show_nat_small: "n < 10 \<Longrightarrow> show_nat n = [digit_char n]"
  by (simp add: show_nat.simps)

lemma show_nat_step: "10 \<le> n \<Longrightarrow> show_nat n = show_nat (n div 10) @ [digit_char (n mod 10)]"
  by (simp add: show_nat.simps)

lemma show_nat_ne [simp]: "show_nat n \<noteq> []"
  by (subst show_nat.simps) simp

lemma show_nat_digits: "c \<in> set (show_nat n) \<Longrightarrow> is_digit c"
proof (induction n rule: show_nat.induct)
  case (1 n)
  then show ?case
    by (cases "n < 10") (auto simp: show_nat_small show_nat_step)
qed

lemma show_nat_nul_free [simp]: "nul_free (show_nat n)"
  by (auto simp: nul_free_def dest: show_nat_digits digit_not_special)

lemma length_show_nat: "0 < k \<Longrightarrow> n < 10 ^ k \<Longrightarrow> length (show_nat n) \<le> k"
proof (induction k arbitrary: n)
  case 0
  then show ?case by simp
next
  case (Suc k)
  show ?case
  proof (cases "n < 10")
    case True
    then show ?thesis by (simp add: show_nat_small)
  next
    case False
    with Suc.prems have "0 < k" by (cases k) auto
    moreover have "n div 10 < 10 ^ k" using Suc.prems(2) by (simp add: less_mult_imp_div_less mult.commute)
    ultimately have "length (show_nat (n div 10)) \<le> k" by (rule Suc.IH)
    with False show ?thesis by (simp add: show_nat_step)
  qed
qed

definition show_int :: "int \<Rightarrow> cstring" where
  "show_int i = (if i < 0 then CHR ''-'' # show_nat (nat (- i)) else show_nat (nat i))"

text \<open>\<open>%u\<close> (\<open>PRIu32\<close>) and \<open>%d\<close> of a 32-bit argument.\<close>

definition fmt_u32 :: "u32 \<Rightarrow> cstring" where
  "fmt_u32 w = show_nat (unat w)"

definition fmt_d32 :: "u32 \<Rightarrow> cstring" where
  "fmt_d32 w = show_int (sint w)"

lemma length_fmt_u32: "length (fmt_u32 w) \<le> 10"
proof -
  have "unat w < 10 ^ 10" using unat_u32 [of w] by simp
  then show ?thesis by (simp only: fmt_u32_def) (rule length_show_nat, simp_all)
qed

text \<open>\<open>snprintf\<close> with a limit: at most \<open>n - 1\<close> bytes and the terminator.\<close>

definition snprintf :: "nat \<Rightarrow> cstring \<Rightarrow> cstring" where
  "snprintf n s = take (n - 1) s"

section \<open>Scanning\<close>

fun read_digits :: "nat \<Rightarrow> cstring \<Rightarrow> nat" where
  "read_digits acc [] = acc"
| "read_digits acc (c # s) = (if is_digit c then read_digits (10 * acc + digit_val c) s else acc)"

lemma read_digits_append:
  "(\<And>c. c \<in> set s \<Longrightarrow> is_digit c) \<Longrightarrow> read_digits acc (s @ t) = read_digits (read_digits acc s) t"
  by (induction s arbitrary: acc) auto

lemma read_digits_show: "read_digits 0 (show_nat n) = n"
proof (induction n rule: show_nat.induct)
  case (1 n)
  show ?case
  proof (cases "n < 10")
    case True
    then show ?thesis by (simp add: show_nat_small)
  next
    case False
    with 1 show ?thesis
      by (simp add: show_nat_step read_digits_append show_nat_digits)
  qed
qed

text \<open>An optional sign: \<open>(negative, rest)\<close>.\<close>

definition scan_sign :: "cstring \<Rightarrow> bool \<times> cstring" where
  "scan_sign s = (case s of
      [] \<Rightarrow> (False, [])
    | c # r \<Rightarrow> if c = CHR ''-'' then (True, r) else if c = CHR ''+'' then (False, r) else (False, c # r))"

definition starts_digit :: "cstring \<Rightarrow> bool" where
  "starts_digit s = (case s of [] \<Rightarrow> False | c # _ \<Rightarrow> is_digit c)"

text \<open>
  \<open>sscanf (s, "%u", &v)\<close> with a 32-bit \<open>v\<close>: \<open>strtoul\<close> in 64 bits (which saturates, and
  negates after a minus sign), truncated to 32 bits. \<open>None\<close> is a matching failure: \<open>v\<close>
  keeps its value.
\<close>

definition scan_u32 :: "cstring \<Rightarrow> u32 option" where
  "scan_u32 s = (let (neg, r) = scan_sign (skip_ws (c_str s)) in
     if starts_digit r
     then (let m = read_digits 0 r in
           if 2 ^ 64 \<le> m then Some (- 1)
           else Some (if neg then - of_nat m else of_nat m))
     else None)"

text \<open>\<open>atoi\<close>: \<open>strtol\<close> in 64 bits, which saturates, then a conversion to \<open>int\<close>.\<close>

definition atoi :: "cstring \<Rightarrow> u32" where
  "atoi s = (let (neg, r) = scan_sign (skip_ws (c_str s)) in
     if starts_digit r
     then (let m = int (read_digits 0 r); v = (if neg then - m else m) in
           of_int (max (- (2 ^ 63)) (min (2 ^ 63 - 1) v)))
     else 0)"

lemma skip_ws_digits: "starts_digit s \<Longrightarrow> skip_ws s = s"
  by (cases s) (auto simp: starts_digit_def skip_ws_def digit_not_space)

lemma scan_sign_digits: "starts_digit s \<Longrightarrow> scan_sign s = (False, s)"
  by (cases s) (auto simp: starts_digit_def scan_sign_def dest: digit_not_special)

lemma starts_digit_show [simp]: "starts_digit (show_nat n)"
  by (cases "show_nat n") (auto simp: starts_digit_def, metis list.set_intros(1) show_nat_digits)

lemma scan_u32_show: "scan_u32 (fmt_u32 w) = Some w"
proof -
  have "unat w < 2 ^ 64" using unat_u32 [of w] by simp
  then show ?thesis
    by (simp add: scan_u32_def fmt_u32_def skip_ws_digits scan_sign_digits read_digits_show)
qed

lemma atoi_show:
  assumes "n < 2 ^ 31"
  shows "atoi (show_nat n) = of_nat n"
proof -
  have "max (- (2 ^ 63)) (min (2 ^ 63 - 1) (int n)) = int n" using assms by simp
  then show ?thesis
    by (simp add: atoi_def skip_ws_digits scan_sign_digits read_digits_show)
qed

end
