(* ===== verification/Doubles.thy ===== *)
theory Doubles
  imports CText
begin

text \<open>
  IEEE 754 binary64 numbers as the program meets them: the \<open>double\<close> of a JSON number.
  \<open>Fin s m e\<close> is \<open>(-1)^s * m * 2^e\<close> with \<open>m < 2^53\<close> and \<open>-1074 \<le> e \<le> 971\<close>. Rounding is to
  nearest, ties to even. Modelled are the conversions the source uses: from integers and
  back, \<open>strtod\<close> (glibc, C locale, with its \<open>ERANGE\<close> conditions), \<open>%1.17g\<close>, \<open>%.15f\<close>, and the
  value of a 64-bit pattern. The lemmas at the end show that an integer of at most 53 bits is
  read back unchanged from its double.
\<close>

datatype double = Fin bool nat int | Infinite bool | NaN bool

section \<open>Rounding a fraction\<close>

fun bitlen :: "nat \<Rightarrow> nat" where
  "bitlen n = (if n = 0 then 0 else Suc (bitlen (n div 2)))"

declare bitlen.simps [simp del]

text \<open>Nearest integer to \<open>n / d\<close>, ties to even.\<close>

definition rne :: "nat \<Rightarrow> nat \<Rightarrow> nat" where
  "rne n d = (let q = n div d; r = n mod d in
     if 2 * r < d then q else if d < 2 * r then q + 1 else if even q then q else q + 1)"

text \<open>\<open>n / d \<ge> b ^ k\<close> for a base \<open>b\<close> and an integer exponent \<open>k\<close>.\<close>

definition frac_ge_pow :: "nat \<Rightarrow> nat \<Rightarrow> nat \<Rightarrow> int \<Rightarrow> bool" where
  "frac_ge_pow b n d k = (if 0 \<le> k then d * b ^ nat k \<le> n else d \<le> n * b ^ nat (- k))"

definition floor_log2 :: "nat \<Rightarrow> nat \<Rightarrow> int" where
  "floor_log2 n d = (let k = int (bitlen n) - int (bitlen d) in
     if frac_ge_pow 2 n d k then k else k - 1)"

definition floor_log10 :: "nat \<Rightarrow> nat \<Rightarrow> int" where
  "floor_log10 n d = (let k = int (length (show_nat n)) - int (length (show_nat d)) in
     if frac_ge_pow 10 n d k then k else k - 1)"

text \<open>\<open>n / d / b ^ e\<close> as a fraction, and rounded.\<close>

definition scaled :: "nat \<Rightarrow> nat \<Rightarrow> nat \<Rightarrow> int \<Rightarrow> nat \<times> nat" where
  "scaled b n d e = (if 0 \<le> e then (n, d * b ^ nat e) else (n * b ^ nat (- e), d))"

definition round_at :: "nat \<Rightarrow> nat \<Rightarrow> nat \<Rightarrow> int \<Rightarrow> nat" where
  "round_at b n d e = (let (x, y) = scaled b n d e in rne x y)"

definition round_frac :: "bool \<Rightarrow> nat \<Rightarrow> nat \<Rightarrow> double" where
  "round_frac s n d =
     (if n = 0 then Fin s 0 (- 1074)
      else let e0 = max (floor_log2 n d - 52) (- 1074);
               q0 = round_at 2 n d e0;
               (q, e) = (if q0 = 2 ^ 53 then (2 ^ 52, e0 + 1) else (q0, e0))
           in if 971 < e then Infinite s else Fin s q e)"

text \<open>The underflow condition under which \<open>strtod\<close> sets \<open>errno\<close>: tiny after rounding, and inexact.\<close>

definition frac_underflows :: "nat \<Rightarrow> nat \<Rightarrow> bool" where
  "frac_underflows n d =
     (n \<noteq> 0 \<and>
      (let e = floor_log2 n d - 52 in e < - 1074 \<and> \<not> (e = - 1075 \<and> round_at 2 n d e = 2 ^ 53)) \<and>
      (let (x, y) = scaled 2 n d (- 1074) in x mod y \<noteq> 0))"

section \<open>Integers\<close>

definition double_of_int :: "int \<Rightarrow> double" where
  "double_of_int i = round_frac (i < 0) (nat \<bar>i\<bar>) 1"

definition double_of_u32 :: "u32 \<Rightarrow> double" where
  "double_of_u32 w = double_of_int (uint w)"

definition double_of_i32 :: "u32 \<Rightarrow> double" where
  "double_of_i32 w = double_of_int (sint w)"

definition double_of_u64 :: "u64 \<Rightarrow> double" where
  "double_of_u64 w = double_of_int (uint w)"

text \<open>Truncation towards zero; a value that does not fit into \<open>int\<close> is undefined behaviour.\<close>

definition trunc_double :: "double \<Rightarrow> int option" where
  "trunc_double x = (case x of
     Fin s m e \<Rightarrow>
       let a = (if 0 \<le> e then m * 2 ^ nat e else m div 2 ^ nat (- e))
       in Some (if s then - int a else int a)
   | Infinite s \<Rightarrow> None
   | NaN s \<Rightarrow> None)"

definition double_to_i32 :: "double \<Rightarrow> u32 option" where
  "double_to_i32 x = do {
     v \<leftarrow> trunc_double x;
     require (- (2 ^ 31) \<le> v \<and> v < 2 ^ 31);
     Some (word_of_int v) }"

definition double_to_u32 :: "double \<Rightarrow> u32 option" where
  "double_to_u32 x = do {
     v \<leftarrow> trunc_double x;
     require (- 1 < v \<and> v < 2 ^ 32);
     Some (word_of_int v) }"

definition is_finite :: "double \<Rightarrow> bool" where
  "is_finite x = (case x of Fin s m e \<Rightarrow> True | _ \<Rightarrow> False)"

text \<open>The double whose bits are those of a 64-bit word.\<close>

definition double_of_bits :: "u64 \<Rightarrow> double" where
  "double_of_bits w = (let s = (bit w 63); x = unat w div 2 ^ 52 mod 2 ^ 11; f = unat w mod 2 ^ 52 in
     if x = 2047 then (if f = 0 then Infinite s else NaN s)
     else if x = 0 then Fin s f (- 1074)
     else Fin s (2 ^ 52 + f) (int x - 1075))"

section \<open>Printing\<close>

definition sign_text :: "bool \<Rightarrow> cstring" where
  "sign_text s = (if s then ''-'' else [])"

definition pad_left :: "nat \<Rightarrow> cstring \<Rightarrow> cstring" where
  "pad_left k ds = replicate (k - length ds) (CHR ''0'') @ ds"

definition strip_zeros :: "cstring \<Rightarrow> cstring" where
  "strip_zeros ds = rev (dropWhile (\<lambda>c. c = CHR ''0'') (rev ds))"

definition fin_frac :: "nat \<Rightarrow> int \<Rightarrow> nat \<times> nat" where
  "fin_frac m e = (if 0 \<le> e then (m * 2 ^ nat e, 1) else (m, 2 ^ nat (- e)))"

text \<open>\<open>%1.17g\<close>\<close>

definition decimal17 :: "nat \<Rightarrow> nat \<Rightarrow> nat \<times> int" where
  "decimal17 n d = (let x = floor_log10 n d; c = round_at 10 n d (x - 16) in
     if c = 10 ^ 17 then (10 ^ 16, x + 1) else (c, x))"

definition with_point :: "cstring \<Rightarrow> cstring \<Rightarrow> cstring" where
  "with_point ip fp = (let f = strip_zeros fp in if f = [] then ip else ip @ ''.'' @ f)"

definition fmt_g17 :: "double \<Rightarrow> cstring" where
  "fmt_g17 v = (case v of
     Infinite s \<Rightarrow> sign_text s @ ''inf''
   | NaN s \<Rightarrow> sign_text s @ ''nan''
   | Fin s m e \<Rightarrow> sign_text s @
       (if m = 0 then ''0''
        else let (n, d) = fin_frac m e; (c, x) = decimal17 n d; ds = show_nat c in
          if x < - 4 \<or> 17 \<le> x
          then with_point (take 1 ds) (drop 1 ds) @ ''e'' @ (if x < 0 then ''-'' else ''+'')
                 @ pad_left 2 (show_nat (nat \<bar>x\<bar>))
          else if 0 \<le> x then with_point (take (nat x + 1) ds) (drop (nat x + 1) ds)
          else with_point ''0'' (replicate (nat (- x) - 1) (CHR ''0'') @ ds)))"

text \<open>\<open>%.15f\<close>\<close>

definition fmt_f15 :: "double \<Rightarrow> cstring" where
  "fmt_f15 v = (case v of
     Infinite s \<Rightarrow> sign_text s @ ''inf''
   | NaN s \<Rightarrow> sign_text s @ ''nan''
   | Fin s m e \<Rightarrow>
       let (n, d) = fin_frac m e; c = round_at 10 n d (- 15)
       in sign_text s @ show_nat (c div 10 ^ 15) @ ''.'' @ pad_left 15 (show_nat (c mod 10 ^ 15)))"

section \<open>\<open>strtod\<close>\<close>

definition span_digits :: "cstring \<Rightarrow> cstring \<times> cstring" where
  "span_digits s = (takeWhile is_digit s, dropWhile is_digit s)"

text \<open>An exponent part: the letter, an optional sign and at least one digit, or nothing.\<close>

definition scan_exponent :: "char set \<Rightarrow> cstring \<Rightarrow> int \<times> cstring" where
  "scan_exponent letters s = (case s of
     [] \<Rightarrow> (0, s)
   | c # r \<Rightarrow>
       if c \<in> letters then
         (let (neg, r1) = scan_sign r; (ds, r2) = span_digits r1 in
          if ds = [] then (0, s)
          else (if neg then - int (read_digits 0 ds) else int (read_digits 0 ds), r2))
       else (0, s))"

definition scale_round :: "bool \<Rightarrow> nat \<Rightarrow> nat \<Rightarrow> int \<Rightarrow> double \<times> bool" where
  "scale_round neg b m e = (let (n, d) = (if 0 \<le> e then (m * b ^ nat e, 1) else (m, b ^ nat (- e)));
       v = round_frac neg n d in (v, \<not> is_finite v \<or> frac_underflows n d))"

definition hex_val :: "char \<Rightarrow> nat option" where
  "hex_val c = (let k = (of_char c :: nat) in
     if 48 \<le> k \<and> k \<le> 57 then Some (k - 48)
     else if 97 \<le> k \<and> k \<le> 102 then Some (k - 87)
     else if 65 \<le> k \<and> k \<le> 70 then Some (k - 55)
     else None)"

definition is_hex :: "char \<Rightarrow> bool" where
  "is_hex c = (hex_val c \<noteq> None)"

fun read_hex :: "nat \<Rightarrow> cstring \<Rightarrow> nat" where
  "read_hex acc [] = acc"
| "read_hex acc (c # s) = (case hex_val c of None \<Rightarrow> acc | Some v \<Rightarrow> read_hex (16 * acc + v) s)"

text \<open>Digits with an optional fraction: \<open>(integer digits, fraction digits, rest)\<close>.\<close>

definition scan_mantissa :: "(char \<Rightarrow> bool) \<Rightarrow> cstring \<Rightarrow> cstring \<times> cstring \<times> cstring" where
  "scan_mantissa dig s = (let ip = takeWhile dig s; r = dropWhile dig s in
     case r of
       [] \<Rightarrow> (ip, [], r)
     | c # r1 \<Rightarrow>
         if c = CHR ''.'' \<and> (ip \<noteq> [] \<or> takeWhile dig r1 \<noteq> [])
         then (ip, takeWhile dig r1, dropWhile dig r1)
         else (ip, [], r))"

definition lower :: "char \<Rightarrow> char" where
  "lower c = (if (65::nat) \<le> of_char c \<and> of_char c \<le> (90::nat) then char_of (of_char c + (32::nat)) else c)"

definition prefix_nocase :: "cstring \<Rightarrow> cstring \<Rightarrow> bool" where
  "prefix_nocase p s = (map lower (take (length p) s) = p)"

text \<open>
  \<open>strtod\<close>: the value, whether \<open>errno\<close> is set to \<open>ERANGE\<close>, and the rest of the text; the
  whole text is left where nothing can be converted.
\<close>

definition strtod_decimal :: "bool \<Rightarrow> cstring \<Rightarrow> (double \<times> bool \<times> cstring) option" where
  "strtod_decimal neg s = (let (ip, fp, r) = scan_mantissa is_digit s in
     if ip = [] \<and> fp = [] then None
     else let (x, r1) = scan_exponent {CHR ''e'', CHR ''E''} r;
              (v, err) = scale_round neg 10 (read_digits 0 (ip @ fp)) (x - int (length fp))
          in Some (v, err, r1))"

definition strtod_hex :: "bool \<Rightarrow> cstring \<Rightarrow> (double \<times> bool \<times> cstring) option" where
  "strtod_hex neg s = (let (ip, fp, r) = scan_mantissa is_hex s in
     if ip = [] \<and> fp = [] then None
     else let (x, r1) = scan_exponent {CHR ''p'', CHR ''P''} r;
              (v, err) = scale_round neg 2 (read_hex 0 (ip @ fp)) (x - 4 * int (length fp))
          in Some (v, err, r1))"

definition strtod_nan_rest :: "cstring \<Rightarrow> cstring" where
  "strtod_nan_rest s = (case s of
     [] \<Rightarrow> s
   | c # r \<Rightarrow>
       if c = CHR ''('' then
         (let body = dropWhile (\<lambda>c. is_digit c \<or> (97::nat) \<le> of_char (lower c) \<and> of_char (lower c) \<le> (122::nat) \<or> c = CHR ''_'') r in
          (case body of c' # r' \<Rightarrow> if c' = CHR '')'' then r' else s | [] \<Rightarrow> s))
       else s)"

definition strtod :: "cstring \<Rightarrow> double \<times> bool \<times> cstring" where
  "strtod s = (let (neg, t) = scan_sign (skip_ws s) in
     if prefix_nocase ''infinity'' t then (Infinite neg, False, drop 8 t)
     else if prefix_nocase ''inf'' t then (Infinite neg, False, drop 3 t)
     else if prefix_nocase ''nan'' t then (NaN neg, False, strtod_nan_rest (drop 3 t))
     else
       (case (if prefix_nocase ''0x'' t then strtod_hex neg (drop 2 t) else None) of
          Some r \<Rightarrow> r
        | None \<Rightarrow>
            (case strtod_decimal neg t of
               Some r \<Rightarrow> r
             | None \<Rightarrow> (Fin False 0 (- 1074), False, s))))"

section \<open>Integers pass unchanged\<close>

lemma trunc_zero [simp]: "trunc_double (Fin s 0 e) = Some 0"
  by (simp add: trunc_double_def)

lemma double_to_zero [simp]:
  "double_to_i32 (Fin s 0 e) = Some 0" "double_to_u32 (Fin s 0 e) = Some 0"
  by (simp_all add: double_to_i32_def double_to_u32_def)

lemma bitlen_bounds: "0 < n \<Longrightarrow> 2 ^ (bitlen n - 1) \<le> n \<and> n < 2 ^ bitlen n \<and> 0 < bitlen n"
proof (induction n rule: bitlen.induct)
  case (1 n)
  show ?case
  proof (cases "n div 2 = 0")
    case True
    with "1.prems" have "n = 1" by linarith
    then show ?thesis by (simp add: bitlen.simps)
  next
    case False
    with "1.IH" "1.prems" have ih: "2 ^ (bitlen (n div 2) - 1) \<le> n div 2" "n div 2 < 2 ^ bitlen (n div 2)" "0 < bitlen (n div 2)"
      by simp_all
    have b: "bitlen n = Suc (bitlen (n div 2))" using "1.prems" by (simp add: bitlen.simps)
    have p: "2 ^ bitlen (n div 2) = 2 * (2::nat) ^ (bitlen (n div 2) - 1)"
      using ih(3) by (metis power_eq_if not_gr_zero)
    have "2 ^ bitlen (n div 2) \<le> n" using ih(1) p by linarith
    moreover have "n < 2 * 2 ^ bitlen (n div 2)" using ih(2) by linarith
    ultimately show ?thesis by (simp add: b)
  qed
qed

lemma floor_log2_nat: "0 < n \<Longrightarrow> floor_log2 n 1 = int (bitlen n) - 1"
proof -
  assume n: "0 < n"
  have one: "bitlen (Suc 0) = Suc 0" by (simp add: bitlen.simps)
  have "nat (int (bitlen n) - 1) = bitlen n - 1" by simp
  with bitlen_bounds [OF n] show ?thesis by (simp add: floor_log2_def frac_ge_pow_def one Let_def)
qed

lemma round_frac_nat:
  assumes "0 < n" and "n < 2 ^ 53"
  shows "\<exists>k. round_frac s n 1 = Fin s (n * 2 ^ k) (- int k)"
proof -
  note b = bitlen_bounds [OF assms(1)]
  have "(2::nat) ^ (bitlen n - 1) < 2 ^ 53" using b assms(2) by (meson le_less_trans)
  then have "bitlen n - 1 < 53" by (rule power_less_imp_less_exp [rotated]) simp
  then have le: "bitlen n \<le> 53" by simp
  define k where "k = 53 - bitlen n"
  have e: "max (floor_log2 n 1 - 52) (- 1074) = - int k"
    unfolding floor_log2_nat [OF assms(1)] using le b by (simp add: k_def)
  have q: "round_at 2 n 1 (- int k) = n * 2 ^ k" by (auto simp: round_at_def scaled_def rne_def Let_def)
  have "n * 2 ^ k < 2 ^ bitlen n * 2 ^ k" using b by simp
  also have "\<dots> = 2 ^ 53" using le by (simp add: k_def flip: power_add)
  finally have "n * 2 ^ k \<noteq> 2 ^ 53" by simp
  then have "round_frac s n 1 = Fin s (n * 2 ^ k) (- int k)"
    unfolding round_frac_def Let_def e q using assms(1) by simp
  then show ?thesis ..
qed

text \<open>An integer of at most 53 bits is read back from its double.\<close>

lemma trunc_double_of_int: "\<bar>i\<bar> < 2 ^ 53 \<Longrightarrow> trunc_double (double_of_int i) = Some i"
proof (cases "i = 0")
  case True
  then show ?thesis by (simp add: double_of_int_def round_frac_def)
next
  case False
  assume "\<bar>i\<bar> < 2 ^ 53"
  then have "nat \<bar>i\<bar> < 2 ^ 53" by (simp add: nat_less_iff)
  with False obtain k where k: "double_of_int i = Fin (i < 0) (nat \<bar>i\<bar> * 2 ^ k) (- int k)"
    using round_frac_nat [of "nat \<bar>i\<bar>" "i < 0"] by (auto simp: double_of_int_def)
  have "nat (- (- int k)) = k" by simp
  then have "nat \<bar>i\<bar> * 2 ^ k div 2 ^ nat (- (- int k)) = nat \<bar>i\<bar>" by simp
  with False show ?thesis by (cases "k = 0") (auto simp: trunc_double_def k Let_def)
qed

lemma double_i32_roundtrip: "double_to_i32 (double_of_i32 w) = Some w"
proof -
  have "- (2 ^ 31) \<le> sint w" "sint w < 2 ^ 31"
    using sint_ge [of w] sint_lt [of w] by simp_all
  moreover from this have "\<bar>sint w\<bar> < 2 ^ 53" by (simp add: abs_less_iff)
  ultimately show ?thesis by (simp add: double_to_i32_def double_of_i32_def trunc_double_of_int)
qed

lemma double_u32_roundtrip: "double_to_u32 (double_of_u32 w) = Some w"
proof -
  have "0 \<le> uint w" "uint w < 2 ^ 32" using uint_lt2p [of w] by simp_all
  moreover from this have "- 1 < uint w" by linarith
  ultimately show ?thesis by (simp add: double_to_u32_def double_of_u32_def trunc_double_of_int)
qed

end
