(* ===== verification/JsonValue.thy ===== *)
theory JsonValue
  imports Doubles
begin

unbundle bit_operations_syntax

text \<open>
  The values of \<^verbatim>\<open>common/parson.c\<close>: JSON values, the object and array operations the
  program builds its replies with, the accessors it reads payloads with, and the UTF-8
  check of string values. An object is the list of its name/value pairs in the order of
  the \<open>names\<close> and \<open>values\<close> arrays. A NULL \<open>JSON_Value *\<close>, \<open>JSON_Object *\<close>,
  \<open>JSON_Array *\<close> or \<open>char *\<close> is \<open>None\<close>; \<open>malloc\<close> succeeds, so that the capacities of
  the arrays do not show. A value that is added to an object or array has no parent yet:
  every caller in the program adds a value it has just made.
\<close>

datatype json =
    JNull
  | JString cstring
  | JNumber double
  | JObject "(cstring \<times> json) list"
  | JArray "json list"
  | JBoolean bool

type_synonym json_object = "(cstring \<times> json) list"

section \<open>UTF-8\<close>

definition byte :: "char \<Rightarrow> u32" where
  "byte c = of_nat (of_char c)"

definition is_cont :: "u32 \<Rightarrow> bool" where
  "is_cont b \<longleftrightarrow> b AND 0xC0 = 0x80"

definition num_bytes_in_utf8_sequence :: "u32 \<Rightarrow> nat" where
  "num_bytes_in_utf8_sequence c =
     (if c = 0xC0 \<or> c = 0xC1 \<or> c > 0xF4 \<or> is_cont c then 0
      else if c AND 0x80 = 0 then 1
      else if c AND 0xE0 = 0xC0 then 2
      else if c AND 0xF0 = 0xE0 then 3
      else if c AND 0xF8 = 0xF0 then 4
      else 0)"

text \<open>
  The bytes from \<open>string\<close> on, with the NULs that end the C string read as continuation
  bytes of no sequence: \<open>nth_byte\<close> past the end is the terminator, and no test goes past it.
\<close>

definition nth_byte :: "cstring \<Rightarrow> nat \<Rightarrow> u32" where
  "nth_byte s i = (if i < length s then byte (s ! i) else 0)"

definition valid_code_point :: "u32 \<Rightarrow> nat \<Rightarrow> bool" where
  "valid_code_point cp len \<longleftrightarrow>
     \<not> ((cp < 0x80 \<and> len > 1) \<or> (cp < 0x800 \<and> len > 2) \<or> (cp < 0x10000 \<and> len > 3)) \<and>
     \<not> cp > 0x10FFFF \<and>
     \<not> (cp \<ge> 0xD800 \<and> cp \<le> 0xDFFF)"

text \<open>\<open>Some len\<close> where the code returns 1 with \<open>*len\<close>, \<open>None\<close> where it returns 0.\<close>

definition verify_utf8_sequence :: "cstring \<Rightarrow> nat option" where
  "verify_utf8_sequence s =
     (let b = nth_byte s; len = num_bytes_in_utf8_sequence (b 0);
          finish = (\<lambda>cp. if valid_code_point cp len then Some len else None)
      in if len = 1 then finish (b 0)
         else if len = 2 \<and> is_cont (b 1)
         then finish (push_bit 6 (b 0 AND 0x1F) OR (b 1 AND 0x3F))
         else if len = 3 \<and> is_cont (b 1) \<and> is_cont (b 2)
         then finish (push_bit 6 (push_bit 6 (b 0 AND 0xF) OR (b 1 AND 0x3F)) OR (b 2 AND 0x3F))
         else if len = 4 \<and> is_cont (b 1) \<and> is_cont (b 2) \<and> is_cont (b 3)
         then finish (push_bit 6 (push_bit 6 (push_bit 6 (b 0 AND 0x7) OR (b 1 AND 0x3F))
                        OR (b 2 AND 0x3F)) OR (b 3 AND 0x3F))
         else None)"

lemma verify_utf8_sequence_pos: "verify_utf8_sequence s = Some len \<Longrightarrow> 0 < len"
  by (auto simp: verify_utf8_sequence_def Let_def split: if_splits)

function is_valid_utf8 :: "cstring \<Rightarrow> bool" where
  "is_valid_utf8 s =
     (if s = [] then True
      else case verify_utf8_sequence s of None \<Rightarrow> False | Some len \<Rightarrow> is_valid_utf8 (drop len s))"
  by pat_completeness auto
termination
  by (relation "measure length") (auto dest: verify_utf8_sequence_pos)

declare is_valid_utf8.simps [simp del]

section \<open>Values and accessors\<close>

definition json_value_init_string :: "cstring option \<Rightarrow> json option" where
  "json_value_init_string str =
     (case str of
        None \<Rightarrow> None
      | Some s \<Rightarrow> if \<not> is_valid_utf8 (c_str s) then None else Some (JString (c_str s)))"

definition json_value_init_number :: "double \<Rightarrow> json option" where
  "json_value_init_number number = (if \<not> is_finite number then None else Some (JNumber number))"

fun json_value_get_object :: "json option \<Rightarrow> json_object option" where
  "json_value_get_object (Some (JObject obj)) = Some obj"
| "json_value_get_object _ = None"

fun json_value_get_array :: "json option \<Rightarrow> json list option" where
  "json_value_get_array (Some (JArray arr)) = Some arr"
| "json_value_get_array _ = None"

fun json_value_get_string :: "json option \<Rightarrow> cstring option" where
  "json_value_get_string (Some (JString s)) = Some s"
| "json_value_get_string _ = None"

fun json_value_get_number :: "json option \<Rightarrow> double" where
  "json_value_get_number (Some (JNumber d)) = d"
| "json_value_get_number _ = Fin False 0 (- 1074)"

fun json_value_get_boolean :: "json option \<Rightarrow> int" where
  "json_value_get_boolean (Some (JBoolean b)) = (if b then 1 else 0)"
| "json_value_get_boolean _ = - 1"

text \<open>\<open>json_object_getn_value\<close>: the value of the first pair whose name has this length and these bytes.\<close>

fun json_object_getn_value :: "json_object \<Rightarrow> cstring \<Rightarrow> nat \<Rightarrow> json option" where
  "json_object_getn_value [] name len = None"
| "json_object_getn_value ((n, v) # obj) name len =
     (if length n \<noteq> len then json_object_getn_value obj name len
      else if take len n = take len name then Some v
      else json_object_getn_value obj name len)"

definition json_object_get_value :: "json_object option \<Rightarrow> cstring \<Rightarrow> json option" where
  "json_object_get_value object name =
     (case object of None \<Rightarrow> None | Some obj \<Rightarrow> json_object_getn_value obj name (length name))"

definition json_object_get_string :: "json_object option \<Rightarrow> cstring \<Rightarrow> cstring option" where
  "json_object_get_string object name = json_value_get_string (json_object_get_value object name)"

definition json_object_get_number :: "json_object option \<Rightarrow> cstring \<Rightarrow> double" where
  "json_object_get_number object name = json_value_get_number (json_object_get_value object name)"

definition json_object_get_object :: "json_object option \<Rightarrow> cstring \<Rightarrow> json_object option" where
  "json_object_get_object object name = json_value_get_object (json_object_get_value object name)"

definition json_object_get_array :: "json_object option \<Rightarrow> cstring \<Rightarrow> json list option" where
  "json_object_get_array object name = json_value_get_array (json_object_get_value object name)"

definition json_object_get_boolean :: "json_object option \<Rightarrow> cstring \<Rightarrow> int" where
  "json_object_get_boolean object name = json_value_get_boolean (json_object_get_value object name)"

definition json_array_get_count :: "json list option \<Rightarrow> nat" where
  "json_array_get_count array = (case array of None \<Rightarrow> 0 | Some xs \<Rightarrow> length xs)"

definition json_array_get_value :: "json list option \<Rightarrow> nat \<Rightarrow> json option" where
  "json_array_get_value array index =
     (case array of None \<Rightarrow> None | Some xs \<Rightarrow> if length xs \<le> index then None else Some (xs ! index))"

lemma json_object_getn_value_map_of: "json_object_getn_value obj name (length name) = map_of obj name"
  by (induction obj name "length name" rule: json_object_getn_value.induct) auto

lemma json_object_get_value_Some [simp]: "json_object_get_value (Some obj) name = map_of obj name"
  by (simp add: json_object_get_value_def json_object_getn_value_map_of)

lemma json_object_get_value_None [simp]: "json_object_get_value None name = None"
  by (simp add: json_object_get_value_def)

section \<open>Building objects and arrays\<close>

datatype json_status = JSONSuccess | JSONFailure

text \<open>\<open>json_object_add\<close> refuses a name that is already there.\<close>

definition json_object_add :: "json_object \<Rightarrow> cstring \<Rightarrow> json \<Rightarrow> json_status \<times> json_object" where
  "json_object_add object name v =
     (if json_object_getn_value object name (length name) \<noteq> None then (JSONFailure, object)
      else (JSONSuccess, object @ [(name, v)]))"

fun pair_assign :: "cstring \<Rightarrow> json \<Rightarrow> json_object \<Rightarrow> json_object" where
  "pair_assign name v [] = []"
| "pair_assign name v ((n, w) # obj) = (if n = name then (n, v) # obj else (n, w) # pair_assign name v obj)"

definition json_object_set_value :: "json_object \<Rightarrow> cstring \<Rightarrow> json option \<Rightarrow> json_status \<times> json_object" where
  "json_object_set_value object name v =
     (case v of
        None \<Rightarrow> (JSONFailure, object)
      | Some w \<Rightarrow>
          if json_object_get_value (Some object) name \<noteq> None
          then (JSONSuccess, pair_assign name w object)
          else json_object_add object name w)"

definition json_object_set_string :: "json_object \<Rightarrow> cstring \<Rightarrow> cstring option \<Rightarrow> json_status \<times> json_object" where
  "json_object_set_string object name str = json_object_set_value object name (json_value_init_string str)"

definition json_object_set_number :: "json_object \<Rightarrow> cstring \<Rightarrow> double \<Rightarrow> json_status \<times> json_object" where
  "json_object_set_number object name number = json_object_set_value object name (json_value_init_number number)"

text \<open>\<open>json_object_remove\<close>: the last pair takes the place of the removed one.\<close>

fun index_of_name :: "cstring \<Rightarrow> json_object \<Rightarrow> nat option" where
  "index_of_name name [] = None"
| "index_of_name name ((n, v) # obj) = (if n = name then Some 0 else map_option Suc (index_of_name name obj))"

definition json_object_remove :: "json_object option \<Rightarrow> cstring \<Rightarrow> json_status \<times> json_object option" where
  "json_object_remove object name =
     (case object of
        None \<Rightarrow> (JSONFailure, None)
      | Some obj \<Rightarrow>
          if json_object_get_value object name = None then (JSONFailure, object)
          else (let last_item_index = length obj - 1 in
            (case index_of_name name obj of
               None \<Rightarrow> (JSONFailure, object)
             | Some i \<Rightarrow> (JSONSuccess,
                 Some (butlast (if i \<noteq> last_item_index then obj[i := obj ! last_item_index] else obj))))))"

definition json_array_append_value :: "json list option \<Rightarrow> json option \<Rightarrow> json_status \<times> json list option" where
  "json_array_append_value array v =
     (case (array, v) of
        (Some xs, Some w) \<Rightarrow> (JSONSuccess, Some (xs @ [w]))
      | _ \<Rightarrow> (JSONFailure, array))"

definition json_array_remove :: "json list option \<Rightarrow> nat \<Rightarrow> json_status \<times> json list option" where
  "json_array_remove array ix =
     (if array = None \<or> json_array_get_count array \<le> ix then (JSONFailure, array)
      else (JSONSuccess, map_option (\<lambda>xs. take ix xs @ drop (Suc ix) xs) array))"

definition json_array_replace_value :: "json list option \<Rightarrow> nat \<Rightarrow> json option \<Rightarrow> json_status \<times> json list option" where
  "json_array_replace_value array ix v =
     (case (array, v) of
        (Some xs, Some w) \<Rightarrow> if length xs \<le> ix then (JSONFailure, array) else (JSONSuccess, Some (xs[ix := w]))
      | _ \<Rightarrow> (JSONFailure, array))"

text \<open>
  Names are unique in every object the operations make, at every depth: the invariant of
  \<open>json_object_add\<close>.
\<close>

fun json_ok :: "json \<Rightarrow> bool" where
  "json_ok (JObject obj) = (distinct (map fst obj) \<and> (\<forall>(n, v) \<in> set obj. nul_free n \<and> json_ok v))"
| "json_ok (JArray xs) = (\<forall>v \<in> set xs. json_ok v)"
| "json_ok (JString s) = nul_free s"
| "json_ok (JNumber d) = is_finite d"
| "json_ok _ = True"

lemma pair_assign_names [simp]: "map fst (pair_assign name v obj) = map fst obj"
  by (induction name v obj rule: pair_assign.induct) auto

lemma map_of_pair_assign:
  "map_of (pair_assign name v obj) = (if map_of obj name = None then map_of obj else (map_of obj)(name \<mapsto> v))"
  by (induction name v obj rule: pair_assign.induct) (auto simp: fun_eq_iff)

lemma set_pair_assign: "set (pair_assign name v obj) \<subseteq> insert (name, v) (set obj)"
  by (induction name v obj rule: pair_assign.induct) auto

lemma json_object_set_value_lookup:
  "v = Some w \<Longrightarrow> map_of (snd (json_object_set_value obj name v)) = (map_of obj)(name \<mapsto> w)"
  by (auto simp: json_object_set_value_def json_object_add_def json_object_getn_value_map_of
      map_of_pair_assign map_add_def fun_eq_iff split: option.splits)

lemma json_ok_set_value:
  assumes "json_ok (JObject obj)" and "nul_free name" and "\<And>w. v = Some w \<Longrightarrow> json_ok w"
  shows "json_ok (JObject (snd (json_object_set_value obj name v)))"
  using assms set_pair_assign [of name "the v" obj]
  by (auto simp: json_object_set_value_def json_object_add_def json_object_getn_value_map_of
      map_of_eq_None_iff rev_image_eqI split: option.splits)

end
