(* ===== verification/JsonParse.thy ===== *)
theory JsonParse
  imports JsonValue
begin

text \<open>
  The parser of \<^verbatim>\<open>common/parson.c\<close>, from \<open>skip_quotes\<close> to \<open>json_parse_string\<close>. A
  parsing function of the code moves a pointer along the text; here it returns the rest of
  the text. The recursive functions take fuel: \<open>OutOfFuel\<close> is no outcome of the code, and
  \<open>parse_value_fuel\<close> shows that the fuel \<open>json_parse_string\<close> gives is always enough.
\<close>

section \<open>Strings\<close>

definition hex_char_to_int :: "char \<Rightarrow> int" where
  "hex_char_to_int c = (let k = int (of_char c) in
     if 48 \<le> k \<and> k \<le> 57 then k - 48
     else if 97 \<le> k \<and> k \<le> 102 then k - 97 + 10
     else if 65 \<le> k \<and> k \<le> 70 then k - 65 + 10
     else - 1)"

fun parse_utf16_hex :: "cstring \<Rightarrow> u32 option" where
  "parse_utf16_hex (s0 # s1 # s2 # s3 # s) =
     (let x1 = hex_char_to_int s0; x2 = hex_char_to_int s1;
          x3 = hex_char_to_int s2; x4 = hex_char_to_int s3
      in if x1 = - 1 \<or> x2 = - 1 \<or> x3 = - 1 \<or> x4 = - 1 then None
         else Some (push_bit 12 (of_int x1) OR push_bit 8 (of_int x2) OR push_bit 4 (of_int x3) OR of_int x4))"
| "parse_utf16_hex _ = None"

definition byte_char :: "u32 \<Rightarrow> char" where
  "byte_char w = char_of (unat w)"

text \<open>
  \<open>parse_utf16\<close> is called at the \<open>u\<close> of an escape: the UTF-8 bytes of the code point, and
  the text after the escape (or after the pair of escapes of a surrogate pair).
\<close>

definition parse_utf16 :: "cstring \<Rightarrow> (cstring \<times> cstring) option" where
  "parse_utf16 s = (let p = tl s in
     case parse_utf16_hex p of
       None \<Rightarrow> None
     | Some cp \<Rightarrow>
         if cp < 0x80 then Some ([byte_char cp], drop 4 p)
         else if cp < 0x800 then
           Some ([byte_char ((drop_bit 6 cp AND 0x1F) OR 0xC0),
                  byte_char ((cp AND 0x3F) OR 0x80)], drop 4 p)
         else if cp < 0xD800 \<or> cp > 0xDFFF then
           Some ([byte_char ((drop_bit 12 cp AND 0x0F) OR 0xE0),
                  byte_char ((drop_bit 6 cp AND 0x3F) OR 0x80),
                  byte_char ((cp AND 0x3F) OR 0x80)], drop 4 p)
         else if cp \<ge> 0xD800 \<and> cp \<le> 0xDBFF then
           (let q = drop 4 p in
            if take 2 q \<noteq> [CHR 0x5C, CHR ''u''] then None
            else (case parse_utf16_hex (drop 2 q) of
                None \<Rightarrow> None
              | Some trail \<Rightarrow>
                  if trail < 0xDC00 \<or> trail > 0xDFFF then None
                  else (let cp' = (push_bit 10 ((cp - 0xD800) AND 0x3FF) OR ((trail - 0xDC00) AND 0x3FF)) + 0x10000
                    in Some ([byte_char ((drop_bit 18 cp' AND 0x07) OR 0xF0),
                              byte_char ((drop_bit 12 cp' AND 0x3F) OR 0x80),
                              byte_char ((drop_bit 6 cp' AND 0x3F) OR 0x80),
                              byte_char ((cp' AND 0x3F) OR 0x80)], drop 6 q))))
         else None)"

lemma parse_utf16_hex_length: "parse_utf16_hex s = Some cp \<Longrightarrow> 4 \<le> length s"
  by (cases s rule: parse_utf16_hex.cases) auto

lemma parse_utf16_shorter: "parse_utf16 s = Some (bs, r) \<Longrightarrow> length r < length s"
  by (auto simp: parse_utf16_def Let_def dest!: parse_utf16_hex_length split: option.splits if_splits)

text \<open>The one-character escapes of \<open>process_string\<close>.\<close>

definition simple_escape :: "char \<Rightarrow> char option" where
  "simple_escape c =
     (if c = CHR 0x22 then Some (CHR 0x22)
      else if c = CHR 0x5C then Some (CHR 0x5C)
      else if c = CHR ''/'' then Some (CHR ''/'')
      else if c = CHR ''b'' then Some (CHR 0x08)
      else if c = CHR ''f'' then Some (CHR 0x0C)
      else if c = CHR ''n'' then Some (CHR 0x0A)
      else if c = CHR ''r'' then Some (CHR 0x0D)
      else if c = CHR ''t'' then Some (CHR 0x09)
      else None)"

text \<open>\<open>process_string\<close> on the text \<open>s\<close> with \<open>len\<close> bytes to go.\<close>

function process_string :: "nat \<Rightarrow> cstring \<Rightarrow> cstring option" where
  "process_string len [] = Some []"
| "process_string len (c # r) =
     (if len = 0 then Some []
      else if c = CHR 0x5C then
        (case r of
           [] \<Rightarrow> None
         | d # r' \<Rightarrow>
             if d = CHR ''u'' then
               (case parse_utf16 r of
                  None \<Rightarrow> None
                | Some (bs, t) \<Rightarrow> map_option ((@) bs) (process_string (len - (Suc (length r) - length t)) t))
             else
               (case simple_escape d of
                  None \<Rightarrow> None
                | Some e \<Rightarrow> map_option ((#) e) (process_string (len - 2) r')))
      else if (of_char c :: nat) < 0x20 then None
      else map_option ((#) c) (process_string (len - 1) r))"
  by pat_completeness auto
termination
  by (relation "measure (\<lambda>(len, s). length s)") (auto dest: parse_utf16_shorter)

fun quote_end :: "cstring \<Rightarrow> cstring option" where
  "quote_end [] = None"
| "quote_end (c # r) =
     (if c = CHR 0x22 then Some r
      else if c = CHR 0x5C then (case r of [] \<Rightarrow> None | d # r' \<Rightarrow> quote_end r')
      else quote_end r)"

definition skip_quotes :: "cstring \<Rightarrow> cstring option" where
  "skip_quotes s = (case s of [] \<Rightarrow> None | c # r \<Rightarrow> if c \<noteq> CHR 0x22 then None else quote_end r)"

text \<open>The result is a C string: it ends at a NUL that an escape may have produced.\<close>

definition get_quoted_string :: "cstring \<Rightarrow> (cstring \<times> cstring) option" where
  "get_quoted_string s =
     (case skip_quotes s of
        None \<Rightarrow> None
      | Some r \<Rightarrow>
          (case process_string (length s - length r - 2) (tl s) of
             None \<Rightarrow> None
           | Some out \<Rightarrow> Some (c_str out, r)))"

lemma quote_end_shorter: "quote_end s = Some r \<Longrightarrow> length r < length s"
  by (induction s rule: quote_end.induct) (auto split: if_splits list.splits)

lemma get_quoted_string_shorter: "get_quoted_string s = Some (k, r) \<Longrightarrow> length r < length s"
  by (auto simp: get_quoted_string_def skip_quotes_def dest: quote_end_shorter
      split: option.splits list.splits if_splits)

section \<open>Literals and numbers\<close>

datatype 'a parsed = OutOfFuel | Failed | Parsed 'a cstring

definition parse_string_value :: "cstring \<Rightarrow> json parsed" where
  "parse_string_value s =
     (case get_quoted_string s of None \<Rightarrow> Failed | Some (str, r) \<Rightarrow> Parsed (JString str) r)"

definition parse_boolean_value :: "cstring \<Rightarrow> json parsed" where
  "parse_boolean_value s =
     (if take 4 s = ''true'' then Parsed (JBoolean True) (drop 4 s)
      else if take 5 s = ''false'' then Parsed (JBoolean False) (drop 5 s)
      else Failed)"

definition parse_null_value :: "cstring \<Rightarrow> json parsed" where
  "parse_null_value s = (if take 4 s = ''null'' then Parsed JNull (drop 4 s) else Failed)"

definition is_decimal :: "cstring \<Rightarrow> nat \<Rightarrow> bool" where
  "is_decimal s len =
     (if len > 1 \<and> s ! 0 = CHR ''0'' \<and> s ! 1 \<noteq> CHR ''.'' then False
      else if len > 2 \<and> take 2 s = ''-0'' \<and> s ! 2 \<noteq> CHR ''.'' then False
      else (\<forall>c \<in> set (take len s). c \<noteq> CHR ''x'' \<and> c \<noteq> CHR ''X''))"

definition parse_number_value :: "cstring \<Rightarrow> json parsed" where
  "parse_number_value s =
     (let (number, err, r) = strtod s in
      if err \<or> \<not> is_decimal s (length s - length r) then Failed
      else (case json_value_init_number number of None \<Rightarrow> Failed | Some v \<Rightarrow> Parsed v r))"

section \<open>Values\<close>

definition MAX_NESTING :: nat where
  "MAX_NESTING = 2048"

text \<open>The character at the pointer.\<close>

definition at_char :: "char \<Rightarrow> cstring \<Rightarrow> bool" where
  "at_char c s = (case s of [] \<Rightarrow> False | d # _ \<Rightarrow> d = c)"

text \<open>The cases of the \<open>switch\<close> of \<open>parse_value\<close> that open no bracket.\<close>

definition parse_scalar :: "cstring \<Rightarrow> json parsed" where
  "parse_scalar s =
     (if at_char (CHR 0x22) s then parse_string_value s
      else if at_char (CHR ''f'') s \<or> at_char (CHR ''t'') s then parse_boolean_value s
      else if at_char (CHR ''-'') s \<or> starts_digit s then parse_number_value s
      else if at_char (CHR ''n'') s then parse_null_value s
      else Failed)"

fun parse_value :: "nat \<Rightarrow> nat \<Rightarrow> cstring \<Rightarrow> json parsed"
  and parse_members :: "nat \<Rightarrow> nat \<Rightarrow> json_object \<Rightarrow> cstring \<Rightarrow> json parsed"
  and parse_elements :: "nat \<Rightarrow> nat \<Rightarrow> json list \<Rightarrow> cstring \<Rightarrow> json parsed" where
  "parse_value 0 nesting s = OutOfFuel"
| "parse_value (Suc fuel) nesting s =
     (if nesting > MAX_NESTING then Failed
      else (let s1 = skip_ws s in
        if at_char (CHR ''{'') s1 then
          (let r1 = skip_ws (tl s1) in
           if at_char (CHR ''}'') r1 then Parsed (JObject []) (tl r1)
           else parse_members fuel (nesting + 1) [] r1)
        else if at_char (CHR ''['') s1 then
          (let r1 = skip_ws (tl s1) in
           if at_char (CHR '']'') r1 then Parsed (JArray []) (tl r1)
           else parse_elements fuel (nesting + 1) [] r1)
        else parse_scalar s1))"
| "parse_members 0 nesting obj s = OutOfFuel"
| "parse_members (Suc fuel) nesting obj s =
     (if s = [] then Failed
      else (case get_quoted_string s of
          None \<Rightarrow> Failed
        | Some (key, s1) \<Rightarrow>
            (let s2 = skip_ws s1 in
             if \<not> at_char (CHR '':'') s2 then Failed
             else (case parse_value fuel nesting (tl s2) of
                 OutOfFuel \<Rightarrow> OutOfFuel
               | Failed \<Rightarrow> Failed
               | Parsed v s3 \<Rightarrow>
                   (case json_object_add obj key v of
                      (status, obj') \<Rightarrow>
                        if status = JSONFailure then Failed
                        else (let s4 = skip_ws s3 in
                          if at_char (CHR '','') s4 then parse_members fuel nesting obj' (skip_ws (tl s4))
                          else if at_char (CHR ''}'') s4 then Parsed (JObject obj') (tl s4)
                          else Failed))))))"
| "parse_elements 0 nesting arr s = OutOfFuel"
| "parse_elements (Suc fuel) nesting arr s =
     (if s = [] then Failed
      else (case parse_value fuel nesting s of
          OutOfFuel \<Rightarrow> OutOfFuel
        | Failed \<Rightarrow> Failed
        | Parsed v s1 \<Rightarrow>
            (let s2 = skip_ws s1 in
             if at_char (CHR '','') s2 then parse_elements fuel nesting (arr @ [v]) (skip_ws (tl s2))
             else if at_char (CHR '']'') s2 then Parsed (JArray (arr @ [v])) (tl s2)
             else Failed)))"

definition skip_bom :: "cstring \<Rightarrow> cstring" where
  "skip_bom s = (if take 3 s = [CHR 0xEF, CHR 0xBB, CHR 0xBF] then drop 3 s else s)"

definition json_parse_string :: "cstring option \<Rightarrow> json option" where
  "json_parse_string str =
     (case str of
        None \<Rightarrow> None
      | Some s \<Rightarrow>
          (let t = skip_bom (c_str s) in
           case parse_value (2 * length t + 2) 0 t of
             Parsed v _ \<Rightarrow> Some v
           | _ \<Rightarrow> None))"

section \<open>The parser ends, and what it returns is well formed\<close>

lemma skip_ws_le: "length (skip_ws s) \<le> length s"
  by (simp add: skip_ws_def length_dropWhile_le)

lemma scan_sign_le: "scan_sign s = (neg, r) \<Longrightarrow> length r \<le> length s"
  by (auto simp: scan_sign_def split: list.splits if_splits)

lemma scan_exponent_le: "scan_exponent L s = (x, r) \<Longrightarrow> length r \<le> length s"
  by (auto simp: scan_exponent_def span_digits_def Let_def split: list.splits if_splits prod.splits
      dest!: scan_sign_le intro: le_trans [OF length_dropWhile_le] le_SucI)

lemma length_dropWhile_Cons: "dropWhile P s = c # t \<Longrightarrow> length t < length s"
  by (metis length_Cons length_dropWhile_le less_eq_Suc_le)

lemma scan_mantissa_le: "scan_mantissa dig s = (ip, fp, r) \<Longrightarrow> length r \<le> length s"
proof -
  assume a: "scan_mantissa dig s = (ip, fp, r)"
  show ?thesis
  proof (cases "dropWhile dig s")
    case Nil
    with a show ?thesis by (auto simp: scan_mantissa_def Let_def)
  next
    case (Cons c t)
    then have "length t < length s" by (rule length_dropWhile_Cons)
    moreover have "length (dropWhile dig t) \<le> length t" by (rule length_dropWhile_le)
    moreover have "r = c # t \<or> r = dropWhile dig t"
      using a Cons by (auto simp: scan_mantissa_def Let_def split: if_splits)
    ultimately show ?thesis by auto
  qed
qed

lemma strtod_decimal_le: "strtod_decimal neg s = Some (v, err, r) \<Longrightarrow> length r \<le> length s"
  by (auto simp: strtod_decimal_def Let_def split: prod.splits if_splits
      dest!: scan_mantissa_le scan_exponent_le)

lemma strtod_hex_le: "strtod_hex neg s = Some (v, err, r) \<Longrightarrow> length r \<le> length s"
  by (auto simp: strtod_hex_def Let_def split: prod.splits if_splits
      dest!: scan_mantissa_le scan_exponent_le)

lemma strtod_nan_rest_le: "length (strtod_nan_rest s) \<le> length s"
proof (cases s)
  case Nil
  then show ?thesis by (simp add: strtod_nan_rest_def)
next
  case (Cons c r)
  let ?P = "\<lambda>c. is_digit c \<or> (97::nat) \<le> of_char (lower c) \<and> of_char (lower c) \<le> (122::nat) \<or> c = CHR ''_''"
  show ?thesis
  proof (cases "dropWhile ?P r")
    case n: Nil
    show ?thesis unfolding strtod_nan_rest_def Let_def Cons list.case n by simp
  next
    case c: (Cons c' r')
    from length_dropWhile_Cons [OF c] show ?thesis
      unfolding strtod_nan_rest_def Let_def Cons list.case c by simp
  qed
qed

lemma strtod_le: "strtod s = (v, err, r) \<Longrightarrow> length r \<le> length s"
proof -
  assume a: "strtod s = (v, err, r)"
  obtain neg t where t: "scan_sign (skip_ws s) = (neg, t)" by fastforce
  have l: "length t \<le> length s" using scan_sign_le [OF t] skip_ws_le [of s] by simp
  have "length r \<le> length t \<or> r = s"
    using a t strtod_nan_rest_le [of "drop 3 t"]
    by (auto simp: strtod_def Let_def split: if_splits option.splits
        dest!: strtod_decimal_le strtod_hex_le)
  with l show ?thesis by auto
qed

lemma parse_number_value_le: "parse_number_value s = Parsed v r \<Longrightarrow> length r \<le> length s"
  by (auto simp: parse_number_value_def Let_def split: prod.splits if_splits option.splits dest: strtod_le)

lemma parse_scalar_le: "parse_scalar s = Parsed v r \<Longrightarrow> length r \<le> length s"
  by (auto simp: parse_scalar_def parse_string_value_def parse_boolean_value_def parse_null_value_def
      dest: get_quoted_string_shorter parse_number_value_le split: option.splits if_splits)

lemma parse_scalar_fuel: "parse_scalar s \<noteq> OutOfFuel"
  by (auto simp: parse_scalar_def parse_string_value_def parse_boolean_value_def parse_null_value_def
      parse_number_value_def Let_def split: option.splits prod.splits)

lemma at_char_tl: "at_char c s \<Longrightarrow> length (tl s) < length s"
  by (cases s) (auto simp: at_char_def)

text \<open>The lengths of the texts between the steps of the three functions.\<close>

lemma after_bracket: "at_char c (skip_ws s) \<Longrightarrow> length (skip_ws (tl (skip_ws s))) < length s"
  using at_char_tl [of c "skip_ws s"] skip_ws_le [of s] skip_ws_le [of "tl (skip_ws s)"] by simp

lemma after_char: "at_char c (skip_ws s) \<Longrightarrow> length (tl (skip_ws s)) < length s"
  using at_char_tl [of c "skip_ws s"] skip_ws_le [of s] by simp

text \<open>How a value, the members of an object and the elements of an array can have been parsed.\<close>

lemma parse_value_cases:
  assumes "parse_value f n s = Parsed v r"
  obtains (empty_object) "v = JObject []" "r = tl (skip_ws (tl (skip_ws s)))"
      "at_char (CHR ''}'') (skip_ws (tl (skip_ws s)))" "at_char (CHR ''{'') (skip_ws s)"
  | (empty_array) "v = JArray []" "r = tl (skip_ws (tl (skip_ws s)))"
      "at_char (CHR '']'') (skip_ws (tl (skip_ws s)))" "at_char (CHR ''['') (skip_ws s)"
  | (object_value) f' where "f = Suc f'" "n \<le> MAX_NESTING" "at_char (CHR ''{'') (skip_ws s)"
      "parse_members f' (n + 1) [] (skip_ws (tl (skip_ws s))) = Parsed v r"
  | (array_value) f' where "f = Suc f'" "n \<le> MAX_NESTING" "at_char (CHR ''['') (skip_ws s)"
      "parse_elements f' (n + 1) [] (skip_ws (tl (skip_ws s))) = Parsed v r"
  | (scalar) "parse_scalar (skip_ws s) = Parsed v r"
proof (cases f)
  case 0
  with assms show thesis by simp
next
  case (Suc f')
  have n: "n \<le> MAX_NESTING" using assms Suc by (simp split: if_splits)
  note p = assms [unfolded Suc parse_value.simps Let_def, unfolded if_not_P [OF n [unfolded not_less [symmetric]]]]
  let ?t = "skip_ws (tl (skip_ws s))"
  show thesis
  proof (cases "at_char (CHR ''{'') (skip_ws s)")
    case o: True
    note p = p [unfolded if_P [OF o]]
    show thesis
    proof (cases "at_char (CHR ''}'') ?t")
      case True
      from p [unfolded if_P [OF True]] have vr: "v = JObject []" "r = tl ?t" by simp_all
      show thesis by (rule empty_object [OF vr True o])
    next
      case False
      from Suc n o p [unfolded if_not_P [OF False]] show thesis by (rule object_value)
    qed
  next
    case no: False
    note p = p [unfolded if_not_P [OF no]]
    show thesis
    proof (cases "at_char (CHR ''['') (skip_ws s)")
      case a: True
      note p = p [unfolded if_P [OF a]]
      show thesis
      proof (cases "at_char (CHR '']'') ?t")
        case True
        from p [unfolded if_P [OF True]] have vr: "v = JArray []" "r = tl ?t" by simp_all
        show thesis by (rule empty_array [OF vr True a])
      next
        case False
        from Suc n a p [unfolded if_not_P [OF False]] show thesis by (rule array_value)
      qed
    next
      case na: False
      from p [unfolded if_not_P [OF na]] show thesis by (rule scalar)
    qed
  qed
qed

lemma parse_members_cases:
  assumes "parse_members f n obj s = Parsed v r"
  obtains (next_pair) f' key s1 w s3 where "f = Suc f'" "get_quoted_string s = Some (key, s1)"
      "at_char (CHR '':'') (skip_ws s1)" "parse_value f' n (tl (skip_ws s1)) = Parsed w s3"
      "map_of obj key = None" "at_char (CHR '','') (skip_ws s3)"
      "parse_members f' n (obj @ [(key, w)]) (skip_ws (tl (skip_ws s3))) = Parsed v r"
  | (last_pair) f' key s1 w s3 where "f = Suc f'" "get_quoted_string s = Some (key, s1)"
      "at_char (CHR '':'') (skip_ws s1)" "parse_value f' n (tl (skip_ws s1)) = Parsed w s3"
      "map_of obj key = None" "at_char (CHR ''}'') (skip_ws s3)"
      "v = JObject (obj @ [(key, w)])" "r = tl (skip_ws s3)"
  using assms
  by (cases f) (auto simp: Let_def json_object_add_def json_object_getn_value_map_of
      split: if_splits option.splits parsed.splits)

lemma parse_elements_cases:
  assumes "parse_elements f n arr s = Parsed v r"
  obtains (next_item) f' w s1 where "f = Suc f'" "parse_value f' n s = Parsed w s1"
      "at_char (CHR '','') (skip_ws s1)"
      "parse_elements f' n (arr @ [w]) (skip_ws (tl (skip_ws s1))) = Parsed v r"
  | (last_item) f' w s1 where "f = Suc f'" "parse_value f' n s = Parsed w s1"
      "at_char (CHR '']'') (skip_ws s1)" "v = JArray (arr @ [w])" "r = tl (skip_ws s1)"
  using assms by (cases f) (auto simp: Let_def split: if_splits parsed.splits)

lemma parse_consumes:
  "(parse_value f n s = Parsed v r \<longrightarrow> length r \<le> length s) \<and>
   (parse_members f n obj s = Parsed v r \<longrightarrow> length r < length s) \<and>
   (parse_elements f n arr s = Parsed v r \<longrightarrow> length r < length s)"
proof (induction f arbitrary: n s v r obj arr)
  case 0
  then show ?case by simp
next
  case (Suc f)
  note IHv = conjunct1 [OF Suc.IH, rule_format]
    and IHm = conjunct1 [OF conjunct2 [OF Suc.IH], rule_format]
    and IHe = conjunct2 [OF conjunct2 [OF Suc.IH], rule_format]
  have "length r \<le> length s" if p: "parse_value (Suc f) n s = Parsed v r"
    using p
  proof (cases rule: parse_value_cases)
    case empty_object
    then show ?thesis using at_char_tl after_bracket by (metis less_imp_le less_trans)
  next
    case empty_array
    then show ?thesis using at_char_tl after_bracket by (metis less_imp_le less_trans)
  next
    case (object_value f')
    with IHm [of "n + 1" "[]"] after_bracket [of _ s] show ?thesis by fastforce
  next
    case (array_value f')
    with IHe [of "n + 1" "[]"] after_bracket [of _ s] show ?thesis by fastforce
  next
    case scalar
    then show ?thesis using parse_scalar_le skip_ws_le [of s] by (meson le_trans)
  qed
  moreover have "length r < length s" if p: "parse_members (Suc f) n obj s = Parsed v r"
    using p
  proof (cases rule: parse_members_cases)
    case (next_pair f' key s1 w s3)
    have "length r < length (skip_ws (tl (skip_ws s3)))" using next_pair IHm by auto
    also have "\<dots> < length s3" using next_pair(6) by (rule after_bracket)
    also have "\<dots> \<le> length (tl (skip_ws s1))" using IHv next_pair(1,4) by (metis Suc_inject)
    also have "\<dots> < length s1" using next_pair(3) by (rule after_char)
    also have "\<dots> < length s" using next_pair(2) by (rule get_quoted_string_shorter)
    finally show ?thesis .
  next
    case (last_pair f' key s1 w s3)
    have "length r < length s3" using last_pair(6) unfolding last_pair(8) by (rule after_char)
    also have "\<dots> \<le> length (tl (skip_ws s1))" using IHv last_pair(1,4) by (metis Suc_inject)
    also have "\<dots> < length s1" using last_pair(3) by (rule after_char)
    also have "\<dots> < length s" using last_pair(2) by (rule get_quoted_string_shorter)
    finally show ?thesis .
  qed
  moreover have "length r < length s" if p: "parse_elements (Suc f) n arr s = Parsed v r"
    using p
  proof (cases rule: parse_elements_cases)
    case (next_item f' w s1)
    have "length r < length (skip_ws (tl (skip_ws s1)))" using next_item IHe by auto
    also have "\<dots> < length s1" using next_item(3) by (rule after_bracket)
    also have "\<dots> \<le> length s" using next_item IHv by auto
    finally show ?thesis .
  next
    case (last_item f' w s1)
    have "length r < length s1" using last_item(3) unfolding last_item(5) by (rule after_char)
    also have "\<dots> \<le> length s" using last_item IHv by auto
    finally show ?thesis .
  qed
  ultimately show ?case by blast
qed

lemmas parse_value_consumes = conjunct1 [OF parse_consumes, rule_format]

lemma parse_enough_fuel:
  "(2 * length s + 2 \<le> f \<longrightarrow> parse_value f n s \<noteq> OutOfFuel) \<and>
   (2 * length s + 2 \<le> f \<longrightarrow> parse_members f n obj s \<noteq> OutOfFuel) \<and>
   (2 * length s + 3 \<le> f \<longrightarrow> parse_elements f n arr s \<noteq> OutOfFuel)"
proof (induction f arbitrary: n s obj arr)
  case 0
  then show ?case by simp
next
  case (Suc f)
  note IHv = conjunct1 [OF Suc.IH, rule_format]
    and IHm = conjunct1 [OF conjunct2 [OF Suc.IH], rule_format]
    and IHe = conjunct2 [OF conjunct2 [OF Suc.IH], rule_format]
  have "parse_value (Suc f) n s \<noteq> OutOfFuel" if "2 * length s + 2 \<le> Suc f"
    using that after_bracket [of "CHR ''{''" s] after_bracket [of "CHR ''[''" s]
      IHm [of "skip_ws (tl (skip_ws s))"] IHe [of "skip_ws (tl (skip_ws s))"]
    by (auto simp: Let_def parse_scalar_fuel)
  moreover have "parse_members (Suc f) n obj s \<noteq> OutOfFuel" if "2 * length s + 2 \<le> Suc f"
  proof
    assume "parse_members (Suc f) n obj s = OutOfFuel"
    then obtain key s1 where k: "get_quoted_string s = Some (key, s1)" "at_char (CHR '':'') (skip_ws s1)"
      and "parse_value f n (tl (skip_ws s1)) = OutOfFuel \<or>
        (\<exists>w s3 obj'. parse_value f n (tl (skip_ws s1)) = Parsed w s3 \<and> at_char (CHR '','') (skip_ws s3) \<and>
          parse_members f n obj' (skip_ws (tl (skip_ws s3))) = OutOfFuel)"
      by (auto simp: Let_def split: if_splits option.splits parsed.splits prod.splits)
    moreover have l: "length (tl (skip_ws s1)) + 2 \<le> length s"
      using after_char [OF k(2)] get_quoted_string_shorter [OF k(1)] by simp
    then have "parse_value f n (tl (skip_ws s1)) \<noteq> OutOfFuel" using that by (intro IHv) simp
    ultimately obtain w s3 obj' where w: "parse_value f n (tl (skip_ws s1)) = Parsed w s3"
        "at_char (CHR '','') (skip_ws s3)" "parse_members f n obj' (skip_ws (tl (skip_ws s3))) = OutOfFuel"
      by blast
    have "length (skip_ws (tl (skip_ws s3))) < length (tl (skip_ws s1))"
      using after_bracket [OF w(2)] parse_value_consumes [OF w(1)] by simp
    then have "parse_members f n obj' (skip_ws (tl (skip_ws s3))) \<noteq> OutOfFuel"
      using l that by (intro IHm) simp
    with w(3) show False by blast
  qed
  moreover have "parse_elements (Suc f) n arr s \<noteq> OutOfFuel" if "2 * length s + 3 \<le> Suc f"
  proof
    assume "parse_elements (Suc f) n arr s = OutOfFuel"
    moreover have "parse_value f n s \<noteq> OutOfFuel" using that by (intro IHv) simp
    ultimately obtain w s1 where w: "parse_value f n s = Parsed w s1"
        "at_char (CHR '','') (skip_ws s1)" "parse_elements f n (arr @ [w]) (skip_ws (tl (skip_ws s1))) = OutOfFuel"
      by (auto simp: Let_def split: if_splits parsed.splits)
    have "length (skip_ws (tl (skip_ws s1))) < length s"
      using after_bracket [OF w(2)] parse_value_consumes [OF w(1)] by simp
    then have "parse_elements f n (arr @ [w]) (skip_ws (tl (skip_ws s1))) \<noteq> OutOfFuel"
      using that by (intro IHe) simp
    with w(3) show False by blast
  qed
  ultimately show ?case by blast
qed

lemma parse_more_fuel:
  "(parse_value f n s \<noteq> OutOfFuel \<longrightarrow> parse_value (Suc f) n s = parse_value f n s) \<and>
   (parse_members f n obj s \<noteq> OutOfFuel \<longrightarrow> parse_members (Suc f) n obj s = parse_members f n obj s) \<and>
   (parse_elements f n arr s \<noteq> OutOfFuel \<longrightarrow> parse_elements (Suc f) n arr s = parse_elements f n arr s)"
proof (induction f arbitrary: n s obj arr)
  case 0
  then show ?case by simp
next
  case (Suc f)
  note IHv = conjunct1 [OF Suc.IH, rule_format]
    and IHm = conjunct1 [OF conjunct2 [OF Suc.IH], rule_format]
    and IHe = conjunct2 [OF conjunct2 [OF Suc.IH], rule_format]
  have "parse_value (Suc (Suc f)) n s = parse_value (Suc f) n s"
    if "parse_value (Suc f) n s \<noteq> OutOfFuel"
    using that IHm IHe unfolding parse_value.simps(2) Let_def
    by (auto simp del: parse_value.simps parse_members.simps parse_elements.simps split: if_splits)
  moreover have "parse_members (Suc (Suc f)) n obj s = parse_members (Suc f) n obj s"
    if m: "parse_members (Suc f) n obj s \<noteq> OutOfFuel"
  proof (cases "s = [] \<or> get_quoted_string s = None")
    case True
    then show ?thesis by auto
  next
    case False
    then obtain key s1 where k: "s \<noteq> []" "get_quoted_string s = Some (key, s1)" by auto
    note step = parse_members.simps(2) [of _ n obj s, unfolded k(2) option.case prod.case if_not_P [OF k(1)] Let_def]
    show ?thesis
    proof (cases "at_char (CHR '':'') (skip_ws s1)")
      case c: True
      note step = step [unfolded not_not if_not_P [of "\<not> at_char (CHR '':'') (skip_ws s1)", unfolded not_not, OF c]]
      have v: "parse_value f n (tl (skip_ws s1)) \<noteq> OutOfFuel" using m step [of f] by auto
      show ?thesis
      proof (cases "parse_value f n (tl (skip_ws s1))")
        case (Parsed w s3)
        obtain st obj' where o: "json_object_add obj key w = (st, obj')" by fastforce
        show ?thesis
          using m IHm [of n obj' "skip_ws (tl (skip_ws s3))"]
          unfolding step IHv [OF v] Parsed parsed.case o prod.case by (auto split: if_splits)
      qed (use v IHv [OF v] step in auto)
    qed (use step in auto)
  qed
  moreover have "parse_elements (Suc (Suc f)) n arr s = parse_elements (Suc f) n arr s"
    if e: "parse_elements (Suc f) n arr s \<noteq> OutOfFuel"
  proof (cases "s = []")
    case False
    note step = parse_elements.simps(2) [of _ n arr s, unfolded if_not_P [OF False] Let_def]
    have v: "parse_value f n s \<noteq> OutOfFuel" using e step [of f] by auto
    show ?thesis
    proof (cases "parse_value f n s")
      case (Parsed w s1)
      show ?thesis
        using e IHe [of n "arr @ [w]" "skip_ws (tl (skip_ws s1))"]
        unfolding step IHv [OF v] Parsed parsed.case by (auto split: if_splits)
    qed (use v IHv [OF v] step in auto)
  qed simp
  ultimately show ?case by blast
qed

lemma parse_value_stable:
  assumes "2 * length s + 2 \<le> f"
  shows "parse_value f n s = parse_value (2 * length s + 2) n s"
  using assms
proof (induction rule: dec_induct)
  case base
  then show ?case by simp
next
  case (step m)
  from step(1) have "parse_value m n s \<noteq> OutOfFuel"
    by (rule conjunct1 [OF parse_enough_fuel, rule_format])
  then have "parse_value (Suc m) n s = parse_value m n s"
    by (rule conjunct1 [OF parse_more_fuel, rule_format])
  with step show ?case by (simp only:)
qed

text \<open>The nesting of a value.\<close>

fun json_depth :: "json \<Rightarrow> nat" where
  "json_depth (JObject obj) = Suc (fold max (map (\<lambda>(n, v). json_depth v) obj) 0)"
| "json_depth (JArray xs) = Suc (fold max (map json_depth xs) 0)"
| "json_depth _ = 0"

lemma fold_max_le: "fold max xs (a::nat) \<le> b \<longleftrightarrow> a \<le> b \<and> (\<forall>x \<in> set xs. x \<le> b)"
  by (induction xs arbitrary: a) auto

lemma parse_scalar_ok: "parse_scalar s = Parsed v r \<Longrightarrow> json_ok v \<and> json_depth v = 0"
  by (auto simp: parse_scalar_def parse_string_value_def parse_boolean_value_def parse_null_value_def
      parse_number_value_def json_value_init_number_def get_quoted_string_def Let_def
      split: option.splits if_splits prod.splits)

lemma parse_ok:
  "(parse_value f n s = Parsed v r \<longrightarrow> json_ok v \<and> json_depth v + n \<le> MAX_NESTING + 1) \<and>
   (parse_members f n obj s = Parsed v r \<longrightarrow> json_ok (JObject obj) \<longrightarrow>
      json_depth (JObject obj) + n \<le> MAX_NESTING + 2 \<longrightarrow> json_ok v \<and> json_depth v + n \<le> MAX_NESTING + 2) \<and>
   (parse_elements f n arr s = Parsed v r \<longrightarrow> json_ok (JArray arr) \<longrightarrow>
      json_depth (JArray arr) + n \<le> MAX_NESTING + 2 \<longrightarrow> json_ok v \<and> json_depth v + n \<le> MAX_NESTING + 2)"
proof (induction f arbitrary: n s v r obj arr)
  case 0
  then show ?case by simp
next
  case (Suc f)
  note IHv = conjunct1 [OF Suc.IH, rule_format]
    and IHm = conjunct1 [OF conjunct2 [OF Suc.IH], rule_format]
    and IHe = conjunct2 [OF conjunct2 [OF Suc.IH], rule_format]
  have depth: "json_depth w + n \<le> MAX_NESTING + 1 \<Longrightarrow> json_depth (JObject obj) + n \<le> MAX_NESTING + 2 \<Longrightarrow>
      json_depth (JObject (obj @ [(k, w)])) + n \<le> MAX_NESTING + 2" for w k
    by (auto simp: max_def)
  have adepth: "json_depth w + n \<le> MAX_NESTING + 1 \<Longrightarrow> json_depth (JArray arr) + n \<le> MAX_NESTING + 2 \<Longrightarrow>
      json_depth (JArray (arr @ [w])) + n \<le> MAX_NESTING + 2" for w
    by (auto simp: max_def)
  have ok: "json_ok w \<Longrightarrow> json_ok (JObject obj) \<Longrightarrow> map_of obj k = None \<Longrightarrow> nul_free k \<Longrightarrow>
      json_ok (JObject (obj @ [(k, w)]))" for w k
    by (auto simp: map_of_eq_None_iff)
  have key: "get_quoted_string s = Some (k, s1) \<Longrightarrow> nul_free k" for k s1
    by (auto simp: get_quoted_string_def split: option.splits)
  have "json_ok v \<and> json_depth v + n \<le> MAX_NESTING + 1" if p: "parse_value (Suc f) n s = Parsed v r"
    using p
  proof (cases rule: parse_value_cases)
    case (object_value f')
    with IHm [of "n + 1" "[]" _ v r] show ?thesis by simp
  next
    case (array_value f')
    with IHe [of "n + 1" "[]" _ v r] show ?thesis by simp
  qed (use p parse_scalar_ok in \<open>auto split: if_splits\<close>)
  moreover have "json_ok v \<and> json_depth v + n \<le> MAX_NESTING + 2"
    if p: "parse_members (Suc f) n obj s = Parsed v r"
      and o: "json_ok (JObject obj)" "json_depth (JObject obj) + n \<le> MAX_NESTING + 2"
    using p
  proof (cases rule: parse_members_cases)
    case (next_pair f' k s1 w s3)
    then have "f' = f" by simp
    with next_pair IHv have w: "json_ok w \<and> json_depth w + n \<le> MAX_NESTING + 1" by blast
    show ?thesis
      using ok [of w k] depth [of w k] w o next_pair(5) key [OF next_pair(2)]
      by (intro IHm [OF next_pair(7) [unfolded \<open>f' = f\<close>]]) auto
  next
    case (last_pair f' k s1 w s3)
    then have "f' = f" by simp
    with last_pair IHv have w: "json_ok w \<and> json_depth w + n \<le> MAX_NESTING + 1" by blast
    with ok [of w k] depth [of w k] o last_pair(5) key [OF last_pair(2)] show ?thesis
      unfolding last_pair(7) by blast
  qed
  moreover have "json_ok v \<and> json_depth v + n \<le> MAX_NESTING + 2"
    if p: "parse_elements (Suc f) n arr s = Parsed v r"
      and o: "json_ok (JArray arr)" "json_depth (JArray arr) + n \<le> MAX_NESTING + 2"
    using p
  proof (cases rule: parse_elements_cases)
    case (next_item f' w s1)
    then have "f' = f" by simp
    with next_item IHv have w: "json_ok w \<and> json_depth w + n \<le> MAX_NESTING + 1" by blast
    show ?thesis
      using adepth [of w] w o by (intro IHe [OF next_item(4) [unfolded \<open>f' = f\<close>]]) auto
  next
    case (last_item f' w s1)
    then have "f' = f" by simp
    with last_item IHv have "json_ok w \<and> json_depth w + n \<le> MAX_NESTING + 1" by blast
    with adepth [of w] o show ?thesis unfolding last_item(4) by simp
  qed
  ultimately show ?case by blast
qed

lemmas parse_value_ok = conjunct1 [OF parse_ok, rule_format]

section \<open>Properties\<close>

text \<open>
  C25: The parser ends on every text, at every nesting level: the fuel \<open>json_parse_string\<close>
  gives is enough, and any larger fuel gives the same result, so that \<open>OutOfFuel\<close> stands for
  no behaviour of the code.
\<close>

theorem parse_value_fuel:
  "parse_value (2 * length s + 2) n s \<noteq> OutOfFuel \<and>
   parse_value (2 * length s + 2 + k) n s = parse_value (2 * length s + 2) n s"
  using parse_value_stable [of s "2 * length s + 2 + k" n] parse_enough_fuel [of s "2 * length s + 2" n]
  by simp

text \<open>
  C24: Whatever payload a client sends, a value the parser returns is well formed: in every
  object, at every depth, the names are distinct, names and strings have no NUL byte, numbers
  are finite, and brackets nest at most \<open>MAX_NESTING + 1\<close> deep.
\<close>

theorem json_parse_string_ok:
  assumes "json_parse_string str = Some v"
  shows "json_ok v \<and> json_depth v \<le> MAX_NESTING + 1"
  using assms
  by (auto simp: json_parse_string_def Let_def simp del: parse_value.simps
      split: option.splits parsed.splits dest: parse_value_ok)

theorem json_parse_string_ok_witness:
  \<open>json_parse_string (Some ''{"id": "a", "l": [true, null]} x'') =
     Some (JObject [(''id'', JString ''a''), (''l'', JArray [JBoolean True, JNull])]) \<and>
   json_depth (JObject [(''id'', JString ''a''), (''l'', JArray [JBoolean True, JNull])]) \<le> MAX_NESTING + 1\<close>
proof -
  have p: \<open>json_parse_string (Some ''{"id": "a", "l": [true, null]} x'') =
     Some (JObject [(''id'', JString ''a''), (''l'', JArray [JBoolean True, JNull])])\<close>
    by code_simp
  from p json_parse_string_ok [OF p] show ?thesis by blast
qed

end
