(* ===== verification/JsonSerialize.thy ===== *)
theory JsonSerialize
  imports JsonParse
begin

text \<open>
  The serialiser of \<^verbatim>\<open>common/parson.c\<close>: \<open>json_serialize_to_buffer_r\<close> is called twice, once
  with a NULL buffer to count the bytes and once to write them. The two passes are the two
  functions \<open>json_count\<close> (the result of the call with a NULL buffer) and \<open>json_write\<close> (the
  text the other call leaves in the buffer). The count is kept in an \<open>int\<close>: \<open>None\<close> is the
  undefined behaviour of a sum beyond \<open>INT_MAX\<close>. The theorem shows that otherwise the count is
  exactly the length of the text; that the parser reads the text back is shown in
  \<open>JsonRoundtrip\<close>.
\<close>

section \<open>Strings\<close>

definition hex_digit :: "nat \<Rightarrow> char" where
  "hex_digit d = (if d < 10 then char_of (48 + d) else char_of (87 + d))"

text \<open>The text appended for one character.\<close>

definition escape_char :: "char \<Rightarrow> cstring" where
  "escape_char c =
     (if c = CHR 0x22 then [CHR 0x5C, CHR 0x22]
      else if c = CHR 0x5C then [CHR 0x5C, CHR 0x5C]
      else if c = CHR 0x08 then [CHR 0x5C, CHR ''b'']
      else if c = CHR 0x0C then [CHR 0x5C, CHR ''f'']
      else if c = CHR 0x0A then [CHR 0x5C, CHR ''n'']
      else if c = CHR 0x0D then [CHR 0x5C, CHR ''r'']
      else if c = CHR 0x09 then [CHR 0x5C, CHR ''t'']
      else if (of_char c :: nat) < 0x20
        then [CHR 0x5C, CHR ''u'', CHR ''0'', CHR ''0'', hex_digit (of_char c div 16), hex_digit (of_char c mod 16)]
      else [c])"

definition json_serialize_string :: "cstring \<Rightarrow> cstring" where
  "json_serialize_string s = [CHR 0x22] @ concat (map escape_char s) @ [CHR 0x22]"

section \<open>Sums in an \<open>int\<close>\<close>

definition INT_MAX :: int where "INT_MAX = 2 ^ 31 - 1"

text \<open>\<open>written_total += written\<close>, for a count that is not negative.\<close>

definition add_written :: "int \<Rightarrow> int \<Rightarrow> int option" where
  "add_written written written_total =
     (if written_total + written \<le> INT_MAX then Some (written_total + written) else None)"

text \<open>The counting pass: what \<open>append_string\<close> returns for a NULL buffer.\<close>

definition count_char :: "char \<Rightarrow> int" where
  "count_char c =
     (if c \<in> {CHR 0x22, CHR 0x5C, CHR 0x08, CHR 0x0C, CHR 0x0A, CHR 0x0D, CHR 0x09} then 2
      else if (of_char c :: nat) < 0x20 then 6
      else 1)"

definition count_string :: "cstring \<Rightarrow> int option" where
  "count_string s = do {
     t \<leftarrow> add_written 1 0;
     t \<leftarrow> fold_ub (\<lambda>c. add_written (count_char c)) s t;
     add_written 1 t }"

section \<open>Values\<close>

definition append_indent :: "nat \<Rightarrow> cstring" where
  "append_indent level = concat (replicate level ''    '')"

text \<open>
  The items of an array, or the members of an object, between the brackets \<open>op\<close> and \<open>cl\<close>.
\<close>

definition bracketed :: "nat \<Rightarrow> bool \<Rightarrow> char \<Rightarrow> char \<Rightarrow> cstring list \<Rightarrow> cstring" where
  "bracketed level is_pretty op cl items = (let count = length items in
     [op] @ (if count > 0 \<and> is_pretty then [CHR 0x0A] else [])
     @ concat (map (\<lambda>i. (if is_pretty then append_indent (level + 1) else [])
           @ items ! i @ (if i < count - 1 then '','' else []) @ (if is_pretty then [CHR 0x0A] else []))
         [0..<count])
     @ (if count > 0 \<and> is_pretty then append_indent level else []) @ [cl])"

text \<open>
  The members of an object are written with the value that \<open>json_object_get_value\<close> finds
  under the name.
\<close>

fun json_write :: "nat \<Rightarrow> bool \<Rightarrow> json \<Rightarrow> cstring" where
  "json_write level is_pretty (JArray xs) =
     bracketed level is_pretty (CHR ''['') (CHR '']'') (map (json_write (level + 1) is_pretty) xs)"
| "json_write level is_pretty (JObject obj) =
     (let texts = map (\<lambda>(n, v). (n, json_write (level + 1) is_pretty v)) obj
      in bracketed level is_pretty (CHR ''{'') (CHR ''}'')
           (map (\<lambda>key. json_serialize_string key @ '':'' @ (if is_pretty then '' '' else [])
              @ the (map_of texts key)) (map fst obj)))"
| "json_write level is_pretty (JString s) = json_serialize_string s"
| "json_write level is_pretty (JBoolean b) = (if b then ''true'' else ''false'')"
| "json_write level is_pretty (JNumber d) = fmt_g17 d"
| "json_write level is_pretty JNull = ''null''"

text \<open>
  The counting pass. An item is what the body of the loop adds to \<open>written_total\<close> between the
  indentation and the comma.
\<close>

definition count_indent :: "nat \<Rightarrow> int option" where
  "count_indent level = fold_ub (\<lambda>i. add_written 4) [0..<level] 0"

definition count_bracketed :: "nat \<Rightarrow> bool \<Rightarrow> (int \<Rightarrow> int option) list \<Rightarrow> int option" where
  "count_bracketed level is_pretty items = (let count = length items in do {
     t \<leftarrow> add_written 1 0;
     t \<leftarrow> (if count > 0 \<and> is_pretty then add_written 1 t else Some t);
     t \<leftarrow> fold_ub (\<lambda>i t. do {
            t \<leftarrow> (if is_pretty then do { written \<leftarrow> count_indent (level + 1); add_written written t } else Some t);
            t \<leftarrow> (items ! i) t;
            t \<leftarrow> (if i < count - 1 then add_written 1 t else Some t);
            (if is_pretty then add_written 1 t else Some t) }) [0..<count] t;
     t \<leftarrow> (if count > 0 \<and> is_pretty then do { written \<leftarrow> count_indent level; add_written written t } else Some t);
     add_written 1 t })"

fun json_count :: "nat \<Rightarrow> bool \<Rightarrow> json \<Rightarrow> int option" where
  "json_count level is_pretty (JArray xs) =
     (let counts = map (json_count (level + 1) is_pretty) xs
      in count_bracketed level is_pretty (map (\<lambda>count t. do { written \<leftarrow> count; add_written written t }) counts))"
| "json_count level is_pretty (JObject obj) =
     (let counts = map (\<lambda>(n, v). (n, json_count (level + 1) is_pretty v)) obj
      in count_bracketed level is_pretty (map (\<lambda>key t. do {
           written \<leftarrow> count_string key;
           t \<leftarrow> add_written written t;
           t \<leftarrow> add_written 1 t;
           t \<leftarrow> (if is_pretty then add_written 1 t else Some t);
           written \<leftarrow> the (map_of counts key);
           add_written written t }) (map fst obj)))"
| "json_count level is_pretty (JString s) = do { written \<leftarrow> count_string s; add_written written 0 }"
| "json_count level is_pretty (JBoolean b) = (if b then add_written 4 0 else add_written 5 0)"
| "json_count level is_pretty (JNumber d) = add_written (int (length (fmt_g17 d))) 0"
| "json_count level is_pretty JNull = add_written 4 0"

text \<open>\<open>res < 0 ? 0 : (size_t) (res + 1)\<close>; the result for a NULL value is -1.\<close>

definition size_of_result :: "int option \<Rightarrow> nat option" where
  "size_of_result r = do {
     res \<leftarrow> r;
     if res < 0 then Some 0 else do { size \<leftarrow> add_written 1 res; Some (nat size) } }"

definition json_serialization_size :: "json option \<Rightarrow> nat option" where
  "json_serialization_size v = size_of_result (case v of None \<Rightarrow> Some (- 1) | Some w \<Rightarrow> json_count 0 False w)"

definition json_serialization_size_pretty :: "json option \<Rightarrow> nat option" where
  "json_serialization_size_pretty v = size_of_result (case v of None \<Rightarrow> Some (- 1) | Some w \<Rightarrow> json_count 0 True w)"

text \<open>
  The status and the bytes written to the buffer, the terminating NUL not counted; the
  write is in bounds when it and the NUL fit into \<open>buf_size\<close> bytes.
\<close>

definition json_serialize_to_buffer :: "json option \<Rightarrow> nat \<Rightarrow> (json_status \<times> cstring) option" where
  "json_serialize_to_buffer v buf_size = do {
     needed_size \<leftarrow> json_serialization_size v;
     Some (if needed_size = 0 \<or> buf_size < needed_size then (JSONFailure, [])
           else (case v of None \<Rightarrow> (JSONFailure, []) | Some w \<Rightarrow> (JSONSuccess, json_write 0 False w))) }"

text \<open>The outer \<open>None\<close> is undefined behaviour, the inner one the result NULL.\<close>

definition json_serialize_to_string :: "json option \<Rightarrow> cstring option option" where
  "json_serialize_to_string v = do {
     size \<leftarrow> json_serialization_size v;
     if size = 0 then Some None
     else do {
       (status, text) \<leftarrow> json_serialize_to_buffer v size;
       Some (if status = JSONFailure then None else Some text) } }"

text \<open>
  The text the program goes on with after a call of \<open>json_serialize_to_string\<close>. When the sum of
  the bytes has overflowed (a text of 2 GB), execution is continued with the text that the
  value has, as it is continued after a write behind a block.
\<close>

definition serialized :: "json option \<Rightarrow> cstring option" where
  "serialized v = (case json_serialize_to_string v of
     Some text \<Rightarrow> text
   | None \<Rightarrow> map_option (json_write 0 False) v)"

section \<open>The two passes agree\<close>

text \<open>A count that has been reached without overflow, and a step that adds to it.\<close>

definition counted :: "nat \<Rightarrow> int option" where
  "counted n = (if int n \<le> INT_MAX then Some (int n) else None)"

definition adds :: "nat \<Rightarrow> (int \<Rightarrow> int option) \<Rightarrow> bool" where
  "adds n f \<longleftrightarrow> (\<forall>a. counted a \<bind> f = counted (a + n))"

lemma addsD: "adds n f \<Longrightarrow> f 0 = counted n"
  by (drule adds_def [THEN iffD1, THEN spec [of _ 0]]) (simp add: counted_def INT_MAX_def)

lemma adds_skip: "adds 0 Some"
  by (simp add: adds_def)

lemma adds_written: "adds n (add_written (int n))"
  by (simp add: adds_def counted_def add_written_def)

lemma adds_one: "adds 1 (add_written 1)" and adds_four: "adds 4 (add_written 4)"
  using adds_written [of 1] adds_written [of 4] by simp_all

lemma adds_counted: "adds n (\<lambda>t. counted n \<bind> (\<lambda>w. add_written w t))"
  by (auto simp: adds_def counted_def add_written_def split: bind_splits)

lemma adds_bind: "adds m f \<Longrightarrow> adds n g \<Longrightarrow> adds (m + n) (\<lambda>t. f t \<bind> g)"
proof -
  assume a: "adds m f" "adds n g"
  have "counted k \<bind> (\<lambda>t. f t \<bind> g) = (counted k \<bind> f) \<bind> g" for k by (cases "counted k") simp_all
  with a show ?thesis by (simp add: adds_def add.assoc)
qed

lemma adds_if: "adds m f \<Longrightarrow> adds n g \<Longrightarrow> adds (if b then m else n) (\<lambda>t. if b then f t else g t)"
  by simp

lemma adds_fold: "(\<And>x. x \<in> set xs \<Longrightarrow> adds (g x) (f x)) \<Longrightarrow> adds (sum_list (map g xs)) (fold_ub f xs)"
proof (induction xs)
  case Nil
  then show ?case using adds_skip by (simp add: adds_def)
next
  case (Cons x xs)
  then show ?case using adds_bind [of "g x" "f x"] by simp
qed

lemma length_escape_char: "int (length (escape_char c)) = count_char c"
  by (auto simp: escape_char_def count_char_def)

lemma count_string_length: "count_string s = counted (length (json_serialize_string s))"
proof -
  have "adds (1 + (sum_list (map (length \<circ> escape_char) s) + 1))
      (\<lambda>t. add_written 1 t \<bind> (\<lambda>t. fold_ub (\<lambda>c. add_written (count_char c)) s t \<bind> add_written 1))"
    by (intro adds_bind adds_one adds_fold) (simp add: adds_written flip: length_escape_char)
  from addsD [OF this] show ?thesis
    by (simp add: count_string_def json_serialize_string_def length_concat comp_def)
qed

lemma length_append_indent [simp]: "length (append_indent n) = 4 * n"
  by (induction n) (simp_all add: append_indent_def)

lemma count_indent_length: "count_indent n = counted (length (append_indent n))"
  using addsD [OF adds_fold [of "[0..<n]" "\<lambda>_. 4" "\<lambda>_. add_written 4"]] adds_four
  by (simp add: count_indent_def sum_list_triv mult.commute)

lemma count_bracketed_length:
  assumes "length counts = length items" and "\<And>i. i < length items \<Longrightarrow> adds (length (items ! i)) (counts ! i)"
  shows "count_bracketed level p counts = counted (length (bracketed level p op cl items))"
proof -
  let ?n = "length items"
  let ?size = "\<lambda>i. (if p then 4 * (level + 1) else 0) + (length (items ! i) + ((if i < ?n - 1 then 1 else 0) + (if p then 1 else 0)))"
  have indent: "adds (4 * k) (\<lambda>t. count_indent k \<bind> (\<lambda>w. add_written w t))" for k
    using adds_counted [of "4 * k"] by (simp add: count_indent_length)
  have "adds (1 + ((if ?n > 0 \<and> p then 1 else 0) + (sum_list (map ?size [0..<?n]) + ((if ?n > 0 \<and> p then 4 * level else 0) + 1))))
     (\<lambda>t. do { t \<leftarrow> add_written 1 t;
        t \<leftarrow> (if ?n > 0 \<and> p then add_written 1 t else Some t);
        t \<leftarrow> fold_ub (\<lambda>i t. do {
            t \<leftarrow> (if p then do { written \<leftarrow> count_indent (level + 1); add_written written t } else Some t);
            t \<leftarrow> (counts ! i) t;
            t \<leftarrow> (if i < ?n - 1 then add_written 1 t else Some t);
            (if p then add_written 1 t else Some t) }) [0..<?n] t;
        t \<leftarrow> (if ?n > 0 \<and> p then do { written \<leftarrow> count_indent level; add_written written t } else Some t);
        add_written 1 t })"
    by (intro adds_bind adds_one adds_if adds_skip adds_fold indent assms(2)) simp_all
  from addsD [OF this] have "count_bracketed level p counts =
      counted (1 + ((if ?n > 0 \<and> p then 1 else 0) + (sum_list (map ?size [0..<?n]) + ((if ?n > 0 \<and> p then 4 * level else 0) + 1))))"
    by (simp only: count_bracketed_def Let_def assms(1))
  also have "1 + ((if ?n > 0 \<and> p then 1 else 0) + (sum_list (map ?size [0..<?n]) + ((if ?n > 0 \<and> p then 4 * level else 0) + 1))) =
      length (bracketed level p op cl items)"
    by (auto simp: bracketed_def Let_def length_concat comp_def intro!: arg_cong [where f = sum_list] map_cong)
  finally show ?thesis .
qed

lemma map_of_map_snd: "map_of (map (\<lambda>(n, v). (n, f v)) obj) k = map_option f (map_of obj k)"
  by (induction obj) auto

lemma map_of_in: "(k, v) \<in> set obj \<Longrightarrow> \<exists>w. map_of obj k = Some w \<and> (k, w) \<in> set obj"
  by (metis map_of_SomeD weak_map_of_SomeI)

lemma json_count_length: "json_count level p v = counted (length (json_write level p v))"
proof (induction level p v rule: json_write.induct)
  case (1 level p xs)
  then show ?case
    unfolding json_count.simps json_write.simps Let_def
    by (intro count_bracketed_length) (auto simp: adds_counted)
next
  case (2 level p obj)
  let ?counts = "map (\<lambda>(n, v). (n, json_count (level + 1) p v)) obj"
    and ?texts = "map (\<lambda>(n, v). (n, json_write (level + 1) p v)) obj"
  have size: "the (map_of ?counts k) = counted (length (the (map_of ?texts k)))" if k: "k \<in> fst ` set obj" for k
  proof -
    from k obtain w where w: "map_of obj k = Some w" "(k, w) \<in> set obj"
      using map_of_in by fastforce
    have "json_count (level + 1) p w = counted (length (json_write (level + 1) p w))"
      using 2 [OF w(2) refl] by simp
    with w(1) show ?thesis by (simp only: map_of_map_snd option.map option.sel)
  qed
  have "adds (length (json_serialize_string k) + (1 + ((if p then 1 else 0) + length (the (map_of ?texts k)))))
      (\<lambda>t. do { written \<leftarrow> count_string k; t \<leftarrow> add_written written t; t \<leftarrow> add_written 1 t;
           t \<leftarrow> (if p then add_written 1 t else Some t);
           written \<leftarrow> the (map_of ?counts k); add_written written t })" if k: "k \<in> fst ` set obj" for k
  proof -
    have "adds (length (json_serialize_string k) + (1 + ((if p then 1 else 0) + length (the (map_of ?texts k)))))
      (\<lambda>t. (counted (length (json_serialize_string k)) \<bind> (\<lambda>w. add_written w t)) \<bind> (\<lambda>t. add_written 1 t \<bind> (\<lambda>t.
           (if p then add_written 1 t else Some t) \<bind> (\<lambda>t. counted (length (the (map_of ?texts k))) \<bind> (\<lambda>w. add_written w t)))))"
      by (intro adds_bind adds_counted adds_one adds_if adds_skip)
    then show ?thesis unfolding size [OF k] count_string_length Option.bind_assoc .
  qed
  then show ?case
    unfolding json_count.simps json_write.simps Let_def
    by (intro count_bracketed_length) (auto simp: ac_simps)
qed (simp_all add: count_string_length addsD [OF adds_counted] addsD [OF adds_written] addsD [OF adds_written [of 4, simplified]]
    addsD [OF adds_written [of 5, simplified]] numeral_eq_Suc)

lemma size_of_counted: "size_of_result (counted n) = (if int n < INT_MAX then Some (n + 1) else None)"
  by (auto simp: size_of_result_def counted_def add_written_def INT_MAX_def nat_add_distrib)

lemma serialization_size_Some:
  "json_serialization_size (Some v) =
     (if int (length (json_write 0 False v)) < INT_MAX then Some (length (json_write 0 False v) + 1) else None)"
  "json_serialization_size_pretty (Some v) =
     (if int (length (json_write 0 True v)) < INT_MAX then Some (length (json_write 0 True v) + 1) else None)"
  by (simp_all only: json_serialization_size_def json_serialization_size_pretty_def option.case json_count_length size_of_counted)

lemma json_serialize_to_string_Some:
  "json_serialize_to_string (Some v) =
     (if int (length (json_write 0 False v)) < INT_MAX then Some (Some (json_write 0 False v)) else None)"
  by (simp add: json_serialize_to_string_def serialization_size_Some json_serialize_to_buffer_def)

lemma serialized_Some [simp]: "serialized (Some v) = Some (json_write 0 False v)"
  by (simp add: serialized_def json_serialize_to_string_Some)

lemma serialized_None [simp]: "serialized None = None"
  by (simp add: serialized_def json_serialize_to_string_def json_serialization_size_def size_of_result_def)

section \<open>Properties\<close>

text \<open>
  C40: The buffer \<open>json_serialize_to_string\<close> allocates is exactly large enough. While the text of
  a value and its terminator are at most \<open>INT_MAX\<close> bytes, the counting pass returns the length
  of the text that the writing pass leaves in the buffer, in both layouts, so that the text and
  its terminator fill the buffer to the last byte. For a longer text the sum of the bytes, which
  is an \<open>int\<close>, overflows, and counting is undefined.
\<close>

theorem serialization_fits:
  "json_serialization_size (Some v) =
     (if int (length (json_write 0 False v)) + 1 \<le> INT_MAX then Some (length (json_write 0 False v) + 1) else None) \<and>
   json_serialization_size_pretty (Some v) =
     (if int (length (json_write 0 True v)) + 1 \<le> INT_MAX then Some (length (json_write 0 True v) + 1) else None) \<and>
   json_serialize_to_string (Some v) =
     (if int (length (json_write 0 False v)) + 1 \<le> INT_MAX then Some (Some (json_write 0 False v)) else None)"
  by (simp add: serialization_size_Some json_serialize_to_string_Some)

end
