(* ===== verification/DoubleArith.thy ===== *)
theory DoubleArith
  imports Doubles
begin

text \<open>
  Addition, multiplication and division of \<open>double\<close> values, as the metrics handler and the
  comparison of JSON numbers use them: the exact result as a fraction, rounded once. Infinities
  and NaNs follow IEEE 754; the sign of a NaN that an operation makes is not specified there and
  is taken to be positive, no code reads it.
\<close>

definition is_neg :: "double \<Rightarrow> bool" where
  "is_neg x = (case x of Fin s m e \<Rightarrow> s | Infinite s \<Rightarrow> s | NaN s \<Rightarrow> s)"

definition is_nan :: "double \<Rightarrow> bool" where
  "is_nan x = (case x of NaN s \<Rightarrow> True | _ \<Rightarrow> False)"

definition double_neg :: "double \<Rightarrow> double" where
  "double_neg x = (case x of Fin s m e \<Rightarrow> Fin (\<not> s) m e | Infinite s \<Rightarrow> Infinite (\<not> s) | NaN s \<Rightarrow> NaN (\<not> s))"

definition with_sign :: "bool \<Rightarrow> nat \<Rightarrow> int" where
  "with_sign s m = (if s then - int m else int m)"

definition add_fin :: "bool \<Rightarrow> nat \<Rightarrow> int \<Rightarrow> bool \<Rightarrow> nat \<Rightarrow> int \<Rightarrow> double" where
  "add_fin s m e s' m' e' = (let
     k = min e e';
     t = with_sign s (m * 2 ^ nat (e - k)) + with_sign s' (m' * 2 ^ nat (e' - k));
     (n, d) = fin_frac (nat \<bar>t\<bar>) k
     in if t = 0 then Fin (s \<and> s') 0 (- 1074) else round_frac (t < 0) n d)"

definition double_add :: "double \<Rightarrow> double \<Rightarrow> double" where
  "double_add x y =
     (case x of
        NaN s \<Rightarrow> NaN False
      | Infinite s \<Rightarrow>
          (case y of NaN s' \<Rightarrow> NaN False | Infinite s' \<Rightarrow> if s = s' then Infinite s else NaN False | Fin _ _ _ \<Rightarrow> Infinite s)
      | Fin s m e \<Rightarrow>
          (case y of NaN s' \<Rightarrow> NaN False | Infinite s' \<Rightarrow> Infinite s' | Fin s' m' e' \<Rightarrow> add_fin s m e s' m' e'))"

definition double_mult :: "double \<Rightarrow> double \<Rightarrow> double" where
  "double_mult x y =
     (case x of
        NaN s \<Rightarrow> NaN False
      | Infinite s \<Rightarrow>
          (case y of NaN s' \<Rightarrow> NaN False | Infinite s' \<Rightarrow> Infinite (s \<noteq> s')
           | Fin s' m' e' \<Rightarrow> if m' = 0 then NaN False else Infinite (s \<noteq> s'))
      | Fin s m e \<Rightarrow>
          (case y of NaN s' \<Rightarrow> NaN False
           | Infinite s' \<Rightarrow> if m = 0 then NaN False else Infinite (s \<noteq> s')
           | Fin s' m' e' \<Rightarrow> (let (n, d) = fin_frac (m * m') (e + e') in round_frac (s \<noteq> s') n d)))"

definition double_divide :: "double \<Rightarrow> double \<Rightarrow> double" where
  "double_divide x y =
     (case x of
        NaN s \<Rightarrow> NaN False
      | Infinite s \<Rightarrow> (case y of Fin s' m' e' \<Rightarrow> Infinite (s \<noteq> s') | _ \<Rightarrow> NaN False)
      | Fin s m e \<Rightarrow>
          (case y of NaN s' \<Rightarrow> NaN False
           | Infinite s' \<Rightarrow> Fin (s \<noteq> s') 0 (- 1074)
           | Fin s' m' e' \<Rightarrow>
               if m' = 0 then (if m = 0 then NaN False else Infinite (s \<noteq> s'))
               else (let (n, d) = scaled 2 m m' (e' - e) in round_frac (s \<noteq> s') n d)))"

text \<open>\<open>x < y\<close> of C: false where one of them is a NaN.\<close>

definition double_less :: "double \<Rightarrow> double \<Rightarrow> bool" where
  "double_less x y =
     (case (x, y) of
        (NaN s, _) \<Rightarrow> False
      | (_, NaN s) \<Rightarrow> False
      | (Infinite s, Infinite s') \<Rightarrow> s \<and> \<not> s'
      | (Infinite s, Fin _ _ _) \<Rightarrow> s
      | (Fin _ _ _, Infinite s') \<Rightarrow> \<not> s'
      | (Fin s m e, Fin s' m' e') \<Rightarrow> (let k = min e e' in
           with_sign s (m * 2 ^ nat (e - k)) < with_sign s' (m' * 2 ^ nat (e' - k))))"

text \<open>\<open>fabs\<close>\<close>

definition double_abs :: "double \<Rightarrow> double" where
  "double_abs x = (case x of Fin s m e \<Rightarrow> Fin False m e | Infinite s \<Rightarrow> Infinite False | NaN s \<Rightarrow> NaN False)"

lemma double_divide_zero:
  "double_divide x (Fin s 0 e) = (case x of Fin s' m e' \<Rightarrow> if m = 0 then NaN False else Infinite (s' \<noteq> s)
     | Infinite s' \<Rightarrow> Infinite (s' \<noteq> s) | NaN s' \<Rightarrow> NaN False)"
  by (simp add: double_divide_def split: double.splits)

text \<open>The difference of a finite number and itself is zero.\<close>

lemma double_sub_self: "is_finite x \<Longrightarrow> double_add x (double_neg x) = Fin False 0 (- 1074)"
  by (cases x) (auto simp: is_finite_def double_add_def double_neg_def add_fin_def with_sign_def Let_def split: prod.splits)

end
