(* ===== verification/NumberText.thy ===== *)
theory NumberText
  imports Complex_Main Doubles
begin

text \<open>
  The text of an integer double: \<open>%1.17g\<close> prints the decimal digits of an integer of at most
  53 bits, and \<open>strtod\<close> reads the same double back from them, whatever of the JSON
  punctuation follows. The numbers the program writes (ports, times, counters) are of this
  form.
\<close>

section \<open>\<open>%1.17g\<close> prints an integer\<close>

lemma show_nat_bounds: "0 < n \<Longrightarrow> 10 ^ (length (show_nat n) - 1) \<le> n \<and> n < 10 ^ length (show_nat n)"
proof (induction n rule: show_nat.induct)
  case (1 n)
  show ?case
  proof (cases "n < 10")
    case True
    with "1.prems" show ?thesis by (simp add: show_nat_small)
  next
    case False
    then have ih: "10 ^ (length (show_nat (n div 10)) - 1) \<le> n div 10" "n div 10 < 10 ^ length (show_nat (n div 10))"
      using "1.IH" by simp_all
    have l: "length (show_nat (n div 10)) \<noteq> 0" by simp
    have "10 ^ length (show_nat (n div 10)) = 10 * (10::nat) ^ (length (show_nat (n div 10)) - 1)"
      using l by (metis power_eq_if)
    with ih False show ?thesis by (simp add: show_nat_step) linarith
  qed
qed

lemma frac_ge_pow_real:
  assumes "0 < b" and "0 < d"
  shows "frac_ge_pow b n d k \<longleftrightarrow> real b powi k \<le> real n / real d"
proof (cases "0 \<le> k")
  case True
  have "frac_ge_pow b n d k \<longleftrightarrow> real (d * b ^ nat k) \<le> real n" using True by (simp only: frac_ge_pow_def if_True if_False of_nat_le_iff)
  also have "\<dots> \<longleftrightarrow> real b powi k \<le> real n / real d"
    using True assms by (simp add: power_int_def pos_le_divide_eq mult.commute)
  finally show ?thesis .
next
  case False
  have "frac_ge_pow b n d k \<longleftrightarrow> real d \<le> real (n * b ^ nat (- k))" using False by (simp only: frac_ge_pow_def if_True if_False of_nat_le_iff)
  also have "\<dots> \<longleftrightarrow> real b powi k \<le> real n / real d"
    using False assms by (simp add: power_int_def field_simps)
  finally show ?thesis .
qed

lemma powi_pred: "0 < l \<Longrightarrow> (10::real) powi (int l - 1) = real (10 ^ (l - 1))"
proof -
  assume "0 < l"
  then have "int l - 1 = int (l - 1)" by linarith
  then show ?thesis by (simp only: power_int_of_nat) simp
qed

lemma powi_len: "(10::real) powi int l = real (10 ^ l)"
  by (simp add: power_int_of_nat)

text \<open>The decimal exponent of an integer value, whatever the fraction it is given as.\<close>

lemma floor_log10_int:
  assumes "0 < n" and "0 < d"
  shows "floor_log10 (n * d) d = int (length (show_nat n)) - 1"
proof -
  let ?L = "length (show_nat n)" and ?ld = "length (show_nat d)" and ?l = "length (show_nat (n * d))"
  define k where "k = int ?l - int ?ld"
  have m: "0 < n * d" using assms by simp
  have pos: "0 < ?L" "0 < ?ld" "0 < ?l" by simp_all
  note bn = show_nat_bounds [OF assms(1)] and bd = show_nat_bounds [OF assms(2)] and bm = show_nat_bounds [OF m]
  have ge: "frac_ge_pow 10 (n * d) d j \<longleftrightarrow> 10 powi j \<le> real n" for j
    using frac_ge_pow_real [of 10 d "n * d" j] assms by simp
  have N: "(10::real) powi (int ?L - 1) \<le> real n" "real n < 10 powi int ?L"
    using bn unfolding powi_pred [OF pos(1)] powi_len by (simp_all only: of_nat_le_iff of_nat_less_iff)
  have up: "real n < 10 powi (k + 1)"
  proof -
    have "n * d < 10 ^ ?l" "10 ^ (?ld - 1) \<le> d" using bm bd by simp_all
    then have "n * 10 ^ (?ld - 1) < 10 ^ ?l" by (meson le_less_trans mult_le_mono2)
    then have "real (n * 10 ^ (?ld - 1)) < real (10 ^ ?l)" by (simp only: of_nat_less_iff)
    then have "real n * 10 powi (int ?ld - 1) < 10 powi int ?l"
      unfolding powi_pred [OF pos(2)] powi_len by (simp only: of_nat_mult)
    moreover have "(10::real) powi int ?l = 10 powi (k + 1) * 10 powi (int ?ld - 1)"
      unfolding k_def by (subst power_int_add [symmetric]) simp_all
    ultimately show ?thesis by simp
  qed
  have low: "10 powi (k - 1) \<le> real n"
  proof -
    have "10 ^ (?l - 1) \<le> n * d" "d < 10 ^ ?ld" using bm bd by simp_all
    then have "10 ^ (?l - 1) \<le> n * 10 ^ ?ld" by (meson le_trans less_imp_le mult_le_mono2)
    then have "real (10 ^ (?l - 1)) \<le> real (n * 10 ^ ?ld)" by (simp only: of_nat_le_iff)
    then have "10 powi (int ?l - 1) \<le> real n * 10 powi int ?ld"
      unfolding powi_pred [OF pos(3)] powi_len by (simp only: of_nat_mult)
    moreover have "(10::real) powi (int ?l - 1) = 10 powi (k - 1) * 10 powi int ?ld"
      unfolding k_def by (subst power_int_add [symmetric]) simp_all
    ultimately show ?thesis by simp
  qed
  have lt: "i < j" if "(10::real) powi i < 10 powi j" for i j :: int
    using that power_int_increasing [of j i "10::real"] by (cases "j \<le> i") simp_all
  show ?thesis
  proof (cases "10 powi k \<le> real n")
    case True
    from lt [OF le_less_trans [OF True N(2)]] lt [OF le_less_trans [OF N(1) up]] have "k = int ?L - 1" by linarith
    with True show ?thesis by (simp add: floor_log10_def ge flip: k_def)
  next
    case False
    then have "(10::real) powi (int ?L - 1) < 10 powi k" using N(1) by linarith
    from lt [OF this] lt [OF le_less_trans [OF low N(2)]] have "k - 1 = int ?L - 1" by linarith
    with False show ?thesis by (simp add: floor_log10_def ge flip: k_def)
  qed
qed

lemma digit_char_0: "digit_char 0 = CHR ''0''"
  by code_simp

lemma show_nat_times: "0 < n \<Longrightarrow> show_nat (n * 10 ^ k) = show_nat n @ replicate k (CHR ''0'')"
proof (induction k)
  case (Suc k)
  have "10 \<le> n * 10 ^ Suc k" using Suc.prems by simp
  moreover have "n * 10 ^ Suc k div 10 = n * 10 ^ k" "n * 10 ^ Suc k mod 10 = 0" by simp_all
  ultimately show ?case using Suc show_nat_step [of "n * 10 ^ Suc k"] by (simp add: replicate_append_same digit_char_0 del: power_Suc)
qed simp

lemma round_frac_int: "n < 2 ^ 53 \<Longrightarrow> 0 < n \<Longrightarrow> \<exists>d e. round_frac s n 1 = Fin s (n * d) e \<and> fin_frac (n * d) e = (n * d, d) \<and> 0 < d"
proof -
  assume "n < 2 ^ 53" and n: "0 < n"
  then obtain k where "round_frac s n 1 = Fin s (n * 2 ^ k) (- int k)" using round_frac_nat by blast
  moreover have "fin_frac (n * 2 ^ k) (- int k) = (n * 2 ^ k, 2 ^ k)" by (simp add: fin_frac_def)
  ultimately show ?thesis by (intro exI [of _ "2 ^ k"] exI [of _ "- int k"]) simp
qed

text \<open>An integer of at most 53 bits is printed as its decimal.\<close>

lemma fmt_g17_int:
  assumes "\<bar>i\<bar> < 2 ^ 53"
  shows "fmt_g17 (double_of_int i) = show_int i"
proof (cases "i = 0")
  case True
  then show ?thesis by (simp add: double_of_int_def round_frac_def fmt_g17_def show_int_def sign_text_def show_nat_small digit_char_0)
next
  case False
  define n where "n = nat \<bar>i\<bar>"
  have n: "0 < n" "n < 2 ^ 53" using assms False by (auto simp: n_def nat_less_iff)
  obtain d e where r: "double_of_int i = Fin (i < 0) (n * d) e" "fin_frac (n * d) e = (n * d, d)" "0 < d"
    using round_frac_int [OF n(2,1), of "i < 0"] by (auto simp: double_of_int_def n_def)
  let ?L = "length (show_nat n)"
  have L: "0 < ?L" "?L \<le> 16" using n(2) length_show_nat [of 16 n] by simp_all
  have e: "nat (- (int ?L - 1 - 16)) = 17 - ?L" using L(2) by linarith
  have neg: "\<not> 0 \<le> int ?L - 1 - 16" using L by linarith
  have c: "round_at 10 (n * d) d (int ?L - 1 - 16) = n * 10 ^ (17 - ?L)"
    unfolding round_at_def scaled_def if_not_P [OF neg] e using r(3) by (simp add: rne_def mult.assoc mult.left_commute [of d])
  have "n * 10 ^ (17 - ?L) < 10 ^ ?L * 10 ^ (17 - ?L)" using show_nat_bounds [OF n(1)] by simp
  also have "\<dots> = 10 ^ 17" using L by (simp flip: power_add)
  finally have dec: "decimal17 (n * d) d = (n * 10 ^ (17 - ?L), int ?L - 1)"
    by (simp add: decimal17_def floor_log10_int [OF n(1) r(3)] c [simplified])
  have x: "\<not> (int ?L - 1 < - 4 \<or> 17 \<le> int ?L - 1)" "0 \<le> int ?L - 1" "nat (int ?L - 1) + 1 = ?L" using L by linarith+
  have strip: "strip_zeros (replicate j (CHR ''0'')) = []" for j by (simp add: strip_zeros_def)
  have "fmt_g17 (double_of_int i) = sign_text (i < 0) @ show_nat n"
    using r n(1) unfolding r(1)
    by (simp only: fmt_g17_def double.case r(2) dec Let_def prod.case if_not_P [OF x(1)] if_P [OF x(2)] x(3)
        show_nat_times [OF n(1)] with_point_def) (simp add: strip)
  then show ?thesis by (simp add: sign_text_def show_int_def n_def)
qed

section \<open>\<open>strtod\<close> reads an integer back\<close>

text \<open>What may follow a number in a JSON text: nothing, a comma, a closing bracket or a line end.\<close>

definition stops :: "cstring \<Rightarrow> bool" where
  "stops r = (case r of [] \<Rightarrow> True | c # _ \<Rightarrow> c \<in> {CHR '','', CHR '']'', CHR ''}'', CHR 0x0A})"

lemma lower_digit: "is_digit c \<Longrightarrow> lower c = c"
  by (auto simp: is_digit_def lower_def)

lemma no_prefix_digit:
  assumes "starts_digit s" and "\<not> is_digit c"
  shows "\<not> prefix_nocase (c # p) s"
  using assms lower_digit by (auto simp: starts_digit_def prefix_nocase_def split: list.splits)

lemma no_hex_prefix:
  assumes "set ds \<subseteq> Collect is_digit" and "ds \<noteq> []" and "stops r"
  shows "\<not> prefix_nocase ''0x'' (ds @ r)"
proof -
  have nx: "\<not> is_digit (CHR ''x'')" by (simp add: is_digit_def)
  have lx: "lower c \<noteq> CHR ''x''" if "c \<in> {CHR '','', CHR '']'', CHR ''}'', CHR 0x0A}" for c
    using that by (auto simp: lower_def)
  from assms(2) obtain d ds' where ds: "ds = d # ds'" by (cases ds) auto
  have "lower c \<noteq> CHR ''x''" if "take 1 (ds' @ r) = [c]" for c
  proof (cases ds')
    case Nil
    with that assms(3) lx show ?thesis by (cases r) (auto simp: stops_def)
  next
    case (Cons c' ds'')
    with that assms(1) ds have "is_digit c" by simp
    with nx lower_digit show ?thesis by fastforce
  qed
  then show ?thesis unfolding ds prefix_nocase_def by (cases "ds' @ r") auto
qed

lemma take_digits:
  assumes "set ds \<subseteq> Collect is_digit" and "stops r"
  shows "takeWhile is_digit (ds @ r) = ds \<and> dropWhile is_digit (ds @ r) = r"
proof -
  have "takeWhile is_digit r = [] \<and> dropWhile is_digit r = r"
    using assms(2) by (cases r) (auto simp: stops_def is_digit_def)
  with assms(1) show ?thesis by (auto simp: takeWhile_append2 dropWhile_append2 subset_eq)
qed

lemma scale_round_int:
  assumes "n < 2 ^ 53"
  shows "scale_round s 10 n 0 = (round_frac s n 1, False)"
proof (cases "n = 0")
  case True
  then show ?thesis by (simp add: scale_round_def round_frac_def frac_underflows_def is_finite_def)
next
  case False
  then have "\<not> floor_log2 n 1 - 52 < - 1074" using floor_log2_nat [of n] bitlen_bounds [of n] by simp
  then have "\<not> frac_underflows n 1" by (simp add: frac_underflows_def Let_def)
  moreover have "is_finite (round_frac s n 1)" using round_frac_nat [of n s] assms False by (auto simp: is_finite_def)
  ultimately show ?thesis by (simp add: scale_round_def Let_def)
qed

lemma strtod_int:
  assumes "\<bar>i\<bar> < 2 ^ 53" and "stops r"
  shows "strtod (show_int i @ r) = (double_of_int i, False, r)"
proof -
  define n where "n = nat \<bar>i\<bar>"
  have n: "n < 2 ^ 53" using assms by (simp add: n_def nat_less_iff)
  have d: "set (show_nat n) \<subseteq> Collect is_digit" using show_nat_digits by blast
  have sd: "starts_digit (show_nat n @ r)"
    using starts_digit_show [of n] by (cases "show_nat n") (simp_all add: starts_digit_def)
  have sign: "scan_sign (skip_ws (show_int i @ r)) = (i < 0, show_nat n @ r)"
  proof (cases "i < 0")
    case True
    then show ?thesis by (simp add: show_int_def scan_sign_def skip_ws_def isspace_def n_def)
  next
    case False
    then have "show_int i = show_nat n" by (simp add: show_int_def n_def)
    with False sd show ?thesis by (simp add: skip_ws_digits scan_sign_digits)
  qed
  have dot: "scan_mantissa is_digit (show_nat n @ r) = (show_nat n, [], r)"
    unfolding scan_mantissa_def Let_def conjunct1 [OF take_digits [OF d assms(2)]] conjunct2 [OF take_digits [OF d assms(2)]]
    using assms(2) by (auto simp: stops_def split: list.split)
  have ex: "scan_exponent {CHR ''e'', CHR ''E''} r = (0, r)"
    using assms(2) by (cases r) (auto simp: scan_exponent_def stops_def)
  have "strtod_decimal (i < 0) (show_nat n @ r) = Some (double_of_int i, False, r)"
    unfolding strtod_decimal_def dot Let_def prod.case ex
    using scale_round_int [OF n, of "i < 0"] by (simp add: read_digits_show double_of_int_def flip: n_def)
  moreover have "\<not> is_digit (CHR ''i'')" "\<not> is_digit (CHR ''n'')" by (simp_all add: is_digit_def)
  ultimately show ?thesis
    using no_prefix_digit [OF sd] no_hex_prefix [OF d _ assms(2)] by (simp add: strtod_def sign)
qed

end
