(* ===== verification/DoubleSpec.thy ===== *)
theory DoubleSpec
  imports DoubleArith NumberText
begin

text \<open>
  The \<open>double\<close> operations against real arithmetic: \<open>round_frac\<close> gives the nearest double of a
  fraction, within half a unit in the last place, and respects powers of two; an operation on
  finite numbers is finite as long as the exact result is small enough.
\<close>

definition real_of :: "double \<Rightarrow> real" where
  "real_of x = (case x of Fin s m e \<Rightarrow> (if s then - 1 else 1) * real m * 2 powi e | _ \<Rightarrow> 0)"

lemma powi_split: "(2::real) powi (i + j) = 2 powi i * 2 powi j"
  by (simp add: power_int_add)

lemma powi_nat: "0 \<le> k \<Longrightarrow> (2::real) powi k = 2 ^ nat k"
  by (simp add: power_int_def)

lemma powi_neg: "k \<le> 0 \<Longrightarrow> (2::real) powi k = 1 / 2 ^ nat (- k)"
  by (cases "k = 0") (auto simp: power_int_def field_simps)

lemma powi_mono: "i \<le> j \<Longrightarrow> (2::real) powi i \<le> 2 powi j"
  by (intro power_int_increasing) auto

lemma powi_less_cancel: "(2::real) powi i < 2 powi j \<Longrightarrow> i < j"
  using powi_mono [of j i] by (meson leD not_le_imp_less)

section \<open>The binary exponent\<close>

lemma floor_log2_real:
  assumes "0 < n" and "0 < d"
  shows "2 powi floor_log2 n d \<le> real n / real d" and "real n / real d < 2 powi (floor_log2 n d + 1)"
proof -
  let ?k = "int (bitlen n) - int (bitlen d)"
  note bn = bitlen_bounds [OF assms(1)] and bd = bitlen_bounds [OF assms(2)]
  have n: "2 powi (int (bitlen n) - 1) \<le> real n" "real n < 2 powi int (bitlen n)"
  proof -
    have "real (2 ^ (bitlen n - 1)) \<le> real n" "real n < real (2 ^ bitlen n)"
      using bn by (simp_all only: of_nat_le_iff of_nat_less_iff)
    then show "2 powi (int (bitlen n) - 1) \<le> real n" "real n < 2 powi int (bitlen n)"
      using bn by (simp_all add: powi_nat nat_diff_distrib)
  qed
  have d: "2 powi (int (bitlen d) - 1) \<le> real d" "real d < 2 powi int (bitlen d)"
  proof -
    have "real (2 ^ (bitlen d - 1)) \<le> real d" "real d < real (2 ^ bitlen d)"
      using bd by (simp_all only: of_nat_le_iff of_nat_less_iff)
    then show "2 powi (int (bitlen d) - 1) \<le> real d" "real d < 2 powi int (bitlen d)"
      using bd by (simp_all add: powi_nat nat_diff_distrib)
  qed
  have up: "real n / real d < 2 powi (?k + 1)"
  proof -
    have "real n < 2 powi (?k + 1) * 2 powi (int (bitlen d) - 1)" using n(2) by (simp flip: powi_split)
    also have "\<dots> \<le> 2 powi (?k + 1) * real d" using d(1) by (intro mult_left_mono) auto
    finally show ?thesis using assms(2) by (simp add: field_simps)
  qed
  have lo: "2 powi (?k - 1) \<le> real n / real d"
  proof -
    have "2 powi (?k - 1) * real d \<le> 2 powi (?k - 1) * 2 powi int (bitlen d)" using d(2) by (intro mult_left_mono) auto
    also have "\<dots> = 2 powi (int (bitlen n) - 1)" unfolding powi_split [symmetric] by simp
    also have "\<dots> \<le> real n" by (rule n(1))
    finally show ?thesis using assms(2) by (simp add: field_simps)
  qed
  from up lo show "2 powi floor_log2 n d \<le> real n / real d" "real n / real d < 2 powi (floor_log2 n d + 1)"
    by (auto simp: floor_log2_def Let_def frac_ge_pow_real [of 2, OF _ assms(2), simplified] not_le)
qed

section \<open>Rounding to an integer\<close>

lemma rne_real:
  assumes "0 < d"
  shows "\<bar>real (rne n d) - real n / real d\<bar> \<le> 1 / 2"
proof -
  define q r where "q = n div d" and "r = n mod d"
  have n: "real n = real q * real d + real r" unfolding q_def r_def
    by (metis of_nat_add of_nat_mult div_mult_mod_eq)
  then have e: "real n / real d = real q + real r / real d" using assms by (simp add: field_simps)
  have r: "r < d" using assms by (simp add: r_def)
  show ?thesis unfolding e rne_def Let_def q_def [symmetric] r_def [symmetric]
    using assms r by (auto simp: field_simps abs_le_iff)
qed

lemma rne_ge: "0 < d \<Longrightarrow> real m \<le> real n / real d \<Longrightarrow> m \<le> rne n d"
proof -
  assume d: "0 < d" and "real m \<le> real n / real d"
  then have "real (m * d) \<le> real n" by (simp add: field_simps)
  then have "m * d \<le> n" by (simp only: of_nat_le_iff)
  then have "m \<le> n div d" using d by (simp add: less_eq_div_iff_mult_less_eq)
  then show ?thesis by (simp add: rne_def Let_def)
qed

lemma rne_le: "0 < d \<Longrightarrow> real n / real d \<le> real m \<Longrightarrow> rne n d \<le> m"
proof -
  assume d: "0 < d" and le: "real n / real d \<le> real m"
  from rne_real [OF d, of n] le have "real (rne n d) \<le> real m + 1 / 2" by linarith
  then show ?thesis by linarith
qed

lemma scaled_real:
  assumes "0 < d" and "scaled 2 n d e = (x, y)"
  shows "0 < y" and "real x / real y = real n / real d / 2 powi e"
  using assms by (auto simp: scaled_def powi_nat powi_neg field_simps split: if_splits)

lemma round_at_real:
  assumes "0 < d"
  shows "\<bar>real (round_at 2 n d e) * 2 powi e - real n / real d\<bar> \<le> 2 powi e / 2"
    and "real m \<le> real n / real d / 2 powi e \<Longrightarrow> m \<le> round_at 2 n d e"
    and "real n / real d / 2 powi e \<le> real m \<Longrightarrow> round_at 2 n d e \<le> m"
proof -
  obtain x y where xy: "scaled 2 n d e = (x, y)" by fastforce
  note s = scaled_real [OF assms xy]
  have p: "(0::real) < 2 powi e" by simp
  have "\<bar>real (rne x y) - real x / real y\<bar> * 2 powi e \<le> 1 / 2 * 2 powi e"
    using rne_real [OF s(1), of x] by (intro mult_right_mono) auto
  then have "\<bar>(real (rne x y) - real x / real y) * 2 powi e\<bar> \<le> 2 powi e / 2" by (simp add: abs_mult)
  then show "\<bar>real (round_at 2 n d e) * 2 powi e - real n / real d\<bar> \<le> 2 powi e / 2"
    by (simp add: round_at_def xy s(2) left_diff_distrib)
  show "real m \<le> real n / real d / 2 powi e \<Longrightarrow> m \<le> round_at 2 n d e"
    unfolding s(2) [symmetric] by (simp add: round_at_def xy rne_ge s(1))
  show "real n / real d / 2 powi e \<le> real m \<Longrightarrow> round_at 2 n d e \<le> m"
    unfolding s(2) [symmetric] by (simp add: round_at_def xy rne_le s(1))
qed

section \<open>The nearest double\<close>

text \<open>
  The rounded fraction in one form: the mantissa of at most 53 bits and its exponent, with half
  a unit in the last place as the error, and with the powers of two around the fraction kept.
\<close>

lemma round_frac_cases:
  assumes "0 < n" and "0 < d"
  obtains q e where "round_frac s n d = (if 971 < e then Infinite s else Fin s q e)"
    and "\<bar>real q * 2 powi e - real n / real d\<bar> \<le> 2 powi e / 2" and "q < 2 ^ 53" and "- 1074 \<le> e"
    and "2 ^ 52 \<le> q \<or> e = - 1074"
    and "e \<le> max (floor_log2 n d - 52) (- 1074) + 1"
    and "\<And>k. 2 powi k \<le> real n / real d \<Longrightarrow> - 1074 \<le> k \<Longrightarrow> 2 powi k \<le> real q * 2 powi e"
    and "\<And>k. real n / real d \<le> 2 powi k \<Longrightarrow> - 1074 \<le> k \<Longrightarrow> real q * 2 powi e \<le> 2 powi k"
proof -
  let ?x = "real n / real d" and ?l = "floor_log2 n d"
  define e0 q0 where "e0 = max (?l - 52) (- 1074)" and "q0 = round_at 2 n d e0"
  note l = floor_log2_real [OF assms] and r = round_at_real [OF assms(2), where n = n and e = e0, folded q0_def]
  have e0: "- 1074 \<le> e0" by (simp add: e0_def)
  have scale: "(2::real) powi i / 2 powi e0 = 2 powi (i - e0)" for i by (simp add: power_int_diff)
  have pos: "(0::real) < 2 powi e0" by simp
  have "?x / 2 powi e0 \<le> real ((2::nat) ^ 53)"
  proof -
    have "(2::real) powi (?l + 1) \<le> 2 powi (e0 + 53)" by (rule powi_mono) (simp add: e0_def)
    with l(2) have "?x \<le> 2 powi (e0 + 53)" by linarith
    then have "?x / 2 powi e0 \<le> 2 powi (e0 + 53) / 2 powi e0" by (intro divide_right_mono) auto
    then show ?thesis unfolding scale by simp
  qed
  then have q0: "q0 \<le> 2 ^ 53" by (rule r(3))
  have low: "2 ^ 52 \<le> q0" if "e0 \<noteq> - 1074"
  proof (rule r(2))
    from that have "e0 = ?l - 52" by (simp add: e0_def max_def split: if_splits)
    then have "2 powi (e0 + 52) / 2 powi e0 \<le> ?x / 2 powi e0" using l(1) by (intro divide_right_mono) auto
    then show "real ((2::nat) ^ 52) \<le> ?x / 2 powi e0" unfolding scale by simp
  qed
  have ge: "2 powi k \<le> real q0 * 2 powi e0" if "2 powi k \<le> ?x" "- 1074 \<le> k" for k
  proof -
    have "k \<le> ?l" using le_less_trans [OF that(1) l(2)] by (auto dest: powi_less_cancel)
    show ?thesis
    proof (cases "e0 \<le> k")
      case True
      have "real ((2::nat) ^ nat (k - e0)) \<le> ?x / 2 powi e0"
        using divide_right_mono [OF that(1), of "2 powi e0"] True unfolding scale by (simp add: powi_nat)
      from r(2) [OF this] have "real ((2::nat) ^ nat (k - e0)) \<le> real q0" by (simp only: of_nat_le_iff)
      then have "2 powi (k - e0) * 2 powi e0 \<le> real q0 * 2 powi e0"
        using True by (intro mult_right_mono) (auto simp: powi_nat)
      then show ?thesis by (simp flip: powi_split)
    next
      case False
      with that(2) low have "2 ^ 52 \<le> q0" by auto
      then have "real ((2::nat) ^ 52) \<le> real q0" by (simp only: of_nat_le_iff)
      then have "1 * 2 powi e0 \<le> real q0 * 2 powi e0" by (intro mult_right_mono) auto
      with powi_mono [of k e0] False show ?thesis by linarith
    qed
  qed
  have le: "real q0 * 2 powi e0 \<le> 2 powi k" if "?x \<le> 2 powi k" "- 1074 \<le> k" for k
  proof (cases "e0 \<le> k")
    case True
    have "?x / 2 powi e0 \<le> real ((2::nat) ^ nat (k - e0))"
      using divide_right_mono [OF that(1), of "2 powi e0"] True unfolding scale by (simp add: powi_nat)
    from r(3) [OF this] have "real q0 \<le> real ((2::nat) ^ nat (k - e0))" by (simp only: of_nat_le_iff)
    then have "real q0 * 2 powi e0 \<le> 2 powi (k - e0) * 2 powi e0"
      using True by (intro mult_right_mono) (auto simp: powi_nat)
    then show ?thesis by (simp flip: powi_split)
  next
    case False
    with that(2) have "e0 = ?l - 52" by (simp add: e0_def max_def split: if_splits)
    with False have "2 powi (k + 1) \<le> (2::real) powi ?l" by (intro powi_mono) auto
    with l(1) that(1) have "(2::real) powi (k + 1) \<le> 2 powi k" by linarith
    then show ?thesis by (simp add: powi_split)
  qed
  show thesis
  proof (cases "q0 = 2 ^ 53")
    case True
    have eq: "real ((2::nat) ^ 52) * 2 powi (e0 + 1) = real q0 * 2 powi e0" by (simp add: True powi_split)
    have "(2::real) powi e0 \<le> 2 powi (e0 + 1)" by (rule powi_mono) simp
    with r(1) have "\<bar>real ((2::nat) ^ 52) * 2 powi (e0 + 1) - ?x\<bar> \<le> 2 powi (e0 + 1) / 2"
      unfolding eq by linarith
    moreover have "2 powi k \<le> real ((2::nat) ^ 52) * 2 powi (e0 + 1)" if "2 powi k \<le> ?x" "- 1074 \<le> k" for k
      unfolding eq using that by (rule ge)
    moreover have "real ((2::nat) ^ 52) * 2 powi (e0 + 1) \<le> 2 powi k" if "?x \<le> 2 powi k" "- 1074 \<le> k" for k
      unfolding eq using that by (rule le)
    moreover have "round_frac s n d = (if 971 < e0 + 1 then Infinite s else Fin s (2 ^ 52) (e0 + 1))"
      unfolding round_frac_def Let_def e0_def [symmetric] q0_def [symmetric] using True assms(1) by simp
    ultimately show thesis
      by (intro that [of "e0 + 1" "2 ^ 52"]) (use e0 in \<open>simp_all only: e0_def [symmetric], simp_all\<close>)
  next
    case False
    have "round_frac s n d = (if 971 < e0 then Infinite s else Fin s q0 e0)"
      unfolding round_frac_def Let_def e0_def [symmetric] q0_def [symmetric] using False assms(1) by simp
    then show thesis
    proof (rule that)
      show "q0 < 2 ^ 53" using q0 False by simp
      show "2 ^ 52 \<le> q0 \<or> e0 = - 1074" using low by blast
    qed (use r(1) ge le e0 in \<open>simp_all add: e0_def [symmetric]\<close>)
  qed
qed

lemma round_frac_finite:
  assumes "0 < d" and "real n / real d < 2 powi 1023"
  shows "is_finite (round_frac s n d)"
proof (cases "n = 0")
  case False
  then have n: "0 < n" by simp
  from floor_log2_real(1) [OF n assms(1)] assms(2) have "floor_log2 n d < 1023"
    by (intro powi_less_cancel) linarith
  note l = this
  show ?thesis
  proof (rule round_frac_cases [OF n assms(1), of s])
    fix q e
    assume "round_frac s n d = (if 971 < e then Infinite s else Fin s q e)" "e \<le> max (floor_log2 n d - 52) (- 1074) + 1"
    with l show ?thesis by (simp add: is_finite_def)
  qed
qed (simp add: round_frac_def is_finite_def)

lemma fin_frac_real:
  assumes "fin_frac m e = (n, d)"
  shows "0 < d" and "real n / real d = real m * 2 powi e"
  using assms by (auto simp: fin_frac_def powi_nat powi_neg split: if_splits)

section \<open>Bounds\<close>

text \<open>A finite number of absolute value at most \<open>2^k\<close>, or at least \<open>2^k\<close>.\<close>

definition at_most :: "double \<Rightarrow> int \<Rightarrow> bool" where
  "at_most x k \<longleftrightarrow> is_finite x \<and> \<bar>real_of x\<bar> \<le> 2 powi k"

definition at_least :: "double \<Rightarrow> int \<Rightarrow> bool" where
  "at_least x k \<longleftrightarrow> is_finite x \<and> 2 powi k \<le> \<bar>real_of x\<bar>"

lemma abs_real_of [simp]: "\<bar>real_of (Fin s m e)\<bar> = real m * 2 powi e"
  by (simp add: real_of_def abs_mult)

lemma round_frac_at_most:
  assumes "0 < d" and "real n / real d \<le> 2 powi k" and "- 1074 \<le> k" and "k < 1023"
  shows "at_most (round_frac s n d) k"
proof (cases "n = 0")
  case False
  then have n: "0 < n" by simp
  have "(2::real) powi k < 2 powi 1023" using assms(4) by (intro power_int_strict_increasing) auto
  with assms(2) have fin: "is_finite (round_frac s n d)" by (intro round_frac_finite assms(1)) linarith
  show ?thesis
  proof (rule round_frac_cases [OF n assms(1), of s])
    fix q e
    assume r: "round_frac s n d = (if 971 < e then Infinite s else Fin s q e)"
      and le: "\<And>k. real n / real d \<le> 2 powi k \<Longrightarrow> - 1074 \<le> k \<Longrightarrow> real q * 2 powi e \<le> 2 powi k"
    from fin r have "round_frac s n d = Fin s q e" by (auto simp: is_finite_def split: if_splits)
    with le [OF assms(2,3)] show ?thesis by (simp add: at_most_def is_finite_def)
  qed
qed (simp add: round_frac_def at_most_def is_finite_def)

lemma round_frac_at_least:
  assumes "0 < d" and "2 powi k \<le> real n / real d" and "- 1074 \<le> k" and "is_finite (round_frac s n d)"
  shows "at_least (round_frac s n d) k"
proof -
  have "(0::real) < 2 powi k" by simp
  with assms(2) have n: "0 < n" by (cases n) auto
  show ?thesis
  proof (rule round_frac_cases [OF n assms(1), of s])
    fix q e
    assume r: "round_frac s n d = (if 971 < e then Infinite s else Fin s q e)"
      and ge: "\<And>k. 2 powi k \<le> real n / real d \<Longrightarrow> - 1074 \<le> k \<Longrightarrow> 2 powi k \<le> real q * 2 powi e"
    from assms(4) r have "round_frac s n d = Fin s q e" by (auto simp: is_finite_def split: if_splits)
    with ge [OF assms(2,3)] show ?thesis by (simp add: at_least_def is_finite_def)
  qed
qed

lemma double_of_int_at_most:
  assumes "\<bar>i\<bar> \<le> 2 ^ k" and "k < 1023"
  shows "at_most (double_of_int i) (int k)"
proof -
  have "real (nat \<bar>i\<bar>) \<le> 2 ^ k" using assms(1) by (simp add: of_nat_nat) (metis of_int_le_iff of_int_numeral of_int_power of_int_abs)
  with assms(2) show ?thesis unfolding double_of_int_def by (intro round_frac_at_most) (simp_all add: powi_nat)
qed

lemma double_of_int_at_least:
  assumes "i \<noteq> 0" and "\<bar>i\<bar> \<le> 2 ^ k" and "k < 1023"
  shows "at_least (double_of_int i) 0"
proof -
  have "is_finite (double_of_int i)" using double_of_int_at_most [OF assms(2,3)] by (simp add: at_most_def)
  with assms(1) show ?thesis unfolding double_of_int_def by (intro round_frac_at_least) (auto simp: of_nat_nat)
qed

lemma double_divide_at_most:
  assumes "at_most x j" and "at_least y k" and "- 1074 \<le> j - k" and "j - k < 1023"
  shows "at_most (double_divide x y) (j - k)"
proof -
  obtain s m e where x: "x = Fin s m e" using assms(1) by (cases x) (auto simp: at_most_def is_finite_def)
  obtain s' m' e' where y: "y = Fin s' m' e'" using assms(2) by (cases y) (auto simp: at_least_def is_finite_def)
  have p: "(0::real) < 2 powi k" by simp
  from assms(2) have b: "2 powi k \<le> real m' * 2 powi e'" by (simp add: y at_least_def)
  from assms(1) have a: "real m * 2 powi e \<le> 2 powi j" by (simp add: x at_most_def)
  have m': "0 < m'"
  proof (rule ccontr)
    assume "\<not> 0 < m'"
    with b have "(2::real) powi k \<le> 0" by simp
    with p show False by linarith
  qed
  obtain n d where nd: "scaled 2 m m' (e' - e) = (n, d)" by fastforce
  note sc = scaled_real [OF m' nd]
  have "real n / real d = (real m * 2 powi e) / (real m' * 2 powi e')"
    unfolding sc(2) by (simp add: power_int_diff)
  also have "\<dots> \<le> 2 powi j / 2 powi k" using a b p by (intro frac_le) auto
  also have "\<dots> = 2 powi (j - k)" by (simp add: power_int_diff)
  finally show ?thesis
    using round_frac_at_most [OF sc(1) _ assms(3,4)] m' by (simp add: x y double_divide_def nd)
qed

lemma double_divide_at_least:
  assumes "at_least x j" and "at_most y k" and "- 1074 \<le> j - k" and "is_finite (double_divide x y)"
  shows "at_least (double_divide x y) (j - k)"
proof -
  obtain s m e where x: "x = Fin s m e" using assms(1) by (cases x) (auto simp: at_least_def is_finite_def)
  obtain s' m' e' where y: "y = Fin s' m' e'" using assms(2) by (cases y) (auto simp: at_most_def is_finite_def)
  from assms(1) have a: "2 powi j \<le> real m * 2 powi e" by (simp add: x at_least_def)
  from assms(2) have b: "real m' * 2 powi e' \<le> 2 powi k" by (simp add: y at_most_def)
  from assms(4) have m': "0 < m'" by (cases m') (auto simp: x y double_divide_zero is_finite_def split: if_splits)
  obtain n d where nd: "scaled 2 m m' (e' - e) = (n, d)" by fastforce
  note sc = scaled_real [OF m' nd]
  have "2 powi (j - k) = 2 powi j / (2::real) powi k" by (simp add: power_int_diff)
  also have "\<dots> \<le> (real m * 2 powi e) / (real m' * 2 powi e')" using a b m' by (intro frac_le) auto
  also have "\<dots> = real n / real d" unfolding sc(2) by (simp add: power_int_diff)
  finally show ?thesis
    using round_frac_at_least [OF sc(1) _ assms(3)] assms(4) m' by (simp add: x y double_divide_def nd)
qed

lemma with_sign_real: "real_of_int (with_sign s (m * 2 ^ nat (e - k))) * 2 powi k = real_of (Fin s m e)" if "k \<le> e"
proof -
  have "2 ^ nat (e - k) * 2 powi k = (2::real) powi e" using that by (simp flip: powi_nat powi_split)
  then show ?thesis by (simp add: with_sign_def real_of_def mult.assoc)
qed

lemma double_add_at_most:
  assumes "at_most x j" and "at_most y j" and "- 1074 \<le> j + 1" and "j + 1 < 1023"
  shows "at_most (double_add x y) (j + 1)"
proof -
  obtain s m e where x: "x = Fin s m e" using assms(1) by (cases x) (auto simp: at_most_def is_finite_def)
  obtain s' m' e' where y: "y = Fin s' m' e'" using assms(2) by (cases y) (auto simp: at_most_def is_finite_def)
  define k where "k = min e e'"
  define t where "t = with_sign s (m * 2 ^ nat (e - k)) + with_sign s' (m' * 2 ^ nat (e' - k))"
  have t: "real_of_int t * 2 powi k = real_of x + real_of y"
    by (simp add: t_def distrib_right with_sign_real k_def x y)
  obtain n d where nd: "fin_frac (nat \<bar>t\<bar>) k = (n, d)" by fastforce
  note ff = fin_frac_real [OF nd]
  have "real n / real d = \<bar>real_of_int t * 2 powi k\<bar>" unfolding ff(2) by (simp add: abs_mult of_nat_nat)
  also have "\<dots> \<le> 2 powi j + 2 powi j" using assms(1,2) unfolding t at_most_def by linarith
  also have "\<dots> = 2 powi (j + 1)" by (simp add: powi_split)
  finally have "at_most (round_frac (t < 0) n d) (j + 1)" by (rule round_frac_at_most [OF ff(1) _ assms(3,4)])
  moreover have "at_most (Fin b 0 (- 1074)) (j + 1)" for b by (simp add: at_most_def is_finite_def)
  ultimately show ?thesis
    by (simp add: x y double_add_def add_fin_def Let_def nd [unfolded t_def k_def] split: prod.splits)
      (auto simp: nd t_def k_def)
qed

end
