(* ===== verification/NumberRoundtrip.thy ===== *)
theory NumberRoundtrip
  imports DoubleSpec
begin

text \<open>
  Seventeen digits are enough: \<open>strtod\<close> reads from the text of \<open>%1.17g\<close> the same double back,
  for zero and for every normal double. The decimal is off by at most one part in \<open>2 * 10^16\<close>,
  which is less than half a unit in the last place, and less than a quarter at a power of two,
  where the doubles below are twice as dense. For a subnormal number \<open>strtod\<close> sets \<open>ERANGE\<close>.
\<close>

definition zero_or_normal :: "double \<Rightarrow> bool" where
  "zero_or_normal x = (case x of
     Fin s m e \<Rightarrow> m = 0 \<and> e = - 1074 \<or> 2 ^ 52 \<le> m \<and> m < 2 ^ 53 \<and> - 1074 \<le> e \<and> e \<le> 971
   | _ \<Rightarrow> False)"

section \<open>A fraction that is near to a double\<close>

definition near :: "nat \<Rightarrow> int \<Rightarrow> real \<Rightarrow> bool" where
  "near m e x \<longleftrightarrow> \<bar>x / 2 powi e - real m\<bar> < 1 / 2 \<and> (m = 2 ^ 52 \<longrightarrow> real m - 1 / 4 < x / 2 powi e)"

lemma round_at_near:
  assumes "0 < d" and "\<bar>real n / real d / 2 powi e - real m\<bar> < 1 / 2"
  shows "round_at 2 n d e = m"
proof -
  have p: "(0::real) < 2 powi e" by simp
  from round_at_real(1) [OF assms(1), of n e]
  have "\<bar>real (round_at 2 n d e) * 2 powi e - real n / real d\<bar> / 2 powi e \<le> 2 powi e / 2 / 2 powi e"
    by (intro divide_right_mono) auto
  then have "\<bar>(real (round_at 2 n d e) * 2 powi e - real n / real d) / 2 powi e\<bar> \<le> 1 / 2" by simp
  then have "\<bar>real (round_at 2 n d e) - real n / real d / 2 powi e\<bar> \<le> 1 / 2" by (simp add: diff_divide_distrib)
  with assms(2) have "\<bar>real (round_at 2 n d e) - real m\<bar> < 1" by linarith
  then show ?thesis by linarith
qed

lemma floor_log2_between:
  assumes "0 < n" and "0 < d" and "2 powi k \<le> real n / real d" and "real n / real d < 2 powi (k + 1)"
  shows "floor_log2 n d = k"
proof -
  note l = floor_log2_real [OF assms(1,2)]
  from l(1) assms(4) have "floor_log2 n d < k + 1" by (intro powi_less_cancel) linarith
  moreover from l(2) assms(3) have "k < floor_log2 n d + 1" by (intro powi_less_cancel) linarith
  ultimately show ?thesis by linarith
qed

lemma round_frac_near:
  assumes d: "0 < d" and m: "2 ^ 52 \<le> m" "m < 2 ^ 53" and e: "- 1074 \<le> e" "e \<le> 971" and near: "near m e (real n / real d)"
  shows "round_frac s n d = Fin s m e \<and> \<not> frac_underflows n d"
proof -
  define y where "y = real n / real d / 2 powi e"
  have y: "\<bar>y - real m\<bar> < 1 / 2" "m = 2 ^ 52 \<Longrightarrow> real m - 1 / 4 < y" using near by (simp_all add: near_def y_def)
  have x: "real n / real d = y * 2 powi e" by (simp add: y_def)
  have "m + 1 \<le> 2 ^ 53" using m(2) by linarith
  with m(1) have "real (2 ^ 52) \<le> real m" "real (m + 1) \<le> real (2 ^ 53)" by (simp_all only: of_nat_le_iff)
  then have "2 ^ 52 \<le> real m" "real m + 1 \<le> 2 ^ 53" by simp_all
  then have low: "2 ^ 52 - 1 / 2 < y" "y < 2 ^ 53 - 1 / 2" using y(1) by linarith+
  have "(0::real) \<le> 2 ^ 52 - 1 / 2" by simp
  with low(1) have "0 < y" by linarith
  then have n: "0 < n" using x by (cases n) auto
  show ?thesis
  proof (cases "2 ^ 52 \<le> y")
    case True
    have "2 powi (e + 52) \<le> real n / real d" "real n / real d < 2 powi (e + 52 + 1)"
      using True low(2) by (simp_all add: x powi_split)
    from floor_log2_between [OF n d this] have fl: "floor_log2 n d = e + 52" .
    have r: "round_at 2 n d e = m" using y(1) by (intro round_at_near [OF d]) (simp add: y_def)
    have "round_frac s n d = Fin s m e"
      using n e m r by (simp add: round_frac_def fl Let_def max_def)
    moreover have "\<not> frac_underflows n d" using e by (simp add: frac_underflows_def fl Let_def)
    ultimately show ?thesis by blast
  next
    case False
    then have "real m < 2 ^ 52 + 1" using y(1) by linarith
    then have "real m < real (2 ^ 52 + 1)" by simp
    then have "m < 2 ^ 52 + 1" by (simp only: of_nat_less_iff)
    with m(1) have m52: "m = 2 ^ 52" by linarith
    have q: "2 ^ 52 - 1 / 4 < y" using y(2) [OF m52] by (simp add: m52)
    have "2 powi (e + 51) \<le> real n / real d" "real n / real d < 2 powi (e + 51 + 1)"
      using False low(1) by (simp_all add: x powi_split)
    from floor_log2_between [OF n d this] have fl: "floor_log2 n d = e + 51" .
    have half: "real n / real d / 2 powi (e - 1) = 2 * y" by (simp add: x power_int_diff)
    have r1: "round_at 2 n d (e - 1) = 2 ^ 53"
      using round_at_near [OF d, of n "e - 1" "2 ^ 53", unfolded half] False q by (simp add: abs_less_iff)
    have r0: "round_at 2 n d e = 2 ^ 52" using y(1) by (intro round_at_near [OF d]) (simp add: y_def m52)
    show ?thesis
    proof (cases "e = - 1074")
      case True
      then show ?thesis using n r0 r1 by (simp add: round_frac_def frac_underflows_def fl Let_def m52)
    next
      case False
      with e have "- 1074 \<le> e - 1" by linarith
      then have "max (e - 1) (- 1074) = e - 1" "\<not> e - 1 < - 1074" by simp_all
      then show ?thesis using n r1 e by (simp add: round_frac_def frac_underflows_def fl Let_def m52)
    qed
  qed
qed

section \<open>The decimal of \<open>%1.17g\<close>\<close>

lemma powi_less_cancel10: "(10::real) powi i < 10 powi j \<Longrightarrow> i < j"
  using power_int_increasing [of j i "10::real"] by (cases "j \<le> i") simp_all

lemma show_nat_powi:
  assumes "0 < n"
  shows "10 powi (int (length (show_nat n)) - 1) \<le> real n" and "real n < 10 powi int (length (show_nat n))"
  using show_nat_bounds [OF assms] powi_pred [of "length (show_nat n)"] powi_len [of "length (show_nat n)"]
  by (simp_all only: of_nat_le_iff of_nat_less_iff length_greater_0_conv show_nat_ne not_False_eq_True True_implies_equals)

lemma floor_log10_real:
  assumes "0 < n" and "0 < d"
  shows "10 powi floor_log10 n d \<le> real n / real d" and "real n / real d < 10 powi (floor_log10 n d + 1)"
proof -
  let ?l = "int (length (show_nat n))" and ?ld = "int (length (show_nat d))"
  let ?k = "?l - ?ld"
  note bn = show_nat_powi [OF assms(1)] and bd = show_nat_powi [OF assms(2)]
  have split: "(10::real) powi (i + j) = 10 powi i * 10 powi j" for i j by (simp add: power_int_add)
  have up: "real n / real d < 10 powi (?k + 1)"
  proof -
    have "real n < 10 powi (?k + 1) * 10 powi (?ld - 1)" using bn(2) by (simp flip: split)
    also have "\<dots> \<le> 10 powi (?k + 1) * real d" using bd(1) by (intro mult_left_mono) auto
    finally show ?thesis using assms(2) by (simp add: field_simps)
  qed
  have lo: "10 powi (?k - 1) \<le> real n / real d"
  proof -
    have "10 powi (?k - 1) * real d \<le> 10 powi (?k - 1) * 10 powi ?ld" using bd(2) by (intro mult_left_mono) auto
    also have "\<dots> = 10 powi (?l - 1)" unfolding split [symmetric] by simp
    also have "\<dots> \<le> real n" by (rule bn(1))
    finally show ?thesis using assms(2) by (simp add: field_simps)
  qed
  from up lo show "10 powi floor_log10 n d \<le> real n / real d" "real n / real d < 10 powi (floor_log10 n d + 1)"
    by (auto simp: floor_log10_def Let_def frac_ge_pow_real [of 10, OF _ assms(2), simplified] not_le)
qed

lemma round_at_real10:
  assumes "0 < d"
  shows "\<bar>real (round_at 10 n d e) * 10 powi e - real n / real d\<bar> \<le> 10 powi e / 2"
    and "real m \<le> real n / real d / 10 powi e \<Longrightarrow> m \<le> round_at 10 n d e"
    and "real n / real d / 10 powi e \<le> real m \<Longrightarrow> round_at 10 n d e \<le> m"
proof -
  obtain x y where xy: "scaled 10 n d e = (x, y)" by fastforce
  have y: "0 < y" using assms xy by (auto simp: scaled_def split: if_splits)
  have q: "real x / real y = real n / real d / 10 powi e"
    using assms xy by (auto simp: scaled_def power_int_def field_simps split: if_splits)
  have "\<bar>real (rne x y) - real x / real y\<bar> * 10 powi e \<le> 1 / 2 * 10 powi e"
    using rne_real [OF y, of x] by (intro mult_right_mono) auto
  then have "\<bar>(real (rne x y) - real x / real y) * 10 powi e\<bar> \<le> 10 powi e / 2" by (simp add: abs_mult)
  then show "\<bar>real (round_at 10 n d e) * 10 powi e - real n / real d\<bar> \<le> 10 powi e / 2"
    by (simp add: round_at_def xy q left_diff_distrib)
  show "real m \<le> real n / real d / 10 powi e \<Longrightarrow> m \<le> round_at 10 n d e"
    unfolding q [symmetric] by (simp add: round_at_def xy rne_ge y)
  show "real n / real d / 10 powi e \<le> real m \<Longrightarrow> round_at 10 n d e \<le> m"
    unfolding q [symmetric] by (simp add: round_at_def xy rne_le y)
qed

lemma decimal17_real:
  assumes "0 < n" and "0 < d" and "decimal17 n d = (c, k)"
  shows "10 ^ 16 \<le> c \<and> c < 10 ^ 17 \<and> \<bar>real c * 10 powi (k - 16) - real n / real d\<bar> \<le> real n / real d / (2 * 10 ^ 16)"
proof -
  define k0 q where "k0 = floor_log10 n d" and "q = round_at 10 n d (k0 - 16)"
  note l = floor_log10_real [OF assms(1,2), folded k0_def]
  note r = round_at_real10 [OF assms(2), where n = n and e = "k0 - 16", folded q_def]
  have scale: "(10::real) powi i / 10 powi (k0 - 16) = 10 powi (i - (k0 - 16))" for i by (simp add: power_int_diff)
  have "10 powi k0 / 10 powi (k0 - 16) \<le> real n / real d / 10 powi (k0 - 16)"
    "real n / real d / 10 powi (k0 - 16) \<le> 10 powi (k0 + 1) / 10 powi (k0 - 16)"
    using divide_right_mono [OF l(1), of "10 powi (k0 - 16)"] divide_right_mono [OF less_imp_le [OF l(2)], of "10 powi (k0 - 16)"]
    by simp_all
  then have b: "real (10 ^ 16) \<le> real n / real d / 10 powi (k0 - 16)" "real n / real d / 10 powi (k0 - 16) \<le> real (10 ^ 17)"
    unfolding scale by simp_all
  note q = r(2) [OF b(1)] r(3) [OF b(2)]
  have "10 powi (k0 - 16) / 2 = 10 powi k0 / (2 * 10 ^ 16 :: real)" by (simp add: power_int_diff)
  also have "\<dots> \<le> real n / real d / (2 * 10 ^ 16)" using l(1) by (intro divide_right_mono) auto
  finally have err: "\<bar>real q * 10 powi (k0 - 16) - real n / real d\<bar> \<le> real n / real d / (2 * 10 ^ 16)" using r(1) by linarith
  show ?thesis
  proof (cases "q = 10 ^ 17")
    case True
    then have ck: "c = 10 ^ 16" "k = k0 + 1" using assms(3) by (simp_all add: decimal17_def k0_def q_def Let_def)
    have "real c * 10 powi (k - 16) = real q * 10 powi (k0 - 16)"
      by (simp add: ck True power_int_diff power_int_add)
    with err ck(1) show ?thesis by simp
  next
    case False
    then have "c = q" "k = k0" using assms(3) by (auto simp: decimal17_def k0_def q_def Let_def)
    with err q False show ?thesis by simp
  qed
qed

lemma decimal17_near:
  assumes "2 ^ 52 \<le> m" "m < 2 ^ 53" and "fin_frac m e = (n, d)" and "decimal17 n d = (c, k)"
  shows "10 ^ 16 \<le> c \<and> c < 10 ^ 17 \<and> near m e (real c * 10 powi (k - 16))"
proof -
  note f = fin_frac_real [OF assms(3)]
  have m: "0 < m" using assms(1) by (cases m) simp_all
  with f have "0 < real n / real d" by simp
  then have n: "0 < n" by (cases n) auto
  note dec = decimal17_real [OF n f(1) assms(4)]
  define v y t where "v = real c * 10 powi (k - 16)" and "y = v / 2 powi e" and "t = real m / (2 * 10 ^ 16)"
  have "\<bar>v - real m * 2 powi e\<bar> / 2 powi e \<le> real m * 2 powi e / (2 * 10 ^ 16) / 2 powi e"
    using dec unfolding f(2) v_def by (intro divide_right_mono) auto
  then have "\<bar>(v - real m * 2 powi e) / 2 powi e\<bar> \<le> t" by (simp add: t_def)
  then have err: "\<bar>y - real m\<bar> \<le> t" by (simp add: diff_divide_distrib y_def)
  have "real m < real (2 ^ 53)" using assms(2) by (simp only: of_nat_less_iff)
  then have "t < 1 / 2" by (simp add: t_def)
  moreover have "t < 1 / 4" if "m = 2 ^ 52" by (simp add: t_def that)
  ultimately have "\<bar>y - real m\<bar> < 1 / 2" "m = 2 ^ 52 \<Longrightarrow> real m - 1 / 4 < y" using err by linarith+
  with dec show ?thesis by (simp add: near_def flip: v_def y_def)
qed

lemma scale_round_near:
  assumes "2 ^ 52 \<le> m" "m < 2 ^ 53" "- 1074 \<le> e" "e \<le> 971" and "near m e (real M * 10 powi k)"
  shows "scale_round s 10 M k = (Fin s m e, False)"
proof -
  obtain n d where nd: "(if 0 \<le> k then (M * 10 ^ nat k, 1) else (M, 10 ^ nat (- k))) = (n, d :: nat)" by fastforce
  then have d: "0 < d" and q: "real n / real d = real M * 10 powi k"
    by (auto simp: power_int_def field_simps split: if_splits)
  from round_frac_near [OF d assms(1-4), of n s] assms(5) have
    r: "round_frac s n d = Fin s m e" "\<not> frac_underflows n d" by (simp_all add: q)
  then show ?thesis by (simp add: scale_round_def nd Let_def is_finite_def)
qed

section \<open>The text\<close>

lemma strip_zeros_split: "\<exists>j. fp = strip_zeros fp @ replicate j (CHR ''0'')"
proof -
  have "set (takeWhile (\<lambda>c. c = CHR ''0'') (rev fp)) \<subseteq> {CHR ''0''}" by (auto dest: set_takeWhileD)
  then have "takeWhile (\<lambda>c. c = CHR ''0'') (rev fp) = replicate (length (takeWhile (\<lambda>c. c = CHR ''0'') (rev fp))) (CHR ''0'')"
    by (metis replicate_eqI singletonD subsetD)
  moreover have "fp = rev (takeWhile (\<lambda>c. c = CHR ''0'') (rev fp) @ dropWhile (\<lambda>c. c = CHR ''0'') (rev fp))" by simp
  ultimately show ?thesis unfolding strip_zeros_def by (metis rev_append rev_replicate)
qed

lemma read_digits_zeros: "read_digits a (replicate j (CHR ''0'')) = a * 10 ^ j"
  by (induction j arbitrary: a) (simp_all add: is_digit_def digit_val_def)

lemma zeros_read: "read_digits 0 (replicate j (CHR ''0'') @ ds) = read_digits 0 ds"
  by (induction j) (simp_all add: is_digit_def digit_val_def)

text \<open>What comes behind the digits: nothing that a number could go on with.\<close>

definition decimal_end :: "cstring \<Rightarrow> bool" where
  "decimal_end r = (case r of [] \<Rightarrow> True | c # _ \<Rightarrow> \<not> is_digit c \<and> c \<noteq> CHR ''.'')"

lemma take_digits_end:
  assumes "set ds \<subseteq> Collect is_digit" and "decimal_end r \<or> (\<exists>r'. r = CHR ''.'' # r')"
  shows "takeWhile is_digit (ds @ r) = ds" "dropWhile is_digit (ds @ r) = r"
proof -
  have "\<not> is_digit (CHR ''.'')" by (simp add: is_digit_def)
  then have "takeWhile is_digit r = [] \<and> dropWhile is_digit r = r"
    using assms(2) by (cases r) (auto simp: decimal_end_def)
  with assms(1) show "takeWhile is_digit (ds @ r) = ds" "dropWhile is_digit (ds @ r) = r"
    by (auto simp: takeWhile_append2 dropWhile_append2 subset_eq)
qed

lemma scan_point:
  assumes "ip \<noteq> []" and "set ip \<subseteq> Collect is_digit" and "set fp \<subseteq> Collect is_digit" and "decimal_end r"
  shows "scan_mantissa is_digit (with_point ip fp @ r) = (ip, strip_zeros fp, r)"
proof (cases "strip_zeros fp = []")
  case True
  have "scan_mantissa is_digit (ip @ r) = (ip, [], r)"
    unfolding scan_mantissa_def Let_def take_digits_end [OF assms(2) disjI1 [OF assms(4)]]
    using assms(4) by (auto simp: decimal_end_def split: list.split)
  then show ?thesis by (simp add: with_point_def True)
next
  case False
  obtain j where "fp = strip_zeros fp @ replicate j (CHR ''0'')" using strip_zeros_split by blast
  with assms(3) have f: "set (strip_zeros fp) \<subseteq> Collect is_digit" by (metis le_sup_iff set_append)
  note p = take_digits_end [OF assms(2), of "CHR ''.'' # strip_zeros fp @ r"]
  from assms(1) False take_digits_end [OF f disjI1 [OF assms(4)]] show ?thesis
    by (simp add: with_point_def scan_mantissa_def p)
qed

lemma strtod_point:
  assumes "ip \<noteq> []" and "set ip \<subseteq> Collect is_digit" and "set fp \<subseteq> Collect is_digit" and "decimal_end r"
    and "scan_exponent {CHR ''e'', CHR ''E''} r = (x, r')"
    and "2 ^ 52 \<le> m" "m < 2 ^ 53" "- 1074 \<le> e" "e \<le> 971"
    and "near m e (real (read_digits 0 (ip @ fp)) * 10 powi (x - int (length fp)))"
  shows "strtod_decimal s (with_point ip fp @ r) = Some (Fin s m e, False, r')"
proof -
  obtain j where j: "fp = strip_zeros fp @ replicate j (CHR ''0'')" using strip_zeros_split by blast
  let ?f = "strip_zeros fp"
  have f: "set ?f \<subseteq> Collect is_digit" using assms(3) j by (metis le_sup_iff set_append)
  have len: "length fp = length ?f + j" using j by (metis length_append length_replicate)
  have "read_digits 0 (ip @ fp) = read_digits (read_digits 0 (ip @ ?f)) (replicate j (CHR ''0''))"
    using read_digits_append [of "ip @ ?f" 0 "replicate j (CHR ''0'')"] assms(2) f j by auto
  then have "real (read_digits 0 (ip @ fp)) = real (read_digits 0 (ip @ ?f)) * 10 ^ j" by (simp add: read_digits_zeros)
  moreover have "(10::real) powi (x - int (length ?f)) = 10 ^ j * 10 powi (x - int (length fp))"
    unfolding len power_int_of_nat [symmetric] by (subst power_int_add [symmetric]) simp_all
  ultimately have "near m e (real (read_digits 0 (ip @ ?f)) * 10 powi (x - int (length ?f)))" using assms(10) by (simp add: mult.assoc)
  from scale_round_near [OF assms(6-9) this] show ?thesis
    using assms(1) unfolding strtod_decimal_def scan_point [OF assms(1-4)] by (simp add: assms(5))
qed

lemma show_nat_head: "0 < n \<Longrightarrow> hd (show_nat n) \<noteq> CHR ''0''"
proof (induction n rule: show_nat.induct)
  case (1 n)
  show ?case
  proof (cases "n < 10")
    case True
    have "digit_char n \<noteq> digit_char 0"
    proof
      assume "digit_char n = digit_char 0"
      from arg_cong [OF this, of "of_char :: char \<Rightarrow> nat"] True "1.prems" show False by simp
    qed
    with True show ?thesis by (simp add: show_nat_small digit_char_0)
  next
    case False
    with 1 show ?thesis by (simp add: show_nat_step)
  qed
qed

text \<open>The exponent part.\<close>

lemma stops_end: "stops r \<Longrightarrow> decimal_end r"
  by (auto simp: stops_def decimal_end_def is_digit_def split: list.splits)

lemma stops_no_exponent: "stops r \<Longrightarrow> scan_exponent {CHR ''e'', CHR ''E''} r = (0, r)"
  by (auto simp: scan_exponent_def stops_def split: list.splits)

lemma scan_exponent_text:
  assumes "stops r"
  shows "scan_exponent {CHR ''e'', CHR ''E''}
    ((''e'' @ (if k < 0 then ''-'' else ''+'') @ pad_left 2 (show_nat (nat \<bar>k\<bar>))) @ r) = (k, r)"
proof -
  let ?ds = "pad_left 2 (show_nat (nat \<bar>k\<bar>))"
  have d: "set ?ds \<subseteq> Collect is_digit" using show_nat_digits by (auto simp: pad_left_def is_digit_def)
  have ne: "?ds \<noteq> []" by (simp add: pad_left_def)
  have v: "read_digits 0 ?ds = nat \<bar>k\<bar>" by (simp add: pad_left_def zeros_read read_digits_show)
  have "span_digits (?ds @ r) = (?ds, r)"
    using take_digits_end [OF d disjI1 [OF stops_end [OF assms]]] by (simp add: span_digits_def)
  with ne v show ?thesis by (auto simp: scan_exponent_def scan_sign_def)
qed

section \<open>The text of a normal double\<close>

definition number_char :: "char \<Rightarrow> bool" where
  "number_char c \<longleftrightarrow> is_digit c \<or> c \<in> {CHR ''.'', CHR ''e'', CHR ''+'', CHR ''-''}"

lemma with_point_Cons:
  "with_point (c # ip) fp = c # ip @ (if strip_zeros fp = [] then [] else CHR ''.'' # strip_zeros fp)"
  by (simp add: with_point_def)

lemma with_point_chars:
  assumes "set ip \<subseteq> Collect is_digit" and "set fp \<subseteq> Collect is_digit"
  shows "set (with_point ip fp) \<subseteq> Collect number_char"
proof -
  obtain j where "fp = strip_zeros fp @ replicate j (CHR ''0'')" using strip_zeros_split by blast
  with assms(2) have "set (strip_zeros fp) \<subseteq> Collect is_digit" by (metis le_sup_iff set_append)
  with assms(1) show ?thesis by (auto simp: with_point_def number_char_def Let_def)
qed

lemma g17_body:
  assumes m: "2 ^ 52 \<le> m" "m < 2 ^ 53" "- 1074 \<le> e" "e \<le> 971"
  shows "\<exists>h t. fmt_g17 (Fin s m e) = sign_text s @ h # t \<and> is_digit h \<and> (h = CHR ''0'' \<longrightarrow> (\<exists>t'. t = CHR ''.'' # t')) \<and>
    set t \<subseteq> Collect number_char \<and> (\<forall>r. stops r \<longrightarrow> strtod_decimal s ((h # t) @ r) = Some (Fin s m e, False, r))"
proof -
  obtain n d where nd: "fin_frac m e = (n, d)" by fastforce
  obtain c k where ck: "decimal17 n d = (c, k)" by fastforce
  from decimal17_near [OF m(1,2) nd ck] have c: "10 ^ 16 \<le> c" "c < 10 ^ 17" "near m e (real c * 10 powi (k - 16))" by simp_all
  define ds where "ds = show_nat c"
  have c0: "0 < c" using c(1) by (cases c) simp_all
  have "length ds \<le> 17" unfolding ds_def by (rule length_show_nat) (use c(2) in simp_all)
  moreover have "(10::nat) ^ 16 < 10 ^ length ds" using show_nat_bounds [OF c0] c(1) unfolding ds_def by linarith
  then have "16 < length ds" by (rule power_less_imp_less_exp [rotated]) simp
  ultimately have len: "length ds = 17" by simp
  have dig: "set ds \<subseteq> Collect is_digit" using show_nat_digits by (auto simp: ds_def)
  have rd: "read_digits 0 ds = c" by (simp add: ds_def read_digits_show)
  obtain h u where hu: "ds = h # u" using len by (cases ds) simp_all
  have h: "is_digit h" "h \<noteq> CHR ''0''" using dig show_nat_head [OF c0] hu by (simp_all add: ds_def)
  have m0: "m \<noteq> 0" using m(1) by (cases m) simp_all
  let ?E = "''e'' @ (if k < 0 then ''-'' else ''+'') @ pad_left 2 (show_nat (nat \<bar>k\<bar>))"
  consider (exponent) "k < - 4 \<or> 17 \<le> k" | (plain) "0 \<le> k" "k < 17" | (small) "- 4 \<le> k" "k < 0" by linarith
  then show ?thesis
  proof cases
    case exponent
    then have t: "fmt_g17 (Fin s m e) = sign_text s @ with_point [h] u @ ?E"
      by (simp add: fmt_g17_def m0 nd ck Let_def hu flip: ds_def)
    have "strtod_decimal s (with_point [h] u @ ?E @ r) = Some (Fin s m e, False, r)" if r: "stops r" for r
    proof (rule strtod_point [OF _ _ _ _ _ m])
      show "scan_exponent {CHR ''e'', CHR ''E''} (?E @ r) = (k, r)" using scan_exponent_text [OF r, of k] by simp
      show "near m e (real (read_digits 0 ([h] @ u)) * 10 powi (k - int (length u)))" using c(3) rd len by (simp add: hu)
    qed (use dig hu in \<open>auto simp: decimal_end_def is_digit_def\<close>)
    moreover have "set ?E \<subseteq> Collect number_char" using show_nat_digits by (auto simp: number_char_def pad_left_def is_digit_def)
    moreover have "set (with_point [h] u) \<subseteq> Collect number_char" using dig hu by (intro with_point_chars) auto
    ultimately show ?thesis using h unfolding t with_point_Cons by (intro exI [of _ h]) auto
  next
    case plain
    let ?ip = "take (nat k) u" and ?fp = "drop (nat k) u"
    have t: "fmt_g17 (Fin s m e) = sign_text s @ with_point (h # ?ip) ?fp"
      using plain by (simp add: fmt_g17_def m0 nd ck Let_def hu flip: ds_def)
    have du: "set ?ip \<subseteq> Collect is_digit" "set ?fp \<subseteq> Collect is_digit"
      using dig hu set_take_subset [of "nat k" u] set_drop_subset [of "nat k" u] by auto
    have l: "int (length ?fp) = 16 - k" using len hu plain by simp
    have "strtod_decimal s (with_point (h # ?ip) ?fp @ r) = Some (Fin s m e, False, r)" if r: "stops r" for r
      using c(3) rd h(1) du l by (intro strtod_point [OF _ _ _ stops_end [OF r] stops_no_exponent [OF r] m]) (auto simp: hu)
    moreover have "set (with_point (h # ?ip) ?fp) \<subseteq> Collect number_char" using h(1) du by (intro with_point_chars) auto
    ultimately show ?thesis using h unfolding t with_point_Cons by (intro exI [of _ h]) auto
  next
    case small
    let ?fp = "replicate (nat (- k) - 1) (CHR ''0'') @ ds"
    have t: "fmt_g17 (Fin s m e) = sign_text s @ with_point ''0'' ?fp"
      using small by (simp add: fmt_g17_def m0 nd ck Let_def flip: ds_def)
    have d0: "set ''0'' \<subseteq> Collect is_digit" "set ?fp \<subseteq> Collect is_digit" using dig by (auto simp: is_digit_def)
    have l: "int (length ?fp) = 16 - k" using len small by simp
    have rd0: "read_digits 0 (''0'' @ ?fp) = c" using zeros_read [of "Suc (nat (- k) - 1)" ds] rd by simp
    have "strtod_decimal s (with_point ''0'' ?fp @ r) = Some (Fin s m e, False, r)" if r: "stops r" for r
      using c(3) rd0 d0 l by (intro strtod_point [OF _ _ _ stops_end [OF r] stops_no_exponent [OF r] m]) simp_all
    moreover have "set (with_point ''0'' ?fp) \<subseteq> Collect number_char" using d0 by (rule with_point_chars)
    moreover have "strip_zeros ?fp \<noteq> []"
    proof
      assume "strip_zeros ?fp = []"
      then obtain j where "?fp = replicate j (CHR ''0'')" using strip_zeros_split [of ?fp] by auto
      moreover have "h \<in> set ?fp" by (simp add: hu)
      ultimately show False using h(2) by (metis in_set_replicate)
    qed
    ultimately show ?thesis unfolding t with_point_Cons by (intro exI [of _ "CHR ''0''"]) (auto simp: is_digit_def)
  qed
qed

lemma number_text:
  assumes "zero_or_normal x"
  obtains s h t where "fmt_g17 x = sign_text s @ h # t" "is_digit h" "h = CHR ''0'' \<Longrightarrow> t = [] \<or> (\<exists>t'. t = CHR ''.'' # t')"
    "set t \<subseteq> Collect number_char" "\<And>r. stops r \<Longrightarrow> strtod_decimal s ((h # t) @ r) = Some (x, False, r)"
proof (cases x)
  case (Fin s m e)
  show thesis
  proof (cases "m = 0")
    case True
    with assms Fin have x: "x = Fin s 0 (- 1074)" by (simp add: zero_or_normal_def)
    have "strtod_decimal s (''0'' @ r) = Some (x, False, r)" if r: "stops r" for r
    proof -
      have "scan_mantissa is_digit (with_point ''0'' [] @ r) = (''0'', strip_zeros [], r)"
        by (rule scan_point [OF _ _ _ stops_end [OF r]]) (simp_all add: is_digit_def)
      then show ?thesis using stops_no_exponent [OF r]
        by (simp add: strtod_decimal_def with_point_def strip_zeros_def is_digit_def digit_val_def scale_round_def
            round_frac_def frac_underflows_def is_finite_def x)
    qed
    then show thesis by (intro that [of s "CHR ''0''" "[]"]) (simp_all add: x fmt_g17_def is_digit_def)
  next
    case False
    with assms Fin have "2 ^ 52 \<le> m" "m < 2 ^ 53" "- 1074 \<le> e" "e \<le> 971" by (simp_all add: zero_or_normal_def)
    from g17_body [OF this, of s] that show thesis unfolding Fin by blast
  qed
qed (use assms in \<open>simp_all add: zero_or_normal_def\<close>)

lemma no_hex_number:
  assumes "set t \<subseteq> Collect number_char" and "stops r"
  shows "\<not> prefix_nocase ''0x'' ((h # t) @ r)"
proof -
  have no: "lower c \<noteq> CHR ''x''" if "number_char c \<or> c \<in> {CHR '','', CHR '']'', CHR ''}'', CHR 0x0A}" for c
    using that lower_digit [of c] by (auto simp: number_char_def lower_def is_digit_def)
  have "lower c \<noteq> CHR ''x''" if "t @ r = c # w" for c w
  proof (rule no)
    show "number_char c \<or> c \<in> {CHR '','', CHR '']'', CHR ''}'', CHR 0x0A}"
      using that assms by (cases t) (auto simp: stops_def)
  qed
  then show ?thesis by (cases "t @ r") (auto simp: prefix_nocase_def)
qed

theorem strtod_g17:
  assumes "zero_or_normal x" and "stops r"
  shows "strtod (fmt_g17 x @ r) = (x, False, r)"
proof -
  from number_text [OF assms(1)] obtain s h t where
    t: "fmt_g17 x = sign_text s @ h # t" "is_digit h" "set t \<subseteq> Collect number_char"
      "strtod_decimal s ((h # t) @ r) = Some (x, False, r)" using assms(2) by metis
  have sd: "starts_digit ((h # t) @ r)" using t(2) by (simp add: starts_digit_def)
  have sign: "scan_sign (skip_ws (fmt_g17 x @ r)) = (s, (h # t) @ r)"
    using skip_ws_digits [OF sd] scan_sign_digits [OF sd]
    by (cases s) (simp_all add: t(1) sign_text_def scan_sign_def skip_ws_def isspace_def)
  have "\<not> is_digit (CHR ''i'')" "\<not> is_digit (CHR ''n'')" by (simp_all add: is_digit_def)
  then show ?thesis
    using no_prefix_digit [OF sd] no_hex_number [OF t(3) assms(2), of h] t(4) by (simp add: strtod_def sign)
qed

text \<open>Integers of at most 53 bits are such numbers.\<close>

lemma int_zero_or_normal: "\<bar>i\<bar> < 2 ^ 53 \<Longrightarrow> zero_or_normal (double_of_int i)"
proof (cases "i = 0")
  case True
  then show ?thesis by (simp add: double_of_int_def round_frac_def zero_or_normal_def)
next
  case False
  assume "\<bar>i\<bar> < 2 ^ 53"
  with False have n: "0 < nat \<bar>i\<bar>" "nat \<bar>i\<bar> < 2 ^ 53" by (simp_all add: nat_less_iff)
  show ?thesis
  proof (rule round_frac_cases [OF n(1), of 1 "i < 0"])
    fix q e
    assume r: "round_frac (i < 0) (nat \<bar>i\<bar>) 1 = (if 971 < e then Infinite (i < 0) else Fin (i < 0) q e)"
      and b: "q < 2 ^ 53" "- 1074 \<le> e" "2 ^ 52 \<le> q \<or> e = - 1074"
    from round_frac_nat [OF n, of "i < 0"] obtain k where k: "round_frac (i < 0) (nat \<bar>i\<bar>) 1 = Fin (i < 0) (nat \<bar>i\<bar> * 2 ^ k) (- int k)"
      by blast
    with r have "\<not> 971 < e" "q = nat \<bar>i\<bar> * 2 ^ k" "e = - int k" by (simp_all split: if_splits)
    moreover have "k \<noteq> 1074" 
    proof
      assume "k = 1074"
      then have "(2::nat) ^ 1074 \<le> q" using n(1) \<open>q = nat \<bar>i\<bar> * 2 ^ k\<close> by simp
      moreover have "(2::nat) ^ 53 \<le> 2 ^ 1074" by (rule power_increasing) simp_all
      ultimately show False using b(1) by linarith
    qed
    ultimately show ?thesis using b r by (auto simp: double_of_int_def zero_or_normal_def)
  qed simp
qed

end
