(* ===== verification/JsonRoundtrip.thy ===== *)
theory JsonRoundtrip
  imports JsonSerialize NumberRoundtrip
begin

text \<open>
  The parser and the serialiser of \<^verbatim>\<open>common/parson.c\<close> together: the text of a well-formed
  value is a C string, and parsing it gives the value back, in both layouts. The lemmas follow
  the text: strings with their escapes, the items between two brackets, numbers, then whole
  values by induction; \<open>reads\<close> hides the fuel.
\<close>


unbundle bit_operations_syntax

section \<open>Strings\<close>

lemma hex_char_digit: "d < 16 \<Longrightarrow> hex_char_to_int (hex_digit d) = int d"
  by (auto simp: hex_char_to_int_def hex_digit_def Let_def)

lemma hex_digit_plain: "d < 16 \<Longrightarrow> hex_digit d \<noteq> CHR 0x22 \<and> hex_digit d \<noteq> CHR 0x5C \<and> hex_digit d \<noteq> CHR 0x00"
  using hex_char_digit [of d] by (auto simp: hex_char_to_int_def Let_def)

lemma parse_utf16_control:
  assumes "n < 32"
  shows "parse_utf16 (CHR ''u'' # CHR ''0'' # CHR ''0'' # hex_digit (n div 16) # hex_digit (n mod 16) # t) = Some ([char_of n], t)"
proof -
  have d: "n div 16 < 16" "n mod 16 < 16" using assms by auto
  have z: "hex_char_to_int (CHR ''0'') = 0" by (simp add: hex_char_to_int_def)
  have ne: "int k \<noteq> - 1" for k by linarith
  have "n \<in> {0..<32}" using assms by simp
  then have cp: "(push_bit 4 (word_of_nat (n div 16)) OR word_of_nat (n mod 16) :: u32) = word_of_nat n"
    unfolding atLeastLessThan_upt by (simp add: upt_rec) (elim disjE; simp)
  have small: "(word_of_nat n :: u32) < 0x80" "unat (word_of_nat n :: u32) = n"
    using assms by (simp_all add: word_less_nat_alt unat_of_nat)
  have "parse_utf16_hex (CHR ''0'' # CHR ''0'' # hex_digit (n div 16) # hex_digit (n mod 16) # t) = Some (word_of_nat n)"
    by (simp add: z hex_char_digit d ne cp)
  with small show ?thesis by (simp add: parse_utf16_def byte_char_def)
qed

lemma escape_char_cases:
  obtains (short) x where "escape_char c = [CHR 0x5C, x]" "x \<noteq> CHR ''u''" "simple_escape x = Some c"
    | (control) "(of_char c :: nat) < 32"
        "escape_char c = [CHR 0x5C, CHR ''u'', CHR ''0'', CHR ''0'', hex_digit (of_char c div 16), hex_digit (of_char c mod 16)]"
    | (plain) "escape_char c = [c]" "c \<noteq> CHR 0x22" "c \<noteq> CHR 0x5C" "\<not> (of_char c :: nat) < 32"
proof (cases "c \<in> {CHR 0x22, CHR 0x5C, CHR 0x08, CHR 0x0C, CHR 0x0A, CHR 0x0D, CHR 0x09}")
  case True
  then have "\<exists>x. escape_char c = [CHR 0x5C, x] \<and> x \<noteq> CHR ''u'' \<and> simple_escape x = Some c"
    by (auto simp: escape_char_def simple_escape_def)
  with short show thesis by blast
next
  case False
  show thesis
  proof (cases "(of_char c :: nat) < 32")
    case True
    show thesis by (rule control) (use True False in \<open>simp_all add: escape_char_def\<close>)
  next
    case n: False
    show thesis by (rule plain) (use n False in \<open>simp_all add: escape_char_def\<close>)
  qed
qed

lemma process_written: "process_string (length (concat (map escape_char s))) (concat (map escape_char s) @ t) = Some s"
proof (induction s)
  case Nil
  show ?case by (cases t) auto
next
  case (Cons c s)
  let ?e = "concat (map escape_char s)"
  show ?case
  proof (cases rule: escape_char_cases [of c])
    case short
    with Cons show ?thesis by simp
  next
    case control
    with Cons parse_utf16_control [of "of_char c" "?e @ t"] show ?thesis by simp
  next
    case plain
    with Cons show ?thesis by simp
  qed
qed

lemma quote_end_written: "quote_end (concat (map escape_char s) @ CHR 0x22 # r) = Some r"
proof (induction s)
  case (Cons c s)
  have "quote_end (escape_char c @ x) = quote_end x" for x
  proof (cases rule: escape_char_cases [of c])
    case control
    with hex_digit_plain [of "of_char c div 16"] hex_digit_plain [of "of_char c mod 16"] show ?thesis by simp
  qed simp_all
  with Cons show ?case by simp
qed simp

lemma quoted_written: "nul_free s \<Longrightarrow> get_quoted_string (json_serialize_string s @ r) = Some (s, r)"
proof -
  assume s: "nul_free s"
  let ?e = "concat (map escape_char s)"
  have w: "json_serialize_string s @ r = CHR 0x22 # ?e @ CHR 0x22 # r" by (simp add: json_serialize_string_def)
  have "skip_quotes (CHR 0x22 # ?e @ CHR 0x22 # r) = Some r" by (simp add: skip_quotes_def quote_end_written)
  with process_written [of s "CHR 0x22 # r"] s show ?thesis
    by (simp add: get_quoted_string_def w)
qed

lemma escape_char_nul_free: "c \<noteq> CHR 0x00 \<Longrightarrow> nul_free (escape_char c)"
proof (cases rule: escape_char_cases [of c])
  case control
  with hex_digit_plain [of "of_char c div 16"] hex_digit_plain [of "of_char c mod 16"] show ?thesis by simp
qed (auto simp: simple_escape_def)

lemma written_nul_free: "nul_free s \<Longrightarrow> nul_free (json_serialize_string s)"
proof -
  assume "nul_free s"
  then have "nul_free (concat (map escape_char s))" by (induction s) (simp_all add: escape_char_nul_free)
  then show ?thesis by (simp add: json_serialize_string_def)
qed

section \<open>What is written between brackets\<close>

text \<open>The text after the opening bracket and its line end: the items, then the closing bracket.\<close>

fun between :: "nat \<Rightarrow> bool \<Rightarrow> char \<Rightarrow> cstring list \<Rightarrow> cstring" where
  "between level p cl [] = (if p then append_indent level else []) @ [cl]"
| "between level p cl (i # items) =
     (if p then append_indent (level + 1) else []) @ i @ (if items \<noteq> [] then '','' else [])
       @ (if p then [CHR 0x0A] else []) @ between level p cl items"

lemma concat_between:
  "concat (map (\<lambda>i. (if p then append_indent (level + 1) else []) @ items ! i @ (if i < length items - 1 then '','' else [])
       @ (if p then [CHR 0x0A] else [])) [0..<length items]) @ (if p then append_indent level else []) @ [cl]
     = between level p cl items"
proof (induction items)
  case (Cons x items)
  have comma: "(0 < length (x # items) - 1) = (items \<noteq> [])"
    "(Suc i < length (x # items) - 1) = (i < length items - 1)" for i by auto
  show ?case
    unfolding length_Cons [of x items] map_upt_Suc concat.simps nth_Cons_0 nth_Cons_Suc between.simps Cons.IH [symmetric]
    by (simp add: comma [simplified])
qed simp

lemma bracketed_between:
  "bracketed level p op cl items =
    (if items = [] then [op, cl] else op # (if p then [CHR 0x0A] else []) @ between level p cl items)"
  using concat_between [of p level items cl] by (cases items) (auto simp: bracketed_def Let_def)

section \<open>The parser reads what is written between brackets\<close>

lemma skip_ws_append: "\<forall>c \<in> set w. isspace c \<Longrightarrow> skip_ws (w @ s) = skip_ws s"
  by (induction w) (simp_all add: skip_ws_def)

lemma skip_ws_Cons: "\<not> isspace c \<Longrightarrow> skip_ws (c # s) = c # s"
  by (simp add: skip_ws_def)

lemma skip_ws_idem [simp]: "skip_ws (skip_ws s) = skip_ws s"
  by (simp add: skip_ws_def)

lemma not_isspace [simp]:
  "\<not> isspace (CHR '','')" "\<not> isspace (CHR '']'')" "\<not> isspace (CHR ''}'')" "\<not> isspace (CHR 0x22)" "\<not> isspace (CHR '':'')"
  "\<not> isspace (CHR ''['')" "\<not> isspace (CHR ''{'')"
  by (simp_all add: isspace_def)

lemma line_end_space [simp]: "skip_ws (CHR 0x0A # s) = skip_ws s" "skip_ws (CHR '' '' # s) = skip_ws s"
  by (simp_all add: skip_ws_def isspace_def)

lemma indent_space [simp]: "skip_ws (append_indent n @ s) = skip_ws s"
  by (rule skip_ws_append) (auto simp: append_indent_def isspace_def)

lemma parse_value_skip: "skip_ws s = skip_ws t \<Longrightarrow> parse_value f n s = parse_value f n t"
  by (cases f) (simp_all add: Let_def)

lemma between_ne: "cl \<in> set (between level p cl items)"
  by (induction level p cl items rule: between.induct) auto

lemma skip_between_ne: "\<not> isspace cl \<Longrightarrow> skip_ws (between level p cl items @ r) \<noteq> []"
  using between_ne [of cl level p items] by (auto simp: skip_ws_def dropWhile_eq_Nil_conv)

text \<open>\<open>v\<close> is read back from its text \<open>t\<close> before any text that may follow a value.\<close>

definition reads :: "nat \<Rightarrow> cstring \<Rightarrow> json \<Rightarrow> bool" where
  "reads n t v \<longleftrightarrow> (\<forall>r. stops r \<longrightarrow> (\<exists>f0. \<forall>f \<ge> f0. parse_value f n (t @ r) = Parsed v r))"

lemma stops_rest:
  "cl \<in> {CHR '']'', CHR ''}''} \<Longrightarrow>
    stops ((if items \<noteq> [] then '','' else []) @ (if p then [CHR 0x0A] else []) @ between level p cl items @ r)"
  by (cases items) (auto simp: stops_def)

lemma parse_elements_between:
  assumes "\<And>x. x \<in> set xs \<Longrightarrow> reads n (W x) x" and "xs \<noteq> []"
  shows "\<exists>f0. \<forall>f \<ge> f0. parse_elements f n arr (skip_ws (between level p (CHR '']'') (map W xs) @ r)) = Parsed (JArray (arr @ xs)) r"
  using assms
proof (induction xs arbitrary: arr)
  case (Cons x xs)
  let ?tail = "between level p (CHR '']'') (map W xs) @ r"
  let ?rest = "(if map W xs \<noteq> [] then '','' else []) @ (if p then [CHR 0x0A] else []) @ ?tail"
  have start: "skip_ws (between level p (CHR '']'') (map W (x # xs)) @ r) = skip_ws (W x @ ?rest)" by simp
  have ne: "skip_ws (W x @ ?rest) \<noteq> []" using skip_between_ne [of "CHR '']''" level p "map W (x # xs)" r] start by simp
  from Cons.prems(1) [of x] stops_rest [of "CHR '']''" "map W xs" p level r]
  obtain f1 where f1: "parse_value f n (W x @ ?rest) = Parsed x ?rest" if "f1 \<le> f" for f by (auto simp: reads_def)
  have v: "parse_value f n (skip_ws (W x @ ?rest)) = Parsed x ?rest" if "f1 \<le> f" for f
    using f1 [OF that] parse_value_skip [of "skip_ws (W x @ ?rest)" "W x @ ?rest"] by simp
  show ?case
  proof (cases xs)
    case Nil
    then have "skip_ws ?rest = CHR '']'' # r" by (simp add: skip_ws_Cons)
    then have "parse_elements (Suc f) n arr (skip_ws (W x @ ?rest)) = Parsed (JArray (arr @ [x])) r" if "f1 \<le> f" for f
      unfolding parse_elements.simps if_not_P [OF ne] v [OF that] by (simp add: at_char_def)
    with Nil start show ?thesis by (metis Suc_le_D Suc_le_mono append_Cons append_Nil)
  next
    case (Cons y ys)
    then have "skip_ws ?rest = CHR '','' # (if p then [CHR 0x0A] else []) @ ?tail" by (simp add: skip_ws_Cons)
    then have step: "parse_elements (Suc f) n arr (skip_ws (W x @ ?rest)) = parse_elements f n (arr @ [x]) (skip_ws ?tail)"
      if "f1 \<le> f" for f
      unfolding parse_elements.simps if_not_P [OF ne] v [OF that] by (simp add: at_char_def)
    from Cons.IH [of "arr @ [x]"] Cons.prems(1) Cons obtain f2 where
      f2: "parse_elements f n (arr @ [x]) (skip_ws ?tail) = Parsed (JArray (arr @ x # xs)) r" if "f2 \<le> f" for f by auto
    have "parse_elements f n arr (skip_ws (W x @ ?rest)) = Parsed (JArray (arr @ x # xs)) r" if "Suc (max f1 f2) \<le> f" for f
      using that step [of "f - 1"] f2 [of "f - 1"] by (cases f) auto
    with start show ?thesis by metis
  qed
qed simp

definition member_text :: "bool \<Rightarrow> (json \<Rightarrow> cstring) \<Rightarrow> cstring \<times> json \<Rightarrow> cstring" where
  "member_text p W m = json_serialize_string (fst m) @ '':'' @ (if p then '' '' else []) @ W (snd m)"

lemma parse_members_between:
  assumes "\<And>k v. (k, v) \<in> set ms \<Longrightarrow> nul_free k \<and> reads n (W v) v" and "ms \<noteq> []"
    and "distinct (map fst ms)" and "fst ` set ms \<inter> fst ` set obj = {}"
  shows "\<exists>f0. \<forall>f \<ge> f0. parse_members f n obj (skip_ws (between level p (CHR ''}'') (map (member_text p W) ms) @ r)) =
    Parsed (JObject (obj @ ms)) r"
  using assms
proof (induction ms arbitrary: obj)
  case (Cons m ms)
  obtain k x where m: "m = (k, x)" by fastforce
  let ?tail = "between level p (CHR ''}'') (map (member_text p W) ms) @ r"
  let ?rest = "(if map (member_text p W) ms \<noteq> [] then '','' else []) @ (if p then [CHR 0x0A] else []) @ ?tail"
  let ?given = "(if p then '' '' else []) @ W x @ ?rest"
  let ?s = "json_serialize_string k @ '':'' @ ?given"
  have start: "skip_ws (between level p (CHR ''}'') (map (member_text p W) (m # ms)) @ r) = ?s"
    by (simp add: m member_text_def json_serialize_string_def skip_ws_Cons)
  have ne: "?s \<noteq> []" by simp
  from Cons.prems(1) [of k x] have kx: "nul_free k" "reads n (W x) x" by (auto simp: m)
  have name: "get_quoted_string ?s = Some (k, '':'' @ ?given)" using kx(1) by (rule quoted_written)
  have colon: "skip_ws ('':'' @ ?given) = '':'' @ ?given" by (simp add: skip_ws_Cons)
  have add: "json_object_add obj k x = (JSONSuccess, obj @ [(k, x)])"
    using Cons.prems(4) by (auto simp: m json_object_add_def json_object_getn_value_map_of map_of_eq_None_iff split: option.splits)
  from kx(2) stops_rest [of "CHR ''}''" "map (member_text p W) ms" p level r]
  obtain f1 where f1: "parse_value f n (W x @ ?rest) = Parsed x ?rest" if "f1 \<le> f" for f by (auto simp: reads_def)
  have v: "parse_value f n ?given = Parsed x ?rest" if "f1 \<le> f" for f
    using f1 [OF that] parse_value_skip [of "?given" "W x @ ?rest"] by simp
  have member: "parse_members (Suc f) n obj ?s =
      (let s4 = skip_ws ?rest in
       if at_char (CHR '','') s4 then parse_members f n (obj @ [(k, x)]) (skip_ws (tl s4))
       else if at_char (CHR ''}'') s4 then Parsed (JObject (obj @ [(k, x)])) (tl s4) else Failed)" if "f1 \<le> f" for f
    unfolding parse_members.simps if_not_P [OF ne] name option.case prod.case colon Let_def
    using v [OF that] by (simp add: add at_char_def)
  show ?case
  proof (cases ms)
    case Nil
    then have "skip_ws ?rest = CHR ''}'' # r" by (simp add: skip_ws_Cons)
    then have "parse_members (Suc f) n obj ?s = Parsed (JObject (obj @ [m])) r" if "f1 \<le> f" for f
      unfolding member [OF that] by (simp add: at_char_def m)
    with Nil start show ?thesis by (metis Suc_le_D Suc_le_mono)
  next
    case (Cons y ys)
    then have "skip_ws ?rest = CHR '','' # (if p then [CHR 0x0A] else []) @ ?tail" by (simp add: skip_ws_Cons)
    then have step: "parse_members (Suc f) n obj ?s = parse_members f n (obj @ [m]) (skip_ws ?tail)" if "f1 \<le> f" for f
      unfolding member [OF that] by (simp add: at_char_def m)
    from Cons.IH [of "obj @ [m]"] Cons.prems Cons obtain f2 where
      f2: "parse_members f n (obj @ [m]) (skip_ws ?tail) = Parsed (JObject (obj @ m # ms)) r" if "f2 \<le> f" for f by auto
    have "parse_members f n obj ?s = Parsed (JObject (obj @ m # ms)) r" if "Suc (max f1 f2) \<le> f" for f
      using that step [of "f - 1"] f2 [of "f - 1"] by (cases f) auto
    with start show ?thesis by metis
  qed
qed simp

section \<open>The parser reads a number\<close>

lemma parse_number_text:
  assumes "zero_or_normal x" and "stops r"
  shows "parse_number_value (fmt_g17 x @ r) = Parsed (JNumber x) r"
    and "\<exists>c t. fmt_g17 x @ r = c # t \<and> (c = CHR ''-'' \<or> is_digit c)"
proof -
  from number_text [OF assms(1)] obtain s h t where
    t: "fmt_g17 x = sign_text s @ h # t" "is_digit h" "h = CHR ''0'' \<Longrightarrow> t = [] \<or> (\<exists>t'. t = CHR ''.'' # t')"
      "set t \<subseteq> Collect number_char" by metis
  have "\<not> number_char (CHR ''x'')" "\<not> number_char (CHR ''X'')" by (simp_all add: number_char_def is_digit_def)
  with t(4) have x: "c \<noteq> CHR ''x'' \<and> c \<noteq> CHR ''X''" if "c \<in> set t" for c using that by blast
  have h: "h \<noteq> CHR ''-''" "h \<noteq> CHR ''x''" "h \<noteq> CHR ''X''" using digit_not_special [OF t(2)] by simp_all
  have "is_decimal (fmt_g17 x @ r) (length (fmt_g17 x))"
  proof (cases t)
    case Nil
    with h show ?thesis by (simp add: is_decimal_def t(1) sign_text_def)
  next
    case (Cons c t')
    with t(3) have "h = CHR ''0'' \<Longrightarrow> c = CHR ''.''" by simp
    with h x show ?thesis by (simp add: is_decimal_def t(1) sign_text_def Cons)
  qed
  moreover have "json_value_init_number x = Some (JNumber x)"
    using assms(1) by (cases x) (auto simp: json_value_init_number_def is_finite_def zero_or_normal_def)
  ultimately show "parse_number_value (fmt_g17 x @ r) = Parsed (JNumber x) r"
    by (simp add: parse_number_value_def strtod_g17 [OF assms])
  show "\<exists>c t. fmt_g17 x @ r = c # t \<and> (c = CHR ''-'' \<or> is_digit c)" using t(2) by (cases s) (simp_all add: t(1) sign_text_def)
qed

text \<open>All numbers of the value are integers of at most 53 bits.\<close>

fun json_integral :: "json \<Rightarrow> bool" where
  "json_integral (JObject obj) = (\<forall>(n, v) \<in> set obj. json_integral v)"
| "json_integral (JArray xs) = (\<forall>v \<in> set xs. json_integral v)"
| "json_integral (JNumber d) =
     (case trunc_double d of None \<Rightarrow> False | Some i \<Rightarrow> \<bar>i\<bar> < 2 ^ 53 \<and> d = double_of_int i)"
| "json_integral _ = True"

text \<open>All numbers of the value are zero or normal doubles, that is, not subnormal.\<close>

fun json_normal :: "json \<Rightarrow> bool" where
  "json_normal (JObject obj) = (\<forall>(n, v) \<in> set obj. json_normal v)"
| "json_normal (JArray xs) = (\<forall>v \<in> set xs. json_normal v)"
| "json_normal (JNumber d) = zero_or_normal d"
| "json_normal _ = True"

lemma integral_normal: "json_integral v \<Longrightarrow> json_normal v"
  by (induction v rule: json_normal.induct) (fastforce simp: int_zero_or_normal split: option.splits)+

lemma reads_scalar:
  assumes "n \<le> MAX_NESTING" and "\<And>r. stops r \<Longrightarrow> \<exists>c t'. t @ r = c # t' \<and> \<not> isspace c \<and> c \<noteq> CHR ''{'' \<and> c \<noteq> CHR ''['' \<and>
    parse_scalar (t @ r) = Parsed v r"
  shows "reads n t v"
  unfolding reads_def
proof (intro allI impI exI)
  fix r f assume r: "stops r" and f: "Suc 0 \<le> f"
  from assms(2) [OF r] obtain c t' where c: "t @ r = c # t'" "\<not> isspace c" "c \<noteq> CHR ''{''" "c \<noteq> CHR ''[''"
    "parse_scalar (t @ r) = Parsed v r" by blast
  from f obtain f' where "f = Suc f'" by (cases f) auto
  with assms(1) c show "parse_value f n (t @ r) = Parsed v r"
    by (simp add: skip_ws_Cons at_char_def)
qed

lemma reads_string: "n \<le> MAX_NESTING \<Longrightarrow> nul_free s \<Longrightarrow> reads n (json_serialize_string s) (JString s)"
proof (rule reads_scalar)
  fix r assume "nul_free s"
  from quoted_written [OF this, of r]
  have "parse_scalar (json_serialize_string s @ r) = Parsed (JString s) r"
    by (simp add: parse_scalar_def at_char_def parse_string_value_def) (simp add: json_serialize_string_def)
  then show "\<exists>c t'. json_serialize_string s @ r = c # t' \<and> \<not> isspace c \<and> c \<noteq> CHR ''{'' \<and> c \<noteq> CHR ''['' \<and>
      parse_scalar (json_serialize_string s @ r) = Parsed (JString s) r"
    by (simp add: json_serialize_string_def)
qed

lemma reads_number:
  assumes "n \<le> MAX_NESTING" and "zero_or_normal x"
  shows "reads n (fmt_g17 x) (JNumber x)"
proof (rule reads_scalar [OF assms(1)])
  fix r assume r: "stops r"
  from parse_number_text(2) [OF assms(2) r] obtain d t where dt: "fmt_g17 x @ r = d # t" "d = CHR ''-'' \<or> is_digit d" by blast
  have no: "d \<noteq> CHR 0x22" "d \<noteq> CHR ''f''" "d \<noteq> CHR ''t''" "\<not> isspace d" "d \<noteq> CHR ''{''" "d \<noteq> CHR ''[''"
    using dt(2) digit_not_space [of d] by (auto simp: is_digit_def isspace_def)
  have "parse_scalar (fmt_g17 x @ r) = parse_number_value (fmt_g17 x @ r)"
    unfolding dt(1) using dt(2) no by (auto simp: parse_scalar_def at_char_def starts_digit_def)
  with parse_number_text(1) [OF assms(2) r] have "parse_scalar (d # t) = Parsed (JNumber x) r" by (simp add: dt(1))
  with no show "\<exists>c t'. fmt_g17 x @ r = c # t' \<and> \<not> isspace c \<and> c \<noteq> CHR ''{'' \<and> c \<noteq> CHR ''['' \<and>
      parse_scalar (fmt_g17 x @ r) = Parsed (JNumber x) r" unfolding dt(1) by blast
qed

section \<open>The round trip\<close>

lemma json_depth_member:
  "v \<in> set xs \<Longrightarrow> json_depth v < json_depth (JArray xs)"
  "(k, v) \<in> set obj \<Longrightarrow> json_depth v < json_depth (JObject obj)"
  using fold_max_le [of "map json_depth xs" 0 "fold max (map json_depth xs) 0"]
    fold_max_le [of "map (\<lambda>(n, v). json_depth v) obj" 0 "fold max (map (\<lambda>(n, v). json_depth v) obj) 0"] by fastforce+

lemma no_value_at:
  "at_char c s \<Longrightarrow> c \<in> {CHR '']'', CHR 0xEF} \<Longrightarrow> parse_value f n s \<noteq> Parsed v r"
  by (cases f; cases s)
    (auto simp: at_char_def skip_ws_Cons isspace_def parse_scalar_def starts_digit_def is_digit_def)

lemma no_element_at_close: "at_char (CHR '']'') s \<Longrightarrow> parse_elements f n arr s \<noteq> Parsed v r"
  using no_value_at [of "CHR '']''" s] by (cases f) (auto split: parsed.splits)

lemma no_member_at_close: "at_char (CHR ''}'') s \<Longrightarrow> parse_members f n obj s \<noteq> Parsed v r"
  by (cases f; cases s) (auto simp: at_char_def get_quoted_string_def skip_quotes_def)

text \<open>The start of a container, for enough fuel for its contents.\<close>

lemma reads_array:
  assumes n: "n \<le> MAX_NESTING" and "\<And>x. x \<in> set xs \<Longrightarrow> reads (n + 1) (W x) x"
  shows "reads n (bracketed level p (CHR ''['') (CHR '']'') (map W xs)) (JArray xs)"
  unfolding reads_def
proof (intro allI impI)
  fix r
  let ?t = "bracketed level p (CHR ''['') (CHR '']'') (map W xs) @ r"
  show "\<exists>f0. \<forall>f \<ge> f0. parse_value f n ?t = Parsed (JArray xs) r"
  proof (cases "xs = []")
    case True
    then have "parse_value (Suc f) n ?t = Parsed (JArray xs) r" for f
      using n by (simp add: bracketed_between skip_ws_Cons at_char_def)
    then show ?thesis by (metis Suc_le_D)
  next
    case False
    let ?s = "skip_ws (between level p (CHR '']'') (map W xs) @ r)"
    from parse_elements_between [OF assms(2) False, of "[]" level p r] obtain f1 where
      f1: "parse_elements f (n + 1) [] ?s = Parsed (JArray xs) r" if "f1 \<le> f" for f by auto
    have "\<not> at_char (CHR '']'') ?s" using no_element_at_close f1 [OF order_refl] by metis
    moreover have "skip_ws ?t = CHR ''['' # tl ?t" "skip_ws (tl ?t) = ?s" using False by (simp_all add: bracketed_between skip_ws_Cons)
    ultimately have "parse_value (Suc f) n ?t = Parsed (JArray xs) r" if "f1 \<le> f" for f
      using n f1 [OF that] by (simp add: at_char_def Let_def)
    then show ?thesis by (metis Suc_le_D Suc_le_mono)
  qed
qed

lemma reads_object:
  assumes n: "n \<le> MAX_NESTING" and "\<And>k v. (k, v) \<in> set obj \<Longrightarrow> nul_free k \<and> reads (n + 1) (W v) v"
    and "distinct (map fst obj)"
  shows "reads n (bracketed level p (CHR ''{'') (CHR ''}'') (map (member_text p W) obj)) (JObject obj)"
  unfolding reads_def
proof (intro allI impI)
  fix r
  let ?t = "bracketed level p (CHR ''{'') (CHR ''}'') (map (member_text p W) obj) @ r"
  show "\<exists>f0. \<forall>f \<ge> f0. parse_value f n ?t = Parsed (JObject obj) r"
  proof (cases "obj = []")
    case True
    then have "parse_value (Suc f) n ?t = Parsed (JObject obj) r" for f
      using n by (simp add: bracketed_between skip_ws_Cons at_char_def)
    then show ?thesis by (metis Suc_le_D)
  next
    case False
    let ?s = "skip_ws (between level p (CHR ''}'') (map (member_text p W) obj) @ r)"
    from parse_members_between [OF assms(2) False assms(3), of "[]" level p r] obtain f1 where
      f1: "parse_members f (n + 1) [] ?s = Parsed (JObject obj) r" if "f1 \<le> f" for f by auto
    have "\<not> at_char (CHR ''}'') ?s" using no_member_at_close f1 [OF order_refl] by metis
    moreover have "skip_ws ?t = CHR ''{'' # tl ?t" "skip_ws (tl ?t) = ?s" using False by (simp_all add: bracketed_between skip_ws_Cons)
    ultimately have "parse_value (Suc f) n ?t = Parsed (JObject obj) r" if "f1 \<le> f" for f
      using n f1 [OF that] by (simp add: at_char_def Let_def)
    then show ?thesis by (metis Suc_le_D Suc_le_mono)
  qed
qed

lemma json_write_object:
  "distinct (map fst obj) \<Longrightarrow> json_write level p (JObject obj) =
    bracketed level p (CHR ''{'') (CHR ''}'') (map (member_text p (json_write (level + 1) p)) obj)"
proof -
  assume d: "distinct (map fst obj)"
  let ?texts = "map (\<lambda>(n, v). (n, json_write (level + 1) p v)) obj"
  have "map_of ?texts k = Some (json_write (level + 1) p v)" if "(k, v) \<in> set obj" for k v
    using that d by (simp add: map_of_map_snd)
  then have "map (\<lambda>key. json_serialize_string key @ '':'' @ (if p then '' '' else []) @ the (map_of ?texts key)) (map fst obj) =
      map (member_text p (json_write (level + 1) p)) obj"
    by (auto simp: member_text_def)
  then show ?thesis by (simp only: json_write.simps Let_def)
qed

lemma reads_written:
  "json_ok v \<Longrightarrow> json_normal v \<Longrightarrow> json_depth v + n \<le> MAX_NESTING \<Longrightarrow> reads n (json_write level p v) v"
proof (induction level p v arbitrary: n rule: json_write.induct)
  case (1 level p xs)
  then have "reads (n + 1) (json_write (level + 1) p x) x" if "x \<in> set xs" for x
    using that json_depth_member(1) [OF that] by (intro "1.IH") auto
  with "1.prems" show ?case by (simp del: json_depth.simps) (rule reads_array, simp_all)
next
  case (2 level p obj)
  have "nul_free k \<and> reads (n + 1) (json_write (level + 1) p x) x" if "(k, x) \<in> set obj" for k x
    using that json_depth_member(2) [OF that] 2 by fastforce
  with "2.prems" show ?case by (simp add: json_write_object del: json_depth.simps json_write.simps) (rule reads_object, simp_all)
next
  case (3 level p s)
  then show ?case by (simp add: reads_string)
next
  case (4 level p b)
  then show ?case by (intro reads_scalar) (auto simp: parse_scalar_def at_char_def parse_boolean_value_def isspace_def)
next
  case (5 level p d)
  then show ?case by (auto intro: reads_number)
next
  case (6 level p)
  then show ?case by (intro reads_scalar) (auto simp: parse_scalar_def at_char_def parse_null_value_def isspace_def starts_digit_def is_digit_def)
qed

lemma with_point_nul_free: "nul_free a \<Longrightarrow> nul_free b \<Longrightarrow> nul_free (with_point a b)"
  by (auto simp: with_point_def strip_zeros_def nul_free_def Let_def dest: set_dropWhileD)

lemma fmt_g17_nul_free: "nul_free (fmt_g17 d)"
proof -
  have "nul_free (take k s)" "nul_free (drop k s)" if "nul_free s" for k s
    using that by (auto simp: nul_free_def dest: in_set_takeD in_set_dropD)
  moreover have "nul_free (replicate k (CHR ''0''))" for k by (auto simp: nul_free_def)
  ultimately show ?thesis
    by (auto simp: fmt_g17_def sign_text_def pad_left_def Let_def with_point_nul_free split: double.splits prod.splits)
qed

lemma between_nul_free:
  "cl \<noteq> CHR 0x00 \<Longrightarrow> \<forall>i \<in> set items. nul_free i \<Longrightarrow> nul_free (between level p cl items)"
proof (induction level p cl items rule: between.induct)
  have "nul_free (append_indent k)" for k by (auto simp: append_indent_def nul_free_def)
  note this [simp]
  {
    case 1
    then show ?case by simp
  next
    case 2
    then show ?case by simp
  }
qed

lemma json_write_nul_free: "json_ok v \<Longrightarrow> nul_free (json_write level p v)"
proof (induction level p v rule: json_write.induct)
  case (1 level p xs)
  then show ?case by (auto simp: bracketed_between intro!: between_nul_free)
next
  case (2 level p obj)
  then have "nul_free (member_text p (json_write (level + 1) p) m)" if "m \<in> set obj" for m
    using that by (cases m) (fastforce simp: member_text_def written_nul_free)
  with 2 show ?case
    by (auto simp: json_write_object bracketed_between simp del: json_write.simps intro!: between_nul_free)
qed (simp_all add: written_nul_free fmt_g17_nul_free)

lemma parse_normal:
  assumes "json_ok v" and "json_normal v" and "json_depth v \<le> MAX_NESTING"
  shows "json_parse_string (Some (json_write level p v)) = Some v"
proof -
  let ?t = "json_write level p v"
  have "stops []" by (simp add: stops_def)
  with reads_written [OF assms(1,2), of 0 level p] assms(3)
  obtain f0 where "\<forall>f \<ge> f0. parse_value f 0 (?t @ []) = Parsed v []" unfolding reads_def by fastforce
  then have f0: "parse_value (max f0 (2 * length ?t + 2)) 0 ?t = Parsed v []" by simp
  then have "parse_value (2 * length ?t + 2) 0 ?t = Parsed v []"
    using parse_value_stable [of ?t "max f0 (2 * length ?t + 2)" 0] by simp
  moreover have "skip_bom ?t = ?t"
    using f0 no_value_at [of "CHR 0xEF" ?t] by (cases ?t) (auto simp: skip_bom_def at_char_def)
  ultimately show ?thesis using json_write_nul_free [OF assms(1)] by (simp add: json_parse_string_def)
qed

lemma parse_written:
  assumes "json_ok v" and "json_integral v" and "json_depth v \<le> MAX_NESTING"
  shows "json_parse_string (Some (json_write level p v)) = Some v"
  using assms integral_normal by (intro parse_normal)

section \<open>Properties\<close>

text \<open>
  C9: What the serialiser writes the parser reads back, in the compact and in the indented
  layout and at every level of indentation: for a well-formed value (distinct names, no NUL
  bytes) whose brackets nest at most \<open>MAX_NESTING\<close> deep and whose numbers are zero or normal
  doubles, fractions and large numbers included, to the last bit. Strings may hold any other
  byte: quotes, control characters, bytes that are no UTF-8. Subnormal numbers are excluded, as
  \<open>strtod\<close> reports them with \<open>ERANGE\<close> and the parser refuses their text.
\<close>

theorem json_roundtrip:
  assumes "json_ok v" and "json_normal v" and "json_depth v \<le> MAX_NESTING"
  shows "json_parse_string (Some (json_write level p v)) = Some v"
  using assms by (rule parse_normal)

theorem json_roundtrip_witness:
  "let v = JObject [(''k'', JArray [JNumber (Fin True (2 ^ 52 + 1) (- 60)), JString [CHR 0x22, CHR 0x01, CHR 0xFF]])]
   in json_ok v \<and> json_parse_string (Some (json_write 0 True v)) = Some v"
proof -
  let ?v = "JObject [(''k'', JArray [JNumber (Fin True (2 ^ 52 + 1) (- 60)), JString [CHR 0x22, CHR 0x01, CHR 0xFF]])]"
  have ok: "json_ok ?v" by code_simp
  moreover have "json_normal ?v" by (simp add: zero_or_normal_def)
  ultimately show ?thesis using json_roundtrip [of ?v 0 True] by (simp add: MAX_NESTING_def)
qed

end
