(* ===== verification/HashTable.thy ===== *)
theory HashTable
  imports CPrelude "HOL-Library.Multiset"
begin

text \<open>
  The chained hash tables of \<^verbatim>\<open>implementation/tables/\<close>: \<open>hash\<close> of
  \<^verbatim>\<open>hashtable_common.c\<close>, and the operations of \<^verbatim>\<open>hashtable_sensors.c\<close> and
  \<^verbatim>\<open>hashtable_sensorgroups.c\<close>, which are the same code at two types of payload and are
  modelled once, polymorphic in the payload. A table holds pointers: a \<open>store\<close> is a table
  together with the heap its pointers lead to, so that the \<open>free\<close> calls of the code are
  visible. \<open>char\<close> is signed, as on the x86-64 target.

  The locale \<open>keyed_store\<close> is the contract the configuration handlers rely on (fresh keys
  only: \<open>put_existing_dangles\<close> shows why); it is interpreted on the model of the code.
\<close>

section \<open>The hash function\<close>

definition char_u32 :: "char \<Rightarrow> u32" where
  "char_u32 c = scast (of_nat (of_char c) :: u8)"

fun hash :: "cstring option \<Rightarrow> u32 \<Rightarrow> u32 option" where
  "hash None sz = Some 0"
| "hash (Some key) sz =
     (if c_str key \<noteq> [] \<and> sz = 0 then None
      else Some (foldl (\<lambda>h c. (h + char_u32 c) mod sz) 0 (c_str key)))"

lemma foldl_mod_less:
  fixes sz :: u32
  assumes "sz \<noteq> 0" and "h < sz"
  shows "foldl (\<lambda>h c. (h + g c) mod sz) h cs < sz"
  using assms(2)
proof (induction cs arbitrary: h)
  case Nil
  then show ?case by simp
next
  case (Cons c cs)
  have "(h + g c) mod sz < sz"
    using assms(1) by (simp add: word_mod_less_divisor word_neq_0_conv)
  then have "foldl (\<lambda>h c. (h + g c) mod sz) ((h + g c) mod sz) cs < sz" by (rule Cons.IH)
  then show ?case by simp
qed

lemma hash_bound: "sz \<noteq> 0 \<Longrightarrow> \<exists>h. hash k sz = Some h \<and> h < sz"
  by (cases k) (auto simp: foldl_mod_less word_neq_0_conv)

declare hash.simps [simp del]

section \<open>Tables and stores\<close>

record htable =
  ht_size :: u32
  ht_array :: "(cstring \<times> nat) list list"

record 'v store =
  st_table :: "htable option"
  st_heap :: "'v heap"

definition entries :: "htable \<Rightarrow> (cstring \<times> nat) list" where
  "entries t = concat (ht_array t)"

text \<open>\<open>hts_create\<close>: the two flags are the outcomes of the two calls of \<open>malloc\<close>.\<close>

definition ht_create :: "bool \<Rightarrow> bool \<Rightarrow> u32 \<Rightarrow> htable option" where
  "ht_create table_mem array_mem sz =
     (if sz < 1 then None
      else if \<not> table_mem then None
      else if \<not> array_mem then None
      else Some \<lparr>ht_size = sz, ht_array = replicate (unat sz) []\<rparr>)"

definition bucket_index :: "htable \<Rightarrow> cstring \<Rightarrow> nat option" where
  "bucket_index t key = do {
     i \<leftarrow> hash (Some key) (ht_size t);
     require (unat i < length (ht_array t));
     Some (unat i) }"

definition set_bucket :: "nat \<Rightarrow> (cstring \<times> nat) list \<Rightarrow> htable \<Rightarrow> htable" where
  "set_bucket i b t = t\<lparr>ht_array := (ht_array t)[i := b]\<rparr>"

text \<open>Assign the payload of the first node with this key.\<close>

fun chain_assign :: "cstring \<Rightarrow> nat \<Rightarrow> (cstring \<times> nat) list \<Rightarrow> (cstring \<times> nat) list" where
  "chain_assign key p [] = []"
| "chain_assign key p ((k, q) # b) = (if k = key then (k, p) # b else (k, q) # chain_assign key p b)"

text \<open>
  \<open>node_handler_sensors\<close>: a new key goes to the front of its chain. For a key that is
  already there the code frees the old payload, stores the new pointer and then frees the
  new payload as well.
\<close>

definition node_handler :: "cstring \<Rightarrow> nat \<Rightarrow> htable \<Rightarrow> 'v heap \<Rightarrow> (htable \<times> 'v heap) option" where
  "node_handler key p t h = do {
     i \<leftarrow> bucket_index t key;
     let b = ht_array t ! i;
     if b \<noteq> [] then
       (case map_of b key of
          None \<Rightarrow> Some (set_bucket i ((key, p) # b) t, h)
        | Some q \<Rightarrow> do {
            h1 \<leftarrow> hfree q h;
            let t' = set_bucket i (chain_assign key p b) t;
            h2 \<leftarrow> hfree p h1;
            Some (t', h2) })
     else Some (set_bucket i [(key, p)] t, h) }"

definition ht_put :: "bool \<Rightarrow> 'v store \<Rightarrow> cstring \<Rightarrow> nat \<Rightarrow> (nat \<times> 'v store) option" where
  "ht_put node_mem s key p =
     (case st_table s of
        None \<Rightarrow> Some (1, s)
      | Some t \<Rightarrow>
          if \<not> node_mem then Some (1, s)
          else do {
            (t', h') \<leftarrow> node_handler key p t (st_heap s);
            Some (0, s\<lparr>st_table := Some t', st_heap := h'\<rparr>) })"

definition ht_get :: "'v store \<Rightarrow> cstring \<Rightarrow> nat option option" where
  "ht_get s key =
     (case st_table s of
        None \<Rightarrow> Some None
      | Some t \<Rightarrow> do { i \<leftarrow> bucket_index t key; Some (map_of (ht_array t ! i) key) })"

fun chain_unlink :: "cstring \<Rightarrow> (cstring \<times> nat) list \<Rightarrow> (nat \<times> (cstring \<times> nat) list) option" where
  "chain_unlink key [] = None"
| "chain_unlink key ((k, p) # b) =
     (if k = key then Some (p, b)
      else (case chain_unlink key b of None \<Rightarrow> None | Some (q, b') \<Rightarrow> Some (q, (k, p) # b')))"

text \<open>\<open>hts_delete\<close> unlinks the node and returns its payload, which it does not free.\<close>

definition ht_delete :: "'v store \<Rightarrow> cstring \<Rightarrow> (nat option \<times> 'v store) option" where
  "ht_delete s key =
     (case st_table s of
        None \<Rightarrow> Some (None, s)
      | Some t \<Rightarrow> do {
          i \<leftarrow> bucket_index t key;
          case chain_unlink key (ht_array t ! i) of
            None \<Rightarrow> Some (None, s)
          | Some (p, b') \<Rightarrow> Some (Some p, s\<lparr>st_table := Some (set_bucket i b' t)\<rparr>) })"

text \<open>\<open>hts_free\<close>: the payload of every node of every chain is freed, in order.\<close>

definition ht_free :: "'v store \<Rightarrow> 'v heap option" where
  "ht_free s =
     (case st_table s of
        None \<Rightarrow> Some (st_heap s)
      | Some t \<Rightarrow> fold_ub (\<lambda>(k, p) h. hfree p h) (entries t) (st_heap s))"

section \<open>The invariant\<close>

definition table_ok :: "htable \<Rightarrow> bool" where
  "table_ok t \<longleftrightarrow> ht_size t \<noteq> 0 \<and> length (ht_array t) = unat (ht_size t) \<and>
     distinct (map fst (entries t)) \<and>
     (\<forall>i < length (ht_array t). \<forall>(k, p) \<in> set (ht_array t ! i). bucket_index t k = Some i)"

definition store_ok :: "'v store \<Rightarrow> bool" where
  "store_ok s \<longleftrightarrow> heap_ok (st_heap s) \<and>
     (case st_table s of
        None \<Rightarrow> True
      | Some t \<Rightarrow> table_ok t \<and> distinct (map snd (entries t)) \<and>
          (\<forall>(k, p) \<in> set (entries t). cells (st_heap s) p \<noteq> None))"

text \<open>What a store holds under a key, as a partial function.\<close>

definition st_entries :: "'v store \<Rightarrow> (cstring \<times> nat) list" where
  "st_entries s = (case st_table s of None \<Rightarrow> [] | Some t \<Rightarrow> entries t)"

definition store_lookup :: "'v store \<Rightarrow> cstring \<Rightarrow> 'v option" where
  "store_lookup s key = (case map_of (st_entries s) key of None \<Rightarrow> None | Some p \<Rightarrow> cells (st_heap s) p)"

definition store_ready :: "'v store \<Rightarrow> bool" where
  "store_ready s \<longleftrightarrow> store_ok s \<and> st_table s \<noteq> None"

lemma st_entries_Some [simp]: "st_table s = Some t \<Longrightarrow> st_entries s = entries t"
  by (simp add: st_entries_def)

lemma bucket_index_total:
  assumes "ht_size t \<noteq> 0" and "length (ht_array t) = unat (ht_size t)"
  shows "\<exists>i. bucket_index t key = Some i \<and> i < length (ht_array t)"
proof -
  from hash_bound [OF assms(1), of "Some key"] obtain h
    where h: "hash (Some key) (ht_size t) = Some h" "h < ht_size t" by blast
  then have "unat h < length (ht_array t)" using assms(2) by (simp add: word_less_nat_alt)
  with h(1) show ?thesis by (simp add: bucket_index_def)
qed

lemma table_okD:
  assumes "table_ok t"
  shows "\<exists>i. bucket_index t key = Some i \<and> i < length (ht_array t)"
  using assms bucket_index_total by (auto simp: table_ok_def)

lemma bucket_index_set_bucket [simp]: "bucket_index (set_bucket i b t) key = bucket_index t key"
  by (simp add: bucket_index_def set_bucket_def)

lemma set_bucket_simps [simp]:
  "ht_size (set_bucket i b t) = ht_size t"
  "length (ht_array (set_bucket i b t)) = length (ht_array t)"
  by (simp_all add: set_bucket_def)

lemma nth_set_bucket:
  "j < length (ht_array t) \<Longrightarrow> ht_array (set_bucket i b t) ! j = (if j = i then b else ht_array t ! j)"
  by (simp add: set_bucket_def nth_list_update)

lemma bucket_sub_entries: "i < length (ht_array t) \<Longrightarrow> e \<in> set (ht_array t ! i) \<Longrightarrow> e \<in> set (entries t)"
  by (auto simp: entries_def)

lemma mset_entries_set_bucket:
  assumes "i < length (ht_array t)"
  shows "mset (entries (set_bucket i b t)) + mset (ht_array t ! i) = mset (entries t) + mset b"
proof -
  let ?xs = "ht_array t"
  have "concat (?xs[i := b]) = concat (take i ?xs) @ b @ concat (drop (Suc i) ?xs)"
    using assms by (simp add: upd_conv_take_nth_drop)
  moreover have "concat ?xs = concat (take i ?xs) @ ?xs ! i @ concat (drop (Suc i) ?xs)"
    using assms by (subst (1) id_take_nth_drop [OF assms]) simp
  ultimately show ?thesis by (simp add: entries_def set_bucket_def)
qed

lemma bucket_lookup:
  assumes ok: "table_ok t" and i: "bucket_index t key = Some i" "i < length (ht_array t)"
  shows "map_of (ht_array t ! i) key = map_of (entries t) key"
proof (cases "map_of (ht_array t ! i) key")
  case (Some p)
  then have "(key, p) \<in> set (entries t)"
    using i(2) by (auto dest: map_of_SomeD bucket_sub_entries)
  with ok have "map_of (entries t) key = Some p" by (simp add: table_ok_def)
  with Some show ?thesis by simp
next
  case None
  have "map_of (entries t) key = None"
  proof (rule ccontr)
    assume "map_of (entries t) key \<noteq> None"
    then obtain p where "(key, p) \<in> set (entries t)" by (auto dest: map_of_SomeD)
    then obtain j where j: "j < length (ht_array t)" "(key, p) \<in> set (ht_array t ! j)"
      unfolding entries_def set_concat by (metis UN_E in_set_conv_nth)
    with ok have "bucket_index t key = Some j" by (auto simp: table_ok_def)
    with i(1) j(2) None show False by (auto simp: map_of_eq_None_iff rev_image_eqI)
  qed
  with None show ?thesis by simp
qed


lemma distinct_map_mset: "mset xs = mset ys \<Longrightarrow> distinct (map f xs) = distinct (map f ys)"
  by (metis mset_eq_imp_distinct_iff mset_map)

lemma map_of_mset_Cons:
  assumes "distinct (map fst xs)" and "mset xs = add_mset (k, p) (mset ys)"
  shows "map_of xs = (map_of ys)(k \<mapsto> p)"
proof -
  have m: "mset xs = mset ((k, p) # ys)" using assms(2) by simp
  then have "distinct (map fst ((k, p) # ys))" using assms(1) distinct_map_mset by blast
  moreover have "set xs = set ((k, p) # ys)" using m by (metis set_mset_mset)
  ultimately have "map_of xs = map_of ((k, p) # ys)" using assms(1) by (metis map_of_inject_set)
  then show ?thesis by simp
qed

lemma map_of_mset_remove:
  assumes "distinct (map fst xs)" and "mset xs = add_mset (k, p) (mset ys)"
  shows "map_of ys = (map_of xs)(k := None)"
proof -
  have "distinct (map fst ((k, p) # ys))"
    using assms distinct_map_mset [of xs "(k, p) # ys" fst] by simp
  then have "map_of ys k = None" by (simp add: map_of_eq_None_iff)
  then show ?thesis using map_of_mset_Cons [OF assms] by (auto simp: fun_eq_iff)
qed

lemma chain_unlink_None: "chain_unlink key b = None \<longleftrightarrow> map_of b key = None"
  by (induction key b rule: chain_unlink.induct) (auto split: option.splits)

lemma chain_unlink_Some:
  "chain_unlink key b = Some (p, b') \<Longrightarrow> map_of b key = Some p \<and> mset b = add_mset (key, p) (mset b')"
  by (induction key b arbitrary: b' rule: chain_unlink.induct) (auto split: option.splits if_splits)

lemma table_ok_set_bucket:
  assumes "table_ok t" and "i < length (ht_array t)"
    and "\<forall>(k, p) \<in> set nb. bucket_index t k = Some i"
    and "distinct (map fst (entries (set_bucket i nb t)))"
  shows "table_ok (set_bucket i nb t)"
  using assms unfolding table_ok_def
  by (auto simp: nth_set_bucket split: if_splits)

lemma store_okD:
  assumes "store_ok s" and "st_table s = Some t"
  shows "table_ok t" "distinct (map snd (entries t))" "heap_ok (st_heap s)"
    "\<And>k p. (k, p) \<in> set (entries t) \<Longrightarrow> \<exists>v. cells (st_heap s) p = Some v"
  using assms by (auto simp: store_ok_def)

section \<open>What the operations do on a well-formed store\<close>

lemma ht_get_ok: "store_ok s \<Longrightarrow> ht_get s key = Some (map_of (st_entries s) key)"
proof (cases "st_table s")
  case None
  then show ?thesis by (simp add: ht_get_def st_entries_def)
next
  case (Some t)
  assume "store_ok s"
  with Some have ok: "table_ok t" by (auto dest: store_okD)
  then obtain i where "bucket_index t key = Some i" "i < length (ht_array t)"
    using table_okD by blast
  with Some ok show ?thesis by (simp add: ht_get_def bucket_lookup)
qed

lemma ht_put_fresh:
  assumes ok: "store_ok s" and t: "st_table s = Some t"
    and fresh: "map_of (st_entries s) key = None"
    and live: "cells (st_heap s) p \<noteq> None" and new: "p \<notin> snd ` set (st_entries s)"
  shows "\<exists>s'. ht_put True s key p = Some (0, s') \<and> store_ready s' \<and> st_heap s' = st_heap s \<and>
    mset (st_entries s') = add_mset (key, p) (mset (st_entries s))"
proof -
  from ok t have tok: "table_ok t" by (auto dest: store_okD)
  then obtain i where i: "bucket_index t key = Some i" "i < length (ht_array t)"
    using table_okD by blast
  let ?t' = "set_bucket i ((key, p) # ht_array t ! i) t"
  have none: "map_of (ht_array t ! i) key = None"
    using bucket_lookup [OF tok i] fresh t by simp
  have put: "ht_put True s key p = Some (0, s\<lparr>st_table := Some ?t', st_heap := st_heap s\<rparr>)"
    using t i none by (auto simp: ht_put_def node_handler_def Let_def)
  have m: "mset (entries ?t') = mset ((key, p) # entries t)"
    using mset_entries_set_bucket [OF i(2), of "(key, p) # ht_array t ! i"] by simp
  have "distinct (map fst ((key, p) # entries t))"
    using tok fresh t by (auto simp: table_ok_def map_of_eq_None_iff)
  then have "distinct (map fst (entries ?t'))" using m distinct_map_mset by blast
  moreover have "\<forall>(k, q) \<in> set ((key, p) # ht_array t ! i). bucket_index t k = Some i"
    using tok i by (auto simp: table_ok_def)
  ultimately have "table_ok ?t'" using tok i(2) by (intro table_ok_set_bucket)
  moreover have "distinct (map snd (entries ?t'))"
    using m distinct_map_mset [of "entries ?t'" "(key, p) # entries t" snd] ok t new
    by (auto dest: store_okD)
  moreover have "set (entries ?t') = insert (key, p) (set (entries t))"
    using m by (metis list.simps(15) set_mset_mset)
  ultimately have "store_ready (s\<lparr>st_table := Some ?t', st_heap := st_heap s\<rparr>)"
    using ok t live by (auto simp: store_ready_def store_ok_def)
  with put m t show ?thesis by (intro exI) auto
qed

lemma ht_delete_ok:
  assumes ok: "store_ok s"
  shows "\<exists>s'. ht_delete s key = Some (map_of (st_entries s) key, s') \<and> store_ok s' \<and>
    st_heap s' = st_heap s \<and> (st_table s' = None \<longleftrightarrow> st_table s = None) \<and>
    (case map_of (st_entries s) key of
       None \<Rightarrow> s' = s
     | Some p \<Rightarrow> mset (st_entries s) = add_mset (key, p) (mset (st_entries s')))"
proof (cases "st_table s")
  case None
  with ok show ?thesis by (simp add: ht_delete_def st_entries_def)
next
  case t: (Some t)
  with ok have tok: "table_ok t" by (auto dest: store_okD)
  then obtain i where i: "bucket_index t key = Some i" "i < length (ht_array t)"
    using table_okD by blast
  note look = bucket_lookup [OF tok i]
  show ?thesis
  proof (cases "chain_unlink key (ht_array t ! i)")
    case None
    then have "map_of (entries t) key = None" using look by (simp add: chain_unlink_None)
    with None show ?thesis using t i ok by (simp add: ht_delete_def)
  next
    case (Some pb)
    obtain p b' where pb: "pb = (p, b')" by (cases pb)
    from chain_unlink_Some [OF Some [unfolded pb]]
    have mp: "map_of (entries t) key = Some p" and mb: "mset (ht_array t ! i) = add_mset (key, p) (mset b')"
      using look by auto
    let ?t' = "set_bucket i b' t"
    have m: "mset (entries t) = mset ((key, p) # entries ?t')"
      using mset_entries_set_bucket [OF i(2), of b'] mb by simp
    have sub: "set b' \<subseteq> set (ht_array t ! i)" using mb
      by (metis mset_subset_eq_add_right set_mset_mono set_mset_mset add_mset_add_single add.commute)
    have "distinct (map fst (entries t))" using tok by (simp add: table_ok_def)
    then have df: "distinct (map fst ((key, p) # entries ?t'))"
      using distinct_map_mset [OF m] by blast
    have "distinct (map snd (entries t))" using ok t by (auto dest: store_okD)
    then have ds: "distinct (map snd ((key, p) # entries ?t'))"
      using distinct_map_mset [OF m] by blast
    from df ds have "distinct (map fst (entries ?t'))" and d: "distinct (map snd (entries ?t'))" by auto
    moreover have "\<forall>(k, q) \<in> set b'. bucket_index t k = Some i"
      using tok i(2) sub unfolding table_ok_def by fast
    ultimately have "table_ok ?t'" using tok i(2) by (intro table_ok_set_bucket)
    moreover have "set (entries ?t') \<subseteq> set (entries t)"
      using m by (metis set_mset_mset set_subset_Cons)
    ultimately have "store_ok (s\<lparr>st_table := Some ?t'\<rparr>)"
      using ok t d by (auto simp: store_ok_def)
    with Some pb mp m t i show ?thesis by (simp add: ht_delete_def)
  qed
qed


lemma store_lookup_None: "store_ok s \<Longrightarrow> store_lookup s key = None \<longleftrightarrow> map_of (st_entries s) key = None"
  by (cases "st_table s")
    (auto simp: store_lookup_def st_entries_def dest: store_okD(4) map_of_SomeD split: option.splits)

lemma store_lookup_entry:
  assumes "store_ok s" and "(key, p) \<in> set (st_entries s)"
  shows "store_lookup s key = cells (st_heap s) p \<and> cells (st_heap s) p \<noteq> None"
proof (cases "st_table s")
  case None
  with assms show ?thesis by (simp add: st_entries_def)
next
  case (Some t)
  with assms have "map_of (entries t) key = Some p" by (auto dest: store_okD simp: table_ok_def)
  with Some assms show ?thesis by (auto simp: store_lookup_def dest: store_okD)
qed

lemma entries_distinct: "store_ok s \<Longrightarrow> distinct (map fst (st_entries s)) \<and> distinct (map snd (st_entries s))"
  by (auto simp: store_ok_def st_entries_def table_ok_def split: option.splits)

section \<open>Inserting an object and removing a key\<close>

text \<open>
  The two ways the handlers change a table: a new object is filled in and put under its
  key, and a key is deleted. \<open>store_update\<close> overwrites the object under a key in place.
\<close>

definition store_insert :: "cstring \<Rightarrow> 'v \<Rightarrow> 'v store \<Rightarrow> 'v store option" where
  "store_insert key v s = do {
     let (p, h) = alloc v (st_heap s);
     (r, s') \<leftarrow> ht_put True (s\<lparr>st_heap := h\<rparr>) key p;
     Some s' }"

definition store_remove :: "cstring \<Rightarrow> 'v store \<Rightarrow> 'v store option" where
  "store_remove key s = do { (r, s') \<leftarrow> ht_delete s key; Some s' }"

lemma store_alloc:
  assumes "store_ok s"
  shows "store_ok (s\<lparr>st_heap := snd (alloc v (st_heap s))\<rparr>)"
    and "next_addr (st_heap s) \<notin> snd ` set (st_entries s)"
proof -
  have "cells (st_heap s) (next_addr (st_heap s)) = None"
    using assms by (auto simp: store_ok_def heap_ok_def)
  then have "snd e \<noteq> next_addr (st_heap s)" if "e \<in> set (st_entries s)" for e
    using store_lookup_entry [OF assms, of "fst e" "snd e"] that by auto
  then show "next_addr (st_heap s) \<notin> snd ` set (st_entries s)" by (metis imageE)
  show "store_ok (s\<lparr>st_heap := snd (alloc v (st_heap s))\<rparr>)"
    using assms heap_ok_alloc [of "st_heap s" v]
    by (auto simp: store_ok_def alloc_def split: option.splits)
qed

lemma store_insert_ok:
  assumes ready: "store_ready s" and fresh: "store_lookup s key = None"
  shows "\<exists>s'. store_insert key v s = Some s' \<and> store_ready s' \<and>
    store_lookup s' = (store_lookup s)(key \<mapsto> v) \<and>
    mset (st_entries s') = add_mset (key, next_addr (st_heap s)) (mset (st_entries s))"
proof -
  obtain t where t: "st_table s = Some t" and ok: "store_ok s"
    using ready by (auto simp: store_ready_def)
  let ?p = "next_addr (st_heap s)" and ?h = "snd (alloc v (st_heap s))"
  let ?s = "s\<lparr>st_heap := ?h\<rparr>"
  note new = store_alloc [OF ok]
  have ent: "st_entries ?s = st_entries s" by (simp add: st_entries_def)
  moreover have "map_of (st_entries s) key = None" using fresh ok by (simp add: store_lookup_None)
  moreover have "cells ?h ?p = Some v" by (simp add: alloc_def)
  ultimately obtain s' where s': "ht_put True ?s key ?p = Some (0, s')" "store_ready s'"
      "st_heap s' = ?h" "mset (st_entries s') = add_mset (key, ?p) (mset (st_entries s))"
    using ht_put_fresh [of ?s t key ?p] t new by auto
  have "map_of (st_entries s') = (map_of (st_entries s))(key \<mapsto> ?p)"
    using s' entries_distinct by (intro map_of_mset_Cons) (auto simp: store_ready_def)
  then have "store_lookup s' k = ((store_lookup s)(key \<mapsto> v)) k" for k
    using s'(3) new(2)
    by (cases "map_of (st_entries s) k")
      (auto simp add: store_lookup_def alloc_def rev_image_eqI dest: map_of_SomeD)
  then have look: "store_lookup s' = (store_lookup s)(key \<mapsto> v)" by (rule ext)
  have "store_insert key v s = Some s'"
    using s'(1) by (simp add: store_insert_def alloc_def)
  with s'(2,4) look show ?thesis by (intro exI conjI)
qed

lemma store_remove_ok:
  assumes ready: "store_ready s"
  shows "\<exists>s'. store_remove key s = Some s' \<and> store_ready s' \<and>
    store_lookup s' = (store_lookup s)(key := None)"
proof -
  from ready have ok: "store_ok s" by (simp add: store_ready_def)
  from ht_delete_ok [OF ok, of key] obtain s' where
    s': "ht_delete s key = Some (map_of (st_entries s) key, s')" "store_ok s'" "st_heap s' = st_heap s"
      "st_table s' = None \<longleftrightarrow> st_table s = None"
      "case map_of (st_entries s) key of None \<Rightarrow> s' = s
       | Some p \<Rightarrow> mset (st_entries s) = add_mset (key, p) (mset (st_entries s'))"
    by (elim exE conjE) (rule that)
  have "map_of (st_entries s') = (map_of (st_entries s))(key := None)"
  proof (cases "map_of (st_entries s) key")
    case None
    with s'(5) show ?thesis by (auto simp: fun_eq_iff)
  next
    case (Some p)
    with s'(5) entries_distinct [OF ok] show ?thesis by (auto intro: map_of_mset_remove)
  qed
  then have "store_lookup s' = (store_lookup s)(key := None)"
    using s'(3) by (auto simp: fun_eq_iff store_lookup_def split: option.split)
  with s' ready show ?thesis by (auto simp: store_remove_def store_ready_def)
qed

section \<open>The contract\<close>

locale keyed_store =
  fixes inv :: "'s \<Rightarrow> bool"
    and look :: "'s \<Rightarrow> 'k \<Rightarrow> 'v option"
    and ins :: "'k \<Rightarrow> 'v \<Rightarrow> 's \<Rightarrow> 's option"
    and del :: "'k \<Rightarrow> 's \<Rightarrow> 's option"
  assumes ins_fresh: "inv s \<Longrightarrow> look s k = None \<Longrightarrow>
      \<exists>s'. ins k v s = Some s' \<and> inv s' \<and> look s' = (look s)(k \<mapsto> v)"
    and del_any: "inv s \<Longrightarrow> \<exists>s'. del k s = Some s' \<and> inv s' \<and> look s' = (look s)(k := None)"
begin

lemma replace:
  assumes "inv s"
  shows "\<exists>s'. (del k s \<bind> ins k v) = Some s' \<and> inv s' \<and> look s' = (look s)(k \<mapsto> v)"
proof -
  from del_any [OF assms, of k] obtain s1
    where s1: "del k s = Some s1" "inv s1" "look s1 = (look s)(k := None)" by blast
  from ins_fresh [OF s1(2), of k v] s1(3) obtain s2
    where "ins k v s1 = Some s2" "inv s2" "look s2 = (look s1)(k \<mapsto> v)" by auto
  with s1 show ?thesis by auto
qed

lemma insert_then_delete:
  assumes "inv s" and "look s k = None"
  shows "\<exists>s'. (ins k v s \<bind> del k) = Some s' \<and> inv s' \<and> look s' = look s"
proof -
  from ins_fresh [OF assms] obtain s1
    where s1: "ins k v s = Some s1" "inv s1" "look s1 = (look s)(k \<mapsto> v)" by blast
  from del_any [OF s1(2), of k] obtain s2
    where "del k s1 = Some s2" "inv s2" "look s2 = (look s1)(k := None)" by blast
  with s1 assms(2) show ?thesis by (auto simp: fun_upd_idem)
qed

lemma delete_all:
  assumes "inv s"
  shows "\<exists>s'. fold_ub del ks s = Some s' \<and> inv s' \<and> look s' = (look s) |` (- set ks)"
  using assms
proof (induction ks arbitrary: s)
  case Nil
  then show ?case by (simp add: restrict_map_def)
next
  case (Cons k ks)
  from del_any [OF Cons.prems, of k] obtain s1
    where s1: "del k s = Some s1" "inv s1" "look s1 = (look s)(k := None)" by blast
  from Cons.IH [OF s1(2)] obtain s2
    where "fold_ub del ks s1 = Some s2" "inv s2" "look s2 = (look s1) |` (- set ks)" by blast
  with s1 show ?case by (auto simp: restrict_map_def fun_eq_iff)
qed

end

interpretation hts: keyed_store store_ready store_lookup store_insert store_remove
proof unfold_locales
  fix s :: "'a store" and k v
  assume "store_ready s" "store_lookup s k = None"
  from store_insert_ok [OF this, of v]
  show "\<exists>s'. store_insert k v s = Some s' \<and> store_ready s' \<and> store_lookup s' = (store_lookup s)(k \<mapsto> v)"
    by (elim exE conjE) (intro exI conjI)
qed (rule store_remove_ok)

section \<open>Releasing a table, and the update path of \<open>node_handler\<close>\<close>

lemma free_all:
  assumes "distinct ps" and "\<forall>p \<in> set ps. cells h p \<noteq> None"
  shows "\<exists>h'. fold_ub hfree ps h = Some h' \<and> cells h' = (cells h) |` (- set ps)"
  using assms
proof (induction ps arbitrary: h)
  case Nil
  then show ?case by (simp add: restrict_map_def)
next
  case (Cons p ps)
  then obtain h1 where h1: "hfree p h = Some h1" "cells h1 = (cells h)(p := None)"
    by (auto simp: hfree_def)
  with Cons.prems have "\<forall>q \<in> set ps. cells h1 q \<noteq> None" by auto
  with Cons.IH [of h1] Cons.prems(1) h1 show ?case by (auto simp: restrict_map_def fun_eq_iff)
qed

lemma ht_free_ok:
  assumes "store_ok s"
  shows "\<exists>h'. ht_free s = Some h' \<and> cells h' = (cells (st_heap s)) |` (- snd ` set (st_entries s))"
proof (cases "st_table s")
  case None
  then show ?thesis by (simp add: ht_free_def st_entries_def restrict_map_def)
next
  case (Some t)
  have f: "fold_ub (\<lambda>(k, p) h. hfree p h) es h = fold_ub hfree (map snd es) h" for es and h :: "'a heap"
    by (induction es arbitrary: h) (auto intro!: Option.bind_cong simp: split_beta)
  have "\<exists>h'. fold_ub hfree (map snd (entries t)) (st_heap s) = Some h' \<and>
      cells h' = (cells (st_heap s)) |` (- set (map snd (entries t)))"
    using assms Some by (intro free_all) (auto dest: store_okD(2) store_okD(4))
  with Some show ?thesis by (simp add: ht_free_def f)
qed

lemma map_of_chain_assign: "map_of (chain_assign key p b) key = (if map_of b key = None then None else Some p)"
  by (induction key p b rule: chain_assign.induct) auto


section \<open>Properties\<close>

text \<open>
  The hash of a key is an index of a table of that size: for every key and every
  non-zero size, the function returns and its result is below the size.
\<close>

theorem hash_in_range:
  assumes "sz \<noteq> 0"
  shows "\<exists>h. hash key sz = Some h \<and> unat h < unat sz"
  using hash_bound [OF assms, of key] by (auto simp: word_less_nat_alt)

theorem hash_in_range_witness:
  "hash (Some ''CPU0'') 10 = Some 0 \<and> (\<exists>h. hash (Some ''CPU0'') 10 = Some h \<and> unat h < unat (10 :: u32))"
proof
  show "hash (Some ''CPU0'') 10 = Some 0"
    by (simp add: hash.simps c_str_def char_u32_def)
  show "\<exists>h. hash (Some ''CPU0'') 10 = Some h \<and> unat h < unat (10 :: u32)"
    by (rule hash_in_range) simp
qed

text \<open>
  Every caller in the program looks a key up before it puts it. A sequence of such guarded
  insertions and of deletions, run on the table and on a finite map:
\<close>

datatype 'v table_op = Put_new cstring 'v | Remove cstring

fun table_step :: "'v table_op \<Rightarrow> 'v store \<Rightarrow> 'v store option" where
  "table_step (Put_new key v) s = do {
     found \<leftarrow> ht_get s key;
     if found = None then store_insert key v s else Some s }"
| "table_step (Remove key) s = do { (r, s') \<leftarrow> ht_delete s key; Some s' }"

fun map_step :: "'v table_op \<Rightarrow> (cstring \<rightharpoonup> 'v) \<Rightarrow> (cstring \<rightharpoonup> 'v)" where
  "map_step (Put_new key v) m = (if m key = None then m(key \<mapsto> v) else m)"
| "map_step (Remove key) m = m(key := None)"

definition new_store :: "u32 \<Rightarrow> 'v store" where
  "new_store sz = \<lparr>st_table = ht_create True True sz, st_heap = empty_heap\<rparr>"

lemma new_store_ready:
  "sz \<noteq> 0 \<Longrightarrow> store_ready (new_store sz :: 'v store) \<and> store_lookup (new_store sz :: 'v store) = Map.empty"
  by (auto simp: new_store_def store_ready_def store_ok_def ht_create_def table_ok_def entries_def
      store_lookup_def st_entries_def fun_eq_iff word_less_nat_alt unat_eq_0)

lemma table_step_ok:
  assumes "store_ready s"
  shows "\<exists>s'. table_step c s = Some s' \<and> store_ready s' \<and> store_lookup s' = map_step c (store_lookup s)"
proof (cases c)
  case (Remove key)
  with hts.del_any [OF assms, of key] show ?thesis by (simp add: store_remove_def)
next
  case (Put_new key v)
  from assms have ok: "store_ok s" by (simp add: store_ready_def)
  show ?thesis
  proof (cases "store_lookup s key")
    case None
    with Put_new ok hts.ins_fresh [OF assms None, of v] show ?thesis
      by (simp add: ht_get_ok store_lookup_None)
  next
    case (Some w)
    with Put_new ok assms show ?thesis
      by (auto simp: ht_get_ok store_lookup_None [symmetric])
  qed
qed

text \<open>
  C3: A table refines a finite map. Starting from a new table of any non-zero size, no
  sequence of guarded insertions and deletions runs into undefined behaviour, and after it
  the table holds under every key exactly what the map holds; the invariant (keys unique
  and in the chain of their hash, every stored pointer live and stored once) is kept.
\<close>

theorem table_refines_map:
  assumes "sz \<noteq> 0"
  shows "\<exists>s' :: 'v store. fold_ub table_step ops (new_store sz) = Some s' \<and> store_ready s' \<and>
    store_lookup s' = fold map_step ops Map.empty"
proof -
  note new = new_store_ready [OF assms, where ?'v = 'v]
  have "\<exists>s'. fold_ub table_step ops s = Some s' \<and> store_ready s' \<and>
      store_lookup s' = fold map_step ops (store_lookup s)" if "store_ready s" for s :: "'v store"
    using that
  proof (induction ops arbitrary: s)
    case Nil
    then show ?case by simp
  next
    case (Cons c ops)
    from table_step_ok [OF Cons.prems, of c] obtain t
      where t: "table_step c s = Some t" "store_ready t" "store_lookup t = map_step c (store_lookup s)"
      by (elim exE conjE) (rule that)
    with Cons.IH [OF t(2)] show ?case by simp
  qed
  from this [OF conjunct1 [OF new]] show ?thesis unfolding conjunct2 [OF new] .
qed

theorem table_refines_map_witness:
  "\<exists>s'. fold_ub table_step [Put_new ''ab'' True, Put_new ''ba'' False, Put_new ''ab'' False, Remove ''zz''] (new_store 10)
      = Some s' \<and> store_lookup s' ''ab'' = Some True \<and> store_lookup s' ''ba'' = Some False"
  using table_refines_map [of 10 "[Put_new ''ab'' True, Put_new ''ba'' False, Put_new ''ab'' False, Remove ''zz'']"]
  by auto

text \<open>
  Putting a key that is already in the table destroys the new payload: the call reports
  success, but the pointer it stores under the key is dangling, because the update path of
  \<open>node_handler\<close> frees the old payload and then the new one as well. Releasing the table
  afterwards frees that pointer a second time.
\<close>

theorem put_existing_dangles:
  assumes ok: "store_ready s" and q: "map_of (st_entries s) key = Some q"
    and live: "cells (st_heap s) p \<noteq> None" and ne: "p \<noteq> q"
  shows "\<exists>s'. ht_put True s key p = Some (0, s') \<and> ht_get s' key = Some (Some p) \<and>
    cells (st_heap s') p = None"
proof -
  from ok obtain t where t: "st_table s = Some t" "store_ok s" by (auto simp: store_ready_def)
  then have tok: "table_ok t" by (auto dest: store_okD)
  then obtain i where i: "bucket_index t key = Some i" "i < length (ht_array t)"
    using table_okD by blast
  have b: "map_of (ht_array t ! i) key = Some q" using bucket_lookup [OF tok i] q t by simp
  obtain v where "cells (st_heap s) q = Some v"
    using store_lookup_entry [OF t(2), of key q] q by (auto dest: map_of_SomeD)
  moreover obtain w where "cells (st_heap s) p = Some w" using live by auto
  ultimately show ?thesis
    using t(1) i b ne
    by (auto simp: ht_put_def node_handler_def Let_def hfree_def ht_get_def nth_set_bucket map_of_chain_assign)
qed

theorem put_existing_dangles_witness:
  "\<exists>s s'. store_insert ''a'' True (new_store 10) = Some s \<and>
     ht_put True (s\<lparr>st_heap := snd (alloc False (st_heap s))\<rparr>) ''a'' (next_addr (st_heap s)) = Some (0, s') \<and>
     cells (st_heap s') (next_addr (st_heap s)) = None"
proof -
  have new: "store_ready (new_store 10 :: bool store)" "store_lookup (new_store 10 :: bool store) ''a'' = None"
    using new_store_ready [of 10, where ?'v = bool] by simp_all
  have empty: "st_entries (new_store 10 :: bool store) = []"
    by (simp add: new_store_def ht_create_def st_entries_def entries_def)
  from store_insert_ok [OF new, of True] empty obtain s
    where s: "store_insert ''a'' True (new_store 10) = Some s" "store_ready s"
      "mset (st_entries s) = {#(''a'', next_addr (st_heap (new_store 10 :: bool store)))#}"
    by auto
  let ?s1 = "s\<lparr>st_heap := snd (alloc False (st_heap s))\<rparr>" and ?p = "next_addr (st_heap s)"
  obtain q where q: "st_entries s = [(''a'', q)]" using s(3) by auto
  have ok: "store_ok s" using s(2) by (simp add: store_ready_def)
  have "store_ready ?s1" using s(2) store_alloc(1) [OF ok] by (simp add: store_ready_def)
  moreover have "st_entries ?s1 = [(''a'', q)]" using q by (simp add: st_entries_def)
  moreover have "?p \<noteq> q" using store_alloc(2) [OF ok] q by simp
  ultimately have "\<exists>s'. ht_put True ?s1 ''a'' ?p = Some (0, s') \<and> ht_get s' ''a'' = Some (Some ?p) \<and>
      cells (st_heap s') ?p = None"
    by (intro put_existing_dangles [where q = q]) (simp_all add: alloc_def)
  with s(1) show ?thesis by auto
qed

text \<open>
  Releasing a well-formed table frees every stored object exactly once: the walk over
  the chains never frees a pointer twice, all stored objects are gone afterwards and no
  other object is touched.
\<close>

theorem table_release:
  assumes "store_ready s"
  shows "\<exists>h'. ht_free s = Some h' \<and>
    (\<forall>p. cells h' p = (if p \<in> snd ` set (st_entries s) then None else cells (st_heap s) p))"
  using ht_free_ok [of s] assms by (auto simp: store_ready_def)

theorem table_release_witness:
  "store_ready (new_store 10 :: nat store) \<and> (\<exists>h'. ht_free (new_store 10 :: nat store) = Some h')"
  using table_release [of "new_store 10 :: nat store"] new_store_ready [of 10] by auto

end
