(* ===== verification/AgentState.thy ===== *)
theory AgentState
  imports HashTable JsonSerialize
begin

text \<open>
  The state of the program: the structs of \<^verbatim>\<open>sensor.h\<close>, \<^verbatim>\<open>sensorgroup.h\<close> and
  \<^verbatim>\<open>impl.h\<close>, the global variables of \<^verbatim>\<open>CanMonitor.c\<close> as one record, and the two
  tables at the type of their payload. The names \<open>id\<close>, \<open>name\<close>, \<open>type\<close>, \<open>value\<close>,
  \<open>timestamp\<close> of a sensor and \<open>id\<close> of a group have a prefix here; \<open>error\<close> and \<open>running\<close>
  of \<open>ms_status\<close> are \<open>error_ms\<close> and \<open>running\<close>. A \<open>char *\<close> of the code that may be NULL is
  a \<open>cstring option\<close>.

  A handler of the code gets \<open>char **values\<close>, the address of a pointer to the payload, and
  leaves the text of the reply there; it returns \<open>OK\<close> or \<open>ERROR\<close>. Here it maps the
  payload (\<open>None\<close>: the pointer is not initialised) and the agent to an \<open>outcome\<close>: the
  response, what the pointer points to afterwards, and the agent. The whole is \<open>None\<close>
  where the behaviour is undefined.
\<close>

section \<open>Records and enumerations\<close>

record sensor =
  sens_id :: cstring
  sens_name :: cstring
  sens_type :: cstring
  can_id :: u32
  init_bit :: u32
  end_bit :: u32
  sampling_rate :: u32
  sens_value :: cstring
  sens_timestamp :: u64

text \<open>
  The list of a group is an array of \<open>sensorcount\<close> ids at its creation; a deletion shortens
  the count and leaves the array as long as it was.
\<close>

record sensorgroup =
  sg_id :: cstring
  publish_rate :: u32
  sensorcount :: nat
  sensor_list :: "cstring list"
  last_tv_sec :: u64
  last_tv_usec :: u64

datatype ms_status = unconfigured | configured | running | error_ms | exit_ms

datatype adeptness_rest_response = OK | RESOURCE_NOT_FOUND | INCORRECT_PAYLOAD | NO_CONFIG_DATA | ERROR

record agent =
  status :: ms_status
  restart_mqtt :: u8
  restart_http :: u8
  can_up :: u8
  sensors_table :: "sensor store"
  sensorgroup_table :: "sensorgroup store"
  rest_server_port :: u32
  mqtt_username :: "cstring option"
  mqtt_broker_host :: "cstring option"
  mqtt_broker_port :: u32
  monitor_id :: "cstring option"
  mqtt_qos :: u32
  can_conf_id :: "cstring option"
  canport :: "cstring option"
  bitrate :: u32
  overruns :: ledger

type_synonym outcome = "(adeptness_rest_response \<times> cstring option \<times> agent) option"

text \<open>\<open>query_pairs\<close>: the list of the name and the value of each query.\<close>

type_synonym query_pairs = "(cstring \<times> cstring) list"

section \<open>The tables at their types\<close>

definition hts_create :: "bool \<Rightarrow> bool \<Rightarrow> u32 \<Rightarrow> htable option" where
  "hts_create = ht_create"

definition hts_get :: "sensor store \<Rightarrow> cstring \<Rightarrow> nat option option" where
  "hts_get = ht_get"

definition hts_put :: "bool \<Rightarrow> sensor store \<Rightarrow> cstring \<Rightarrow> nat \<Rightarrow> (nat \<times> sensor store) option" where
  "hts_put = ht_put"

definition hts_delete :: "sensor store \<Rightarrow> cstring \<Rightarrow> (nat option \<times> sensor store) option" where
  "hts_delete = ht_delete"

definition hts_free :: "sensor store \<Rightarrow> sensor heap option" where
  "hts_free = ht_free"

definition htsg_create :: "bool \<Rightarrow> bool \<Rightarrow> u32 \<Rightarrow> htable option" where
  "htsg_create = ht_create"

definition htsg_get :: "sensorgroup store \<Rightarrow> cstring \<Rightarrow> nat option option" where
  "htsg_get = ht_get"

definition htsg_put :: "bool \<Rightarrow> sensorgroup store \<Rightarrow> cstring \<Rightarrow> nat \<Rightarrow> (nat \<times> sensorgroup store) option" where
  "htsg_put = ht_put"

definition htsg_delete :: "sensorgroup store \<Rightarrow> cstring \<Rightarrow> (nat option \<times> sensorgroup store) option" where
  "htsg_delete = ht_delete"

definition htsg_free :: "sensorgroup store \<Rightarrow> sensorgroup heap option" where
  "htsg_free = ht_free"

text \<open>\<open>malloc\<close>, the assignments to the new object and the \<open>put\<close> under its id.\<close>

definition hts_new :: "sensor \<Rightarrow> sensor store \<Rightarrow> sensor store option" where
  "hts_new sens s = do {
     let (p, h) = alloc sens (st_heap s);
     (r, s') \<leftarrow> hts_put True (s\<lparr>st_heap := h\<rparr>) (sens_id sens) p;
     Some s' }"

definition htsg_new :: "sensorgroup \<Rightarrow> sensorgroup store \<Rightarrow> sensorgroup store option" where
  "htsg_new sg s = do {
     let (p, h) = alloc sg (st_heap s);
     (r, s') \<leftarrow> htsg_put True (s\<lparr>st_heap := h\<rparr>) (sg_id sg) p;
     Some s' }"

lemma hts_new_insert: "hts_new sens s = store_insert (sens_id sens) sens s"
  by (simp add: hts_new_def store_insert_def hts_put_def)

lemma htsg_new_insert: "htsg_new sg s = store_insert (sg_id sg) sg s"
  by (simp add: htsg_new_def store_insert_def htsg_put_def)

text \<open>The payloads in the order of a walk over the buckets and their chains; a NULL table is undefined.\<close>

definition walk :: "'v store \<Rightarrow> 'v list option" where
  "walk s = do {
     t \<leftarrow> st_table s;
     map_ub (deref (st_heap s)) (map snd (entries t)) }"

text \<open>A walk that changes every payload in place.\<close>

definition update_all :: "('v \<Rightarrow> 'v option) \<Rightarrow> 'v store \<Rightarrow> 'v store option" where
  "update_all f s = do {
     t \<leftarrow> st_table s;
     h \<leftarrow> fold_ub (\<lambda>p h. do { v \<leftarrow> deref h p; v' \<leftarrow> f v; hwrite p v' h }) (map snd (entries t)) (st_heap s);
     Some (s\<lparr>st_heap := h\<rparr>) }"

section \<open>Replies\<close>

text \<open>The text of a JSON value of one member; a string that is not UTF-8 is not added.\<close>

definition object_of :: "(cstring \<times> json option) list \<Rightarrow> json_object" where
  "object_of members = foldl (\<lambda>obj (name, v). snd (json_object_set_value obj name v)) [] members"

text \<open>
  \<open>*values = malloc (strlen (text)); strcpy (*values, text)\<close>: the terminator lands one byte
  behind the block. \<open>extra\<close> is what the code adds to the length.
\<close>

definition reply_with :: "site \<Rightarrow> nat \<Rightarrow> json \<Rightarrow> agent \<Rightarrow> (cstring \<times> agent) option" where
  "reply_with place extra v a = do {
     text \<leftarrow> serialized (Some v);
     Some (text, a\<lparr>overruns := overruns a @ overrun place (length text + extra) (length text + 1)\<rparr>) }"

definition create_error_message :: "cstring \<Rightarrow> agent \<Rightarrow> (cstring \<times> agent) option" where
  "create_error_message message a =
     reply_with Error_reply 0 (JObject (object_of [(''message'', json_value_init_string (Some message))])) a"

text \<open>\<open>create_error_message (values, message); return ERROR;\<close>\<close>

definition fail_with :: "cstring \<Rightarrow> agent \<Rightarrow> outcome" where
  "fail_with message a = do {
     (reply, a') \<leftarrow> create_error_message message a;
     Some (ERROR, Some reply, a') }"

text \<open>\<open>strcpy (*values, "")\<close>: the pointer must be initialised.\<close>

definition clear_values :: "cstring option \<Rightarrow> cstring option option" where
  "clear_values values = do { v \<leftarrow> values; Some (Some []) }"

definition log_overrun :: "site \<Rightarrow> nat \<Rightarrow> nat \<Rightarrow> agent \<Rightarrow> agent" where
  "log_overrun place available needed a = a\<lparr>overruns := overruns a @ overrun place available needed\<rparr>"

text \<open>The payload of a request as a JSON object: \<open>json_parse_string\<close> and \<open>json_value_get_object\<close>.\<close>

definition payload_object :: "cstring option \<Rightarrow> json_object option option" where
  "payload_object values = do {
     v \<leftarrow> values;
     Some (json_value_get_object (json_parse_string (Some v))) }"

definition has :: "json_object option \<Rightarrow> cstring \<Rightarrow> bool" where
  "has obj key \<longleftrightarrow> json_object_get_value obj key \<noteq> None"

text \<open>\<open>strdup (json_object_get_string (obj, key))\<close>, undefined for a member that is not a string.\<close>

definition dup_string :: "json_object option \<Rightarrow> cstring \<Rightarrow> cstring option" where
  "dup_string obj key = json_object_get_string obj key"

definition error_text :: "cstring \<Rightarrow> cstring" where
  "error_text message = json_write 0 False (JObject (object_of [(''message'', json_value_init_string (Some message))]))"

lemma fail_with_text:
  "fail_with message a = Some (ERROR, Some (error_text message), a\<lparr>overruns := overruns a @ [(Error_reply, 1)]\<rparr>)"
  by (simp add: fail_with_def create_error_message_def reply_with_def overrun_def error_text_def)

lemma fail_with_eq:
  "\<exists>reply. fail_with message a = Some (ERROR, Some reply, a\<lparr>overruns := overruns a @ [(Error_reply, 1)]\<rparr>)"
  by (simp add: fail_with_text)

text \<open>
  The end of a step of a loop in a handler: the handler has returned, or the loop goes on
  with a state.
\<close>

datatype 's flow = Return adeptness_rest_response "cstring option" agent | Continue 's

definition leave :: "outcome \<Rightarrow> 's flow option" where
  "leave r = do { (response, reply, a) \<leftarrow> r; Some (Return response reply a) }"

section \<open>Well-formed agents\<close>

text \<open>
  Both tables exist and are well formed, every object is stored under its own id, no string
  has a NUL, and the count of a group does not go past its array.
\<close>

definition sensor_ok :: "sensor \<Rightarrow> bool" where
  "sensor_ok s \<longleftrightarrow> nul_free (sens_id s) \<and> nul_free (sens_name s) \<and> nul_free (sens_type s) \<and> nul_free (sens_value s)"

definition group_ok :: "sensorgroup \<Rightarrow> bool" where
  "group_ok g \<longleftrightarrow> nul_free (sg_id g) \<and> sensorcount g \<le> length (sensor_list g) \<and>
     (\<forall>k \<in> set (sensor_list g). nul_free k)"

definition sensors_of :: "agent \<Rightarrow> cstring \<Rightarrow> sensor option" where
  "sensors_of a = store_lookup (sensors_table a)"

definition groups_of :: "agent \<Rightarrow> cstring \<Rightarrow> sensorgroup option" where
  "groups_of a = store_lookup (sensorgroup_table a)"

definition agent_ok :: "agent \<Rightarrow> bool" where
  "agent_ok a \<longleftrightarrow> store_ready (sensors_table a) \<and> store_ready (sensorgroup_table a) \<and>
     (\<forall>k s. sensors_of a k = Some s \<longrightarrow> sens_id s = k \<and> sensor_ok s) \<and>
     (\<forall>k g. groups_of a k = Some g \<longrightarrow> sg_id g = k \<and> group_ok g)"

text \<open>The ids a group lists, and the property that all of them are ids of sensors.\<close>

definition members :: "sensorgroup \<Rightarrow> cstring list" where
  "members g = take (sensorcount g) (sensor_list g)"

definition group_resolved :: "agent \<Rightarrow> sensorgroup \<Rightarrow> bool" where
  "group_resolved a g \<longleftrightarrow> (\<forall>k \<in> set (members g). sensors_of a k \<noteq> None)"

definition references_ok :: "agent \<Rightarrow> bool" where
  "references_ok a \<longleftrightarrow> (\<forall>k g. groups_of a k = Some g \<longrightarrow> group_resolved a g)"

lemma agent_okD:
  assumes "agent_ok a"
  shows "store_ready (sensors_table a)" "store_ready (sensorgroup_table a)"
    "sensors_of a k = Some s \<Longrightarrow> sens_id s = k \<and> sensor_ok s"
    "groups_of a k = Some g \<Longrightarrow> sg_id g = k \<and> group_ok g"
  using assms by (auto simp: agent_ok_def)

text \<open>The parts of the agent that \<open>agent_ok\<close> and \<open>references_ok\<close> look at.\<close>

definition same_tables :: "agent \<Rightarrow> agent \<Rightarrow> bool" where
  "same_tables a b \<longleftrightarrow> sensors_table a = sensors_table b \<and> sensorgroup_table a = sensorgroup_table b"

lemma same_tables_ok:
  "same_tables a b \<Longrightarrow> agent_ok a = agent_ok b"
  "same_tables a b \<Longrightarrow> references_ok a = references_ok b"
  by (simp_all add: same_tables_def agent_ok_def references_ok_def group_resolved_def sensors_of_def groups_of_def)

text \<open>Everything but the tables and the ledger: the status, the flags and the configuration.\<close>

definition same_control :: "agent \<Rightarrow> agent \<Rightarrow> bool" where
  "same_control a b \<longleftrightarrow>
     a\<lparr>sensors_table := sensors_table b, sensorgroup_table := sensorgroup_table b, overruns := overruns b\<rparr> = b"

lemma same_control_simps [simp, c_frame]:
  "same_control a a"
  "same_control (a\<lparr>sensors_table := t\<rparr>) b = same_control a b"
  "same_control (a\<lparr>sensorgroup_table := g\<rparr>) b = same_control a b"
  "same_control (a\<lparr>overruns := l\<rparr>) b = same_control a b"
  "same_control a (b\<lparr>sensors_table := t\<rparr>) = same_control a b"
  "same_control a (b\<lparr>sensorgroup_table := g\<rparr>) = same_control a b"
  "same_control a (b\<lparr>overruns := l\<rparr>) = same_control a b"
  by (cases a; cases b; auto simp: same_control_def)+

lemma same_control_trans: "same_control a b \<Longrightarrow> same_control b c \<Longrightarrow> same_control a c"
  by (cases a; cases b; cases c) (auto simp: same_control_def)

lemma same_controlD:
  assumes "same_control a b"
  shows "status a = status b" "restart_mqtt a = restart_mqtt b" "restart_http a = restart_http b"
    "can_up a = can_up b" "rest_server_port a = rest_server_port b" "mqtt_username a = mqtt_username b"
    "mqtt_broker_host a = mqtt_broker_host b" "mqtt_broker_port a = mqtt_broker_port b"
    "monitor_id a = monitor_id b" "mqtt_qos a = mqtt_qos b" "can_conf_id a = can_conf_id b"
    "canport a = canport b" "bitrate a = bitrate b"
  using assms by (cases a; cases b; auto simp: same_control_def)+

lemma walk_ok:
  assumes "store_ready s"
  shows "\<exists>vs. walk s = Some vs \<and> set vs = ran (store_lookup s)"
proof -
  from assms obtain t where t: "st_table s = Some t" "store_ok s" by (auto simp: store_ready_def)
  have live: "\<exists>v. cells (st_heap s) p = Some v" if "p \<in> set (map snd (entries t))" for p
    using that store_okD(4) [OF t(2,1)] by auto
  then obtain vs where vs: "map_ub (deref (st_heap s)) (map snd (entries t)) = Some vs"
    using map_ub_total [of "map snd (entries t)" "deref (st_heap s)"] by (fastforce simp: deref_def)
  have d: "distinct (map fst (entries t))" using store_okD(1) [OF t(2,1)] by (simp add: table_ok_def)
  have "v \<in> set vs \<longleftrightarrow> (\<exists>p \<in> set (map snd (entries t)). cells (st_heap s) p = Some v)" for v
    using vs unfolding map_ub_eq_Some in_set_conv_nth deref_def by (metis option.inject nth_mem in_set_conv_nth)
  moreover have "v \<in> ran (store_lookup s) \<longleftrightarrow> (\<exists>p \<in> set (map snd (entries t)). cells (st_heap s) p = Some v)" for v
  proof -
    have "v \<in> ran (store_lookup s) \<longleftrightarrow> (\<exists>k p. map_of (entries t) k = Some p \<and> cells (st_heap s) p = Some v)"
      using t(1) by (auto simp: ran_def store_lookup_def st_entries_def split: option.splits)
    also have "\<dots> \<longleftrightarrow> (\<exists>k p. (k, p) \<in> set (entries t) \<and> cells (st_heap s) p = Some v)"
      using d by (auto simp: map_of_eq_Some_iff)
    also have "\<dots> \<longleftrightarrow> (\<exists>p \<in> set (map snd (entries t)). cells (st_heap s) p = Some v)" by force
    finally show ?thesis .
  qed
  ultimately have "set vs = ran (store_lookup s)" by blast
  with t(1) vs show ?thesis by (simp add: walk_def)
qed

lemma fold_write_ok:
  assumes "distinct ps" and "\<forall>p \<in> set ps. \<exists>v. cells h p = Some v \<and> f v = Some (g v)"
  shows "\<exists>h'. fold_ub (\<lambda>p h. do { v \<leftarrow> deref h p; v' \<leftarrow> f v; hwrite p v' h }) ps h = Some h' \<and>
    next_addr h' = next_addr h \<and>
    (\<forall>p. cells h' p = (if p \<in> set ps then map_option g (cells h p) else cells h p))"
  using assms
proof (induction ps arbitrary: h)
  case Nil
  then show ?case by simp
next
  case (Cons p ps)
  then obtain v where v: "cells h p = Some v" "f v = Some (g v)" by auto
  let ?h = "h\<lparr>cells := (cells h)(p \<mapsto> g v)\<rparr>"
  have w: "hwrite p (g v) h = Some ?h" using v by (simp add: hwrite_def)
  have "\<forall>q \<in> set ps. \<exists>v. cells ?h q = Some v \<and> f v = Some (g v)" using Cons.prems by auto
  with Cons.prems(1) Cons.IH [of ?h] obtain h' where
    h': "fold_ub (\<lambda>p h. do { v \<leftarrow> deref h p; v' \<leftarrow> f v; hwrite p v' h }) ps ?h = Some h'"
      "next_addr h' = next_addr ?h"
      "\<forall>q. cells h' q = (if q \<in> set ps then map_option g (cells ?h q) else cells ?h q)"
    by auto
  with v w Cons.prems(1) show ?case by (auto simp: deref_def)
qed

lemma map_of_snd: "map_of es k = Some p \<Longrightarrow> p \<in> snd ` set es"
  by (force dest: map_of_SomeD)

lemma update_all_ok:
  assumes "store_ready s" and "\<And>k v. store_lookup s k = Some v \<Longrightarrow> f v = Some (g v)"
  shows "\<exists>s'. update_all f s = Some s' \<and> store_ready s' \<and> st_table s' = st_table s \<and>
    store_lookup s' = (\<lambda>k. map_option g (store_lookup s k))"
proof -
  from assms(1) obtain t where t: "st_table s = Some t" "store_ok s" by (auto simp: store_ready_def)
  note ok = store_okD [OF t(2,1)]
  have d: "distinct (map fst (entries t))" using ok(1) by (simp add: table_ok_def)
  have live: "\<exists>v. cells (st_heap s) p = Some v \<and> f v = Some (g v)" if p: "p \<in> set (map snd (entries t))" for p
  proof -
    from p obtain k where k: "(k, p) \<in> set (entries t)" by auto
    with ok(4) obtain v where v: "cells (st_heap s) p = Some v" by blast
    with k d t(1) have "store_lookup s k = Some v" by (simp add: store_lookup_def st_entries_def)
    with v assms(2) show ?thesis by blast
  qed
  with fold_write_ok [OF ok(2), of "st_heap s" f g] obtain h' where
    h': "fold_ub (\<lambda>p h. do { v \<leftarrow> deref h p; v' \<leftarrow> f v; hwrite p v' h }) (map snd (entries t)) (st_heap s) = Some h'"
      "next_addr h' = next_addr (st_heap s)"
      "\<And>p. cells h' p = (if p \<in> set (map snd (entries t)) then map_option g (cells (st_heap s) p) else cells (st_heap s) p)"
    by auto
  have "store_ready (s\<lparr>st_heap := h'\<rparr>)"
    using t ok h'(2,3) by (auto simp: store_ready_def store_ok_def heap_ok_def dest: ok(4))
  moreover have "store_lookup (s\<lparr>st_heap := h'\<rparr>) k = map_option g (store_lookup s k)" for k
  proof (cases "map_of (entries t) k")
    case (Some p)
    then have "p \<in> set (map snd (entries t))" by (simp add: map_of_snd)
    with Some t(1) h'(3) show ?thesis by (simp add: store_lookup_def st_entries_def)
  qed (use t(1) in \<open>simp add: store_lookup_def st_entries_def\<close>)
  moreover have "update_all f s = Some (s\<lparr>st_heap := h'\<rparr>)" using t h'(1) by (simp add: update_all_def)
  ultimately show ?thesis by auto
qed

lemma update_all_None:
  assumes "store_ready s" and "store_lookup s k = Some v" and "f v = None"
  shows "update_all f s = None"
proof -
  from assms(1) obtain t where t: "st_table s = Some t" "store_ok s" by (auto simp: store_ready_def)
  note ok = store_okD [OF t(2,1)]
  from assms(2) t obtain p where m: "map_of (entries t) k = Some p" and c: "cells (st_heap s) p = Some v"
    by (auto simp: store_lookup_def st_entries_def split: option.splits)
  from map_of_snd [OF m] have p: "p \<in> set (map snd (entries t))" by simp
  let ?f = "\<lambda>p h. do { v \<leftarrow> deref h p; v' \<leftarrow> f v; hwrite p v' h }"
  have "fold_ub ?f ps h = None" if "p \<in> set ps" "distinct ps" "cells h p = Some v" for ps and h :: "'a heap"
    using that
  proof (induction ps arbitrary: h)
    case (Cons q ps)
    show ?case
    proof (cases "q = p")
      case True
      with Cons.prems(3) assms(3) show ?thesis by (simp add: deref_def)
    next
      case False
      with Cons show ?thesis
        by (cases "cells h q"; cases "f (the (cells h q))") (auto simp: deref_def hwrite_def)
    qed
  qed simp
  from this [OF p ok(2) c] t(1) show ?thesis by (simp add: update_all_def)
qed

lemma hts_get_ok: "store_ready s \<Longrightarrow> hts_get s k = Some (map_of (st_entries s) k)"
  by (simp add: hts_get_def ht_get_ok store_ready_def)

lemma htsg_get_ok: "store_ready s \<Longrightarrow> htsg_get s k = Some (map_of (st_entries s) k)"
  by (simp add: htsg_get_def ht_get_ok store_ready_def)

lemma entry_lookup: "store_ready s \<Longrightarrow> map_of (st_entries s) k = None \<longleftrightarrow> store_lookup s k = None"
  by (simp add: store_lookup_None store_ready_def)

lemma payload_ok:
  assumes "payload_object values = Some (Some obj)"
  shows "json_ok (JObject obj)"
proof -
  from assms obtain v where "json_value_get_object (json_parse_string (Some v)) = Some obj"
    by (auto simp: payload_object_def bind_Some_iff)
  then have "json_parse_string (Some v) = Some (JObject obj)"
    by (elim json_value_get_object.elims) auto
  then show ?thesis unfolding json_parse_string_def
    by (auto simp: Let_def simp del: parse_value.simps json_ok.simps dest: parse_value_ok
        split: option.splits parsed.splits)
qed

lemma dup_string_ok:
  assumes "dup_string obj key = Some s" and "\<And>ob. obj = Some ob \<Longrightarrow> json_ok (JObject ob)"
  shows "nul_free s"
proof -
  from assms(1) obtain ob where "obj = Some ob" "map_of ob key = Some (JString s)"
    by (cases obj) (auto simp: dup_string_def json_object_get_string_def elim: json_value_get_string.elims)
  with assms(2) show ?thesis by (fastforce dest: map_of_SomeD)
qed

section \<open>The agent after the start of the program\<close>

text \<open>
  The globals when \<open>main\<close> enters its loop, with the configuration it has read: the tables
  have just been made, no connection has been configured.
\<close>

definition SENSORS_TABLE_SIZE :: u32 where
  "SENSORS_TABLE_SIZE = 10"

definition SENSORGROUPS_TABLE_SIZE :: u32 where
  "SENSORGROUPS_TABLE_SIZE = 10"

definition started_agent :: "u32 \<Rightarrow> cstring \<Rightarrow> u32 \<Rightarrow> u32 \<Rightarrow> cstring \<Rightarrow> cstring \<Rightarrow> agent" where
  "started_agent port host broker_port qos ident username =
     \<lparr>status = unconfigured, restart_mqtt = 0, restart_http = 0, can_up = 0,
      sensors_table = \<lparr>st_table = hts_create True True SENSORS_TABLE_SIZE, st_heap = empty_heap\<rparr>,
      sensorgroup_table = \<lparr>st_table = htsg_create True True SENSORGROUPS_TABLE_SIZE, st_heap = empty_heap\<rparr>,
      rest_server_port = port, mqtt_username = Some username, mqtt_broker_host = Some host,
      mqtt_broker_port = broker_port, monitor_id = Some ident, mqtt_qos = qos,
      can_conf_id = None, canport = Some ''can0'', bitrate = 125000, overruns = []\<rparr>"

lemma started_tables:
  "sensors_table (started_agent p h b q i u) = new_store 10"
  "sensorgroup_table (started_agent p h b q i u) = new_store 10"
  by (simp_all add: started_agent_def new_store_def hts_create_def htsg_create_def
      SENSORS_TABLE_SIZE_def SENSORGROUPS_TABLE_SIZE_def)

lemma agent_ok_started:
  "agent_ok (started_agent p h b q i u)"
  "sensors_of (started_agent p h b q i u) = Map.empty" "groups_of (started_agent p h b q i u) = Map.empty"
  using new_store_ready [of 10, where ?'v = sensor] new_store_ready [of 10, where ?'v = sensorgroup]
  by (simp_all add: agent_ok_def sensors_of_def groups_of_def started_tables)

section \<open>Agents with given contents\<close>

text \<open>Used by the witnesses: the started agent with these sensors and groups created.\<close>

definition populated :: "sensor list \<Rightarrow> sensorgroup list \<Rightarrow> agent" where
  "populated ss gs = (let a = started_agent 80 ''host'' 1883 0 ''monitor'' ''user'' in
     a\<lparr>sensors_table := the (fold_ub hts_new ss (sensors_table a)),
       sensorgroup_table := the (fold_ub htsg_new gs (sensorgroup_table a))\<rparr>)"

lemma insert_all:
  assumes "store_ready s" and "distinct (map key vs)" and "\<forall>v \<in> set vs. store_lookup s (key v) = None"
  shows "\<exists>s'. fold_ub (\<lambda>v. store_insert (key v) v) vs s = Some s' \<and> store_ready s' \<and>
    store_lookup s' = store_lookup s ++ map_of (map (\<lambda>v. (key v, v)) vs)"
  using assms
proof (induction vs arbitrary: s)
  case Nil
  then show ?case by simp
next
  case (Cons v vs)
  from hts.ins_fresh [of s "key v" v] Cons.prems obtain t where
    t: "store_insert (key v) v s = Some t" "store_ready t" "store_lookup t = (store_lookup s)(key v \<mapsto> v)"
    by auto
  have "\<forall>w \<in> set vs. store_lookup t (key w) = None" using Cons.prems t(3) by (auto simp: image_iff)
  from Cons.IH [OF t(2) _ this] Cons.prems(2) obtain s' where
    s': "fold_ub (\<lambda>v. store_insert (key v) v) vs t = Some s'" "store_ready s'"
      "store_lookup s' = store_lookup t ++ map_of (map (\<lambda>v. (key v, v)) vs)"
    by auto
  have "key v \<notin> dom (map_of (map (\<lambda>v. (key v, v)) vs))" using Cons.prems(2) by (auto simp: dom_map_of_conv_image_fst)
  then have "store_lookup s' = store_lookup s ++ map_of (map (\<lambda>v. (key v, v)) (v # vs))"
    using s'(3) t(3) by (simp add: map_add_upd_left)
  with s'(1,2) t(1) show ?case by (intro exI [of _ s']) (simp only: fold_ub.simps bind.simps)
qed

lemma populated_ok:
  assumes "distinct (map sens_id ss)" and "\<forall>s \<in> set ss. sensor_ok s"
    and "distinct (map sg_id gs)" and "\<forall>g \<in> set gs. group_ok g"
  shows "agent_ok (populated ss gs) \<and> sensors_of (populated ss gs) = map_of (map (\<lambda>s. (sens_id s, s)) ss) \<and>
    groups_of (populated ss gs) = map_of (map (\<lambda>g. (sg_id g, g)) gs) \<and> status (populated ss gs) = unconfigured"
proof -
  let ?a = "started_agent 80 ''host'' 1883 0 ''monitor'' ''user''"
  have new: "store_ready (new_store 10 :: sensor store)" "store_lookup (new_store 10 :: sensor store) = Map.empty"
      "store_ready (new_store 10 :: sensorgroup store)" "store_lookup (new_store 10 :: sensorgroup store) = Map.empty"
    using new_store_ready [of 10, where ?'v = sensor] new_store_ready [of 10, where ?'v = sensorgroup] by simp_all
  have "\<forall>s \<in> set ss. store_lookup (new_store 10 :: sensor store) (sens_id s) = None"
      "\<forall>g \<in> set gs. store_lookup (new_store 10 :: sensorgroup store) (sg_id g) = None"
    using new by simp_all
  note fresh = this
  from insert_all [OF new(1) assms(1) fresh(1)] new(2) obtain s where
    s: "fold_ub hts_new ss (sensors_table ?a) = Some s" "store_ready s"
      "store_lookup s = map_of (map (\<lambda>s. (sens_id s, s)) ss)"
    unfolding hts_new_insert [abs_def] started_tables by (auto simp del: fun_upd_apply)
  from insert_all [OF new(3) assms(3) fresh(2)] new(4) obtain g where
    g: "fold_ub htsg_new gs (sensorgroup_table ?a) = Some g" "store_ready g"
      "store_lookup g = map_of (map (\<lambda>g. (sg_id g, g)) gs)"
    unfolding htsg_new_insert [abs_def] started_tables by (auto simp del: fun_upd_apply)
  have "sensors_table (populated ss gs) = s" "sensorgroup_table (populated ss gs) = g"
      "status (populated ss gs) = unconfigured"
    using s(1) g(1) by (simp_all add: populated_def Let_def started_agent_def)
  with s(2,3) g(2,3) assms(2,4) show ?thesis
    by (auto simp: agent_ok_def sensors_of_def groups_of_def dest!: map_of_SomeD)
qed

text \<open>A sensor of one byte, and a group.\<close>

definition byte_sensor :: "cstring \<Rightarrow> sensor" where
  "byte_sensor k = \<lparr>sens_id = k, sens_name = ''speed'', sens_type = ''Uint8'', can_id = 5, init_bit = 0,
     end_bit = 7, sampling_rate = 100, sens_value = [], sens_timestamp = 0\<rparr>"

definition plain_group :: "cstring \<Rightarrow> cstring list \<Rightarrow> sensorgroup" where
  "plain_group k ks = \<lparr>sg_id = k, publish_rate = 1000, sensorcount = length ks, sensor_list = ks,
     last_tv_sec = 0, last_tv_usec = 0\<rparr>"

lemma byte_sensor_simps [simp]: "sens_id (byte_sensor k) = k" "sensor_ok (byte_sensor k) = nul_free k"
  by (simp_all add: byte_sensor_def sensor_ok_def)

lemma plain_group_simps [simp]: "sg_id (plain_group k ks) = k" "members (plain_group k ks) = ks"
  "group_ok (plain_group k ks) \<longleftrightarrow> nul_free k \<and> (\<forall>j \<in> set ks. nul_free j)"
  by (simp_all add: plain_group_def members_def group_ok_def)

end
