(* ===== verification/SensorConfig.thy ===== *)
theory SensorConfig
  imports AgentState
begin

text \<open>
  \<^verbatim>\<open>implementation/sensor.c\<close>: creating, updating, deleting and reading sensors. The
  early returns of the code are the branches of the definitions, in the order of the code.
\<close>

section \<open>Creation\<close>

text \<open>The loop over the three settings: \<open>Inl ()\<close> where the code returns the error at once.\<close>

fun sensor_settings :: "json list \<Rightarrow> u32 \<times> u32 \<times> u32 \<times> nat \<Rightarrow> (unit + u32 \<times> u32 \<times> u32 \<times> nat) option" where
  "sensor_settings [] acc = Some (Inr acc)"
| "sensor_settings (v # vs) (cid, ib, eb, flag) =
     (let obj = json_value_get_object (Some v) in
      if has obj ''key'' \<and> has obj ''value'' then do {
        key \<leftarrow> dup_string obj ''key'';
        if key = ''can-id'' then do {
          str \<leftarrow> json_object_get_string obj ''value'';
          sensor_settings vs (case scan_u32 str of None \<Rightarrow> cid | Some w \<Rightarrow> w, ib, eb, flag + 1) }
        else if key = ''init-bit'' then do {
          str \<leftarrow> json_object_get_string obj ''value'';
          sensor_settings vs (cid, case scan_u32 str of None \<Rightarrow> ib | Some w \<Rightarrow> w, eb, flag + 1) }
        else if key = ''end-bit'' then do {
          str \<leftarrow> json_object_get_string obj ''value'';
          sensor_settings vs (cid, ib, case scan_u32 str of None \<Rightarrow> eb | Some w \<Rightarrow> w, flag + 1) }
        else Some (Inl ()) }
      else Some (Inl ()))"

definition mark_configured :: "agent \<Rightarrow> agent" where
  "mark_configured a = (if status a \<noteq> running then a\<lparr>status := configured\<rparr> else a)"

definition create_sensors_configuration :: "cstring option \<Rightarrow> agent \<Rightarrow> outcome" where
  "create_sensors_configuration values a = do {
     jobj \<leftarrow> payload_object values;
     if has jobj ''sensor-id'' \<and> has jobj ''sensor-name'' \<and> has jobj ''sensor-type''
        \<and> has jobj ''sampling-rate'' \<and> has jobj ''sensor-settings''
     then do {
       ident \<leftarrow> dup_string jobj ''sensor-id'';
       found \<leftarrow> hts_get (sensors_table a) ident;
       if found \<noteq> None then fail_with ''A sensor with that id already exists'' a
       else do {
         variableName \<leftarrow> dup_string jobj ''sensor-name'';
         variableType \<leftarrow> dup_string jobj ''sensor-type'';
         let connectionSettings = json_object_get_array jobj ''sensor-settings'';
         if json_array_get_count connectionSettings = 3 then do {
           r \<leftarrow> sensor_settings (case connectionSettings of None \<Rightarrow> [] | Some xs \<Rightarrow> xs) (0, 0, 0, 0);
           case r of
             Inl _ \<Rightarrow> fail_with ''The sensor information is not valid'' a
           | Inr (cid, ib, eb, flag) \<Rightarrow>
               if flag \<noteq> 3 then fail_with ''The sensor information is not valid'' a
               else do {
                 samplingRate \<leftarrow> double_to_i32 (json_object_get_number jobj ''sampling-rate'');
                 t \<leftarrow> hts_new \<lparr>sens_id = ident, sens_name = variableName, sens_type = variableType,
                        can_id = cid, init_bit = ib, end_bit = eb, sampling_rate = samplingRate,
                        sens_value = [], sens_timestamp = 0\<rparr> (sensors_table a);
                 v \<leftarrow> clear_values values;
                 Some (OK, v, mark_configured (a\<lparr>sensors_table := t\<rparr>)) } }
         else fail_with ''The sensor information is not valid'' a } }
     else fail_with ''The sensor information is not valid'' a }"

section \<open>Deletion and update\<close>

fun delete_sensors_loop :: "query_pairs \<Rightarrow> cstring option \<Rightarrow> agent \<Rightarrow> (cstring option \<times> agent) flow option" where
  "delete_sensors_loop [] ident a = Some (Continue (ident, a))"
| "delete_sensors_loop ((name, v) # tmp) ident a =
     (if name = ''id'' then do {
        (sens, t) \<leftarrow> hts_delete (sensors_table a) v;
        if sens \<noteq> None then delete_sensors_loop tmp (Some v) (a\<lparr>sensors_table := t\<rparr>)
        else do {
          let message = ''There is no sensor with id '' @ v;
          leave (fail_with message (log_overrun Message_50 50 (length message + 1) (a\<lparr>sensors_table := t\<rparr>))) } }
      else delete_sensors_loop tmp ident a)"

text \<open>The index of the first entry that is the id, or the count.\<close>

function find_member :: "cstring \<Rightarrow> cstring list \<Rightarrow> nat \<Rightarrow> nat \<Rightarrow> nat option" where
  "find_member ident l n j =
     (if j < n then do { k \<leftarrow> at l j; if k = ident then Some j else find_member ident l n (Suc j) }
      else Some j)"
  by pat_completeness auto
termination
  by (relation "measure (\<lambda>(ident, l, n, j). n - j)") auto

declare find_member.simps [simp del]

definition shift_down :: "nat \<Rightarrow> nat \<Rightarrow> cstring list \<Rightarrow> cstring list option" where
  "shift_down j n l = fold_ub (\<lambda>k l. do { x \<leftarrow> at l (k + 1); Some (l[k := x]) }) [j..<n] l"

definition remove_member :: "cstring \<Rightarrow> sensorgroup \<Rightarrow> sensorgroup option" where
  "remove_member ident sg = do {
     j \<leftarrow> find_member ident (sensor_list sg) (sensorcount sg) 0;
     if j \<noteq> sensorcount sg then do {
       l \<leftarrow> shift_down j (sensorcount sg - 1) (sensor_list sg);
       Some (sg\<lparr>sensor_list := l, sensorcount := sensorcount sg - 1\<rparr>) }
     else Some sg }"

text \<open>The walk over all groups; a group is changed in place.\<close>

definition purge_groups :: "cstring \<Rightarrow> sensorgroup store \<Rightarrow> sensorgroup store option" where
  "purge_groups ident s = update_all (remove_member ident) s"

definition delete_sensors_configuration :: "cstring option \<Rightarrow> query_pairs \<Rightarrow> agent \<Rightarrow> outcome" where
  "delete_sensors_configuration values queries a = do {
     r \<leftarrow> delete_sensors_loop queries None a;
     case r of
       Return response reply a' \<Rightarrow> Some (response, reply, a')
     | Continue (None, a') \<Rightarrow> fail_with ''There is no id query.'' a'
     | Continue (Some ident, a') \<Rightarrow> do {
         g \<leftarrow> purge_groups ident (sensorgroup_table a');
         Some (OK, values, a'\<lparr>sensorgroup_table := g\<rparr>) } }"

definition update_sensors_configuration :: "cstring option \<Rightarrow> query_pairs \<Rightarrow> agent \<Rightarrow> outcome" where
  "update_sensors_configuration values queries a = do {
     (response, v, a1) \<leftarrow> delete_sensors_configuration values queries a;
     if response \<noteq> OK then Some (response, v, a1)
     else do {
       (response, v2, a2) \<leftarrow> create_sensors_configuration v a1;
       if response \<noteq> OK then Some (response, v2, a2)
       else do { v3 \<leftarrow> clear_values v2; Some (OK, v3, a2) } } }"

section \<open>Reading\<close>

definition setting_value :: "cstring \<Rightarrow> cstring \<Rightarrow> json" where
  "setting_value key text =
     JObject (object_of [(''key'', json_value_init_string (Some key)), (''value'', json_value_init_string (Some text))])"

definition print_u32 :: "u32 \<Rightarrow> cstring" where
  "print_u32 w = snprintf 11 (fmt_u32 w)"

definition sensor_conf_value :: "sensor \<Rightarrow> json" where
  "sensor_conf_value s = JObject (object_of
     [(''sensor-id'', json_value_init_string (Some (sens_id s))),
      (''sensor-name'', json_value_init_string (Some (sens_name s))),
      (''sensor-type'', json_value_init_string (Some (sens_type s))),
      (''sensor-settings'', Some (JArray [setting_value ''can-id'' (print_u32 (can_id s)),
         setting_value ''init-bit'' (print_u32 (init_bit s)), setting_value ''end-bit'' (print_u32 (end_bit s))])),
      (''sampling-rate'', json_value_init_number (double_of_u32 (sampling_rate s)))])"

definition read_sensors_configuration :: "agent \<Rightarrow> outcome" where
  "read_sensors_configuration a = do {
     sensors \<leftarrow> walk (sensors_table a);
     (text, a') \<leftarrow> reply_with Measurement_reply 1 (JArray (map sensor_conf_value sensors)) a;
     Some (OK, Some text, a') }"

definition measurement_value :: "sensor \<Rightarrow> json" where
  "measurement_value s = JObject (object_of
     [(''sensor-id'', json_value_init_string (Some (sens_id s))),
      (''sensor-data'', Some (JObject (object_of
         [(''name'', json_value_init_string (Some (sens_name s))),
          (''value-type'', json_value_init_string (Some (sens_type s))),
          (''value'', json_value_init_string (Some (sens_value s))),
          (''timestamp'', json_value_init_number (double_of_u64 (sens_timestamp s)))])))])"

definition read_sensor_measurements :: "query_pairs \<Rightarrow> agent \<Rightarrow> outcome" where
  "read_sensor_measurements queries a =
     (case queries of
        [] \<Rightarrow> do {
          sensors \<leftarrow> walk (sensors_table a);
          (text, a') \<leftarrow> reply_with Measurement_reply 0 (JArray (map measurement_value sensors)) a;
          Some (OK, Some text, a') }
      | [(name, v)] \<Rightarrow>
          if name = ''id'' then do {
            found \<leftarrow> hts_get (sensors_table a) v;
            case found of
              Some p \<Rightarrow> do {
                sens \<leftarrow> deref (st_heap (sensors_table a)) p;
                (text, a') \<leftarrow> reply_with Measurement_reply 0 (JArray [measurement_value sens]) a;
                Some (OK, Some text, a') }
            | None \<Rightarrow> fail_with ''There is no sensor with that id'' a }
          else fail_with ''Unsupported query'' a
      | _ \<Rightarrow> fail_with ''Too many query variables in the request'' a)"

section \<open>Removing a sensor from a group\<close>

lemma find_member_ok:
  assumes "n \<le> length l" and "j \<le> n"
  shows "\<exists>i. find_member ident l n j = Some i \<and> j \<le> i \<and> i \<le> n \<and>
    (\<forall>m. j \<le> m \<longrightarrow> m < i \<longrightarrow> l ! m \<noteq> ident) \<and> (i < n \<longrightarrow> l ! i = ident)"
  using assms
proof (induction "n - j" arbitrary: j)
  case 0
  then show ?case by (auto simp: find_member.simps)
next
  case (Suc d)
  then have lt: "j < n" by simp
  show ?case
  proof (cases "l ! j = ident")
    case True
    with lt Suc.prems show ?thesis by (subst find_member.simps) auto
  next
    case False
    have "d = n - Suc j" using Suc.hyps(2) by simp
    from Suc.hyps(1) [OF this Suc.prems(1)] lt obtain i where
      i: "find_member ident l n (Suc j) = Some i" "Suc j \<le> i" "i \<le> n"
        "\<forall>m. Suc j \<le> m \<longrightarrow> m < i \<longrightarrow> l ! m \<noteq> ident" "i < n \<longrightarrow> l ! i = ident"
      by auto
    have "l ! m \<noteq> ident" if "j \<le> m" "m < i" for m
      using i(4) that False by (cases "m = j") auto
    with i lt Suc.prems False show ?thesis by (subst find_member.simps) auto
  qed
qed

lemma shift_down_ok:
  assumes "j \<le> n" and "n < length l"
  shows "\<exists>l'. shift_down j n l = Some l' \<and> length l' = length l \<and>
    (\<forall>k < length l. l' ! k = (if j \<le> k \<and> k < n then l ! Suc k else l ! k))"
  using assms
proof (induction n)
  case 0
  then show ?case by (auto simp: shift_down_def)
next
  case (Suc n)
  show ?case
  proof (cases "j = Suc n")
    case True
    then show ?thesis by (auto simp: shift_down_def)
  next
    case False
    with Suc obtain l' where l': "shift_down j n l = Some l'" "length l' = length l"
        "\<forall>k < length l. l' ! k = (if j \<le> k \<and> k < n then l ! Suc k else l ! k)"
      by auto
    have step: "shift_down j (Suc n) l = Some (l'[n := l' ! Suc n])"
      using l'(1,2) False Suc.prems by (simp add: shift_down_def fold_ub_append)
    show ?thesis
      unfolding step using l'(2,3) False Suc.prems by (auto simp: nth_list_update less_Suc_eq)
  qed
qed

lemma remove1_take:
  assumes "i < n" and "n \<le> length l" and "l ! i = x" and "\<forall>m < i. l ! m \<noteq> x"
  shows "remove1 x (take n l) = take i l @ drop (Suc i) (take n l)"
proof -
  have "take n l = take i l @ x # drop (Suc i) (take n l)"
    using id_take_nth_drop [of i "take n l"] assms by (simp add: min_def)
  moreover have "x \<notin> set (take i l)"
    using assms by (auto simp: in_set_conv_nth)
  ultimately show ?thesis by (metis remove1_append remove1.simps(2))
qed

lemma remove_member_ok:
  assumes "group_ok g"
  shows "\<exists>g'. remove_member ident g = Some g' \<and> group_ok g' \<and> sg_id g' = sg_id g \<and>
    publish_rate g' = publish_rate g \<and> last_tv_sec g' = last_tv_sec g \<and> last_tv_usec g' = last_tv_usec g \<and>
    members g' = remove1 ident (members g)"
proof -
  let ?n = "sensorcount g" and ?l = "sensor_list g"
  have n: "?n \<le> length ?l" using assms by (simp add: group_ok_def)
  from find_member_ok [OF n le0, of ident] obtain i where
    i: "find_member ident ?l ?n 0 = Some i" "i \<le> ?n" "\<forall>m < i. ?l ! m \<noteq> ident" "i < ?n \<longrightarrow> ?l ! i = ident"
    by auto
  show ?thesis
  proof (cases "i = ?n")
    case True
    have "ident \<notin> set (members g)"
      using i(3) True n by (auto simp: members_def in_set_conv_nth)
    with True i(1) assms show ?thesis by (simp add: remove_member_def remove1_idem)
  next
    case False
    with i(2) have lt: "i < ?n" by simp
    then have "i \<le> ?n - 1" "?n - 1 < length ?l" using n by auto
    from shift_down_ok [OF this] obtain l' where l': "shift_down i (?n - 1) ?l = Some l'" "length l' = length ?l"
        "\<forall>k < length ?l. l' ! k = (if i \<le> k \<and> k < ?n - 1 then ?l ! Suc k else ?l ! k)"
      by auto
    let ?g' = "g\<lparr>sensor_list := l', sensorcount := ?n - 1\<rparr>"
    have "take (?n - 1) l' = take i ?l @ drop (Suc i) (take ?n ?l)"
    proof (rule nth_equalityI)
      show "length (take (?n - 1) l') = length (take i ?l @ drop (Suc i) (take ?n ?l))"
        using l'(2) lt n by simp
      fix k assume "k < length (take (?n - 1) l')"
      then have k: "k < ?n - 1" "k < length ?l" using l'(2) by auto
      then have "take (?n - 1) l' ! k = (if i \<le> k then ?l ! Suc k else ?l ! k)" using l'(3) by auto
      also have "\<dots> = (take i ?l @ drop (Suc i) (take ?n ?l)) ! k"
        using k lt n by (auto simp: nth_append)
      finally show "take (?n - 1) l' ! k = (take i ?l @ drop (Suc i) (take ?n ?l)) ! k" .
    qed
    then have "members ?g' = remove1 ident (members g)"
      using remove1_take [OF lt n] i(3,4) lt by (simp add: members_def)
    moreover have "set l' \<subseteq> set ?l"
    proof
      fix x assume "x \<in> set l'"
      then obtain k where k: "k < length l'" "l' ! k = x" by (auto simp: in_set_conv_nth)
      then have "x = ?l ! k \<or> (Suc k < length ?l \<and> x = ?l ! Suc k)"
        using l'(2,3) n lt by (auto split: if_splits)
      then show "x \<in> set ?l" using k l'(2) by auto
    qed
    then have "group_ok ?g'" using assms l'(2) n by (auto simp: group_ok_def)
    moreover have "remove_member ident g = Some ?g'"
      using i(1) l'(1) False by (simp add: remove_member_def)
    ultimately show ?thesis by (intro exI conjI) simp_all
  qed
qed

lemma remove_member_the: "group_ok g \<Longrightarrow> remove_member ident g = Some (the (remove_member ident g))"
  using remove_member_ok [of g ident] by auto

section \<open>What the handlers do to a well-formed agent\<close>

lemma fail_with_Some:
  "fail_with m a = Some (r, v, a') \<Longrightarrow>
    r = ERROR \<and> (\<exists>reply. v = Some reply) \<and> a' = a\<lparr>overruns := overruns a @ [(Error_reply, 1)]\<rparr>"
  using fail_with_eq [of m a] by auto

lemma fail_logged:
  "\<exists>reply l. fail_with m (log_overrun p available needed a) = Some (ERROR, Some reply, a\<lparr>overruns := l\<rparr>)"
  using fail_with_eq [of m "log_overrun p available needed a"] by (auto simp: log_overrun_def)

lemma agent_ok_logged [simp]: "agent_ok (a\<lparr>overruns := l\<rparr>) = agent_ok a"
  by (rule same_tables_ok) (simp add: same_tables_def)

lemma tables_logged [simp]:
  "sensors_of (a\<lparr>overruns := l\<rparr>) = sensors_of a" "groups_of (a\<lparr>overruns := l\<rparr>) = groups_of a"
  by (simp_all add: sensors_of_def groups_of_def)

lemma mark_configured_simps [simp]:
  "sensors_of (mark_configured a) = sensors_of a" "groups_of (mark_configured a) = groups_of a"
  "sensors_table (mark_configured a) = sensors_table a" "sensorgroup_table (mark_configured a) = sensorgroup_table a"
  "status (mark_configured a) = (if status a = running then running else configured)"
  by (simp_all add: mark_configured_def sensors_of_def groups_of_def)

lemma agent_ok_marked [simp]: "agent_ok (mark_configured a) = agent_ok a"
  by (rule same_tables_ok) (simp add: same_tables_def)

lemma agent_ok_sensors:
  assumes "agent_ok a" and "store_ready t"
    and "\<And>k s. store_lookup t k = Some s \<Longrightarrow> sens_id s = k \<and> sensor_ok s"
  shows "agent_ok (a\<lparr>sensors_table := t\<rparr>)"
  using assms by (auto simp: agent_ok_def sensors_of_def groups_of_def)

lemma agent_ok_groups:
  assumes "agent_ok a" and "store_ready t"
    and "\<And>k g. store_lookup t k = Some g \<Longrightarrow> sg_id g = k \<and> group_ok g"
  shows "agent_ok (a\<lparr>sensorgroup_table := t\<rparr>)"
  using assms by (auto simp: agent_ok_def sensors_of_def groups_of_def)

lemma hts_new_ok:
  assumes "store_ready t" and "store_lookup t (sens_id s) = None"
  shows "\<exists>t'. hts_new s t = Some t' \<and> store_ready t' \<and> store_lookup t' = (store_lookup t)(sens_id s \<mapsto> s)"
  using hts.ins_fresh [OF assms, of s] by (simp add: hts_new_insert)

lemma create_sensors_cases:
  assumes a: "agent_ok a" and c: "create_sensors_configuration values a = Some (r, v, a')"
  obtains (refused) reply where "r = ERROR" "v = Some reply"
      "a' = a\<lparr>overruns := overruns a @ [(Error_reply, 1)]\<rparr>"
  | (created) s t where "r = OK" "v = Some []" "a' = mark_configured (a\<lparr>sensors_table := t\<rparr>)"
      "sensors_of a (sens_id s) = None" "sensor_ok s" "sens_value s = []" "sens_timestamp s = 0"
      "store_ready t" "store_lookup t = (sensors_of a)(sens_id s \<mapsto> s)"
proof -
  have R: thesis if "fail_with m a = Some (r, v, a')" for m
    using fail_with_Some [OF that] refused by auto
  from c obtain jobj where j: "payload_object values = Some jobj"
    by (auto simp: create_sensors_configuration_def bind_Some_iff)
  have jok: "\<And>ob. jobj = Some ob \<Longrightarrow> json_ok (JObject ob)" using payload_ok j by auto
  show thesis
  proof (cases "has jobj ''sensor-id'' \<and> has jobj ''sensor-name'' \<and> has jobj ''sensor-type''
        \<and> has jobj ''sampling-rate'' \<and> has jobj ''sensor-settings''")
    case False
    then show thesis using c j by (intro R) (auto simp: create_sensors_configuration_def)
  next
    case True
    note c = c [unfolded create_sensors_configuration_def j bind.simps if_P [OF True]]
    from c obtain ident found where i: "dup_string jobj ''sensor-id'' = Some ident"
        "hts_get (sensors_table a) ident = Some found"
      by (auto simp: bind_Some_iff)
    show thesis
    proof (cases "found = None")
      case False
      then show thesis using c i by (intro R) auto
    next
      case fresh: True
      from c i fresh obtain nm ty where n: "dup_string jobj ''sensor-name'' = Some nm"
          "dup_string jobj ''sensor-type'' = Some ty"
        by (auto simp: bind_Some_iff)
      let ?cs = "json_object_get_array jobj ''sensor-settings''"
      show thesis
      proof (cases "json_array_get_count ?cs = 3")
        case False
        then show thesis using c i fresh n by (intro R) auto
      next
        case three: True
        from c i fresh n three obtain z where
          z: "sensor_settings (case ?cs of None \<Rightarrow> [] | Some xs \<Rightarrow> xs) (0, 0, 0, 0) = Some z"
          by (auto simp: bind_Some_iff)
        show thesis
        proof (cases z)
          case (Inl u)
          then show thesis using c i fresh n three z by (intro R) auto
        next
          case (Inr q)
          obtain cid ib eb flag where q: "q = (cid, ib, eb, flag)" by (cases q) auto
          show thesis
          proof (cases "flag = 3")
            case False
            then show thesis using c i fresh n three z Inr q by (intro R) auto
          next
            case f: True
            from c i fresh n three z Inr q f obtain rate t v' where
              t: "hts_new \<lparr>sens_id = ident, sens_name = nm, sens_type = ty,
                  can_id = cid, init_bit = ib, end_bit = eb, sampling_rate = rate,
                  sens_value = [], sens_timestamp = 0\<rparr> (sensors_table a) = Some t"
                "clear_values values = Some v'" "r = OK" "v = v'" "a' = mark_configured (a\<lparr>sensors_table := t\<rparr>)"
              by (auto simp: bind_Some_iff)
            let ?s = "\<lparr>sens_id = ident, sens_name = nm, sens_type = ty,
                  can_id = cid, init_bit = ib, end_bit = eb, sampling_rate = rate,
                  sens_value = [], sens_timestamp = 0\<rparr>"
            have ready: "store_ready (sensors_table a)" using a by (simp add: agent_ok_def)
            have none: "sensors_of a ident = None"
              using i(2) fresh ready by (simp add: hts_get_ok entry_lookup sensors_of_def)
            have "sensor_ok ?s"
              using dup_string_ok [OF i(1) jok] dup_string_ok [OF n(1) jok] dup_string_ok [OF n(2) jok]
              by (simp add: sensor_ok_def)
            moreover have "v = Some []" using t(2,4) by (cases "values") (auto simp: clear_values_def)
            ultimately show thesis
              using hts_new_ok [OF ready, of ?s] none t(1,3,5) by (intro created [of t ?s]) (auto simp: sensors_of_def)
          qed
        qed
      qed
    qed
  qed
qed

lemma create_sensors_ok [c_inv]:
  assumes "agent_ok a" and "create_sensors_configuration values a = Some (r, v, a')"
  shows "agent_ok a'"
  using assms
proof (cases rule: create_sensors_cases)
  case (created s t)
  then show ?thesis using assms(1)
    by (auto intro!: agent_ok_sensors dest: agent_okD(3) split: if_splits)
qed (use assms in \<open>simp\<close>)

lemma hts_delete_ok:
  assumes "store_ready t"
  shows "\<exists>p t'. hts_delete t k = Some (p, t') \<and> (p = None \<longleftrightarrow> store_lookup t k = None) \<and>
    store_ready t' \<and> store_lookup t' = (store_lookup t)(k := None)"
proof -
  from assms have ok: "store_ok t" by (simp add: store_ready_def)
  from ht_delete_ok [OF ok, of k] obtain t' where t': "ht_delete t k = Some (map_of (st_entries t) k, t')"
    by (elim exE conjE) (rule that)
  from hts.del_any [OF assms, of k] t' have "store_ready t'" "store_lookup t' = (store_lookup t)(k := None)"
    by (auto simp: store_remove_def)
  with t' assms show ?thesis by (simp add: hts_delete_def entry_lookup)
qed

text \<open>The loop over the queries: every named sensor goes, up to the first that is not there.\<close>

definition query_ids :: "query_pairs \<Rightarrow> cstring list" where
  "query_ids queries = map snd (filter (\<lambda>(name, v). name = ''id'') queries)"

lemma query_ids_Cons [simp]:
  "query_ids ((name, v) # qs) = (if name = ''id'' then v # query_ids qs else query_ids qs)"
  by (simp add: query_ids_def)

lemma query_ids_Nil [simp]: "query_ids [] = []"
  by (simp add: query_ids_def)

lemma agent_ok_remove:
  assumes "agent_ok a" and "store_ready t" and "store_lookup t = (sensors_of a)(k := None)"
  shows "agent_ok (a\<lparr>sensors_table := t\<rparr>)"
  using assms by (intro agent_ok_sensors) (auto dest: agent_okD(3) split: if_splits)

lemma delete_sensors_loop_ok:
  assumes "agent_ok a"
  shows "(\<exists>t. delete_sensors_loop qs ident a =
            Some (Continue (if query_ids qs = [] then ident else Some (last (query_ids qs)), a\<lparr>sensors_table := t\<rparr>)) \<and>
            agent_ok (a\<lparr>sensors_table := t\<rparr>) \<and> store_lookup t = (sensors_of a) |` (- set (query_ids qs)) \<and>
            distinct (query_ids qs) \<and> set (query_ids qs) \<subseteq> dom (sensors_of a)) \<or>
         (\<exists>reply a'. delete_sensors_loop qs ident a = Some (Return ERROR (Some reply) a') \<and>
            agent_ok a' \<and> sensorgroup_table a' = sensorgroup_table a \<and> same_control a' a \<and>
            sensors_of a' \<subseteq>\<^sub>m sensors_of a)"
  using assms
proof (induction qs ident a rule: delete_sensors_loop.induct)
  case (1 ident a)
  have "a = a\<lparr>sensors_table := sensors_table a\<rparr>" by simp
  with 1 show ?case by (intro disjI1 exI [of _ "sensors_table a"]) (auto simp: restrict_map_def sensors_of_def)
next
  case (2 name v tmp ident a)
  show ?case
  proof (cases "name = ''id''")
    case False
    with 2 show ?thesis by auto
  next
    case True
    have ready: "store_ready (sensors_table a)" using 2(3) by (simp add: agent_ok_def)
    from hts_delete_ok [OF ready, of v] obtain p t where
      t: "hts_delete (sensors_table a) v = Some (p, t)" "p = None \<longleftrightarrow> sensors_of a v = None"
        "store_ready t" "store_lookup t = (sensors_of a)(v := None)"
      by (auto simp: sensors_of_def)
    have ok: "agent_ok (a\<lparr>sensors_table := t\<rparr>)" using 2(3) t(3,4) by (rule agent_ok_remove)
    have look: "sensors_of (a\<lparr>sensors_table := t\<rparr>) = (sensors_of a)(v := None)" using t(4) by (simp add: sensors_of_def)
    show ?thesis
    proof (cases p)
      case None
      obtain reply l where r: "fail_with (''There is no sensor with id '' @ v)
          (log_overrun Message_50 50 (length (''There is no sensor with id '' @ v) + 1) (a\<lparr>sensors_table := t\<rparr>)) =
          Some (ERROR, Some reply, a\<lparr>sensors_table := t, overruns := l\<rparr>)"
        using fail_logged by blast
      show ?thesis
        using True t(1) None r ok t(4)
        by (intro disjI2) (auto simp: leave_def Let_def map_le_def sensors_of_def split: if_splits)
    next
      case (Some q)
      then have v: "sensors_of a v \<noteq> None" using t(2) by auto
      have step: "delete_sensors_loop ((name, v) # tmp) ident a =
          delete_sensors_loop tmp (Some v) (a\<lparr>sensors_table := t\<rparr>)"
        using True t(1) Some by simp
      let ?a = "a\<lparr>sensors_table := t\<rparr>"
      have "p \<noteq> None" using Some by simp
      from 2(1) [OF True t(1) refl this ok] consider (cont) u where
          "delete_sensors_loop tmp (Some v) ?a =
            Some (Continue (if query_ids tmp = [] then Some v else Some (last (query_ids tmp)), ?a\<lparr>sensors_table := u\<rparr>))"
          "agent_ok (?a\<lparr>sensors_table := u\<rparr>)" "store_lookup u = (sensors_of ?a) |` (- set (query_ids tmp))"
          "distinct (query_ids tmp)" "set (query_ids tmp) \<subseteq> dom (sensors_of ?a)"
        | (ret) reply a' where "delete_sensors_loop tmp (Some v) ?a = Some (Return ERROR (Some reply) a')"
          "agent_ok a'" "sensorgroup_table a' = sensorgroup_table ?a" "same_control a' ?a" "sensors_of a' \<subseteq>\<^sub>m sensors_of ?a"
        by (elim disjE exE conjE)
      then show ?thesis
      proof cases
        case cont
        have "store_lookup u = (sensors_of a) |` (- set (query_ids ((name, v) # tmp)))"
          using cont(3) True unfolding look by (auto simp: restrict_map_def fun_eq_iff)
        moreover have "v \<notin> set (query_ids tmp)" "set (query_ids tmp) \<subseteq> dom (sensors_of a)"
          using cont(5) unfolding look by auto
        ultimately show ?thesis
          unfolding step using cont(1,2,4) True v by (intro disjI1 exI [of _ u]) auto
      next
        case ret
        have "(sensors_of a)(v := None) \<subseteq>\<^sub>m sensors_of a" by (auto simp: map_le_def split: if_splits)
        then have "sensors_of a' \<subseteq>\<^sub>m sensors_of a" using ret(5) unfolding look by (rule map_le_trans [rotated])
        moreover have "same_control a' a" using same_control_trans [OF ret(4)] by simp
        ultimately show ?thesis using ret(1-3) unfolding step by (intro disjI2 exI [of _ reply] exI [of _ a']) simp
      qed
    qed
  qed
qed

lemma purge_groups_ok:
  assumes "agent_ok a"
  shows "\<exists>t. purge_groups ident (sensorgroup_table a) = Some t \<and> agent_ok (a\<lparr>sensorgroup_table := t\<rparr>) \<and>
    (\<forall>k. map_option members (store_lookup t k) = map_option (\<lambda>g. remove1 ident (members g)) (groups_of a k)) \<and>
    (\<forall>k. map_option publish_rate (store_lookup t k) = map_option publish_rate (groups_of a k))"
proof -
  have ready: "store_ready (sensorgroup_table a)" using assms by (simp add: agent_ok_def)
  have ok: "sg_id g = k \<and> group_ok g" if "store_lookup (sensorgroup_table a) k = Some g" for k g
    using assms that by (auto simp: agent_ok_def groups_of_def)
  from update_all_ok [OF ready, of "remove_member ident" "\<lambda>g. the (remove_member ident g)"] ok remove_member_the
  obtain t where t: "update_all (remove_member ident) (sensorgroup_table a) = Some t" "store_ready t"
      "store_lookup t = (\<lambda>k. map_option (\<lambda>g. the (remove_member ident g)) (store_lookup (sensorgroup_table a) k))"
    by blast
  have rm: "sg_id (the (remove_member ident g)) = k \<and> group_ok (the (remove_member ident g)) \<and>
      members (the (remove_member ident g)) = remove1 ident (members g) \<and>
      publish_rate (the (remove_member ident g)) = publish_rate g"
    if "store_lookup (sensorgroup_table a) k = Some g" for k g
    using remove_member_ok [of g ident] ok [OF that] by auto
  have "agent_ok (a\<lparr>sensorgroup_table := t\<rparr>)"
    using assms t(2,3) rm by (intro agent_ok_groups) auto
  moreover have "map_option members (store_lookup t k) = map_option (\<lambda>g. remove1 ident (members g)) (groups_of a k)" for k
    using t(3) rm by (cases "store_lookup (sensorgroup_table a) k") (auto simp: groups_of_def)
  moreover have "map_option publish_rate (store_lookup t k) = map_option publish_rate (groups_of a k)" for k
    using t(3) rm by (cases "store_lookup (sensorgroup_table a) k") (auto simp: groups_of_def)
  ultimately show ?thesis using t(1) by (simp add: purge_groups_def)
qed

section \<open>Properties\<close>

lemma has_Some [simp]: "has (Some obj) key \<longleftrightarrow> map_of obj key \<noteq> None"
  by (simp add: has_def)

lemma dup_string_Some [simp]: "map_of obj key = Some (JString s) \<Longrightarrow> dup_string (Some obj) key = Some s"
  by (simp add: dup_string_def json_object_get_string_def)

lemma payload_object_Some:
  "payload_object values = Some jobj \<Longrightarrow> \<exists>p. values = Some p"
  by (auto simp: payload_object_def bind_Some_iff)

lemma three_keys:
  assumes "{x, y, z} = {k, l, m}" and "k \<noteq> l" "k \<noteq> m" "l \<noteq> m"
  shows "(x = k \<and> y = l \<and> z = m) \<or> (x = k \<and> y = m \<and> z = l) \<or> (x = l \<and> y = k \<and> z = m) \<or>
    (x = l \<and> y = m \<and> z = k) \<or> (x = m \<and> y = k \<and> z = l) \<or> (x = m \<and> y = l \<and> z = k)"
  using assms by (metis empty_iff insert_iff)

text \<open>
  C13: Creating a sensor is all or nothing. Whatever the payload, a creation that returns
  keeps the agent well formed and leaves the groups alone; either it returns \<open>OK\<close>, and then
  exactly one sensor was added, under an id that was free, with no value yet, and the agent
  is configured or still running; or it returns \<open>ERROR\<close>, and then nothing has changed but
  the entry of the reply in the ledger of overruns.
\<close>

theorem create_sensor_outcome:
  assumes "agent_ok a" and "create_sensors_configuration values a = Some (r, v, a')"
  shows "agent_ok a' \<and> groups_of a' = groups_of a \<and>
    (r = OK \<and> (\<exists>s. sensors_of a (sens_id s) = None \<and> sens_value s = [] \<and> sens_timestamp s = 0 \<and>
        sensors_of a' = (sensors_of a)(sens_id s \<mapsto> s)) \<and>
        status a' = (if status a = running then running else configured) \<or>
     r = ERROR \<and> a' = a\<lparr>overruns := overruns a @ [(Error_reply, 1)]\<rparr>)"
  using assms
proof (cases rule: create_sensors_cases)
  case (created s t)
  then have "sensors_of a' = (sensors_of a)(sens_id s \<mapsto> s)" "groups_of a' = groups_of a"
      "status a' = (if status a = running then running else configured)"
    by (simp_all add: sensors_of_def groups_of_def)
  with created create_sensors_ok [OF assms] show ?thesis by blast
next
  case refused
  with create_sensors_ok [OF assms] show ?thesis by simp
qed

theorem create_sensor_outcome_witness:
  \<open>\<exists>v a'. create_sensors_configuration (Some ''{"sensor-id":"s"}'') (started_agent 80 ''h'' 1883 0 ''m'' ''u'')
     = Some (ERROR, v, a') \<and> agent_ok a'\<close>
proof -
  let ?a = "started_agent 80 ''h'' 1883 0 ''m'' ''u''" and ?p = \<open>''{"sensor-id":"s"}''\<close>
  have "map_option fst (create_sensors_configuration (Some ?p) ?a) = Some ERROR" by code_simp
  then obtain v a' where "create_sensors_configuration (Some ?p) ?a = Some (ERROR, v, a')" by auto
  with create_sensor_outcome [OF agent_ok_started(1) this] show ?thesis by blast
qed

text \<open>
  A complete sensor configuration is accepted. The three settings may come in any order
  and the members of an object too: if the id is free, names and type are strings, every
  setting is there once with a text that starts with a number, and the rate fits into an
  \<open>int\<close>, the sensor is stored under its id with the numbers of its settings.
\<close>

theorem create_sensor_accepts:
  assumes "agent_ok a" and "payload_object values = Some (Some obj)"
    and "map_of obj ''sensor-id'' = Some (JString ident)" and "sensors_of a ident = None"
    and "map_of obj ''sensor-name'' = Some (JString nm)" and "map_of obj ''sensor-type'' = Some (JString ty)"
    and "map_of obj ''sampling-rate'' = Some (JNumber r)" and "double_to_i32 r = Some rate"
    and "map_of obj ''sensor-settings'' = Some (JArray (map JObject os))"
    and "map (\<lambda>ob. (map_of ob ''key'', map_of ob ''value'')) os = map (\<lambda>(k, t). (Some (JString k), Some (JString t))) kvs"
    and "length kvs = 3" and "set (map fst kvs) = {''can-id'', ''init-bit'', ''end-bit''}"
    and "map_of kvs ''can-id'' = Some ct" and "map_of kvs ''init-bit'' = Some it" and "map_of kvs ''end-bit'' = Some et"
    and "scan_u32 ct = Some c" and "scan_u32 it = Some ib" and "scan_u32 et = Some eb"
  shows "\<exists>a'. create_sensors_configuration values a = Some (OK, Some [], a') \<and>
    sensors_of a' ident = Some \<lparr>sens_id = ident, sens_name = nm, sens_type = ty, can_id = c, init_bit = ib,
      end_bit = eb, sampling_rate = rate, sens_value = [], sens_timestamp = 0\<rparr>"
proof -
  from assms(11) obtain k1 t1 k2 t2 k3 t3 where kvs: "kvs = [(k1, t1), (k2, t2), (k3, t3)]"
    by (auto simp: length_Suc_conv numeral_3_eq_3)
  with assms(10) obtain o1 o2 o3 where os: "os = [o1, o2, o3]"
    by (auto simp: map_eq_Cons_conv)
  have set3: "sensor_settings (map JObject os) (0, 0, 0, 0) = Some (Inr (c, ib, eb, 3))"
  proof -
    have k: "{k1, k2, k3} = {''can-id'', ''init-bit'', ''end-bit''}" using assms(12) kvs by simp
    have "(k1 = ''can-id'' \<and> k2 = ''init-bit'' \<and> k3 = ''end-bit'') \<or> (k1 = ''can-id'' \<and> k2 = ''end-bit'' \<and> k3 = ''init-bit'') \<or>
        (k1 = ''init-bit'' \<and> k2 = ''can-id'' \<and> k3 = ''end-bit'') \<or> (k1 = ''init-bit'' \<and> k2 = ''end-bit'' \<and> k3 = ''can-id'') \<or>
        (k1 = ''end-bit'' \<and> k2 = ''can-id'' \<and> k3 = ''init-bit'') \<or> (k1 = ''end-bit'' \<and> k2 = ''init-bit'' \<and> k3 = ''can-id'')"
      by (rule three_keys [OF k]) simp_all
    then show ?thesis
      using assms(10,13-18) unfolding kvs os
      by (elim disjE conjE) (simp_all add: json_object_get_string_def)
  qed
  let ?s = "\<lparr>sens_id = ident, sens_name = nm, sens_type = ty, can_id = c, init_bit = ib,
      end_bit = eb, sampling_rate = rate, sens_value = [], sens_timestamp = 0\<rparr>"
  have ready: "store_ready (sensors_table a)" using assms(1) by (simp add: agent_ok_def)
  from hts_new_ok [OF ready, of ?s] assms(4) obtain t where
    t: "hts_new ?s (sensors_table a) = Some t" "store_lookup t = (store_lookup (sensors_table a))(ident \<mapsto> ?s)"
    by (auto simp: sensors_of_def)
  have "hts_get (sensors_table a) ident = Some None"
    using hts_get_ok [OF ready] entry_lookup [OF ready] assms(4) by (simp add: sensors_of_def)
  moreover obtain p where "values = Some p" using payload_object_Some [OF assms(2)] by blast
  ultimately have "create_sensors_configuration values a = Some (OK, Some [], mark_configured (a\<lparr>sensors_table := t\<rparr>))"
    using assms(2,3,5-9) set3 t(1)
    by (simp add: create_sensors_configuration_def os json_object_get_array_def json_array_get_count_def
        json_object_get_number_def clear_values_def)
  then show ?thesis using t(2) by (simp add: sensors_of_def)
qed

theorem create_sensor_accepts_witness:
  \<open>\<exists>a'. create_sensors_configuration (Some ''{"sensor-id":"s","sensor-name":"n","sensor-type":"Int8","sampling-rate":9,"sensor-settings":[{"key":"end-bit","value":"7"},{"key":"can-id","value":"5"},{"value":"0","key":"init-bit"}]}'')
     (started_agent 80 ''h'' 1883 0 ''m'' ''u'') = Some (OK, Some [], a') \<and>
     map_option end_bit (sensors_of a' ''s'') = Some 7\<close>
proof -
  let ?p = \<open>''{"sensor-id":"s","sensor-name":"n","sensor-type":"Int8","sampling-rate":9,"sensor-settings":[{"key":"end-bit","value":"7"},{"key":"can-id","value":"5"},{"value":"0","key":"init-bit"}]}''\<close>
  let ?nine = "Fin False 5066549580791808 (- 49)"
  let ?os = "[[(''key'', JString ''end-bit''), (''value'', JString ''7'')],
      [(''key'', JString ''can-id''), (''value'', JString ''5'')], [(''value'', JString ''0''), (''key'', JString ''init-bit'')]]"
  let ?obj = "[(''sensor-id'', JString ''s''), (''sensor-name'', JString ''n''), (''sensor-type'', JString ''Int8''),
      (''sampling-rate'', JNumber ?nine), (''sensor-settings'', JArray (map JObject ?os))]"
  have p: "payload_object (Some ?p) = Some (Some ?obj)" by code_simp
  have n: "double_to_i32 ?nine = Some 9" by code_simp
  have u: "scan_u32 ''5'' = Some 5" "scan_u32 ''0'' = Some 0" "scan_u32 ''7'' = Some 7" by code_simp+
  have "\<exists>a'. create_sensors_configuration (Some ?p) (started_agent 80 ''h'' 1883 0 ''m'' ''u'') = Some (OK, Some [], a') \<and>
    sensors_of a' ''s'' = Some \<lparr>sens_id = ''s'', sens_name = ''n'', sens_type = ''Int8'', can_id = 5, init_bit = 0,
      end_bit = 7, sampling_rate = 9, sens_value = [], sens_timestamp = 0\<rparr>"
    by (rule create_sensor_accepts [where os = ?os and ct = "''5''" and it = "''0''" and et = "''7''"
          and kvs = "[(''end-bit'', ''7''), (''can-id'', ''5''), (''init-bit'', ''0'')]", OF agent_ok_started(1) p])
      (auto simp: agent_ok_started n u)
  then show ?thesis by auto
qed

lemma delete_one_sensor:
  assumes "agent_ok a" and "query_ids queries = [k]" and "sensors_of a k \<noteq> None"
  shows "\<exists>a'. delete_sensors_configuration v queries a = Some (OK, v, a') \<and> agent_ok a' \<and>
    sensors_of a' = (sensors_of a)(k := None) \<and> same_control a' a \<and>
    (\<forall>j. map_option members (groups_of a' j) = map_option (\<lambda>g. remove1 k (members g)) (groups_of a j)) \<and>
    (\<forall>j. map_option publish_rate (groups_of a' j) = map_option publish_rate (groups_of a j))"
proof -
  have one: "\<exists>t. delete_sensors_loop qs ident a = Some (Continue (Some k, a\<lparr>sensors_table := t\<rparr>)) \<and>
      agent_ok (a\<lparr>sensors_table := t\<rparr>) \<and> store_lookup t = (sensors_of a)(k := None)"
    if "query_ids qs = [k]" for qs ident
    using that
  proof (induction qs)
    case (Cons q qs)
    obtain name w where q: "q = (name, w)" by (cases q)
    show ?case
    proof (cases "name = ''id''")
      case False
      with Cons q show ?thesis by simp
    next
      case True
      with Cons.prems q have w: "w = k" "query_ids qs = []" by auto
      have ready: "store_ready (sensors_table a)" using assms(1) by (simp add: agent_ok_def)
      from hts_delete_ok [OF ready, of k] assms(3) obtain p t where
        t: "hts_delete (sensors_table a) k = Some (Some p, t)" "store_ready t" "store_lookup t = (sensors_of a)(k := None)"
        by (auto simp: sensors_of_def)
      have rest: "delete_sensors_loop qs (Some k) b = Some (Continue (Some k, b))" for b
        using w(2) by (induction qs) (auto split: if_splits)
      have "agent_ok (a\<lparr>sensors_table := t\<rparr>)" using assms(1) t(2,3) by (rule agent_ok_remove)
      with True q w t rest show ?thesis by (intro exI [of _ t]) simp
    qed
  qed simp
  from one [OF assms(2), of None] obtain t where
    t: "delete_sensors_loop queries None a = Some (Continue (Some k, a\<lparr>sensors_table := t\<rparr>))"
      "agent_ok (a\<lparr>sensors_table := t\<rparr>)" "store_lookup t = (sensors_of a)(k := None)"
    by blast
  from purge_groups_ok [OF t(2), of k] obtain g where
    g: "purge_groups k (sensorgroup_table a) = Some g" "agent_ok (a\<lparr>sensors_table := t, sensorgroup_table := g\<rparr>)"
      "\<forall>j. map_option members (store_lookup g j) = map_option (\<lambda>g. remove1 k (members g)) (groups_of a j)"
      "\<forall>j. map_option publish_rate (store_lookup g j) = map_option publish_rate (groups_of a j)"
    by (auto simp: groups_of_def)
  with t show ?thesis by (simp add: delete_sensors_configuration_def sensors_of_def groups_of_def)
qed

text \<open>
  C20: Deleting a sensor: a request that names one existing id (among any other queries)
  returns \<open>OK\<close>, removes that sensor and no other, and takes the first occurrence of the id
  out of the list of every group, in place and in order.
\<close>

theorem delete_sensor:
  assumes "agent_ok a" and "query_ids queries = [k]" and "sensors_of a k \<noteq> None"
  shows "\<exists>a'. delete_sensors_configuration v queries a = Some (OK, v, a') \<and> agent_ok a' \<and>
    sensors_of a' = (sensors_of a)(k := None) \<and>
    (\<forall>j. map_option members (groups_of a' j) = map_option (\<lambda>g. remove1 k (members g)) (groups_of a j))"
  using delete_one_sensor [OF assms, of v] by blast

theorem delete_sensor_witness:
  "\<exists>a'. delete_sensors_configuration None [(''id'', ''s'')]
      (populated [byte_sensor ''s'', byte_sensor ''t''] [plain_group ''g'' [''s'', ''t'']]) = Some (OK, None, a') \<and>
    sensors_of a' ''s'' = None \<and> sensors_of a' ''t'' = Some (byte_sensor ''t'') \<and>
    map_option members (groups_of a' ''g'') = Some [''t'']"
proof -
  let ?a = "populated [byte_sensor ''s'', byte_sensor ''t''] [plain_group ''g'' [''s'', ''t'']]"
  have p: "agent_ok ?a" "sensors_of ?a = [''s'' \<mapsto> byte_sensor ''s'', ''t'' \<mapsto> byte_sensor ''t'']"
      "groups_of ?a = [''g'' \<mapsto> plain_group ''g'' [''s'', ''t'']]"
    using populated_ok [of "[byte_sensor ''s'', byte_sensor ''t'']" "[plain_group ''g'' [''s'', ''t'']]"] by auto
  have one: "query_ids [(''id'', ''s'')] = [''s'']" "sensors_of ?a ''s'' \<noteq> None" by (simp_all add: p(2))
  from delete_sensor [OF p(1) one, of None] obtain a' where
    d: "delete_sensors_configuration None [(''id'', ''s'')] ?a = Some (OK, None, a')"
      "sensors_of a' = (sensors_of ?a)(''s'' := None)"
      "map_option members (groups_of a' ''g'') = map_option (\<lambda>g. remove1 ''s'' (members g)) (groups_of ?a ''g'')"
    by blast
  from d(2,3) have "sensors_of a' ''s'' = None \<and> sensors_of a' ''t'' = Some (byte_sensor ''t'') \<and>
      map_option members (groups_of a' ''g'') = Some [''t'']"
    by (simp add: p(2,3))
  with d(1) show ?thesis by blast
qed

text \<open>
  C28: The references of the groups survive a deletion if no group lists an id twice: when
  every id that a group lists is an id of a sensor before a deletion of one sensor, it is so
  afterwards.
\<close>

theorem delete_keeps_references:
  assumes "agent_ok a" and "references_ok a" and "query_ids queries = [k]" and "sensors_of a k \<noteq> None"
    and "\<And>j g. groups_of a j = Some g \<Longrightarrow> distinct (members g)"
    and "delete_sensors_configuration v queries a = Some (r, w, a')"
  shows "r = OK \<and> references_ok a'"
proof -
  from delete_one_sensor [OF assms(1,3,4), of v] assms(6)
  have r: "r = OK" and s: "sensors_of a' = (sensors_of a)(k := None)"
    and g: "\<And>j. map_option members (groups_of a' j) = map_option (\<lambda>g. remove1 k (members g)) (groups_of a j)"
    by auto
  have "group_resolved a' g'" if g': "groups_of a' j = Some g'" for j g'
  proof -
    from g [of j] g' obtain g where g0: "groups_of a j = Some g" "members g' = remove1 k (members g)"
      by (cases "groups_of a j") auto
    have "set (members g') = set (members g) - {k}"
      using g0 assms(5) by simp
    then show ?thesis using assms(2) g0(1) s by (auto simp: references_ok_def group_resolved_def)
  qed
  with r show ?thesis by (simp add: references_ok_def)
qed

theorem delete_keeps_references_witness:
  "\<exists>a'. delete_sensors_configuration None [(''id'', ''s'')]
      (populated [byte_sensor ''s'', byte_sensor ''t''] [plain_group ''g'' [''s'', ''t'']]) = Some (OK, None, a') \<and>
    references_ok a'"
proof -
  let ?a = "populated [byte_sensor ''s'', byte_sensor ''t''] [plain_group ''g'' [''s'', ''t'']]"
  have p: "agent_ok ?a" "sensors_of ?a = [''s'' \<mapsto> byte_sensor ''s'', ''t'' \<mapsto> byte_sensor ''t'']"
      "groups_of ?a = [''g'' \<mapsto> plain_group ''g'' [''s'', ''t'']]"
    using populated_ok [of "[byte_sensor ''s'', byte_sensor ''t'']" "[plain_group ''g'' [''s'', ''t'']]"] by auto
  have refs: "references_ok ?a" by (simp add: references_ok_def group_resolved_def p(2,3))
  have one: "query_ids [(''id'', ''s'')] = [''s'']" "sensors_of ?a ''s'' \<noteq> None" by (simp_all add: p(2))
  from delete_one_sensor [OF p(1) one, of None] obtain a' where
    d: "delete_sensors_configuration None [(''id'', ''s'')] ?a = Some (OK, None, a')" by blast
  have "r = OK \<and> references_ok a'" if "delete_sensors_configuration None [(''id'', ''s'')] ?a = Some (r, None, a')" for r
    by (rule delete_keeps_references [OF p(1) refs one _ that]) (auto simp: p(3) split: if_splits)
  with d show ?thesis by blast
qed

text \<open>
  An update of a sensor is a deletion followed by a creation, and not atomic: whenever an
  update that names one existing sensor returns, the old sensor is gone. On \<open>OK\<close> the new one
  has taken its place, under the id of the payload; on \<open>ERROR\<close> nothing has, and the
  groups have lost the id.
\<close>

theorem update_sensor_not_atomic:
  assumes "agent_ok a" and "query_ids queries = [k]" and "sensors_of a k \<noteq> None"
    and "update_sensors_configuration v queries a = Some (r, w, a')"
  shows "agent_ok a' \<and>
    (\<forall>j. map_option members (groups_of a' j) = map_option (\<lambda>g. remove1 k (members g)) (groups_of a j)) \<and>
    (r = OK \<and> (\<exists>s. sensors_of a' = (sensors_of a)(k := None, sens_id s \<mapsto> s)) \<or>
     r = ERROR \<and> sensors_of a' = (sensors_of a)(k := None))"
proof -
  from delete_one_sensor [OF assms(1-3), of v] obtain a1 where
    d: "delete_sensors_configuration v queries a = Some (OK, v, a1)" "agent_ok a1"
      "sensors_of a1 = (sensors_of a)(k := None)"
      "\<forall>j. map_option members (groups_of a1 j) = map_option (\<lambda>g. remove1 k (members g)) (groups_of a j)"
    by blast
  with assms(4) obtain r1 w1 a2 where c: "create_sensors_configuration v a1 = Some (r1, w1, a2)" and
    e: "r1 \<noteq> OK \<and> r = r1 \<and> a' = a2 \<or> r1 = OK \<and> r = OK \<and> a' = a2"
    by (auto simp: update_sensors_configuration_def bind_Some_iff split: if_splits)
  from e have a2: "a' = a2" "r = r1" by auto
  from c have "agent_ok a2" using d(2) create_sensors_ok by blast
  moreover have "groups_of a2 = groups_of a1" using d(2) c
    by (cases rule: create_sensors_cases) (simp_all add: groups_of_def)
  moreover have "r1 = OK \<and> (\<exists>s. sensors_of a2 = (sensors_of a1)(sens_id s \<mapsto> s)) \<or> r1 = ERROR \<and> sensors_of a2 = sensors_of a1"
    using d(2) c by (cases rule: create_sensors_cases) (auto simp: sensors_of_def)
  ultimately show ?thesis using d(3,4) unfolding a2 by auto
qed

theorem update_sensor_not_atomic_witness:
  \<open>\<exists>w a'. update_sensors_configuration (Some ''{"sensor-id":"s"}'') [(''id'', ''s'')]
      (populated [byte_sensor ''s''] []) = Some (ERROR, w, a') \<and> sensors_of a' ''s'' = None\<close>
proof -
  let ?a = "populated [byte_sensor ''s''] []" and ?p = \<open>''{"sensor-id":"s"}''\<close>
  have p: "agent_ok ?a" "sensors_of ?a = [''s'' \<mapsto> byte_sensor ''s'']"
    using populated_ok [of "[byte_sensor ''s'']" "[]"] by auto
  have one: "query_ids [(''id'', ''s'')] = [''s'']" "sensors_of ?a ''s'' \<noteq> None" by (simp_all add: p(2))
  have j: "payload_object (Some ?p) = Some (Some [(''sensor-id'', JString ''s'')])" by code_simp
  from delete_one_sensor [OF p(1) one, of "Some ?p"] obtain a1 where
    "delete_sensors_configuration (Some ?p) [(''id'', ''s'')] ?a = Some (OK, Some ?p, a1)" by blast
  then have "map_option fst (update_sensors_configuration (Some ?p) [(''id'', ''s'')] ?a) = Some ERROR"
    using fail_with_eq [of "''The sensor information is not valid''" a1]
    by (auto simp: update_sensors_configuration_def create_sensors_configuration_def j)
  then obtain w a' where u: "update_sensors_configuration (Some ?p) [(''id'', ''s'')] ?a = Some (ERROR, w, a')" by auto
  from update_sensor_not_atomic [OF p(1) one u] u p(2) show ?thesis by auto
qed

end
