(* ===== verification/GroupConfig.thy ===== *)
theory GroupConfig
  imports JsonRoundtrip SensorConfig
begin

text \<open>
  \<^verbatim>\<open>implementation/sensorgroup.c\<close>: creating, updating, deleting and reading groups of
  sensors. A group refers to its sensors by their ids, so that reading a group looks every
  id up and dereferences what it finds; \<open>read_groups_defined\<close> says when that is safe. What a request
  asks for (\<open>requested_group\<close>, \<open>put_entry\<close>) is stated apart from the code that carries it out.
\<close>

section \<open>Creation\<close>

text \<open>The settings of a sensor inside a group: read with \<open>atoi\<close>, \<open>-1\<close> where none is given.\<close>

fun group_settings :: "json list \<Rightarrow> u32 \<times> u32 \<times> u32 \<Rightarrow> (unit + u32 \<times> u32 \<times> u32) option" where
  "group_settings [] acc = Some (Inr acc)"
| "group_settings (v # vs) (cid, ib, eb) =
     (let obj = json_value_get_object (Some v) in
      if has obj ''key'' \<and> has obj ''value'' then do {
        key \<leftarrow> dup_string obj ''key'';
        if key = ''can-id'' then do {
          str \<leftarrow> json_object_get_string obj ''value'';
          group_settings vs (atoi str, ib, eb) }
        else if key = ''init-bit'' then do {
          str \<leftarrow> json_object_get_string obj ''value'';
          group_settings vs (cid, atoi str, eb) }
        else if key = ''end-bit'' then do {
          str \<leftarrow> json_object_get_string obj ''value'';
          group_settings vs (cid, ib, atoi str) }
        else Some (Inl ()) }
      else Some (Inl ()))"

definition complete_sensor :: "json_object option \<Rightarrow> bool" where
  "complete_sensor obj \<longleftrightarrow> has obj ''sensor-id'' \<and> has obj ''sensor-name'' \<and> has obj ''sensor-type''
     \<and> has obj ''sensor-settings'' \<and> has obj ''sampling-rate''"

definition only_id :: "json_object option \<Rightarrow> bool" where
  "only_id obj \<longleftrightarrow> has obj ''sensor-id'' \<and> \<not> has obj ''sensor-name'' \<and> \<not> has obj ''sensor-type''
     \<and> \<not> has obj ''sensor-settings'' \<and> \<not> has obj ''sampling-rate''"

text \<open>\<open>hts_delete (sensors_table, sensor_list[j])\<close> for every id listed so far.\<close>

definition roll_back :: "cstring list \<Rightarrow> sensor store \<Rightarrow> sensor store option" where
  "roll_back l t = fold_ub (\<lambda>k t. do { (sens, t') \<leftarrow> hts_delete t k; Some t' }) l t"

text \<open>\<open>sensor_list[i] = malloc (sizeof (char *)); strcpy (sensor_list[i], sensor_id);\<close>\<close>

definition list_sensor :: "cstring \<Rightarrow> agent \<Rightarrow> agent" where
  "list_sensor sensor_id a = log_overrun Sensor_list_entry 8 (length sensor_id + 1) a"

text \<open>
  The loop over the sensors of the payload, with the ids listed so far. A sensor with a
  complete configuration replaces the one of its id; a sensor of which only the id is given
  must be there.
\<close>

fun group_sensors :: "json list \<Rightarrow> cstring list \<Rightarrow> agent \<Rightarrow> (cstring list \<times> agent) flow option" where
  "group_sensors [] l a = Some (Continue (l, a))"
| "group_sensors (v # vs) l a =
     (let obj = json_value_get_object (Some v) in
      if complete_sensor obj then do {
        sensor_id \<leftarrow> dup_string obj ''sensor-id'';
        found \<leftarrow> hts_get (sensors_table a) sensor_id;
        t \<leftarrow> (if found \<noteq> None then do { (sens, t') \<leftarrow> hts_delete (sensors_table a) sensor_id; Some t' }
             else Some (sensors_table a));
        let a1 = a\<lparr>sensors_table := t\<rparr>;
        nm \<leftarrow> dup_string obj ''sensor-name'';
        ty \<leftarrow> dup_string obj ''sensor-type'';
        let sensorSettingsList = json_object_get_array obj ''sensor-settings'';
        if json_array_get_count sensorSettingsList = 3 then do {
          r \<leftarrow> group_settings (case sensorSettingsList of None \<Rightarrow> [] | Some xs \<Rightarrow> xs) (- 1, - 1, - 1);
          case r of
            Inl _ \<Rightarrow> leave (fail_with ''One of the sensors of the sensorgroup is not correct'' a1)
          | Inr (cid, ib, eb) \<Rightarrow>
              if cid = - 1 \<or> ib = - 1 \<or> eb = - 1 then do {
                t1 \<leftarrow> roll_back l (sensors_table a1);
                leave (fail_with ''One of the sensors of the sensorgroup is not correct'' (a1\<lparr>sensors_table := t1\<rparr>)) }
              else do {
                rate \<leftarrow> double_to_u32 (json_object_get_number obj ''sampling-rate'');
                t1 \<leftarrow> hts_new \<lparr>sens_id = sensor_id, sens_name = nm, sens_type = ty,
                        can_id = cid, init_bit = ib, end_bit = eb, sampling_rate = rate,
                        sens_value = [], sens_timestamp = 0\<rparr> (sensors_table a1);
                group_sensors vs (l @ [sensor_id]) (list_sensor sensor_id (a1\<lparr>sensors_table := t1\<rparr>)) } }
        else leave (fail_with ''One of the sensors of the sensorgroup is not correct'' a1) }
      else if only_id obj then do {
        sensor_id \<leftarrow> dup_string obj ''sensor-id'';
        found \<leftarrow> hts_get (sensors_table a) sensor_id;
        if found \<noteq> None then group_sensors vs (l @ [sensor_id]) (list_sensor sensor_id a)
        else leave (fail_with ''One of the sensors of the sensorgroup is not correct'' a) }
      else leave (fail_with ''The sensorgroup information is not valid'' a))"

definition create_sensorgroups_subscription :: "cstring option \<Rightarrow> agent \<Rightarrow> outcome" where
  "create_sensorgroups_subscription values a = do {
     jobj \<leftarrow> payload_object values;
     if has jobj ''sensorgroup-id'' \<and> has jobj ''publish-rate'' \<and> has jobj ''sensor-list'' then do {
       ident \<leftarrow> dup_string jobj ''sensorgroup-id'';
       found \<leftarrow> htsg_get (sensorgroup_table a) ident;
       if found \<noteq> None then fail_with ''A sensorgroup with that id already exists'' a
       else do {
         publishRate \<leftarrow> double_to_i32 (json_object_get_number jobj ''publish-rate'');
         let sgSensorlist = json_object_get_array jobj ''sensor-list'';
         r \<leftarrow> group_sensors (case sgSensorlist of None \<Rightarrow> [] | Some xs \<Rightarrow> xs) [] a;
         case r of
           Return response reply a' \<Rightarrow> Some (response, reply, a')
         | Continue (l, a') \<Rightarrow> do {
             t \<leftarrow> htsg_new \<lparr>sg_id = ident, publish_rate = publishRate, sensorcount = length l,
                    sensor_list = l, last_tv_sec = 0, last_tv_usec = 0\<rparr> (sensorgroup_table a');
             v \<leftarrow> clear_values values;
             Some (OK, v, mark_configured (a'\<lparr>sensorgroup_table := t\<rparr>)) } } }
     else fail_with ''The sensorgroup information is not valid'' a }"

section \<open>Deletion and update\<close>

fun delete_groups_loop :: "query_pairs \<Rightarrow> cstring option \<Rightarrow> agent \<Rightarrow> (cstring option \<times> agent) flow option" where
  "delete_groups_loop [] ident a = Some (Continue (ident, a))"
| "delete_groups_loop ((name, v) # tmp) ident a =
     (if name = ''id'' then do {
        found \<leftarrow> htsg_get (sensorgroup_table a) v;
        if found \<noteq> None then do {
          (sg, t) \<leftarrow> htsg_delete (sensorgroup_table a) v;
          if sg = None then leave (fail_with ''Error deleting the sensorgroup'' (a\<lparr>sensorgroup_table := t\<rparr>))
          else delete_groups_loop tmp (Some v) (a\<lparr>sensorgroup_table := t\<rparr>) }
        else do {
          let message = ''There is no sensorgroup with id '' @ v;
          leave (fail_with message (log_overrun Message_50 50 (length message + 1) a)) } }
      else delete_groups_loop tmp ident a)"

definition delete_sensorgroups_subscription :: "cstring option \<Rightarrow> query_pairs \<Rightarrow> agent \<Rightarrow> outcome" where
  "delete_sensorgroups_subscription values queries a = do {
     r \<leftarrow> delete_groups_loop queries None a;
     case r of
       Return response reply a' \<Rightarrow> Some (response, reply, a')
     | Continue (None, a') \<Rightarrow> fail_with ''There is no id query.'' a'
     | Continue (Some ident, a') \<Rightarrow> Some (OK, values, a') }"

definition update_sensorgroups_subscription :: "cstring option \<Rightarrow> query_pairs \<Rightarrow> agent \<Rightarrow> outcome" where
  "update_sensorgroups_subscription values queries a = do {
     (response, v, a1) \<leftarrow> delete_sensorgroups_subscription values queries a;
     if response \<noteq> OK then Some (response, v, a1)
     else do {
       (response, v2, a2) \<leftarrow> create_sensorgroups_subscription v a1;
       if response \<noteq> OK then Some (response, v2, a2)
       else do { v3 \<leftarrow> clear_values v2; Some (OK, v3, a2) } } }"

section \<open>Reading\<close>

text \<open>\<open>hts_get (sensors_table, sg->sensor_list[i])\<close>, and the object it points to.\<close>

definition listed_sensor :: "agent \<Rightarrow> sensorgroup \<Rightarrow> nat \<Rightarrow> sensor option" where
  "listed_sensor a sg i = do {
     k \<leftarrow> CPrelude.at (sensor_list sg) i;
     found \<leftarrow> hts_get (sensors_table a) k;
     p \<leftarrow> found;
     deref (st_heap (sensors_table a)) p }"

definition group_sensor_value :: "sensor \<Rightarrow> json" where
  "group_sensor_value s = JObject (object_of
     [(''sensor-id'', json_value_init_string (Some (sens_id s))),
      (''sensor-name'', json_value_init_string (Some (sens_name s))),
      (''sensor-type'', json_value_init_string (Some (sens_type s))),
      (''sensor-settings'', Some (JArray [setting_value ''can-id'' (fmt_d32 (can_id s)),
         setting_value ''init-bit'' (fmt_d32 (init_bit s)), setting_value ''end-bit'' (fmt_d32 (end_bit s))])),
      (''sampling-rate'', json_value_init_number (double_of_u32 (sampling_rate s)))])"

definition group_value :: "agent \<Rightarrow> sensorgroup \<Rightarrow> json option" where
  "group_value a sg = do {
     sensors \<leftarrow> map_ub (listed_sensor a sg) [0..<sensorcount sg];
     Some (JObject (object_of
       [(''sensorgroup-id'', json_value_init_string (Some (sg_id sg))),
        (''publish-rate'', json_value_init_number (double_of_u32 (publish_rate sg))),
        (''sensor-list'', Some (JArray (map group_sensor_value sensors)))])) }"

definition read_sensorgroups_subscription :: "agent \<Rightarrow> outcome" where
  "read_sensorgroups_subscription a = do {
     groups \<leftarrow> walk (sensorgroup_table a);
     vs \<leftarrow> map_ub (group_value a) groups;
     (text, a') \<leftarrow> reply_with Group_reply 0 (JArray vs) a;
     Some (OK, Some text, a') }"

section \<open>The requested group\<close>

text \<open>
  What a request for a group asks for, read from its members. An entry of the sensor list
  gives a complete sensor, which then replaces the one of its id, or only the id of a sensor
  that must be there. Of the settings with one key the last one counts.
\<close>

definition text_of :: "json_object \<Rightarrow> cstring \<Rightarrow> cstring" where
  "text_of e key = (case map_of e key of Some (JString s) \<Rightarrow> s | _ \<Rightarrow> [])"

definition items_of :: "json_object \<Rightarrow> cstring \<Rightarrow> json list" where
  "items_of e key = (case map_of e key of Some (JArray xs) \<Rightarrow> xs | _ \<Rightarrow> [])"

definition number_of :: "json_object \<Rightarrow> cstring \<Rightarrow> double" where
  "number_of e key = (case map_of e key of Some (JNumber d) \<Rightarrow> d | _ \<Rightarrow> Fin False 0 (- 1074))"

fun object_in :: "json \<Rightarrow> json_object" where
  "object_in (JObject e) = e"
| "object_in _ = []"

definition known_setting :: "json \<Rightarrow> bool" where
  "known_setting x \<longleftrightarrow> text_of (object_in x) ''key'' \<in> {''can-id'', ''init-bit'', ''end-bit''} \<and>
     map_of (object_in x) ''value'' \<noteq> None"

definition last_setting :: "cstring \<Rightarrow> json list \<Rightarrow> u32 \<Rightarrow> u32" where
  "last_setting key = fold (\<lambda>x v. if text_of (object_in x) ''key'' = key then atoi (text_of (object_in x) ''value'') else v)"

definition entry_keys :: "cstring list" where
  "entry_keys = [''sensor-id'', ''sensor-name'', ''sensor-type'', ''sensor-settings'', ''sampling-rate'']"

definition entry_id :: "json \<Rightarrow> cstring" where
  "entry_id v = text_of (object_in v) ''sensor-id''"

definition entry_sensor :: "json \<Rightarrow> sensor" where
  "entry_sensor v = (let e = object_in v; st = items_of e ''sensor-settings'' in
     \<lparr>sens_id = entry_id v, sens_name = text_of e ''sensor-name'', sens_type = text_of e ''sensor-type'',
      can_id = last_setting ''can-id'' st (- 1), init_bit = last_setting ''init-bit'' st (- 1),
      end_bit = last_setting ''end-bit'' st (- 1), sampling_rate = the (double_to_u32 (number_of e ''sampling-rate'')),
      sens_value = [], sens_timestamp = 0\<rparr>)"

definition entry_correct :: "json \<Rightarrow> bool" where
  "entry_correct v \<longleftrightarrow> (let st = items_of (object_in v) ''sensor-settings''; s = entry_sensor v in
     length st = 3 \<and> (\<forall>x \<in> set st. known_setting x) \<and> can_id s \<noteq> - 1 \<and> init_bit s \<noteq> - 1 \<and> end_bit s \<noteq> - 1)"

definition put_entry :: "json \<Rightarrow> (cstring \<rightharpoonup> sensor) \<Rightarrow> (cstring \<rightharpoonup> sensor) option" where
  "put_entry v m =
     (if set entry_keys \<subseteq> dom (map_of (object_in v)) then
        (if entry_correct v then Some (m(entry_id v \<mapsto> entry_sensor v)) else None)
      else if set entry_keys \<inter> dom (map_of (object_in v)) = {''sensor-id''} \<and> m (entry_id v) \<noteq> None then Some m
      else None)"

definition requested_group :: "json_object \<Rightarrow> sensorgroup" where
  "requested_group obj = (let xs = items_of obj ''sensor-list'' in
     \<lparr>sg_id = text_of obj ''sensorgroup-id'', publish_rate = the (double_to_i32 (number_of obj ''publish-rate'')),
      sensorcount = length xs, sensor_list = map entry_id xs, last_tv_sec = 0, last_tv_usec = 0\<rparr>)"

text \<open>The object that a payload asks for, where it can be met, and the sensors after it.\<close>

definition group_request :: "cstring option \<Rightarrow> agent \<Rightarrow> json_object \<Rightarrow> (cstring \<rightharpoonup> sensor) \<Rightarrow> bool" where
  "group_request values a obj m \<longleftrightarrow> payload_object values = Some (Some obj) \<and>
     {''sensorgroup-id'', ''publish-rate'', ''sensor-list''} \<subseteq> dom (map_of obj) \<and>
     groups_of a (text_of obj ''sensorgroup-id'') = None \<and>
     fold_ub put_entry (items_of obj ''sensor-list'') (sensors_of a) = Some m"

lemma object_in_get: "json_value_get_object (Some v) = Some e \<Longrightarrow> object_in v = e"
  by (cases v) simp_all

lemma has_member: "has (json_value_get_object (Some v)) k \<longleftrightarrow> map_of (object_in v) k \<noteq> None"
  by (cases v) (simp_all add: has_def json_object_get_value_def json_object_getn_value_map_of)

lemma get_text: "json_object_get_string (Some e) k = Some t \<Longrightarrow> text_of e k = t"
  by (auto simp: json_object_get_string_def text_of_def elim: json_value_get_string.elims)

lemma member_text: "json_object_get_string (json_value_get_object (Some v)) k = Some t \<Longrightarrow> text_of (object_in v) k = t"
  by (cases v) (auto simp: get_text, simp_all add: json_object_get_string_def json_object_get_value_def)

lemma get_items: "(case json_object_get_array (Some e) k of None \<Rightarrow> [] | Some xs \<Rightarrow> xs) = items_of e k"
  by (auto simp: json_object_get_array_def items_of_def split: option.split json.split)

lemma get_number: "json_object_get_number (Some e) k = number_of e k"
  by (auto simp: json_object_get_number_def number_of_def split: option.split json.split)

lemma group_settings_read:
  assumes "group_settings xs (c, i, e) = Some z"
  shows "z = (if \<forall>x \<in> set xs. known_setting x
    then Inr (last_setting ''can-id'' xs c, last_setting ''init-bit'' xs i, last_setting ''end-bit'' xs e) else Inl ())"
  using assms
proof (induction xs arbitrary: c i e)
  case (Cons x xs)
  let ?o = "json_value_get_object (Some x)"
  show ?case
  proof (cases "has ?o ''key'' \<and> has ?o ''value''")
    case True
    with Cons.prems obtain key where key: "json_object_get_string ?o ''key'' = Some key"
      by (auto simp: dup_string_def bind_Some_iff Let_def)
    note t = member_text [OF key]
    show ?thesis
    proof (cases "key \<in> {''can-id'', ''init-bit'', ''end-bit''}")
      case in_keys: True
      with Cons.prems True key obtain str where str: "json_object_get_string ?o ''value'' = Some str"
        by (auto simp: dup_string_def bind_Some_iff Let_def split: if_splits)
      note u = member_text [OF str]
      have k: "known_setting x" using in_keys t True by (simp add: known_setting_def has_member)
      from in_keys consider (cid) "key = ''can-id''" | (ib) "key = ''init-bit''" | (eb) "key = ''end-bit''" by blast
      then show ?thesis
      proof cases
        case cid
        with Cons.prems True key str have "group_settings xs (atoi str, i, e) = Some z" by (simp add: dup_string_def)
        from Cons.IH [OF this] k t u cid show ?thesis by (simp add: last_setting_def)
      next
        case ib
        with Cons.prems True key str have "group_settings xs (c, atoi str, e) = Some z" by (simp add: dup_string_def)
        from Cons.IH [OF this] k t u ib show ?thesis by (simp add: last_setting_def)
      next
        case eb
        with Cons.prems True key str have "group_settings xs (c, i, atoi str) = Some z" by (simp add: dup_string_def)
        from Cons.IH [OF this] k t u eb show ?thesis by (simp add: last_setting_def)
      qed
    next
      case False
      then have "\<not> known_setting x" using t by (simp add: known_setting_def)
      with Cons.prems True key False show ?thesis by (auto simp: dup_string_def)
    qed
  next
    case False
    have "\<not> known_setting x"
      using False by (auto simp: known_setting_def has_member text_of_def)
    with Cons.prems False show ?thesis by auto
  qed
qed (simp add: last_setting_def)

lemma entry_shapes:
  "complete_sensor (json_value_get_object (Some v)) \<longleftrightarrow> set entry_keys \<subseteq> dom (map_of (object_in v))"
  "only_id (json_value_get_object (Some v)) \<longleftrightarrow> set entry_keys \<inter> dom (map_of (object_in v)) = {''sensor-id''}"
proof -
  show "complete_sensor (json_value_get_object (Some v)) \<longleftrightarrow> set entry_keys \<subseteq> dom (map_of (object_in v))"
    by (simp add: complete_sensor_def has_member entry_keys_def domIff)
  have "set entry_keys \<inter> D = {''sensor-id''} \<longleftrightarrow> ''sensor-id'' \<in> D \<and> ''sensor-name'' \<notin> D \<and> ''sensor-type'' \<notin> D \<and>
      ''sensor-settings'' \<notin> D \<and> ''sampling-rate'' \<notin> D" for D
    by (simp add: entry_keys_def Int_insert_left)
  then show "only_id (json_value_get_object (Some v)) \<longleftrightarrow> set entry_keys \<inter> dom (map_of (object_in v)) = {''sensor-id''}"
    by (simp add: only_id_def has_member domIff)
qed

lemma entry_settings:
  assumes "complete_sensor (json_value_get_object (Some v))"
  shows "json_array_get_count (json_object_get_array (json_value_get_object (Some v)) ''sensor-settings'') =
      length (items_of (object_in v) ''sensor-settings'')"
    "(case json_object_get_array (json_value_get_object (Some v)) ''sensor-settings'' of None \<Rightarrow> [] | Some xs \<Rightarrow> xs) =
      items_of (object_in v) ''sensor-settings''"
    "json_object_get_number (json_value_get_object (Some v)) ''sampling-rate'' = number_of (object_in v) ''sampling-rate''"
proof -
  obtain e where e: "v = JObject e" using assms by (cases v) (auto simp: complete_sensor_def has_def)
  show "(case json_object_get_array (json_value_get_object (Some v)) ''sensor-settings'' of None \<Rightarrow> [] | Some xs \<Rightarrow> xs) =
      items_of (object_in v) ''sensor-settings''" by (simp add: e get_items)
  then show "json_array_get_count (json_object_get_array (json_value_get_object (Some v)) ''sensor-settings'') =
      length (items_of (object_in v) ''sensor-settings'')" by (auto simp: json_array_get_count_def split: option.splits)
  show "json_object_get_number (json_value_get_object (Some v)) ''sampling-rate'' = number_of (object_in v) ''sampling-rate''"
    by (simp add: e get_number)
qed

section \<open>What the handlers do to a well-formed agent\<close>

lemma leave_fail:
  "leave (fail_with m a) = Some r \<Longrightarrow>
    \<exists>reply. r = Return ERROR (Some reply) (a\<lparr>overruns := overruns a @ [(Error_reply, 1)]\<rparr>)"
  using fail_with_eq [of m a] by (auto simp: leave_def)

lemma marked_control:
  "same_control b a \<Longrightarrow> same_control (mark_configured (b\<lparr>sensorgroup_table := t\<rparr>)) (mark_configured a)"
  by (cases a; cases b) (auto simp: same_control_def mark_configured_def)

lemma list_sensor_simps [simp]:
  "agent_ok (list_sensor k a) = agent_ok a" "sensors_of (list_sensor k a) = sensors_of a"
  "groups_of (list_sensor k a) = groups_of a" "sensors_table (list_sensor k a) = sensors_table a"
  "sensorgroup_table (list_sensor k a) = sensorgroup_table a" "same_control (list_sensor k a) b = same_control a b"
  by (simp_all add: list_sensor_def log_overrun_def)

text \<open>What one entry of the sensor list does: it ends the loop, or adds an id that is in the table.\<close>

definition sensors_kept :: "agent \<Rightarrow> agent \<Rightarrow> bool" where
  "sensors_kept a a' \<longleftrightarrow> agent_ok a' \<and> sensorgroup_table a' = sensorgroup_table a \<and>
     same_control a' a \<and> dom (sensors_of a) \<subseteq> dom (sensors_of a')"

lemma sensors_kept_trans: "sensors_kept a b \<Longrightarrow> sensors_kept b c \<Longrightarrow> sensors_kept a c"
  by (auto simp: sensors_kept_def intro: same_control_trans)

lemma agent_ok_replace:
  assumes "agent_ok a" and "store_ready t" and "store_lookup t = (sensors_of a)(k := None)"
    and "sens_id s = k" and "sensor_ok s"
  shows "\<exists>t'. hts_new s t = Some t' \<and> sensors_kept a (a\<lparr>sensors_table := t'\<rparr>) \<and>
    sensors_of (a\<lparr>sensors_table := t'\<rparr>) = (sensors_of a)(k \<mapsto> s)"
proof -
  from hts_new_ok [OF assms(2), of s] assms(3,4) obtain t' where
    t': "hts_new s t = Some t'" "store_ready t'" "store_lookup t' = (sensors_of a)(k \<mapsto> s)"
    by auto
  then have "agent_ok (a\<lparr>sensors_table := t'\<rparr>)"
    using assms(1,4,5) by (intro agent_ok_sensors) (auto dest: agent_okD(3) split: if_splits)
  with t' show ?thesis by (auto simp: sensors_kept_def sensors_of_def)
qed

lemma roll_back_ok:
  assumes "agent_ok a"
  shows "\<exists>t. roll_back l (sensors_table a) = Some t \<and> agent_ok (a\<lparr>sensors_table := t\<rparr>) \<and>
    store_lookup t = (sensors_of a) |` (- set l)"
proof -
  have ready: "store_ready (sensors_table a)" using assms by (simp add: agent_ok_def)
  have "roll_back l = fold_ub store_remove l"
    by (simp add: fun_eq_iff roll_back_def store_remove_def [abs_def] hts_delete_def)
  with hts.delete_all [OF ready, of l] obtain t where
    t: "roll_back l (sensors_table a) = Some t" "store_ready t" "store_lookup t = (sensors_of a) |` (- set l)"
    by (auto simp: sensors_of_def)
  then have "agent_ok (a\<lparr>sensors_table := t\<rparr>)"
    using assms by (intro agent_ok_sensors) (auto dest: agent_okD(3) simp: restrict_map_def split: if_splits)
  with t show ?thesis by auto
qed

lemma group_sensor_step:
  assumes a: "agent_ok a" and v: "json_ok v"
    and r: "group_sensors (v # vs) l a = Some r"
  obtains (ended) reply a' where "r = Return ERROR (Some reply) a'" "agent_ok a'"
      "sensorgroup_table a' = sensorgroup_table a" "same_control a' a" "put_entry v (sensors_of a) = None"
  | (listed) a' where "group_sensors vs (l @ [entry_id v]) a' = Some r" "sensors_kept a a'"
      "entry_id v \<in> dom (sensors_of a')" "nul_free (entry_id v)" "put_entry v (sensors_of a) = Some (sensors_of a')"
proof -
  define obj where "obj = json_value_get_object (Some v)"
  have ready: "store_ready (sensors_table a)" using a by (simp add: agent_ok_def)
  have ok: "\<And>ob. obj = Some ob \<Longrightarrow> json_ok (JObject ob)" using v by (cases v) (auto simp: obj_def)
  have E: thesis if "put_entry v (sensors_of a) = None" "leave (fail_with m b) = Some r" "agent_ok b"
      "sensorgroup_table b = sensorgroup_table a" "same_control b a" for m b
    using leave_fail [OF that(2)] that(1,3-) ended by auto
  note put = put_entry_def Let_def entry_shapes [of v, folded obj_def, symmetric]
  note r = r [unfolded group_sensors.simps Let_def, folded obj_def]
  show thesis
  proof (cases "complete_sensor obj")
    case True
    note r = r [unfolded if_P [OF True]]
    from r obtain k found where k: "dup_string obj ''sensor-id'' = Some k"
        "hts_get (sensors_table a) k = Some found"
      by (auto simp: bind_Some_iff)
    from hts_delete_ok [OF ready, of k] obtain p t where
      d: "hts_delete (sensors_table a) k = Some (p, t)" "store_ready t" "store_lookup t = (sensors_of a)(k := None)"
      by (auto simp: sensors_of_def)
    define t0 where "t0 = (if found \<noteq> None then t else sensors_table a)"
    have t0: "(if found \<noteq> None then do { (sens, t') \<leftarrow> hts_delete (sensors_table a) k; Some t' }
        else Some (sensors_table a)) = Some t0" "store_ready t0" "store_lookup t0 = (sensors_of a)(k := None)"
      using d ready k(2) by (auto simp: t0_def hts_get_ok entry_lookup sensors_of_def)
    have ok1: "agent_ok (a\<lparr>sensors_table := t0\<rparr>)" using a t0(2,3) by (rule agent_ok_remove)
    note r = r [unfolded k bind.simps t0(1)]
    from r obtain nm ty where n: "dup_string obj ''sensor-name'' = Some nm" "dup_string obj ''sensor-type'' = Some ty"
      by (auto simp: bind_Some_iff)
    note id = member_text [of v, folded obj_def, folded dup_string_def]
    have K: "entry_id v = k" "nul_free k" using id [OF k(1)] dup_string_ok [OF k(1) ok] by (simp_all add: entry_id_def)
    let ?cs = "json_object_get_array obj ''sensor-settings''"
    note st = entry_settings [of v, folded obj_def, OF True]
    show thesis
    proof (cases "json_array_get_count ?cs = 3")
      case False
      then have "put_entry v (sensors_of a) = None" using True by (simp add: put entry_correct_def st)
      with False show thesis using r n by (intro E [OF _ _ ok1]) auto
    next
      case three: True
      from r n three obtain z where z: "group_settings (case ?cs of None \<Rightarrow> [] | Some xs \<Rightarrow> xs) (- 1, - 1, - 1) = Some z"
        by (auto simp: bind_Some_iff)
      note read = group_settings_read [OF z, unfolded st(2)]
      show thesis
      proof (cases z)
        case (Inl u)
        then have "put_entry v (sensors_of a) = None" using True read by (auto simp: put entry_correct_def split: if_splits)
        with Inl show thesis using r n three z by (intro E [OF _ _ ok1]) auto
      next
        case (Inr q)
        obtain cid ib eb where q: "q = (cid, ib, eb)" by (cases q) auto
        have known: "\<forall>x \<in> set (items_of (object_in v) ''sensor-settings''). known_setting x"
            "cid = can_id (entry_sensor v)" "ib = init_bit (entry_sensor v)" "eb = end_bit (entry_sensor v)"
          using read Inr q by (auto simp: entry_sensor_def Let_def split: if_splits)
        show thesis
        proof (cases "cid = - 1 \<or> ib = - 1 \<or> eb = - 1")
          case True
          from roll_back_ok [OF ok1, of l] obtain t1 where
            t1: "roll_back l t0 = Some t1" "agent_ok (a\<lparr>sensors_table := t1\<rparr>)" by auto
          have "put_entry v (sensors_of a) = None"
            using True \<open>complete_sensor obj\<close> by (auto simp: put entry_correct_def known(2-))
          with r n three z Inr q True t1 show thesis by (intro E [OF _ _ t1(2)]) auto
        next
          case False
          from r n three z Inr q False obtain rate where
            rate: "double_to_u32 (json_object_get_number obj ''sampling-rate'') = Some rate"
            by (auto simp: bind_Some_iff)
          let ?s = "\<lparr>sens_id = k, sens_name = nm, sens_type = ty, can_id = cid, init_bit = ib, end_bit = eb,
              sampling_rate = rate, sens_value = [], sens_timestamp = 0\<rparr>"
          have "sensor_ok ?s"
            using dup_string_ok [OF k(1) ok] dup_string_ok [OF n(1) ok] dup_string_ok [OF n(2) ok]
            by (simp add: sensor_ok_def)
          from agent_ok_replace [OF a t0(2,3) _ this] obtain t' where
            t': "hts_new ?s t0 = Some t'" "sensors_kept a (a\<lparr>sensors_table := t'\<rparr>)"
              "sensors_of (a\<lparr>sensors_table := t'\<rparr>) = (sensors_of a)(k \<mapsto> ?s)"
            by auto
          let ?a' = "list_sensor k (a\<lparr>sensors_table := t'\<rparr>)"
          have "group_sensors vs (l @ [k]) ?a' = Some r"
            using r n three z Inr q False rate t'(1) by simp
          moreover have "sensors_kept a ?a'" "k \<in> dom (sensors_of ?a')" using t'(2,3) by (auto simp: sensors_kept_def)
          moreover have "entry_sensor v = ?s"
            using rate id [OF n(1)] id [OF n(2)] known(2-) by (simp add: entry_sensor_def Let_def K(1) st(3))
          moreover have "entry_correct v"
            using known False three by (simp add: entry_correct_def Let_def st(1))
          ultimately show thesis using K t'(3) True by (intro listed [of ?a']) (simp_all add: put)
        qed
      qed
    qed
  next
    case False
    note r = r [unfolded if_not_P [OF False]]
    show thesis
    proof (cases "only_id obj")
      case True
      note r = r [unfolded if_P [OF True]]
      from r obtain k found where k: "dup_string obj ''sensor-id'' = Some k"
          "hts_get (sensors_table a) k = Some found"
        by (auto simp: bind_Some_iff)
      have K: "entry_id v = k" "nul_free k" using member_text [of v, folded obj_def, folded dup_string_def, OF k(1)]
        dup_string_ok [OF k(1) ok] by (simp_all add: entry_id_def)
      have there: "found = None \<longleftrightarrow> sensors_of a k = None"
        using k(2) hts_get_ok [OF ready, of k] entry_lookup [OF ready, of k] by (auto simp: sensors_of_def)
      have put: "put_entry v (sensors_of a) = (if found = None then None else Some (sensors_of a))"
        using True \<open>\<not> complete_sensor obj\<close> there by (simp add: put K(1))
      show thesis
      proof (cases "found = None")
        case True
        then show thesis using r k put by (intro E [OF _ _ a]) auto
      next
        case False
        then show thesis
          using r k a put there K by (intro listed [of "list_sensor k a"]) (auto simp: sensors_kept_def)
      qed
    next
      case False
      then have "put_entry v (sensors_of a) = None" using \<open>\<not> complete_sensor obj\<close> by (simp add: put)
      with False show thesis using r by (intro E [OF _ _ a]) auto
    qed
  qed
qed

lemma group_sensors_ok:
  assumes "agent_ok a" and "\<forall>v \<in> set vs. json_ok v" and "group_sensors vs l a = Some r"
  shows "(\<exists>reply a'. r = Return ERROR (Some reply) a' \<and> agent_ok a' \<and>
            sensorgroup_table a' = sensorgroup_table a \<and> same_control a' a \<and> fold_ub put_entry vs (sensors_of a) = None) \<or>
         (\<exists>a'. r = Continue (l @ map entry_id vs, a') \<and> sensors_kept a a' \<and> entry_id ` set vs \<subseteq> dom (sensors_of a') \<and>
            (\<forall>k \<in> entry_id ` set vs. nul_free k) \<and> fold_ub put_entry vs (sensors_of a) = Some (sensors_of a'))"
  using assms
proof (induction vs arbitrary: l a)
  case Nil
  then show ?case by (auto simp: sensors_kept_def)
next
  case (Cons v vs)
  have v: "json_ok v" and vs: "\<forall>v \<in> set vs. json_ok v" using Cons.prems(2) by auto
  from Cons.prems(1) v Cons.prems(3) show ?case
  proof (cases rule: group_sensor_step)
    case (ended reply a')
    then show ?thesis by simp
  next
    case (listed a1)
    have "agent_ok a1" using listed(2) by (simp add: sensors_kept_def)
    from Cons.IH [OF this vs listed(1)] show ?thesis
    proof (elim disjE exE conjE)
      fix reply a' assume "r = Return ERROR (Some reply) a'" "agent_ok a'"
        "sensorgroup_table a' = sensorgroup_table a1" "same_control a' a1" "fold_ub put_entry vs (sensors_of a1) = None"
      with listed(2,5) show ?thesis by (auto simp: sensors_kept_def intro: same_control_trans)
    next
      fix a' assume c: "r = Continue ((l @ [entry_id v]) @ map entry_id vs, a')" "sensors_kept a1 a'"
        "entry_id ` set vs \<subseteq> dom (sensors_of a')" "\<forall>k \<in> entry_id ` set vs. nul_free k"
        "fold_ub put_entry vs (sensors_of a1) = Some (sensors_of a')"
      have "entry_id v \<in> dom (sensors_of a')" using c(2) listed(3) by (auto simp: sensors_kept_def)
      with c listed(4,5) sensors_kept_trans [OF listed(2) c(2)] show ?thesis
        by (intro disjI2 exI [of _ a']) auto
    qed
  qed
qed

lemma list_members_ok:
  assumes "json_ok (JObject obj)" and "json_object_get_array (Some obj) key = Some xs"
  shows "\<forall>v \<in> set xs. json_ok v"
proof -
  from assms(2) have "map_of obj key = Some (JArray xs)"
    by (auto simp: json_object_get_array_def elim: json_value_get_array.elims)
  with assms(1) show ?thesis by (fastforce dest: map_of_SomeD)
qed

lemma htsg_new_ok:
  assumes "store_ready t" and "store_lookup t (sg_id g) = None"
  shows "\<exists>t'. htsg_new g t = Some t' \<and> store_ready t' \<and> store_lookup t' = (store_lookup t)(sg_id g \<mapsto> g)"
  using hts.ins_fresh [OF assms, of g] by (simp add: htsg_new_insert)

lemma create_groups_cases:
  assumes a: "agent_ok a" and c: "create_sensorgroups_subscription values a = Some (r, v, a')"
  obtains (refused) reply where "r = ERROR" "v = Some reply" "agent_ok a'"
      "sensorgroup_table a' = sensorgroup_table a" "same_control a' a" "\<And>obj m. \<not> group_request values a obj m"
  | (created) g t a1 where "r = OK" "v = Some []" "a' = mark_configured (a1\<lparr>sensorgroup_table := t\<rparr>)"
      "sensors_kept a a1" "groups_of a (sg_id g) = None" "group_ok g" "set (members g) \<subseteq> dom (sensors_of a1)"
      "sensorcount g = length (sensor_list g)" "store_ready t" "store_lookup t = (groups_of a)(sg_id g \<mapsto> g)"
      "\<exists>obj. g = requested_group obj \<and> group_request values a obj (sensors_of a1)"
proof -
  have R: thesis if "fail_with m a = Some (r, v, a')" "\<And>obj m. \<not> group_request values a obj m" for m
    using fail_with_Some [OF that(1)] refused a that(2) by auto
  from c obtain jobj where j: "payload_object values = Some jobj"
    by (auto simp: create_sensorgroups_subscription_def bind_Some_iff)
  have jok: "\<And>ob. jobj = Some ob \<Longrightarrow> json_ok (JObject ob)" using payload_ok j by auto
  have ask: "group_request values a obj m \<Longrightarrow> jobj = Some obj" for obj m using j by (simp add: group_request_def)
  have mem: "has (Some obj) k \<longleftrightarrow> k \<in> dom (map_of obj)" for obj k
    by (simp add: has_def json_object_get_value_def json_object_getn_value_map_of domIff)
  show thesis
  proof (cases "has jobj ''sensorgroup-id'' \<and> has jobj ''publish-rate'' \<and> has jobj ''sensor-list''")
    case False
    have "\<not> group_request values a obj m" for obj m
    proof
      assume g: "group_request values a obj m"
      from False g show False unfolding ask [OF g] by (auto simp: group_request_def mem)
    qed
    with False show thesis using c j by (intro R) (auto simp: create_sensorgroups_subscription_def)
  next
    case True
    note c = c [unfolded create_sensorgroups_subscription_def j bind.simps if_P [OF True]]
    from c obtain ident found where i: "dup_string jobj ''sensorgroup-id'' = Some ident"
        "htsg_get (sensorgroup_table a) ident = Some found"
      by (auto simp: bind_Some_iff)
    obtain obj where o: "jobj = Some obj" using True by (cases jobj) (auto simp: has_def json_object_get_value_def)
    have id: "text_of obj ''sensorgroup-id'' = ident" using i(1) get_text o by (simp add: dup_string_def)
    have ready: "store_ready (sensorgroup_table a)" using a by (simp add: agent_ok_def)
    have there: "found = None \<longleftrightarrow> groups_of a ident = None"
      using i(2) ready by (auto simp: htsg_get_ok entry_lookup groups_of_def)
    have req: "group_request values a obj' m \<longleftrightarrow> obj' = obj \<and> found = None \<and>
        fold_ub put_entry (items_of obj ''sensor-list'') (sensors_of a) = Some m" for obj' m
      by (cases "obj' = obj") (use True j id there in \<open>auto simp: group_request_def o mem\<close>)
    show thesis
    proof (cases "found = None")
      case False
      then show thesis using c i by (intro R) (auto simp: req)
    next
      case fresh: True
      let ?xs = "case json_object_get_array jobj ''sensor-list'' of None \<Rightarrow> [] | Some xs \<Rightarrow> xs"
      from c i fresh obtain rate z where n: "double_to_i32 (json_object_get_number jobj ''publish-rate'') = Some rate"
          "group_sensors ?xs [] a = Some z"
        by (auto simp: bind_Some_iff)
      have "\<forall>v \<in> set ?xs. json_ok v"
      proof (cases jobj)
        case (Some ob)
        show ?thesis
        proof (cases "json_object_get_array jobj ''sensor-list''")
          case arr: (Some xs)
          with list_members_ok [OF jok [OF Some]] Some show ?thesis by simp
        qed simp
      qed (simp add: json_object_get_array_def)
      from group_sensors_ok [OF a this n(2)] show thesis
      proof (elim disjE exE conjE)
        fix reply b assume "z = Return ERROR (Some reply) b" "agent_ok b"
          "sensorgroup_table b = sensorgroup_table a" "same_control b a" "fold_ub put_entry ?xs (sensors_of a) = None"
        with c i fresh n show thesis by (intro refused [of reply]) (auto simp: req o get_items)
      next
        let ?l = "map entry_id ?xs"
        fix b assume b: "z = Continue ([] @ ?l, b)" "sensors_kept a b" "entry_id ` set ?xs \<subseteq> dom (sensors_of b)"
          "\<forall>k \<in> entry_id ` set ?xs. nul_free k" "fold_ub put_entry ?xs (sensors_of a) = Some (sensors_of b)"
        let ?g = "\<lparr>sg_id = ident, publish_rate = rate, sensorcount = length ?l, sensor_list = ?l,
            last_tv_sec = 0, last_tv_usec = 0\<rparr>"
        have same: "sensorgroup_table b = sensorgroup_table a" using b(2) by (simp add: sensors_kept_def)
        have none: "groups_of a ident = None" using fresh there by simp
        from htsg_new_ok [OF ready, of ?g] none obtain t where
          t: "htsg_new ?g (sensorgroup_table b) = Some t" "store_ready t" "store_lookup t = (groups_of a)(ident \<mapsto> ?g)"
          by (auto simp: groups_of_def same)
        from c i fresh n b(1) t(1) have e: "clear_values values = Some v" "r = OK"
            "a' = mark_configured (b\<lparr>sensorgroup_table := t\<rparr>)"
          by (auto simp: bind_Some_iff)
        have v: "v = Some []" using e(1) by (cases "values") (auto simp: clear_values_def)
        have g: "group_ok ?g" using dup_string_ok [OF i(1) jok] b(4) by (simp add: group_ok_def)
        have m: "set (members ?g) \<subseteq> dom (sensors_of b)" using b(3) by (simp add: members_def)
        have "?g = requested_group obj"
          using n(1) by (simp add: requested_group_def Let_def id o get_items get_number)
        moreover have "group_request values a obj (sensors_of b)" using b(5) fresh by (simp add: req o get_items)
        ultimately have "\<exists>obj. ?g = requested_group obj \<and> group_request values a obj (sensors_of b)" by blast
        then show thesis
          using t(3) none by (intro created [OF e(2) v e(3) b(2) _ g m _ t(2)]) simp_all
      qed
    qed
  qed
qed

lemma create_groups_ok [c_inv]:
  assumes "agent_ok a" and "create_sensorgroups_subscription values a = Some (r, v, a')"
  shows "agent_ok a'"
  using assms
proof (cases rule: create_groups_cases)
  case (created g t a1)
  have "agent_ok a1" "groups_of a1 = groups_of a" using created(4) by (simp_all add: sensors_kept_def groups_of_def)
  with created show ?thesis
    by (auto intro!: agent_ok_groups dest: agent_okD(4) split: if_splits)
qed

section \<open>When reading the groups is defined\<close>

lemma listed_sensor_ok:
  assumes "agent_ok a" and "i < length (sensor_list g)"
  shows "listed_sensor a g i = sensors_of a (sensor_list g ! i)"
proof -
  have ready: "store_ready (sensors_table a)" using assms(1) by (simp add: agent_ok_def)
  show ?thesis
    using assms(2) hts_get_ok [OF ready]
    by (simp add: listed_sensor_def sensors_of_def store_lookup_def deref_def split: option.split)
qed

lemma group_value_defined:
  assumes "agent_ok a" and "group_ok g"
  shows "group_value a g = None \<longleftrightarrow> \<not> group_resolved a g"
proof -
  have le: "sensorcount g \<le> length (sensor_list g)" using assms(2) by (simp add: group_ok_def)
  have "group_value a g = None \<longleftrightarrow> (\<exists>i < sensorcount g. listed_sensor a g i = None)"
    by (auto simp: group_value_def bind_None_iff map_ub_None)
  also have "\<dots> \<longleftrightarrow> (\<exists>i < sensorcount g. sensors_of a (sensor_list g ! i) = None)"
    using le listed_sensor_ok [OF assms(1)] by (metis order_less_le_trans)
  also have "\<dots> \<longleftrightarrow> (\<exists>k \<in> set (members g). sensors_of a k = None)"
    using le by (fastforce simp: members_def in_set_conv_nth)
  finally show ?thesis by (auto simp: group_resolved_def)
qed

lemma read_groups_None:
  assumes "agent_ok a"
  shows "read_sensorgroups_subscription a = None \<longleftrightarrow> \<not> references_ok a"
proof -
  have "store_ready (sensorgroup_table a)" using assms by (simp add: agent_ok_def)
  from walk_ok [OF this] obtain gs where gs: "walk (sensorgroup_table a) = Some gs" "set gs = ran (groups_of a)"
    by (auto simp: groups_of_def)
  have "read_sensorgroups_subscription a = None \<longleftrightarrow> (\<exists>g \<in> set gs. group_value a g = None)"
    by (auto simp: read_sensorgroups_subscription_def gs(1) bind_None_iff map_ub_None reply_with_def)
  also have "\<dots> \<longleftrightarrow> (\<exists>k g. groups_of a k = Some g \<and> \<not> group_resolved a g)"
  proof -
    have "group_value a g = None \<longleftrightarrow> \<not> group_resolved a g" if "groups_of a k = Some g" for k g
      using that assms by (intro group_value_defined) (auto dest: agent_okD(4))
    then show ?thesis unfolding gs(2) ran_def by blast
  qed
  finally show ?thesis by (simp add: references_ok_def)
qed

lemma htsg_delete_ok:
  assumes "store_ready t"
  shows "\<exists>p t'. htsg_delete t k = Some (p, t') \<and> (p = None \<longleftrightarrow> store_lookup t k = None) \<and>
    store_ready t' \<and> store_lookup t' = (store_lookup t)(k := None)"
proof -
  from assms have ok: "store_ok t" by (simp add: store_ready_def)
  from ht_delete_ok [OF ok, of k] obtain t' where t': "ht_delete t k = Some (map_of (st_entries t) k, t')"
    by (elim exE conjE) (rule that)
  from hts.del_any [OF assms, of k] t' have "store_ready t'" "store_lookup t' = (store_lookup t)(k := None)"
    by (auto simp: store_remove_def)
  with t' assms show ?thesis by (simp add: htsg_delete_def entry_lookup)
qed

lemma delete_groups_loop_ok:
  assumes "agent_ok a"
  shows "(\<exists>t. delete_groups_loop qs ident a =
            Some (Continue (if query_ids qs = [] then ident else Some (last (query_ids qs)), a\<lparr>sensorgroup_table := t\<rparr>)) \<and>
            agent_ok (a\<lparr>sensorgroup_table := t\<rparr>) \<and> store_lookup t = (groups_of a) |` (- set (query_ids qs)) \<and>
            set (query_ids qs) \<subseteq> dom (groups_of a) \<and> distinct (query_ids qs)) \<or>
         (\<exists>reply a'. delete_groups_loop qs ident a = Some (Return ERROR (Some reply) a') \<and>
            agent_ok a' \<and> sensors_table a' = sensors_table a \<and> same_control a' a \<and>
            groups_of a' \<subseteq>\<^sub>m groups_of a \<and> \<not> (set (query_ids qs) \<subseteq> dom (groups_of a) \<and> distinct (query_ids qs)))"
  using assms
proof (induction qs ident a rule: delete_groups_loop.induct)
  case (1 ident a)
  have "a = a\<lparr>sensorgroup_table := sensorgroup_table a\<rparr>" by simp
  with 1 show ?case
    by (intro disjI1 exI [of _ "sensorgroup_table a"]) (auto simp: restrict_map_def groups_of_def)
next
  case (2 name v tmp ident a)
  have ready: "store_ready (sensorgroup_table a)" using 2(3) by (simp add: agent_ok_def)
  show ?case
  proof (cases "name = ''id''")
    case False
    then have "query_ids ((name, v) # tmp) = query_ids tmp"
        "delete_groups_loop ((name, v) # tmp) ident a = delete_groups_loop tmp ident a" by simp_all
    with 2(2) [OF False 2(3)] show ?thesis by (simp only:)
  next
    case True
    show ?thesis
    proof (cases "groups_of a v")
      case None
      then have "htsg_get (sensorgroup_table a) v = Some None"
        using htsg_get_ok [OF ready] entry_lookup [OF ready] by (simp add: groups_of_def)
      moreover obtain reply l where "fail_with (''There is no sensorgroup with id '' @ v)
          (log_overrun Message_50 50 (length (''There is no sensorgroup with id '' @ v) + 1) a) =
          Some (ERROR, Some reply, a\<lparr>overruns := l\<rparr>)"
        using fail_logged by blast
      ultimately show ?thesis using True None 2(3) by (intro disjI2) (auto simp: leave_def Let_def)
    next
      case (Some g)
      then obtain q where q: "htsg_get (sensorgroup_table a) v = Some (Some q)"
        using htsg_get_ok [OF ready, of v] entry_lookup [OF ready, of v] by (auto simp: groups_of_def)
      from htsg_delete_ok [OF ready, of v] Some obtain p t where
        t: "htsg_delete (sensorgroup_table a) v = Some (Some p, t)" "store_ready t"
          "store_lookup t = (groups_of a)(v := None)"
        by (auto simp: groups_of_def)
      let ?a = "a\<lparr>sensorgroup_table := t\<rparr>"
      have ok: "agent_ok ?a"
        using 2(3) t(2,3) by (intro agent_ok_groups) (auto dest: agent_okD(4) split: if_splits)
      have look: "groups_of ?a = (groups_of a)(v := None)" using t(3) by (simp add: groups_of_def)
      have le: "(groups_of a)(v := None) \<subseteq>\<^sub>m groups_of a" by (auto simp: map_le_def split: if_splits)
      have step: "delete_groups_loop ((name, v) # tmp) ident a = delete_groups_loop tmp (Some v) ?a"
        using True q t(1) by simp
      have ne: "Some q \<noteq> None" "Some p \<noteq> None" by simp_all
      from 2(1) [OF True q ne(1) t(1) refl ne(2) ok] consider (cont) u where
          "delete_groups_loop tmp (Some v) ?a =
            Some (Continue (if query_ids tmp = [] then Some v else Some (last (query_ids tmp)), ?a\<lparr>sensorgroup_table := u\<rparr>))"
          "agent_ok (?a\<lparr>sensorgroup_table := u\<rparr>)" "store_lookup u = (groups_of ?a) |` (- set (query_ids tmp))"
          "set (query_ids tmp) \<subseteq> dom (groups_of ?a)" "distinct (query_ids tmp)"
        | (ret) reply a' where "delete_groups_loop tmp (Some v) ?a = Some (Return ERROR (Some reply) a')"
          "agent_ok a'" "sensors_table a' = sensors_table ?a" "same_control a' ?a" "groups_of a' \<subseteq>\<^sub>m groups_of ?a"
          "\<not> (set (query_ids tmp) \<subseteq> dom (groups_of ?a) \<and> distinct (query_ids tmp))"
        by (elim disjE exE conjE)
      then show ?thesis
      proof cases
        case cont
        have "store_lookup u = (groups_of a) |` (- set (query_ids ((name, v) # tmp)))"
          using cont(3) True unfolding look by (auto simp: restrict_map_def fun_eq_iff)
        moreover have "set (query_ids tmp) \<subseteq> dom (groups_of a)" "v \<notin> set (query_ids tmp)"
          using cont(4) unfolding look by auto
        ultimately show ?thesis
          unfolding step using cont(1,2,5) True Some by (intro disjI1 exI [of _ u]) auto
      next
        case ret
        have "groups_of a' \<subseteq>\<^sub>m groups_of a" using ret(5) le unfolding look by (rule map_le_trans)
        moreover have "\<not> (set (query_ids ((name, v) # tmp)) \<subseteq> dom (groups_of a) \<and> distinct (query_ids ((name, v) # tmp)))"
          using ret(6) True unfolding look by auto
        ultimately show ?thesis unfolding step using ret(1-4)
          by (intro disjI2 exI [of _ reply] exI [of _ a']) simp
      qed
    qed
  qed
qed

section \<open>Properties\<close>

text \<open>
  C21: Creating a group: a creation that returns keeps the agent well formed, and returns
  \<open>OK\<close> exactly when the request can be met: its payload is an object with the three members,
  the id is free, and every entry of the list is a correct configuration of a sensor or the id
  of a sensor that is there by then. On \<open>OK\<close> the group that the request describes was added
  (its id, rate, and the ids of the entries in order) and no other group was changed, the
  sensors are the ones before with the complete entries put in in order, all members of the
  new group are sensors, and the agent is configured unless it runs. On \<open>ERROR\<close> the groups
  and the settings are as before.
\<close>

theorem create_group_outcome:
  assumes "agent_ok a" and "create_sensorgroups_subscription values a = Some (r, v, a')"
  shows "agent_ok a' \<and>
    (if \<exists>obj m. group_request values a obj m
     then r = OK \<and> v = Some [] \<and> same_control a' (mark_configured a) \<and>
       (\<exists>obj. group_request values a obj (sensors_of a') \<and>
          groups_of a' = (groups_of a)(sg_id (requested_group obj) \<mapsto> requested_group obj) \<and>
          set (members (requested_group obj)) \<subseteq> dom (sensors_of a')) \<and>
       dom (sensors_of a) \<subseteq> dom (sensors_of a') \<and> (references_ok a \<longrightarrow> references_ok a')
     else r = ERROR \<and> v \<noteq> None \<and> groups_of a' = groups_of a \<and> same_control a' a)"
  using assms
proof (cases rule: create_groups_cases)
  case refused
  then show ?thesis by (simp add: groups_of_def)
next
  case (created g t a1)
  then obtain obj where obj: "g = requested_group obj" "group_request values a obj (sensors_of a1)" by blast
  have s: "sensors_of a' = sensors_of a1" "groups_of a' = (groups_of a)(sg_id g \<mapsto> g)"
    using created(3,10) by (simp_all add: sensors_of_def groups_of_def)
  have le: "dom (sensors_of a) \<subseteq> dom (sensors_of a')" using created(4) s by (simp add: sensors_kept_def)
  moreover have "references_ok a'" if "references_ok a"
    using that le created(7) unfolding references_ok_def group_resolved_def s
    by (auto simp: subset_iff domIff split: if_splits)
  moreover have "same_control a' (mark_configured a)"
    using created(3,4) marked_control by (simp add: sensors_kept_def)
  ultimately show ?thesis using created(1,2,7) s obj create_groups_ok [OF assms] by auto
qed

text \<open>A group with a sensor that is there and a new one, in this order.\<close>

definition sample_entry :: json_object where
  "sample_entry = [(''sensor-id'', JString ''t''), (''sensor-name'', JString ''n''), (''sensor-type'', JString ''Uint8''),
     (''sensor-settings'', JArray [JObject [(''key'', JString ''can-id''), (''value'', JString ''6'')],
        JObject [(''key'', JString ''init-bit''), (''value'', JString ''0'')],
        JObject [(''key'', JString ''end-bit''), (''value'', JString ''7'')]]), (''sampling-rate'', JNumber (Fin False 0 (- 1074)))]"

definition sample_group :: json_object where
  "sample_group = [(''sensorgroup-id'', JString ''g''), (''publish-rate'', JNumber (Fin False 0 (- 1074))),
     (''sensor-list'', JArray [JObject [(''sensor-id'', JString ''s'')], JObject sample_entry])]"

lemma sample_sensor: "entry_sensor (JObject sample_entry) =
    \<lparr>sens_id = ''t'', sens_name = ''n'', sens_type = ''Uint8'', can_id = 6, init_bit = 0, end_bit = 7,
     sampling_rate = 0, sens_value = [], sens_timestamp = 0\<rparr>"
proof -
  have "atoi ''6'' = 6" "atoi ''0'' = 0" "atoi ''7'' = 7" by code_simp+
  then show ?thesis
    by (simp add: entry_sensor_def Let_def entry_id_def text_of_def items_of_def number_of_def last_setting_def sample_entry_def)
qed

lemma sample_group_read:
  "payload_object (Some (json_write 0 False (JObject sample_group))) = Some (Some sample_group)"
  "requested_group sample_group = \<lparr>sg_id = ''g'', publish_rate = 0, sensorcount = Suc (Suc 0), sensor_list = [''s'', ''t''],
     last_tv_sec = 0, last_tv_usec = 0\<rparr>"
  "items_of sample_group ''sensor-list'' = [JObject [(''sensor-id'', JString ''s'')], JObject sample_entry]"
  "text_of sample_group ''sensorgroup-id'' = ''g''"
proof -
  have zero: "double_of_int 0 = Fin False 0 (- 1074)" by code_simp
  have "json_parse_string (Some (json_write 0 False (JObject sample_group))) = Some (JObject sample_group)"
    by (rule parse_written) (simp_all add: sample_group_def sample_entry_def MAX_NESTING_def is_finite_def zero)
  then show "payload_object (Some (json_write 0 False (JObject sample_group))) = Some (Some sample_group)"
    by (simp add: payload_object_def)
qed (simp_all add: requested_group_def number_of_def items_of_def entry_id_def text_of_def sample_group_def sample_entry_def)

lemma sample_group_put:
  assumes "m ''s'' \<noteq> None"
  shows "fold_ub put_entry (items_of sample_group ''sensor-list'') m = Some (m(''t'' \<mapsto> entry_sensor (JObject sample_entry)))"
proof -
  have "entry_correct (JObject sample_entry)"
    unfolding entry_correct_def sample_sensor Let_def
    by (simp add: items_of_def known_setting_def text_of_def sample_entry_def)
  moreover have "entry_id (JObject sample_entry) = ''t''" "set entry_keys \<subseteq> dom (map_of sample_entry)"
    by (simp_all add: text_of_def entry_id_def entry_keys_def sample_entry_def)
  moreover have "set entry_keys \<inter> dom (map_of [(''sensor-id'', JString ''s'')]) = {''sensor-id''}"
      "\<not> set entry_keys \<subseteq> dom (map_of [(''sensor-id'', JString ''s'')])"
    by (simp_all add: entry_keys_def)
  moreover have "entry_id (JObject [(''sensor-id'', JString ''s'')]) = ''s''" by (simp add: entry_id_def text_of_def)
  ultimately show ?thesis using assms unfolding sample_group_read(3) by (simp add: put_entry_def)
qed

lemma sample_group_returns:
  assumes "agent_ok a" and "sensors_of a ''s'' \<noteq> None" and "sensors_of a ''t'' = None" and "groups_of a ''g'' = None"
  shows "\<exists>v a'. create_sensorgroups_subscription (Some (json_write 0 False (JObject sample_group))) a = Some (OK, v, a')"
proof -
  let ?xs = "[JObject [(''sensor-id'', JString ''s'')], JObject sample_entry]"
  have ready: "store_ready (sensors_table a)" "store_ready (sensorgroup_table a)" using assms(1) by (simp_all add: agent_ok_def)
  have get: "(hts_get (sensors_table a) k = Some None) = (sensors_of a k = None)" "hts_get (sensors_table a) k \<noteq> None" for k
    using hts_get_ok [OF ready(1), of k] entry_lookup [OF ready(1), of k] by (auto simp: sensors_of_def)
  obtain q where g: "hts_get (sensors_table a) ''s'' = Some (Some q)" "hts_get (sensors_table a) ''t'' = Some None"
      "htsg_get (sensorgroup_table a) ''g'' = Some None"
    using get [of "''s''"] get [of "''t''"] htsg_get_ok [OF ready(2), of "''g''"] entry_lookup [OF ready(2), of "''g''"] assms
    by (auto simp: groups_of_def)
  have at: "atoi ''6'' = 6" "atoi ''0'' = 0" "atoi ''7'' = 7" by code_simp+
  obtain t1 where t1: "hts_new (entry_sensor (JObject sample_entry)) (sensors_table a) = Some t1"
    using hts_new_ok [OF ready(1), of "entry_sensor (JObject sample_entry)"] assms(3) by (auto simp: sample_sensor sensors_of_def)
  have m: "map_of sample_group ''sensorgroup-id'' = Some (JString ''g'')" "map_of sample_group ''sensor-list'' = Some (JArray ?xs)"
      "map_of sample_group ''publish-rate'' = Some (JNumber (Fin False 0 (- 1074)))" by (simp_all add: sample_group_def)
  obtain t2 where t2: "htsg_new (requested_group sample_group) (sensorgroup_table a) = Some t2"
    using htsg_new_ok [OF ready(2), of "requested_group sample_group"] assms(4) by (auto simp: sample_group_read(2) groups_of_def)
  have "group_sensors ?xs [] a = Some (Continue ([''s'', ''t''], list_sensor ''t'' (list_sensor ''s'' a\<lparr>sensors_table := t1\<rparr>)))"
    using t1 [unfolded sample_sensor] g at
    by (simp add: sample_entry_def complete_sensor_def only_id_def has_def json_object_get_value_def json_object_getn_value_map_of
        json_object_get_array_def json_array_get_count_def json_object_get_number_def dup_string_def json_object_get_string_def)
  then show ?thesis
    using g t2 [unfolded sample_group_read(2)]
    by (simp add: create_sensorgroups_subscription_def sample_group_read(1) m json_object_get_number_def json_object_get_array_def
        clear_values_def del: group_sensors.simps json_write.simps)
qed

theorem create_group_outcome_witness:
  "\<exists>a'. create_sensorgroups_subscription (Some (json_write 0 False (JObject sample_group))) (populated [byte_sensor ''s''] []) =
      Some (OK, Some [], a') \<and>
    map_option members (groups_of a' ''g'') = Some [''s'', ''t''] \<and> map_option can_id (sensors_of a' ''t'') = Some 6"
proof -
  let ?a = "populated [byte_sensor ''s''] []" and ?text = "json_write 0 False (JObject sample_group)"
  have p: "agent_ok ?a" "sensors_of ?a = [''s'' \<mapsto> byte_sensor ''s'']" "groups_of ?a = Map.empty"
    using populated_ok [of "[byte_sensor ''s'']" "[]"] by auto
  from sample_group_returns [OF p(1)] obtain v a' where
    c: "create_sensorgroups_subscription (Some ?text) ?a = Some (OK, v, a')" by (auto simp: p(2,3))
  from create_group_outcome [OF p(1) c] obtain obj where
    o: "v = Some []" "group_request (Some ?text) ?a obj (sensors_of a')"
      "groups_of a' = (groups_of ?a)(sg_id (requested_group obj) \<mapsto> requested_group obj)"
    by (auto split: if_splits)
  have obj: "obj = sample_group" using o(2) sample_group_read(1) by (simp add: group_request_def)
  have "sensors_of ?a ''s'' \<noteq> None" by (simp add: p(2))
  from sample_group_put [of "sensors_of ?a", OF this] o(2) have "map_option can_id (sensors_of a' ''t'') = Some 6"
    unfolding obj group_request_def by (auto simp: sample_sensor)
  moreover have "map_option members (groups_of a' ''g'') = Some [''s'', ''t'']"
    unfolding o(3) obj by (simp add: sample_group_read(2) members_def)
  ultimately show ?thesis using c o(1) by blast
qed

text \<open>
  C27: When \<open>GET\<close> of the groups is safe: on a well-formed agent, reading the groups runs into
  undefined behaviour (a NULL pointer from the sensor table is dereferenced) exactly when
  some group lists an id that is not the id of a sensor.
\<close>

theorem read_groups_defined:
  assumes "agent_ok a"
  shows "read_sensorgroups_subscription a = None \<longleftrightarrow>
    (\<exists>j g k. groups_of a j = Some g \<and> k \<in> set (members g) \<and> sensors_of a k = None)"
  using read_groups_None [OF assms] by (auto simp: references_ok_def group_resolved_def)

theorem read_groups_defined_witness:
  "read_sensorgroups_subscription (populated [] [plain_group ''g'' [''s'']]) = None"
proof -
  let ?a = "populated [] [plain_group ''g'' [''s'']]"
  have p: "agent_ok ?a" "sensors_of ?a = Map.empty" "groups_of ?a = [''g'' \<mapsto> plain_group ''g'' [''s'']]"
    using populated_ok [of "[]" "[plain_group ''g'' [''s'']]"] by auto
  show ?thesis
    unfolding read_groups_defined [OF p(1)] p(2,3)
    by (intro exI [of _ "''g''"] exI [of _ "plain_group ''g'' [''s'']"] exI [of _ "''s''"]) simp
qed

text \<open>
  A refused group can take a sensor with it. If the first entry of the list is a complete
  configuration of an existing sensor whose settings are not three, the request returns
  \<open>ERROR\<close>, but the sensor has been deleted; a group that lists it makes the next reading of
  the groups undefined.
\<close>

theorem refused_group_loses_sensor:
  assumes "agent_ok a" and "payload_object values = Some (Some obj)"
    and "map_of obj ''sensorgroup-id'' = Some (JString ident)" and "groups_of a ident = None"
    and "map_of obj ''publish-rate'' = Some (JNumber r)" and "double_to_i32 r = Some rate"
    and "map_of obj ''sensor-list'' = Some (JArray (JObject s # vs))" and "complete_sensor (Some s)"
    and "map_of s ''sensor-id'' = Some (JString k)" and "map_of s ''sensor-name'' = Some (JString nm)"
    and "map_of s ''sensor-type'' = Some (JString ty)" and "map_of s ''sensor-settings'' = Some (JArray l)"
    and "length l \<noteq> 3" and "sensors_of a k \<noteq> None"
  shows "\<exists>reply a'. create_sensorgroups_subscription values a = Some (ERROR, Some reply, a') \<and>
    sensors_of a' = (sensors_of a)(k := None) \<and> groups_of a' = groups_of a \<and>
    ((\<exists>j g. groups_of a j = Some g \<and> k \<in> set (members g)) \<longrightarrow> read_sensorgroups_subscription a' = None)"
proof -
  have ready: "store_ready (sensors_table a)" "store_ready (sensorgroup_table a)"
    using assms(1) by (simp_all add: agent_ok_def)
  from assms(14) obtain q where q: "hts_get (sensors_table a) k = Some (Some q)"
    using hts_get_ok [OF ready(1), of k] entry_lookup [OF ready(1), of k] by (auto simp: sensors_of_def)
  from hts_delete_ok [OF ready(1), of k] obtain p t where
    t: "hts_delete (sensors_table a) k = Some (p, t)" "store_ready t" "store_lookup t = (sensors_of a)(k := None)"
    by (auto simp: sensors_of_def)
  have ok: "agent_ok (a\<lparr>sensors_table := t\<rparr>)" using assms(1) t(2,3) by (rule agent_ok_remove)
  obtain reply where f: "fail_with ''One of the sensors of the sensorgroup is not correct'' (a\<lparr>sensors_table := t\<rparr>) =
      Some (ERROR, Some reply, a\<lparr>sensors_table := t, overruns := overruns (a\<lparr>sensors_table := t\<rparr>) @ [(Error_reply, 1)]\<rparr>)"
    using fail_with_eq by blast
  let ?a' = "a\<lparr>sensors_table := t, overruns := overruns (a\<lparr>sensors_table := t\<rparr>) @ [(Error_reply, 1)]\<rparr>"
  have "group_sensors (JObject s # vs) [] a = Some (Return ERROR (Some reply) ?a')"
    using assms(8-13) q t(1) f
    by (simp add: leave_def json_object_get_array_def json_array_get_count_def)
  moreover have "htsg_get (sensorgroup_table a) ident = Some None"
    using htsg_get_ok [OF ready(2)] entry_lookup [OF ready(2)] assms(4) by (simp add: groups_of_def)
  ultimately have c: "create_sensorgroups_subscription values a = Some (ERROR, Some reply, ?a')"
    using assms(2,3,5-7)
    by (simp add: create_sensorgroups_subscription_def json_object_get_number_def json_object_get_array_def del: group_sensors.simps)
  have look: "sensors_of ?a' = (sensors_of a)(k := None)" "groups_of ?a' = groups_of a"
    using t(3) by (simp_all add: sensors_of_def groups_of_def)
  have "read_sensorgroups_subscription ?a' = None" if "groups_of a j = Some g" "k \<in> set (members g)" for j g
  proof -
    have "\<not> references_ok ?a'"
      using that unfolding references_ok_def group_resolved_def look by (auto intro!: exI [of _ j] bexI [of _ k])
    moreover have "agent_ok ?a'" using ok by simp
    ultimately show ?thesis using read_groups_None by blast
  qed
  with c look show ?thesis by blast
qed

theorem refused_group_loses_sensor_witness:
  \<open>\<exists>reply a'. create_sensorgroups_subscription
      (Some ''{"sensorgroup-id":"h","publish-rate":0,"sensor-list":[{"sensor-id":"s","sensor-name":"n","sensor-type":"t","sensor-settings":[],"sampling-rate":0}]}'')
      (populated [byte_sensor ''s''] [plain_group ''g'' [''s'']]) = Some (ERROR, Some reply, a') \<and>
    read_sensorgroups_subscription a' = None\<close>
proof -
  let ?p = \<open>''{"sensorgroup-id":"h","publish-rate":0,"sensor-list":[{"sensor-id":"s","sensor-name":"n","sensor-type":"t","sensor-settings":[],"sampling-rate":0}]}''\<close>
  let ?a = "populated [byte_sensor ''s''] [plain_group ''g'' [''s'']]" and ?zero = "Fin False 0 (- 1074)"
  let ?s = "[(''sensor-id'', JString ''s''), (''sensor-name'', JString ''n''), (''sensor-type'', JString ''t''),
      (''sensor-settings'', JArray []), (''sampling-rate'', JNumber ?zero)]"
  let ?obj = "[(''sensorgroup-id'', JString ''h''), (''publish-rate'', JNumber ?zero), (''sensor-list'', JArray (JObject ?s # []))]"
  have j: "payload_object (Some ?p) = Some (Some ?obj)" by code_simp
  have p: "agent_ok ?a" "sensors_of ?a = [''s'' \<mapsto> byte_sensor ''s'']" "groups_of ?a = [''g'' \<mapsto> plain_group ''g'' [''s'']]"
    using populated_ok [of "[byte_sensor ''s'']" "[plain_group ''g'' [''s'']]"] by auto
  have z: "double_to_i32 ?zero = Some 0" by simp
  have "\<exists>reply a'. create_sensorgroups_subscription (Some ?p) ?a = Some (ERROR, Some reply, a') \<and>
    sensors_of a' = (sensors_of ?a)(''s'' := None) \<and> groups_of a' = groups_of ?a \<and>
    ((\<exists>j g. groups_of ?a j = Some g \<and> ''s'' \<in> set (members g)) \<longrightarrow> read_sensorgroups_subscription a' = None)"
    by (rule refused_group_loses_sensor [OF p(1) j _ _ _ z, where s = ?s and vs = "[]" and l = "[]" and ident = "''h''"])
      (simp_all add: p complete_sensor_def)
  moreover have "groups_of ?a ''g'' = Some (plain_group ''g'' [''s''])" "''s'' \<in> set (members (plain_group ''g'' [''s'']))"
    by (simp_all add: p)
  ultimately show ?thesis by blast
qed

text \<open>
  Deleting two sensors in one request leaves the first in the groups: only the last id
  of the queries is taken out of the lists. So the request returns \<open>OK\<close>, and if a group
  lists the first id, the next reading of the groups is undefined.
\<close>

theorem delete_two_sensors_dangles:
  assumes "agent_ok a" and "sensors_of a k \<noteq> None" and "sensors_of a m \<noteq> None" and "k \<noteq> m"
    and "groups_of a j = Some g" and "k \<in> set (members g)"
  shows "\<exists>a'. delete_sensors_configuration v [(''id'', k), (''id'', m)] a = Some (OK, v, a') \<and>
    sensors_of a' = (sensors_of a)(k := None, m := None) \<and> read_sensorgroups_subscription a' = None"
proof -
  let ?qs = "[(''id'', k), (''id'', m)]"
  have ready: "store_ready (sensors_table a)" using assms(1) by (simp add: agent_ok_def)
  from hts_delete_ok [OF ready, of k] assms(2) obtain p t where
    t: "hts_delete (sensors_table a) k = Some (Some p, t)" "store_ready t" "store_lookup t = (sensors_of a)(k := None)"
    by (auto simp: sensors_of_def)
  from hts_delete_ok [OF t(2), of m] assms(3,4) t(3) obtain q u where
    u: "hts_delete t m = Some (Some q, u)" "store_ready u" "store_lookup u = (sensors_of a)(k := None, m := None)"
    by auto
  let ?a1 = "a\<lparr>sensors_table := u\<rparr>"
  have loop: "delete_sensors_loop ?qs None a = Some (Continue (Some m, ?a1))" using t(1) u(1) by simp
  have ok: "agent_ok ?a1" using assms(1) u(2,3)
    by (intro agent_ok_sensors) (auto dest: agent_okD(3) split: if_splits)
  from purge_groups_ok [OF ok, of m] obtain w where
    w: "purge_groups m (sensorgroup_table a) = Some w" "agent_ok (?a1\<lparr>sensorgroup_table := w\<rparr>)"
      "\<forall>j. map_option members (store_lookup w j) = map_option (\<lambda>g. remove1 m (members g)) (groups_of a j)"
    by (auto simp: groups_of_def)
  let ?a2 = "?a1\<lparr>sensorgroup_table := w\<rparr>"
  have look: "sensors_of ?a2 = (sensors_of a)(k := None, m := None)" using u(3) by (simp add: sensors_of_def)
  obtain g' where g': "groups_of ?a2 j = Some g'" "members g' = remove1 m (members g)"
    using w(3) [rule_format, of j] assms(5) by (cases "store_lookup w j") (auto simp: groups_of_def)
  then have "k \<in> set (members g')" using assms(4,6) by (simp add: in_set_remove1)
  then have "\<not> references_ok ?a2"
    using g'(1) unfolding references_ok_def group_resolved_def look by auto
  then have "read_sensorgroups_subscription ?a2 = None" using read_groups_None [OF w(2)] by blast
  moreover have "delete_sensors_configuration v ?qs a = Some (OK, v, ?a2)"
    unfolding delete_sensors_configuration_def loop using w(1) by simp
  ultimately show ?thesis using look by blast
qed

theorem delete_two_sensors_dangles_witness:
  "\<exists>a'. delete_sensors_configuration None [(''id'', ''s''), (''id'', ''t'')]
      (populated [byte_sensor ''s'', byte_sensor ''t''] [plain_group ''g'' [''s'', ''t'']]) = Some (OK, None, a') \<and>
    read_sensorgroups_subscription a' = None"
proof -
  let ?a = "populated [byte_sensor ''s'', byte_sensor ''t''] [plain_group ''g'' [''s'', ''t'']]"
  have p: "agent_ok ?a" "sensors_of ?a = [''s'' \<mapsto> byte_sensor ''s'', ''t'' \<mapsto> byte_sensor ''t'']"
      "groups_of ?a = [''g'' \<mapsto> plain_group ''g'' [''s'', ''t'']]"
    using populated_ok [of "[byte_sensor ''s'', byte_sensor ''t'']" "[plain_group ''g'' [''s'', ''t'']]"] by auto
  have "groups_of ?a ''g'' = Some (plain_group ''g'' [''s'', ''t''])" by (simp add: p(3))
  then have "\<exists>a'. delete_sensors_configuration None [(''id'', ''s''), (''id'', ''t'')] ?a = Some (OK, None, a') \<and>
    sensors_of a' = (sensors_of ?a)(''s'' := None, ''t'' := None) \<and> read_sensorgroups_subscription a' = None"
    by (rule delete_two_sensors_dangles [OF p(1), rotated 3]) (simp_all add: p(2))
  then show ?thesis by blast
qed

text \<open>
  C26: Deleting groups: a request whose ids are distinct and all name groups returns \<open>OK\<close>, removes
  exactly these groups and touches no sensor, so that no reference breaks. Any other request
  with an id (one that is repeated, or that names no group) returns \<open>ERROR\<close>; it may have
  removed groups, but never changes or adds one.
\<close>

theorem delete_groups_outcome:
  assumes "agent_ok a" and "query_ids queries \<noteq> []"
  shows "\<exists>r w a'. delete_sensorgroups_subscription v queries a = Some (r, w, a') \<and> agent_ok a' \<and>
    sensors_of a' = sensors_of a \<and> groups_of a' \<subseteq>\<^sub>m groups_of a \<and> (references_ok a \<longrightarrow> references_ok a') \<and>
    (if distinct (query_ids queries) \<and> set (query_ids queries) \<subseteq> dom (groups_of a)
     then r = OK \<and> w = v \<and> groups_of a' = (groups_of a) |` (- set (query_ids queries))
     else r = ERROR)"
proof -
  have refs: "references_ok a'" if "references_ok a" "sensors_of a' = sensors_of a" "groups_of a' \<subseteq>\<^sub>m groups_of a" for a'
    using that by (auto simp: references_ok_def group_resolved_def map_le_def dom_def)
  from delete_groups_loop_ok [OF assms(1), of queries None] show ?thesis
  proof (elim disjE exE conjE)
    fix t
    let ?b = "a\<lparr>sensorgroup_table := t\<rparr>"
    assume l: "delete_groups_loop queries None a = Some (Continue
        (if query_ids queries = [] then None else Some (last (query_ids queries)), ?b))"
      and t: "agent_ok ?b" "store_lookup t = (groups_of a) |` (- set (query_ids queries))"
        "set (query_ids queries) \<subseteq> dom (groups_of a)" "distinct (query_ids queries)"
    have look: "sensors_of ?b = sensors_of a" "groups_of ?b = (groups_of a) |` (- set (query_ids queries))"
      using t(2) by (simp_all add: sensors_of_def groups_of_def)
    then have le: "groups_of ?b \<subseteq>\<^sub>m groups_of a" by (auto simp: map_le_def restrict_map_def split: if_splits)
    have "delete_sensorgroups_subscription v queries a = Some (OK, v, ?b)"
      using l assms(2) by (simp add: delete_sensorgroups_subscription_def)
    with t look le refs [OF _ look(1) le] show ?thesis
      by (intro exI [of _ OK] exI [of _ v] exI [of _ ?b]) simp
  next
    fix reply b
    assume l: "delete_groups_loop queries None a = Some (Return ERROR (Some reply) b)"
      and b: "agent_ok b" "sensors_table b = sensors_table a" "groups_of b \<subseteq>\<^sub>m groups_of a"
        "\<not> (set (query_ids queries) \<subseteq> dom (groups_of a) \<and> distinct (query_ids queries))"
    have look: "sensors_of b = sensors_of a" using b(2) by (simp add: sensors_of_def)
    have "delete_sensorgroups_subscription v queries a = Some (ERROR, Some reply, b)"
      using l by (simp add: delete_sensorgroups_subscription_def)
    with b look refs [OF _ look b(3)] show ?thesis
      by (intro exI [of _ ERROR] exI [of _ "Some reply"] exI [of _ b]) auto
  qed
qed

theorem delete_groups_outcome_witness:
  "\<exists>a'. delete_sensorgroups_subscription None [(''id'', ''g'')] (populated [] [plain_group ''g'' [], plain_group ''h'' []])
      = Some (OK, None, a') \<and> groups_of a' ''g'' = None \<and> groups_of a' ''h'' = Some (plain_group ''h'' [])"
proof -
  let ?a = "populated [] [plain_group ''g'' [], plain_group ''h'' []]"
  have p: "agent_ok ?a" "groups_of ?a = [''g'' \<mapsto> plain_group ''g'' [], ''h'' \<mapsto> plain_group ''h'' []]"
    using populated_ok [of "[]" "[plain_group ''g'' [], plain_group ''h'' []]"] by auto
  have q: "query_ids [(''id'', ''g'')] = [''g'']" by simp
  have d: "distinct (query_ids [(''id'', ''g'')]) \<and> set (query_ids [(''id'', ''g'')]) \<subseteq> dom (groups_of ?a)"
    unfolding q p(2) by simp
  have "query_ids [(''id'', ''g'')] \<noteq> []" by simp
  from delete_groups_outcome [OF p(1) this, of None] obtain a' where
    "delete_sensorgroups_subscription None [(''id'', ''g'')] ?a = Some (OK, None, a')"
    "groups_of a' = (groups_of ?a) |` (- set (query_ids [(''id'', ''g'')]))"
    unfolding if_P [OF d] by blast
  then show ?thesis unfolding q p(2) by (auto simp: restrict_map_def)
qed

end
