(* ===== verification/AgentConfig.thy ===== *)
theory AgentConfig
  imports SensorConfig
begin

text \<open>
  \<^verbatim>\<open>implementation/impl.c\<close>: the configuration of the microservice and of the CAN
  connection, the status of the agent and the commands that start and stop it. A format
  \<open>%s\<close> with a NULL argument is undefined behaviour, like any other use of a NULL string.
\<close>

section \<open>Setup\<close>

definition update_microservice_configuration :: "cstring option \<Rightarrow> agent \<Rightarrow> outcome" where
  "update_microservice_configuration values a = do {
     jobj \<leftarrow> payload_object values;
     if has jobj ''endpoint-type'' \<and> has jobj ''endpoint-config'' then do {
       endpoint_type \<leftarrow> dup_string jobj ''endpoint-type'';
       let config = json_value_get_object (json_object_get_value jobj ''endpoint-config'');
       if endpoint_type = ''http'' then
         (if has config ''ip'' \<and> has config ''port'' then do {
            port \<leftarrow> double_to_i32 (json_object_get_number config ''port'');
            v \<leftarrow> clear_values values;
            Some (OK, v, a\<lparr>rest_server_port := port, restart_http := 1\<rparr>) }
          else fail_with ''HTTP config is not correct'' a)
       else if endpoint_type = ''mqtt'' then
         (if has config ''ip'' \<and> has config ''port'' \<and> has config ''qos'' \<and> has config ''base-topic'' then do {
            let old_status = status a;
            let a1 = (if status a = running then a\<lparr>status := configured\<rparr> else a);
            host \<leftarrow> dup_string config ''ip'';
            port \<leftarrow> double_to_i32 (json_object_get_number config ''port'');
            qos \<leftarrow> double_to_i32 (json_object_get_number config ''qos'');
            let a2 = a1\<lparr>mqtt_broker_host := Some host, mqtt_broker_port := port, mqtt_qos := qos, restart_mqtt := 1\<rparr>;
            let a3 = (if old_status = running then a2\<lparr>status := running\<rparr> else a2);
            v \<leftarrow> clear_values values;
            Some (OK, v, a3) }
          else fail_with ''MQTT config is not correct'' a)
       else fail_with ''No valid endpoint-type'' a }
     else fail_with ''Configuration is not valid.'' a }"

section \<open>The CAN connection\<close>

definition connection_value :: "cstring \<Rightarrow> cstring \<Rightarrow> u32 \<Rightarrow> json" where
  "connection_value ident port rate = JObject (object_of
     [(''id'', json_value_init_string (Some ident)),
      (''monitor-agent-type'', json_value_init_string (Some ''can'')),
      (''connection-settings'', Some (JArray
         [JObject (object_of [(''key'', json_value_init_string (Some ''canport'')),
                              (''value'', json_value_init_string (Some port))]),
          JObject (object_of [(''key'', json_value_init_string (Some ''bitrate'')),
                              (''value'', json_value_init_number (double_of_i32 rate))])]))])"

definition read_connection_configuration :: "agent \<Rightarrow> outcome" where
  "read_connection_configuration a =
     (case can_conf_id a of
        Some ident \<Rightarrow> do {
          port \<leftarrow> canport a;
          (text, a') \<leftarrow> reply_with Connection_reply 0 (connection_value ident port (bitrate a)) a;
          Some (OK, Some text, a') }
      | None \<Rightarrow> fail_with ''There is no valid CAN configuration'' a)"

text \<open>
  The loop over the two settings assigns the globals as it goes: the flag says whether it
  came to its end.
\<close>

fun connection_settings :: "json list \<Rightarrow> agent \<Rightarrow> (bool \<times> agent) option" where
  "connection_settings [] a = Some (True, a)"
| "connection_settings (v # vs) a =
     (let obj = json_value_get_object (Some v) in
      if has obj ''key'' \<and> has obj ''value'' then do {
        key \<leftarrow> dup_string obj ''key'';
        if key = ''canport'' then do {
          port \<leftarrow> dup_string obj ''value'';
          connection_settings vs (a\<lparr>canport := Some port\<rparr>) }
        else if key = ''bitrate'' then do {
          rate \<leftarrow> double_to_i32 (json_object_get_number obj ''value'');
          connection_settings vs (a\<lparr>bitrate := rate\<rparr>) }
        else Some (False, a) }
      else Some (False, a))"

text \<open>The command that takes the interface down is only printed, after it was written to 80 bytes.\<close>

definition down_command :: "agent \<Rightarrow> agent option" where
  "down_command a =
     (if can_up a = 1 then do {
        port \<leftarrow> canport a;
        Some (log_overrun Command_80 80 (length (''ip link set '' @ port @ '' down type can'') + 1) a) }
      else Some a)"

definition up_command :: "cstring \<Rightarrow> u32 \<Rightarrow> cstring" where
  "up_command port rate =
     ''sudo ip link set '' @ port @ '' up type can bitrate '' @ fmt_d32 rate @ '' loopback off''"

definition update_connection_configuration :: "cstring option \<Rightarrow> agent \<Rightarrow> outcome" where
  "update_connection_configuration values a0 = do {
     a \<leftarrow> down_command a0;
     jobj \<leftarrow> payload_object values;
     if has jobj ''id'' \<and> has jobj ''monitor-agent-type'' \<and> has jobj ''connection-settings'' then do {
       ident \<leftarrow> dup_string jobj ''id'';
       let a1 = a\<lparr>can_conf_id := Some ident\<rparr>;
       monitorAgentType \<leftarrow> dup_string jobj ''monitor-agent-type'';
       if monitorAgentType = ''can'' then do {
         let connectionSettings = json_object_get_array jobj ''connection-settings'';
         if json_array_get_count connectionSettings = 2 then do {
           (complete, a2) \<leftarrow> connection_settings (case connectionSettings of None \<Rightarrow> [] | Some xs \<Rightarrow> xs)
                             (a1\<lparr>canport := None, bitrate := 0\<rparr>);
           if \<not> complete then fail_with ''The CAN configuration is not valid'' a2
           else (case canport a2 of
               None \<Rightarrow> fail_with ''The CAN configuration is not valid'' a2
             | Some port \<Rightarrow>
                 if bitrate a2 = 0 then fail_with ''The CAN configuration is not valid'' a2
                 else Some (OK, values,
                   (log_overrun Command_80 80 (length (up_command port (bitrate a2)) + 1) a2)\<lparr>can_up := 1\<rparr>)) }
         else fail_with ''The CAN configuration is not valid'' a1 }
       else fail_with ''The configuration is not a CAN configuration'' a1 }
     else fail_with ''The configuration is not valid'' a }"

section \<open>Status and commands\<close>

definition status_reply :: "adeptness_rest_response \<Rightarrow> cstring \<Rightarrow> cstring \<Rightarrow> agent \<Rightarrow> outcome" where
  "status_reply response key text a = do {
     (reply, a') \<leftarrow> reply_with Status_reply 0 (JObject (object_of [(key, json_value_init_string (Some text))])) a;
     Some (response, Some reply, a') }"

definition read_monitoring_agent_status :: "agent \<Rightarrow> outcome" where
  "read_monitoring_agent_status a =
     (case status a of
        running \<Rightarrow> status_reply OK ''status'' ''executing'' a
      | configured \<Rightarrow> status_reply OK ''status'' ''configured'' a
      | unconfigured \<Rightarrow> status_reply OK ''status'' ''unconfigured'' a
      | error_ms \<Rightarrow> status_reply OK ''status'' ''error'' a
      | exit_ms \<Rightarrow> status_reply ERROR ''message'' ''Exiting microservice'' a)"

definition cmd_execute_configuration :: "cstring option \<Rightarrow> agent \<Rightarrow> outcome" where
  "cmd_execute_configuration values a = do {
     jobj \<leftarrow> payload_object values;
     if has jobj ''order'' then do {
       cmd \<leftarrow> dup_string jobj ''order'';
       if cmd = ''start'' then
         (if status a = configured then do { v \<leftarrow> clear_values values; Some (OK, v, a\<lparr>status := running\<rparr>) }
          else fail_with ''Status was not configured.'' a)
       else if cmd = ''stop'' then
         (if status a = running then do { v \<leftarrow> clear_values values; Some (OK, v, a\<lparr>status := configured\<rparr>) }
          else fail_with ''Status was not running.'' a)
       else fail_with ''Unknown order.'' a }
     else fail_with ''There is no order key in the payload json.'' a }"

definition can_read :: "int \<Rightarrow> u32 \<Rightarrow> int" where
  "can_read nbytes ident = (if nbytes > 0 then (if bit ident 31 then 2 else 1) else 0)"

section \<open>Properties\<close>

lemma down_command_ok:
  assumes "can_up a = 1 \<longrightarrow> canport a \<noteq> None"
  shows "\<exists>l. down_command a = Some (a\<lparr>overruns := l\<rparr>)"
proof (cases "can_up a = 1")
  case True
  with assms show ?thesis unfolding down_command_def log_overrun_def if_P [OF True] by auto
next
  case False
  then show ?thesis by (intro exI [of _ "overruns a"]) (simp add: down_command_def)
qed

text \<open>
  The commands are the transitions between configured and running. For a payload with a
  string \<open>order\<close> the handler always returns: \<open>start\<close> succeeds exactly in the status
  configured and leads to running, \<open>stop\<close> succeeds exactly in running and leads back; every
  other combination of order and status returns \<open>ERROR\<close> and changes no status.
\<close>

theorem cmd_execute_transitions:
  assumes "payload_object values = Some (Some obj)" and "map_of obj ''order'' = Some (JString cmd)"
  shows "\<exists>v a'. cmd_execute_configuration values a =
      Some (if cmd = ''start'' \<and> status a = configured \<or> cmd = ''stop'' \<and> status a = running then OK else ERROR, v, a') \<and>
    status a' = (if cmd = ''start'' \<and> status a = configured then running
                 else if cmd = ''stop'' \<and> status a = running then configured else status a) \<and>
    same_tables a' a"
proof -
  obtain p where "values = Some p" using payload_object_Some [OF assms(1)] by blast
  then have "clear_values values = Some (Some [])" by (simp add: clear_values_def)
  then show ?thesis
    using assms by (auto simp: cmd_execute_configuration_def same_tables_def fail_with_text)
qed

theorem cmd_execute_transitions_witness:
  \<open>\<exists>v a'. cmd_execute_configuration (Some ''{"order":"start"}'') (mark_configured (populated [] [])) = Some (OK, v, a') \<and>
    status a' = running\<close>
proof -
  have p: \<open>payload_object (Some ''{"order":"start"}'') = Some (Some [(''order'', JString ''start'')])\<close> by code_simp
  have "status (mark_configured (populated [] [])) = configured" using populated_ok [of "[]" "[]"] by simp
  with cmd_execute_transitions [OF p, of "''start''" "mark_configured (populated [] [])"] show ?thesis by auto
qed

lemma connection_settings_two:
  assumes "map (\<lambda>ob. (map_of ob ''key'', map_of ob ''value'')) os \<in>
      {[(Some (JString ''canport''), Some (JString port)), (Some (JString ''bitrate''), Some (JNumber r))],
       [(Some (JString ''bitrate''), Some (JNumber r)), (Some (JString ''canport''), Some (JString port))]}"
    and "double_to_i32 r = Some rate"
  shows "length os = 2 \<and> connection_settings (map JObject os) a = Some (True, a\<lparr>canport := Some port, bitrate := rate\<rparr>)"
proof -
  obtain o1 o2 where os: "os = [o1, o2]" using assms(1) by (auto simp: map_eq_Cons_conv)
  show ?thesis
    using assms unfolding os by (auto simp: json_object_get_number_def dup_string_def json_object_get_string_def)
qed

text \<open>
  C29: A configured connection can be read back. A request for a CAN connection with the two
  settings, in either order, a string port and a rate other than zero is accepted, whatever
  the connection before (unless its port is gone while the interface is up), and a reading
  right after it returns the id, the port and the rate of the request.
\<close>

theorem connection_roundtrip:
  assumes "payload_object values = Some (Some obj)"
    and "map_of obj ''id'' = Some (JString ident)" and "map_of obj ''monitor-agent-type'' = Some (JString ''can'')"
    and "map_of obj ''connection-settings'' = Some (JArray (map JObject os))"
    and "map (\<lambda>ob. (map_of ob ''key'', map_of ob ''value'')) os \<in>
      {[(Some (JString ''canport''), Some (JString port)), (Some (JString ''bitrate''), Some (JNumber r))],
       [(Some (JString ''bitrate''), Some (JNumber r)), (Some (JString ''canport''), Some (JString port))]}"
    and "double_to_i32 r = Some rate" and "rate \<noteq> 0" and "can_up a = 1 \<longrightarrow> canport a \<noteq> None"
  shows "\<exists>a'. update_connection_configuration values a = Some (OK, values, a') \<and> can_up a' = 1 \<and>
    map_option (\<lambda>(response, text, _). (response, text)) (read_connection_configuration a') =
      Some (OK, Some (json_write 0 False (connection_value ident port rate)))"
proof -
  note two = connection_settings_two [OF assms(5,6)]
  from down_command_ok [OF assms(8)] obtain b where b: "down_command a = Some b" by blast
  let ?c = "b\<lparr>can_conf_id := Some ident, canport := Some port, bitrate := rate\<rparr>"
  let ?a' = "(log_overrun Command_80 80 (length (up_command port rate) + 1) ?c)\<lparr>can_up := 1\<rparr>"
  have "update_connection_configuration values a = Some (OK, values, ?a')"
    using assms(1-4,7) two b
    by (simp add: update_connection_configuration_def json_object_get_array_def json_array_get_count_def)
  moreover have "can_conf_id ?a' = Some ident" "canport ?a' = Some port" "bitrate ?a' = rate"
    by (simp_all add: log_overrun_def)
  ultimately show ?thesis
    by (intro exI [of _ ?a']) (simp add: read_connection_configuration_def reply_with_def)
qed

theorem connection_roundtrip_witness:
  \<open>\<exists>a'. update_connection_configuration
      (Some ''{"id":"c","monitor-agent-type":"can","connection-settings":[{"key":"bitrate","value":500},{"key":"canport","value":"can1"}]}'')
      (populated [] []) = Some (OK,
        Some ''{"id":"c","monitor-agent-type":"can","connection-settings":[{"key":"bitrate","value":500},{"key":"canport","value":"can1"}]}'', a')\<close>
proof -
  let ?p = \<open>''{"id":"c","monitor-agent-type":"can","connection-settings":[{"key":"bitrate","value":500},{"key":"canport","value":"can1"}]}''\<close>
  let ?r = "Fin False 8796093022208000 (- 44)"
  let ?os = "[[(''key'', JString ''bitrate''), (''value'', JNumber ?r)], [(''key'', JString ''canport''), (''value'', JString ''can1'')]]"
  let ?obj = "[(''id'', JString ''c''), (''monitor-agent-type'', JString ''can''), (''connection-settings'', JArray (map JObject ?os))]"
  have p: "payload_object (Some ?p) = Some (Some ?obj)" by code_simp
  have r: "double_to_i32 ?r = Some 500" by code_simp
  have up: "can_up (populated [] []) = 0" by (simp add: populated_def started_agent_def Let_def)
  have "\<exists>a'. update_connection_configuration (Some ?p) (populated [] []) = Some (OK, Some ?p, a') \<and> can_up a' = 1 \<and>
    map_option (\<lambda>(response, text, _). (response, text)) (read_connection_configuration a') =
      Some (OK, Some (json_write 0 False (connection_value ''c'' ''can1'' 500)))"
    by (rule connection_roundtrip [OF p, where os = ?os and r = ?r]) (simp_all add: r up)
  then show ?thesis by blast
qed

text \<open>
  A refused connection is dangerous: when the id and the type of a request are valid but
  the first of its two settings has another key, the request returns \<open>ERROR\<close> with the id
  assigned and the port gone. From then on reading the connection is undefined, and if the
  interface is up, so is every later request to configure it.
\<close>

theorem refused_connection_dangles:
  assumes "payload_object values = Some (Some obj)"
    and "map_of obj ''id'' = Some (JString ident)" and "map_of obj ''monitor-agent-type'' = Some (JString ''can'')"
    and "map_of obj ''connection-settings'' = Some (JArray [JObject s, w])"
    and "map_of s ''key'' = Some (JString key)" and "map_of s ''value'' \<noteq> None"
    and "key \<noteq> ''canport''" and "key \<noteq> ''bitrate''" and "can_up a = 1 \<longrightarrow> canport a \<noteq> None"
  shows "\<exists>reply a'. update_connection_configuration values a = Some (ERROR, Some reply, a') \<and>
    read_connection_configuration a' = None \<and>
    (can_up a = 1 \<longrightarrow> (\<forall>values'. update_connection_configuration values' a' = None))"
proof -
  from down_command_ok [OF assms(9)] obtain b where b: "down_command a = Some b" "can_up b = can_up a"
    by auto
  let ?c = "b\<lparr>can_conf_id := Some ident, canport := None, bitrate := 0\<rparr>"
  obtain reply where f: "fail_with ''The CAN configuration is not valid'' ?c =
      Some (ERROR, Some reply, ?c\<lparr>overruns := overruns ?c @ [(Error_reply, 1)]\<rparr>)"
    using fail_with_eq by blast
  let ?a' = "?c\<lparr>overruns := overruns ?c @ [(Error_reply, 1)]\<rparr>"
  have "update_connection_configuration values a = Some (ERROR, Some reply, ?a')"
    using assms(1-8) b f
    by (simp add: update_connection_configuration_def json_object_get_array_def json_array_get_count_def)
  moreover have "read_connection_configuration ?a' = None" by (simp add: read_connection_configuration_def)
  moreover have "update_connection_configuration values' ?a' = None" if "can_up a = 1" for values'
    using that b(2) by (simp add: update_connection_configuration_def down_command_def)
  ultimately show ?thesis by blast
qed

theorem refused_connection_dangles_witness:
  \<open>\<exists>reply a'. update_connection_configuration
      (Some ''{"id":"c","monitor-agent-type":"can","connection-settings":[{"key":"port","value":"can1"},0]}'') (populated [] [])
      = Some (ERROR, Some reply, a') \<and> read_connection_configuration a' = None\<close>
proof -
  let ?p = \<open>''{"id":"c","monitor-agent-type":"can","connection-settings":[{"key":"port","value":"can1"},0]}''\<close>
  let ?obj = "[(''id'', JString ''c''), (''monitor-agent-type'', JString ''can''), (''connection-settings'',
      JArray [JObject [(''key'', JString ''port''), (''value'', JString ''can1'')], JNumber (Fin False 0 (- 1074))])]"
  have p: "payload_object (Some ?p) = Some (Some ?obj)" by code_simp
  have up: "can_up (populated [] []) = 0" by (simp add: populated_def started_agent_def Let_def)
  have "\<exists>reply a'. update_connection_configuration (Some ?p) (populated [] []) = Some (ERROR, Some reply, a') \<and>
    read_connection_configuration a' = None \<and>
    (can_up (populated [] []) = 1 \<longrightarrow> (\<forall>values'. update_connection_configuration values' a' = None))"
    by (rule refused_connection_dangles [OF p, where ident = "''c''" and key = "''port''" and w = "JNumber (Fin False 0 (- 1074))"
          and s = "[(''key'', JString ''port''), (''value'', JString ''can1'')]"]) (simp_all add: up)
  then show ?thesis by blast
qed

text \<open>
  The setup request never changes the status or the tables: a successful one asks the main
  loop for exactly one restart (of the REST server after its port was set, or of the MQTT
  client after its host, port and QoS were set); a refused one changes nothing but the
  ledger.
\<close>

theorem setup_outcome:
  assumes "update_microservice_configuration values a = Some (r, v, a')"
  shows "status a' = status a \<and> same_tables a' a \<and>
    (r = OK \<and> v = Some [] \<and>
       ((\<exists>port. a' = a\<lparr>rest_server_port := port, restart_http := 1\<rparr>) \<or>
        (\<exists>host port qos. a' = a\<lparr>mqtt_broker_host := Some host, mqtt_broker_port := port, mqtt_qos := qos, restart_mqtt := 1\<rparr>)) \<or>
     r = ERROR \<and> a' = a\<lparr>overruns := overruns a @ [(Error_reply, 1)]\<rparr>)"
proof -
  have c: "v = Some []" if "clear_values values = Some v"
    using that by (cases "values") (auto simp: clear_values_def)
  have R: ?thesis if "fail_with m a = Some (r, v, a')" for m
    using that by (auto simp: fail_with_text same_tables_def)
  from assms obtain jobj where j: "payload_object values = Some jobj"
    by (auto simp: update_microservice_configuration_def bind_Some_iff)
  show ?thesis
  proof (cases "has jobj ''endpoint-type'' \<and> has jobj ''endpoint-config''")
    case False
    then show ?thesis using assms j by (intro R) (auto simp: update_microservice_configuration_def)
  next
    case True
    note u = assms [unfolded update_microservice_configuration_def j bind.simps if_P [OF True] Let_def]
    let ?c = "json_value_get_object (json_object_get_value jobj ''endpoint-config'')"
    from u obtain ty where ty: "dup_string jobj ''endpoint-type'' = Some ty" by (auto simp: bind_Some_iff)
    note u = u [unfolded ty bind.simps]
    consider (http) "ty = ''http''" "has ?c ''ip'' \<and> has ?c ''port''"
      | (mqtt) "ty = ''mqtt''" "has ?c ''ip'' \<and> has ?c ''port'' \<and> has ?c ''qos'' \<and> has ?c ''base-topic''"
      | (bad) m where "fail_with m a = Some (r, v, a')"
      using u by (auto split: if_splits)
    then show ?thesis
    proof cases
      case http
      note u = u [unfolded if_P [OF http(1)] if_P [OF http(2)]]
      from u c show ?thesis by (auto simp: bind_Some_iff same_tables_def)
    next
      case mqtt
      then have ne: "ty \<noteq> ''http''" by simp
      note u = u [unfolded if_not_P [OF ne] if_P [OF mqtt(1)] if_P [OF mqtt(2)]]
      from u obtain host port qos where "dup_string ?c ''ip'' = Some host"
          "double_to_i32 (json_object_get_number ?c ''port'') = Some port"
          "double_to_i32 (json_object_get_number ?c ''qos'') = Some qos"
        by (auto simp: bind_Some_iff)
      note u = u [unfolded this bind.simps]
      from u have r: "r = OK" "v = Some []" "a' = (if status a = running
          then a\<lparr>status := configured, mqtt_broker_host := Some host, mqtt_broker_port := port, mqtt_qos := qos,
            restart_mqtt := 1, status := running\<rparr>
          else a\<lparr>mqtt_broker_host := Some host, mqtt_broker_port := port, mqtt_qos := qos, restart_mqtt := 1\<rparr>)"
        by (auto simp: bind_Some_iff intro: c)
      then have "a' = a\<lparr>mqtt_broker_host := Some host, mqtt_broker_port := port, mqtt_qos := qos, restart_mqtt := 1\<rparr>"
        by (cases a) simp
      with r(1,2) show ?thesis by (auto simp: same_tables_def)
    qed (rule R)
  qed
qed

theorem setup_outcome_witness:
  \<open>\<exists>v a'. update_microservice_configuration
      (Some ''{"endpoint-type":"http","endpoint-config":{"ip":"i","port":0}}'') (populated [] []) = Some (OK, v, a') \<and>
    status a' = unconfigured \<and> restart_http a' = 1\<close>
proof -
  let ?p = \<open>''{"endpoint-type":"http","endpoint-config":{"ip":"i","port":0}}''\<close> and ?zero = "Fin False 0 (- 1074)"
  let ?obj = "[(''endpoint-type'', JString ''http''), (''endpoint-config'', JObject [(''ip'', JString ''i''), (''port'', JNumber ?zero)])]"
  have p: "payload_object (Some ?p) = Some (Some ?obj)" by code_simp
  have z: "double_to_i32 ?zero = Some 0" by simp
  have u: "update_microservice_configuration (Some ?p) (populated [] []) =
      Some (OK, Some [], (populated [] [])\<lparr>rest_server_port := 0, restart_http := 1\<rparr>)"
    unfolding update_microservice_configuration_def p
    by (simp add: z json_object_get_number_def clear_values_def)
  have "status (populated [] []) = unconfigured" using populated_ok [of "[]" "[]"] by simp
  with u setup_outcome [OF u] show ?thesis by simp
qed

end
