(* ===== verification/RestServer.thy ===== *)
theory RestServer
  imports CText
begin

unbundle bit_operations_syntax

text \<open>
  \<^verbatim>\<open>common/rest-server.c\<close>: the body of a request is collected over several calls of
  \<open>http_handler\<close>, its URL is normalised and dispatched to the handlers registered at the
  server, the last one registered first. Sending the response is the business of the library
  libmicrohttpd; the model ends with the status code, the text and the type of the reply.
\<close>

section \<open>Methods and URLs\<close>

datatype adeptness_http_method = GET | POST | PUT | PATCH | DELETE | UNKNOWN

definition method_bit :: "adeptness_http_method \<Rightarrow> u32" where
  "method_bit m = (case m of GET \<Rightarrow> 1 | POST \<Rightarrow> 2 | PUT \<Rightarrow> 4 | PATCH \<Rightarrow> 8 | DELETE \<Rightarrow> 16 | UNKNOWN \<Rightarrow> 1024)"

definition method_from_string :: "cstring \<Rightarrow> adeptness_http_method" where
  "method_from_string str =
     (if str = ''GET'' then GET
      else if str = ''POST'' then POST
      else if str = ''PUT'' then PUT
      else if str = ''PATCH'' then PATCH
      else if str = ''DELETE'' then DELETE
      else UNKNOWN)"

function normalizeUrl :: "cstring \<Rightarrow> cstring" where
  "normalizeUrl [] = []"
| "normalizeUrl (c # upos) =
     c # normalizeUrl (if c = CHR ''/'' then dropWhile (\<lambda>d. d = CHR ''/'') upos else upos)"
  by pat_completeness auto
termination
  by (relation "measure length") (auto simp: le_imp_less_Suc length_dropWhile_le)

section \<open>Queries\<close>

definition query_paramlist :: "cstring list" where
  "query_paramlist = [''id'']"

text \<open>\<open>queryIterator\<close>: a known query goes to the front of the list; a missing value is empty.\<close>

definition queryIterator :: "(cstring \<times> cstring) list \<Rightarrow> cstring \<times> cstring option \<Rightarrow> (cstring \<times> cstring) list" where
  "queryIterator params q = (let (key, v) = q in
     if key \<in> set query_paramlist then (key, case v of None \<Rightarrow> [] | Some w \<Rightarrow> w) # params else params)"

text \<open>\<open>MHD_get_connection_values\<close> calls the iterator for each query of the URL in turn.\<close>

definition request_queries :: "(cstring \<times> cstring option) list \<Rightarrow> (cstring \<times> cstring) list" where
  "request_queries args = foldl queryIterator [] args"

section \<open>The body of a request\<close>

text \<open>
  Each call with data appends them to \<open>m_data\<close> and copies one byte more than it was given:
  a chunk is its bytes and the byte that follows them in memory.
\<close>

record http_context =
  m_data :: "cstring option"
  m_size :: nat

definition new_context :: http_context where
  "new_context = \<lparr>m_data = None, m_size = 0\<rparr>"

definition upload_chunk :: "cstring \<times> char \<Rightarrow> http_context \<Rightarrow> http_context" where
  "upload_chunk chunk ctx = (let (bytes, next_byte) = chunk in
     if bytes = [] then ctx
     else \<lparr>m_data = Some (take (m_size ctx) (case m_data ctx of None \<Rightarrow> [] | Some d \<Rightarrow> d) @ bytes @ [next_byte]),
           m_size = m_size ctx + length bytes\<rparr>)"

definition request_body :: "(cstring \<times> char) list \<Rightarrow> http_context" where
  "request_body chunks = fold upload_chunk chunks new_context"

section \<open>Dispatch\<close>

record 'h handler_list_entry =
  h_url :: cstring
  h_methods :: u32
  h_handler :: 'h

definition adeptness_rest_server_register_handler ::
  "'h handler_list_entry list \<Rightarrow> cstring \<Rightarrow> u32 \<Rightarrow> 'h \<Rightarrow> 'h handler_list_entry list" where
  "adeptness_rest_server_register_handler handlers url methods handler =
     \<lparr>h_url = url, h_methods = methods, h_handler = handler\<rparr> # handlers"

text \<open>The test of the loop over the handlers; the URL of a handler is not empty.\<close>

definition handler_matches :: "cstring \<Rightarrow> 'h handler_list_entry \<Rightarrow> bool" where
  "handler_matches nurl h =
     (if last (h_url h) = CHR ''/'' then take (length (h_url h)) nurl = h_url h else nurl = h_url h)"

datatype 'h route =
    Listing cstring
  | Method_not_allowed
  | Not_found
  | Route 'h cstring

definition dispatch :: "'h handler_list_entry list \<Rightarrow> cstring \<Rightarrow> adeptness_http_method \<Rightarrow> 'h route" where
  "dispatch handlers url m =
     (if url = [] \<or> url = ''/'' then
        (if m = GET then Listing (concat (map (\<lambda>h. h_url h @ [CHR 0x0A]) handlers)) else Method_not_allowed)
      else (let nurl = normalizeUrl url in
        (case find (handler_matches nurl) handlers of
           None \<Rightarrow> Not_found
         | Some h \<Rightarrow>
             if method_bit m AND h_methods h \<noteq> 0 then Route (h_handler h) (drop (length (h_url h)) nurl)
             else Method_not_allowed)))"

section \<open>Properties\<close>

lemma normalizeUrl_Nil_iff [simp]: "normalizeUrl u = [] \<longleftrightarrow> u = []"
  by (cases u) auto

lemma hd_normalizeUrl: "u \<noteq> [] \<Longrightarrow> hd (normalizeUrl u) = hd u"
  by (cases u) auto

definition no_double_slash :: "cstring \<Rightarrow> bool" where
  "no_double_slash u \<longleftrightarrow> (\<forall>i. Suc i < length u \<longrightarrow> \<not> (u ! i = CHR ''/'' \<and> u ! Suc i = CHR ''/''))"

lemma no_double_slash_Cons:
  "no_double_slash (c # u) \<longleftrightarrow> no_double_slash u \<and> (c = CHR ''/'' \<longrightarrow> u \<noteq> [] \<longrightarrow> hd u \<noteq> CHR ''/'')"
proof
  assume a: "no_double_slash (c # u)"
  have "no_double_slash u" unfolding no_double_slash_def
  proof (intro allI impI)
    fix i assume "Suc i < length u"
    with a [unfolded no_double_slash_def, rule_format, of "Suc i"]
    show "\<not> (u ! i = CHR ''/'' \<and> u ! Suc i = CHR ''/'')" by simp
  qed
  moreover have "c = CHR ''/'' \<longrightarrow> u \<noteq> [] \<longrightarrow> hd u \<noteq> CHR ''/''"
    using a [unfolded no_double_slash_def, rule_format, of 0] by (cases u) auto
  ultimately show "no_double_slash u \<and> (c = CHR ''/'' \<longrightarrow> u \<noteq> [] \<longrightarrow> hd u \<noteq> CHR ''/'')" ..
next
  assume "no_double_slash u \<and> (c = CHR ''/'' \<longrightarrow> u \<noteq> [] \<longrightarrow> hd u \<noteq> CHR ''/'')"
  then show "no_double_slash (c # u)" unfolding no_double_slash_def
    by (cases u) (auto simp: nth_Cons split: nat.splits)
qed

lemma normalizeUrl_no_double: "no_double_slash (normalizeUrl u)"
proof (induction u rule: normalizeUrl.induct)
  case 1
  then show ?case by (simp add: no_double_slash_def)
next
  case (2 c u)
  let ?v = "if c = CHR ''/'' then dropWhile (\<lambda>d. d = CHR ''/'') u else u"
  have "hd (normalizeUrl ?v) \<noteq> CHR ''/''" if "c = CHR ''/''" "?v \<noteq> []"
    using that hd_dropWhile [of "\<lambda>d. d = CHR ''/''" u] by (simp add: hd_normalizeUrl)
  with 2 show ?case by (simp add: no_double_slash_Cons)
qed

lemma normalizeUrl_id: "no_double_slash u \<Longrightarrow> normalizeUrl u = u"
proof (induction u rule: normalizeUrl.induct)
  case (2 c u)
  then have "dropWhile (\<lambda>d. d = CHR ''/'') u = u" if "c = CHR ''/''"
    using that by (cases u) (auto simp: no_double_slash_Cons)
  with 2 show ?case by (simp add: no_double_slash_Cons)
qed simp

text \<open>
  Normalising a URL removes repeated slashes and nothing else: the result has no two
  slashes in a row, a URL without repeated slashes is left as it is (so the operation is
  idempotent), and the characters other than slashes are kept in their order.
\<close>

theorem normalizeUrl_spec:
  "no_double_slash (normalizeUrl u) \<and>
   (no_double_slash u \<longrightarrow> normalizeUrl u = u) \<and>
   normalizeUrl (normalizeUrl u) = normalizeUrl u \<and>
   filter (\<lambda>c. c \<noteq> CHR ''/'') (normalizeUrl u) = filter (\<lambda>c. c \<noteq> CHR ''/'') u"
proof -
  have "filter (\<lambda>c. c \<noteq> CHR ''/'') (dropWhile (\<lambda>d. d = CHR ''/'') v) = filter (\<lambda>c. c \<noteq> CHR ''/'') v" for v
    by (induction v) auto
  then have "filter (\<lambda>c. c \<noteq> CHR ''/'') (normalizeUrl u) = filter (\<lambda>c. c \<noteq> CHR ''/'') u"
    by (induction u rule: normalizeUrl.induct) auto
  then show ?thesis by (simp add: normalizeUrl_no_double normalizeUrl_id)
qed

theorem normalizeUrl_spec_witness:
  "normalizeUrl (normalizeUrl ''//adms///v2/ping'') = ''/adms/v2/ping''"
  using normalizeUrl_spec [of "''//adms///v2/ping''"] by (simp add: normalizeUrl.simps)

lemma request_body_eq:
  "request_body chunks = (let full = filter (\<lambda>(bytes, b). bytes \<noteq> []) chunks; body = concat (map fst full) in
     \<lparr>m_data = (if full = [] then None else Some (body @ [snd (last full)])), m_size = length body\<rparr>)"
proof (induction chunks rule: rev_induct)
  case Nil
  then show ?case by (simp add: request_body_def new_context_def)
next
  case (snoc chunk chunks)
  have step: "request_body (chunks @ [chunk]) = upload_chunk chunk (request_body chunks)"
    by (simp add: request_body_def)
  show ?case
    unfolding step snoc by (cases chunk) (auto simp: upload_chunk_def Let_def)
qed

text \<open>
  The body of a request is put together from its chunks: however the bytes are split,
  the context ends with all bytes in order and the byte that followed the last chunk in
  memory, and \<open>m_size\<close> counts the bytes alone; without any byte there is no buffer. (So the
  payload is NUL-terminated exactly as far as the library leaves a NUL behind a chunk.)
\<close>

theorem request_body_chunks:
  "request_body chunks = (let full = filter (\<lambda>(bytes, b). bytes \<noteq> []) chunks; body = concat (map fst full) in
     \<lparr>m_data = (if full = [] then None else Some (body @ [snd (last full)])), m_size = length body\<rparr>)"
  by (rule request_body_eq)

section \<open>Replies\<close>

text \<open>The status code, the reply text (none: the reply pointer stays NULL) and its type.\<close>

record http_reply =
  http_status :: nat
  http_text :: "cstring option"
  http_type :: "cstring option"

definition bare :: "nat \<Rightarrow> http_reply" where
  "bare code = \<lparr>http_status = code, http_text = None, http_type = None\<rparr>"

text \<open>\<open>*reply = result; *reply_size = strlen (result);\<close> with the JSON type.\<close>

definition json_reply :: "nat \<Rightarrow> cstring option \<Rightarrow> http_reply option" where
  "json_reply code result = do {
     text \<leftarrow> result;
     Some \<lparr>http_status = code, http_text = Some text, http_type = Some ''application/json''\<rparr> }"

end
