(* ===== verification/Metrics.thy ===== *)
theory Metrics
  imports AgentState DoubleArith RestServer "HOL-Library.Signed_Division"
begin

text \<open>
  \<^verbatim>\<open>common/metrics.c\<close>: the reply of the performance resource, and the clock of
  \<^verbatim>\<open>common/adeptnessSvc.c\<close> it reads. What \<open>mallinfo\<close>, \<open>getloadavg\<close>, \<open>get_nprocs\<close>,
  \<open>getrusage\<close> and the clock return are parameters; the arithmetic on them is the one of the
  code: \<open>int\<close> and \<open>long\<close> sums whose overflow is undefined, unsigned subtraction of the times,
  and \<open>double\<close> arithmetic. A number that is not finite is refused by \<open>json_object_set_number\<close>
  and its member is left out.
\<close>

section \<open>The clock\<close>

definition MILLIS :: int where "MILLIS = 1000"
definition MICROS :: int where "MICROS = 1000000"
definition NANOS :: int where "NANOS = 1000000000"

record timespec =
  ts_sec :: u64
  ts_nsec :: u64

text \<open>The result of a signed \<open>int\<close> or \<open>long\<close> operation, undefined where it does not fit.\<close>

definition int_result :: "int \<Rightarrow> int option" where
  "int_result v = do { require (- (2 ^ 31) \<le> v \<and> v < 2 ^ 31); Some v }"

definition long_result :: "int \<Rightarrow> int option" where
  "long_result v = do { require (- (2 ^ 63) \<le> v \<and> v < 2 ^ 63); Some v }"

text \<open>\<open>spec\<close>: what \<open>clock_gettime\<close> delivers, if it succeeds; \<open>secs\<close>: what \<open>time\<close> returns.\<close>

definition device_millitime :: "timespec option \<Rightarrow> u64 \<Rightarrow> u64 option" where
  "device_millitime spec secs =
     (case spec of
        Some ts \<Rightarrow> do {
          ms \<leftarrow> long_result (sint (ts_sec ts) * MILLIS);
          t \<leftarrow> long_result (ms + sint (ts_nsec ts) sdiv (NANOS sdiv MILLIS));
          Some (word_of_int t) }
      | None \<Rightarrow> Some (secs * word_of_int MILLIS))"

section \<open>The handler\<close>

record rusage =
  ru_utime_sec :: u64
  ru_utime_usec :: u64
  ru_stime_sec :: u64
  ru_stime_usec :: u64

text \<open>
  The counters, the time stored in the service when it was started, and the results of the two
  calls that can fail: \<open>None\<close> where \<open>getloadavg\<close> does not return 1, or \<open>getrusage\<close> not 0.
\<close>

record os_counters =
  uordblks :: u32
  arena :: u32
  hblkhd :: u32
  load_average :: "double option"
  nprocs :: u32
  usage :: "rusage option"
  clock_now :: "timespec option"
  time_now :: u64
  starttime :: u64

definition cpu_time :: "rusage \<Rightarrow> double option" where
  "cpu_time r = do {
     secs \<leftarrow> long_result (sint (ru_utime_sec r) + sint (ru_stime_sec r));
     usecs \<leftarrow> long_result (sint (ru_utime_usec r) + sint (ru_stime_usec r));
     Some (double_add (double_of_int secs) (double_divide (double_of_int usecs) (double_of_int MICROS))) }"

definition wall_time :: "os_counters \<Rightarrow> double option" where
  "wall_time c = do {
     now \<leftarrow> device_millitime (clock_now c) (time_now c);
     Some (double_divide (double_of_u64 (now - starttime c)) (double_of_int MILLIS)) }"

definition memory_members :: "os_counters \<Rightarrow> (cstring \<times> json option) list option" where
  "memory_members c = do {
     total \<leftarrow> int_result (sint (arena c) + sint (hblkhd c));
     Some [(''alloc'', json_value_init_number (double_of_i32 (uordblks c))),
           (''total-alloc'', json_value_init_number (double_of_int total))] }"

definition load_members :: "os_counters \<Rightarrow> (cstring \<times> json option) list" where
  "load_members c = (case load_average c of
      None \<Rightarrow> []
    | Some load \<Rightarrow> [(''cpu-load-avg'', json_value_init_number
        (double_divide (double_mult load (double_of_int 100)) (double_of_i32 (nprocs c))))])"

definition usage_members :: "os_counters \<Rightarrow> (cstring \<times> json option) list option" where
  "usage_members c = (case usage c of
      None \<Rightarrow> Some []
    | Some r \<Rightarrow> do {
        cputime \<leftarrow> cpu_time r;
        walltime \<leftarrow> wall_time c;
        Some [(''cpu-time'', json_value_init_number cputime),
              (''cpu-avg-usage'', json_value_init_number (double_divide cputime walltime))] })"

definition metrics_value :: "os_counters \<Rightarrow> json option" where
  "metrics_value c = do {
     mem \<leftarrow> memory_members c;
     cpu \<leftarrow> usage_members c;
     Some (JObject (object_of ((''memory'', Some (JObject (object_of mem))) # load_members c @ cpu))) }"

definition adeptness_handler_metrics :: "os_counters \<Rightarrow> http_reply option" where
  "adeptness_handler_metrics c = do {
     val \<leftarrow> metrics_value c;
     json_reply 200 (serialized (Some val)) }"

text \<open>An idle machine whose service has just been started, for the witnesses.\<close>

definition idle_counters :: os_counters where
  "idle_counters = \<lparr>uordblks = 0, arena = 0, hblkhd = 0, load_average = None, nprocs = 1, usage = None,
     clock_now = None, time_now = 0, starttime = 0\<rparr>"

section \<open>What it replies\<close>

lemma metrics_ok: "adeptness_handler_metrics c = Some r \<Longrightarrow> http_status r = 200"
  by (auto simp: adeptness_handler_metrics_def json_reply_def bind_Some_iff)

end
