(* ===== verification/RestHandlers.thy ===== *)
theory RestHandlers
  imports GroupConfig AgentConfig Metrics
begin

text \<open>
  From a request to the agent: the URL tables of \<^verbatim>\<open>rest_server/rest_server_impl.c\<close>, the
  handlers of \<^verbatim>\<open>common/adeptnessSvc.c\<close> with their HTTP status codes, and the last call of
  \<open>http_handler\<close> that dispatches to them. A request is handled as one step on the agent.
  The address that \<open>gethostbyname\<close> returns and the counters of the operating system are
  parameters.
\<close>

section \<open>The URL tables\<close>

definition URL_SETUP :: cstring where "URL_SETUP = ''setup''"
definition URL_CONNECTION :: cstring where "URL_CONNECTION = ''monitoring-agent/config/connection''"
definition URL_SENSORS_CONF :: cstring where "URL_SENSORS_CONF = ''monitoring-agent/config/sensors''"
definition URL_SENSORGROUPS :: cstring where "URL_SENSORGROUPS = ''monitoring-agent/config/sensorgroups''"
definition URL_AGENT_STATUS :: cstring where "URL_AGENT_STATUS = ''monitoring-agent/monitoring-agent-status''"
definition URL_CMD_EXECUTE :: cstring where "URL_CMD_EXECUTE = ''monitoring-agent/cmd-execute''"
definition URL_SENSORS_VAL :: cstring where "URL_SENSORS_VAL = ''monitoring-agent/sensors''"

lemmas url_defs = URL_SETUP_def URL_CONNECTION_def URL_SENSORS_CONF_def URL_SENSORGROUPS_def
  URL_AGENT_STATUS_def URL_CMD_EXECUTE_def URL_SENSORS_VAL_def

definition myAdeptnessService_get_handler :: "cstring \<Rightarrow> cstring option \<Rightarrow> query_pairs \<Rightarrow> agent \<Rightarrow> outcome" where
  "myAdeptnessService_get_handler url readings queries a =
     (if url = URL_CONNECTION then read_connection_configuration a
      else if url = URL_SENSORS_CONF then read_sensors_configuration a
      else if url = URL_SENSORGROUPS then read_sensorgroups_subscription a
      else if url = URL_AGENT_STATUS then read_monitoring_agent_status a
      else if url = URL_SENSORS_VAL then read_sensor_measurements queries a
      else Some (RESOURCE_NOT_FOUND, readings, a))"

definition myAdeptnessService_put_handler :: "cstring \<Rightarrow> cstring option \<Rightarrow> query_pairs \<Rightarrow> agent \<Rightarrow> outcome" where
  "myAdeptnessService_put_handler url values queries a =
     (if url = URL_SETUP then update_microservice_configuration values a
      else if url = URL_CONNECTION then update_connection_configuration values a
      else if url = URL_SENSORS_CONF then update_sensors_configuration values queries a
      else if url = URL_SENSORGROUPS then update_sensorgroups_subscription values queries a
      else if url = URL_CMD_EXECUTE then cmd_execute_configuration values a
      else Some (RESOURCE_NOT_FOUND, values, a))"

definition myAdeptnessService_post_handler :: "cstring \<Rightarrow> cstring option \<Rightarrow> query_pairs \<Rightarrow> agent \<Rightarrow> outcome" where
  "myAdeptnessService_post_handler url values queries a =
     (if url = URL_SENSORS_CONF then create_sensors_configuration values a
      else if url = URL_SENSORGROUPS then create_sensorgroups_subscription values a
      else Some (RESOURCE_NOT_FOUND, values, a))"

definition myAdeptnessService_delete_handler :: "cstring \<Rightarrow> cstring option \<Rightarrow> query_pairs \<Rightarrow> agent \<Rightarrow> outcome" where
  "myAdeptnessService_delete_handler url values queries a =
     (if url = URL_SENSORS_CONF then delete_sensors_configuration values queries a
      else if url = URL_SENSORGROUPS then delete_sensorgroups_subscription values queries a
      else Some (RESOURCE_NOT_FOUND, values, a))"

section \<open>The handler of the service\<close>

text \<open>The body as a C string; without a NUL in the buffer it may be read past its end, which is taken as undefined.\<close>

definition upload_string :: "http_context \<Rightarrow> cstring option option" where
  "upload_string ctx =
     (case m_data ctx of
        None \<Rightarrow> Some None
      | Some d \<Rightarrow> if CHR 0x00 \<in> set d then Some (Some (c_str d)) else None)"

text \<open>
  The payload of a PUT or POST: \<open>Inl code\<close> for a request that is refused before the callback
  is called, \<open>Inr result\<close> with the copy of the payload otherwise.
\<close>

definition checked_payload :: "http_context \<Rightarrow> (nat + cstring) option" where
  "checked_payload ctx =
     (if m_size ctx = 0 then Some (Inl 400)
      else do {
        upload_data \<leftarrow> upload_string ctx;
        if json_parse_string upload_data = None then Some (Inl 400)
        else do { result \<leftarrow> upload_data; Some (Inr result) } })"

definition adeptness_specific_handler ::
  "cstring \<Rightarrow> adeptness_http_method \<Rightarrow> query_pairs \<Rightarrow> http_context \<Rightarrow> agent \<Rightarrow> (http_reply \<times> agent) option" where
  "adeptness_specific_handler url m queries ctx a =
     (case m of
        GET \<Rightarrow> do {
          (response, result, a') \<leftarrow> myAdeptnessService_get_handler url None queries a;
          case response of
            OK \<Rightarrow> do { r \<leftarrow> json_reply 200 result; Some (r, a') }
          | ERROR \<Rightarrow> do { r \<leftarrow> json_reply 409 result; Some (r, a') }
          | _ \<Rightarrow> Some (bare 404, a') }
      | PUT \<Rightarrow> do {
          p \<leftarrow> checked_payload ctx;
          case p of
            Inl code \<Rightarrow> Some (bare code, a)
          | Inr payload \<Rightarrow> do {
              (response, result, a') \<leftarrow> myAdeptnessService_put_handler url (Some payload) queries a;
              case response of
                OK \<Rightarrow> Some (bare 200, a')
              | RESOURCE_NOT_FOUND \<Rightarrow> Some (bare 404, a')
              | ERROR \<Rightarrow> do { r \<leftarrow> json_reply 409 result; Some (r, a') }
              | INCORRECT_PAYLOAD \<Rightarrow> Some (bare 400, a')
              | NO_CONFIG_DATA \<Rightarrow> Some (bare 500, a') } }
      | POST \<Rightarrow> do {
          p \<leftarrow> checked_payload ctx;
          case p of
            Inl code \<Rightarrow> Some (bare code, a)
          | Inr payload \<Rightarrow> do {
              (response, result, a') \<leftarrow> myAdeptnessService_post_handler url (Some payload) queries a;
              case response of
                OK \<Rightarrow> Some (bare 200, a')
              | RESOURCE_NOT_FOUND \<Rightarrow> Some (bare 404, a')
              | INCORRECT_PAYLOAD \<Rightarrow> Some (bare 400, a')
              | NO_CONFIG_DATA \<Rightarrow> Some (bare 409, a')
              | ERROR \<Rightarrow> do { r \<leftarrow> json_reply 409 result; Some (r, a') } } }
      | DELETE \<Rightarrow> do {
          (response, result, a') \<leftarrow> myAdeptnessService_delete_handler url None queries a;
          case response of
            OK \<Rightarrow> Some (bare 200, a')
          | RESOURCE_NOT_FOUND \<Rightarrow> Some (bare 404, a')
          | INCORRECT_PAYLOAD \<Rightarrow> Some (bare 400, a')
          | NO_CONFIG_DATA \<Rightarrow> Some (bare 409, a')
          | ERROR \<Rightarrow> do { r \<leftarrow> json_reply 409 result; Some (r, a') } }
      | _ \<Rightarrow> Some (bare 405, a))"

section \<open>The other handlers\<close>

definition adeptness_ping_handler :: "cstring \<Rightarrow> http_reply" where
  "adeptness_ping_handler version =
     \<lparr>http_status = 200, http_text = Some version, http_type = Some ''text/plain''\<rparr>"

definition DATA_TOPIC_PREFIX :: cstring where
  "DATA_TOPIC_PREFIX = ''adms/v2/monitor-agent''"

text \<open>The base topic is put together in 100 bytes.\<close>

definition base_topic :: "cstring \<Rightarrow> cstring" where
  "base_topic ident = DATA_TOPIC_PREFIX @ ''/'' @ ident"

definition http_endpoint :: "cstring \<Rightarrow> agent \<Rightarrow> json" where
  "http_endpoint ip a = JObject (object_of
     [(''endpoint-type'', json_value_init_string (Some ''http'')),
      (''endpoint-config'', Some (JObject (object_of
         [(''ip'', json_value_init_string (Some ip)),
          (''port'', json_value_init_number (double_of_i32 (rest_server_port a)))])))])"

definition mqtt_endpoint :: "cstring \<Rightarrow> agent \<Rightarrow> json" where
  "mqtt_endpoint ident a = JObject (object_of
     [(''endpoint-type'', json_value_init_string (Some ''mqtt'')),
      (''endpoint-config'', Some (JObject (object_of
         [(''ip'', json_value_init_string (mqtt_broker_host a)),
          (''port'', json_value_init_number (double_of_i32 (mqtt_broker_port a))),
          (''qos'', json_value_init_number (double_of_i32 (mqtt_qos a))),
          (''base-topic'', json_value_init_string (Some (base_topic ident)))])))])"

text \<open>
  The code appends the MQTT endpoint twice; the second call refuses a value that already has
  a parent, so that the array has two elements.
\<close>

definition adeptness_info_handler :: "cstring \<Rightarrow> agent \<Rightarrow> (http_reply \<times> agent) option" where
  "adeptness_info_handler ip a = do {
     ident \<leftarrow> monitor_id a;
     let v = JObject (object_of
       [(''id'', json_value_init_string (Some ident)),
        (''name'', json_value_init_string (Some ''string'')),
        (''microservice-type'', json_value_init_string (Some ''monitor-agent'')),
        (''endpoints'', Some (JArray [http_endpoint ip a, mqtt_endpoint ident a]))]);
     r \<leftarrow> json_reply 200 (serialized (Some v));
     Some (r, log_overrun Base_topic_100 100 (length (base_topic ident) + 1) a) }"

definition adeptness_status_handler :: "agent \<Rightarrow> http_reply option" where
  "adeptness_status_handler a =
     (let v = JObject (object_of
        [case status a of
           error_ms \<Rightarrow> (''status'', json_value_init_string (Some ''error''))
         | exit_ms \<Rightarrow> (''message'', json_value_init_string (Some ''Unknown error''))
         | _ \<Rightarrow> (''status'', json_value_init_string (Some ''ready''))])
      in json_reply (if status a = running \<or> status a = configured \<or> status a = unconfigured then 200 else 409)
           (serialized (Some v)))"

section \<open>The registered handlers and the last call of \<open>http_handler\<close>\<close>

datatype service_handler = Specific | Ping | Info | Metrics | Service_status

definition startConfigured :: "service_handler handler_list_entry list" where
  "startConfigured = (let
     h0 = adeptness_rest_server_register_handler [] ''/adms/v2/'' (1 OR 4 OR 2 OR 16) Specific;
     h1 = adeptness_rest_server_register_handler h0 ''/adms/v2/ping'' 1 Ping;
     h2 = adeptness_rest_server_register_handler h1 ''/adms/v2/microservice-info'' 1 Info;
     h3 = adeptness_rest_server_register_handler h2 ''/adms/v2/performance'' 1 Metrics
     in adeptness_rest_server_register_handler h3 ''/adms/v2/status'' 1 Service_status)"

text \<open>What the environment supplies: the address of the host and the counters of its operating system.\<close>

record surroundings =
  host_ip :: cstring
  counters :: os_counters

record http_request =
  req_method :: cstring
  req_url :: cstring
  req_args :: "(cstring \<times> cstring option) list"
  req_body :: "(cstring \<times> char) list"

definition http_handler :: "surroundings \<Rightarrow> http_request \<Rightarrow> agent \<Rightarrow> (http_reply \<times> agent) option" where
  "http_handler env req a = (let
     m = method_from_string (req_method req);
     ctx = request_body (req_body req);
     params = request_queries (req_args req) in
     case dispatch startConfigured (req_url req) m of
       Listing text \<Rightarrow> Some (\<lparr>http_status = 200, http_text = Some text, http_type = None\<rparr>, a)
     | Method_not_allowed \<Rightarrow> Some (bare 405, a)
     | Not_found \<Rightarrow> Some (bare 404, a)
     | Route h url \<Rightarrow>
         (case h of
            Specific \<Rightarrow> adeptness_specific_handler url m params ctx a
          | Ping \<Rightarrow> Some (adeptness_ping_handler ''1.0'', a)
          | Info \<Rightarrow> adeptness_info_handler (host_ip env) a
          | Metrics \<Rightarrow> do { r \<leftarrow> adeptness_handler_metrics (counters env); Some (r, a) }
          | Service_status \<Rightarrow> do { r \<leftarrow> adeptness_status_handler a; Some (r, a) }))"

section \<open>What each handler keeps\<close>

text \<open>The changes of status a request can make.\<close>

definition status_step :: "ms_status \<Rightarrow> ms_status \<Rightarrow> bool" where
  "status_step s s' \<longleftrightarrow> s' = s \<or> s' = configured \<or> (s = configured \<and> s' = running)"

definition handled :: "agent \<Rightarrow> agent \<Rightarrow> bool" where
  "handled a a' \<longleftrightarrow> agent_ok a' \<and> status_step (status a) (status a') \<and>
     monitor_id a' = monitor_id a \<and> mqtt_username a' = mqtt_username a \<and>
     (mqtt_broker_host a \<noteq> None \<longrightarrow> mqtt_broker_host a' \<noteq> None)"

lemma handled_same: "agent_ok a' \<Longrightarrow> same_control a' a \<Longrightarrow> handled a a'"
  by (simp add: handled_def status_step_def same_controlD)

lemma handled_logged: "agent_ok a \<Longrightarrow> handled a (a\<lparr>overruns := l\<rparr>)"
  by (intro handled_same) simp_all

lemma handled_fail: "agent_ok a \<Longrightarrow> fail_with m a = Some (r, v, a') \<Longrightarrow> handled a a'"
  by (auto simp: fail_with_text intro: handled_logged)

text \<open>A handler that only reads returns a text and changes nothing but the ledger.\<close>

definition only_reads :: "agent \<Rightarrow> outcome \<Rightarrow> bool" where
  "only_reads a res \<longleftrightarrow> (\<exists>r text l. res = Some (r, Some text, a\<lparr>overruns := l\<rparr>) \<and> r \<in> {OK, ERROR})"

lemma only_reads_fail: "only_reads a (fail_with m a)"
  unfolding only_reads_def fail_with_text by blast

lemma only_reads_reply: "r \<in> {OK, ERROR} \<Longrightarrow> only_reads a (do { (text, a') \<leftarrow> reply_with p n v a; Some (r, Some text, a') })"
  unfolding only_reads_def reply_with_def by auto

lemma read_sensors_total: "agent_ok a \<Longrightarrow> only_reads a (read_sensors_configuration a)"
  using walk_ok [of "sensors_table a"]
  by (auto simp: read_sensors_configuration_def agent_ok_def intro: only_reads_reply)

lemma read_measurements_total:
  assumes "agent_ok a"
  shows "only_reads a (read_sensor_measurements queries a)"
proof -
  have ready: "store_ready (sensors_table a)" using assms by (simp add: agent_ok_def)
  consider (all) "queries = []" | (one) name v where "queries = [(name, v)]"
    | (many) q1 q2 qs where "queries = q1 # q2 # qs"
    by (cases queries; cases "tl queries") auto
  then show ?thesis
  proof cases
    case all
    with walk_ok [OF ready] show ?thesis
      by (auto simp: read_sensor_measurements_def intro: only_reads_reply)
  next
    case one
    show ?thesis
    proof (cases "name = ''id''")
      case True
      show ?thesis
      proof (cases "map_of (st_entries (sensors_table a)) v")
        case None
        with one True hts_get_ok [OF ready, of v] show ?thesis
          by (simp add: read_sensor_measurements_def only_reads_fail)
      next
        case (Some p)
        with entry_lookup [OF ready, of v] obtain s where "cells (st_heap (sensors_table a)) p = Some s"
          by (auto simp: store_lookup_def)
        with one True Some hts_get_ok [OF ready, of v] show ?thesis
          by (simp add: read_sensor_measurements_def deref_def only_reads_reply)
      qed
    qed (simp add: one read_sensor_measurements_def only_reads_fail)
  qed (auto simp: read_sensor_measurements_def only_reads_fail)
qed

lemma read_groups_total:
  assumes "agent_ok a" and "references_ok a"
  shows "only_reads a (read_sensorgroups_subscription a)"
proof -
  from read_groups_None [OF assms(1)] assms(2) obtain r where r: "read_sensorgroups_subscription a = Some r" by auto
  then show ?thesis
    by (auto simp: read_sensorgroups_subscription_def bind_Some_iff only_reads_def reply_with_def)
qed

lemma read_connection_total:
  assumes "can_conf_id a \<noteq> None \<longrightarrow> canport a \<noteq> None"
  shows "only_reads a (read_connection_configuration a)"
  using assms
  by (cases "can_conf_id a"; cases "canport a")
    (auto simp: read_connection_configuration_def only_reads_fail intro: only_reads_reply)

lemma read_status_total: "only_reads a (read_monitoring_agent_status a)"
  by (cases "status a") (auto simp: read_monitoring_agent_status_def status_reply_def intro!: only_reads_reply)

lemma only_reads_handled: "agent_ok a \<Longrightarrow> only_reads a res \<Longrightarrow> res = Some (r, v, a') \<Longrightarrow> handled a a'"
  by (auto simp: only_reads_def intro: handled_logged)

lemma delete_sensors_total:
  assumes "agent_ok a"
  shows "\<exists>r w a'. delete_sensors_configuration v qs a = Some (r, w, a') \<and> agent_ok a' \<and> same_control a' a \<and>
    (r = OK \<and> w = v \<or> r = ERROR \<and> w \<noteq> None)"
  using delete_sensors_loop_ok [OF assms, of qs None]
proof (elim disjE exE conjE)
  fix t
  assume l: "delete_sensors_loop qs None a = Some (Continue
      (if query_ids qs = [] then None else Some (last (query_ids qs)), a\<lparr>sensors_table := t\<rparr>))"
    and ok: "agent_ok (a\<lparr>sensors_table := t\<rparr>)"
  show ?thesis
  proof (cases "query_ids qs = []")
    case True
    with l ok show ?thesis by (simp add: delete_sensors_configuration_def fail_with_text)
  next
    case False
    from purge_groups_ok [OF ok, of "last (query_ids qs)"] obtain g where
      "purge_groups (last (query_ids qs)) (sensorgroup_table a) = Some g"
      "agent_ok (a\<lparr>sensors_table := t, sensorgroup_table := g\<rparr>)" by auto
    with l False show ?thesis by (simp add: delete_sensors_configuration_def)
  qed
next
  fix reply a'
  assume "delete_sensors_loop qs None a = Some (Return ERROR (Some reply) a')" "agent_ok a'" "same_control a' a"
  then show ?thesis by (simp add: delete_sensors_configuration_def)
qed

lemma delete_groups_total:
  assumes "agent_ok a"
  shows "\<exists>r w a'. delete_sensorgroups_subscription v qs a = Some (r, w, a') \<and> agent_ok a' \<and> same_control a' a \<and>
    (r = OK \<and> w = v \<or> r = ERROR \<and> w \<noteq> None)"
  using delete_groups_loop_ok [OF assms, of qs None]
proof (elim disjE exE conjE)
  fix t
  assume "delete_groups_loop qs None a = Some (Continue
      (if query_ids qs = [] then None else Some (last (query_ids qs)), a\<lparr>sensorgroup_table := t\<rparr>))"
    and "agent_ok (a\<lparr>sensorgroup_table := t\<rparr>)"
  then show ?thesis by (cases "query_ids qs = []") (simp_all add: delete_sensorgroups_subscription_def fail_with_text)
next
  fix reply a'
  assume "delete_groups_loop qs None a = Some (Return ERROR (Some reply) a')" "agent_ok a'" "same_control a' a"
  then show ?thesis by (simp add: delete_sensorgroups_subscription_def)
qed

text \<open>
  What any handler does with a well-formed agent: it stays well formed, its status makes an
  allowed step, and the response is one of three.
\<close>

definition answers :: "agent \<Rightarrow> outcome \<Rightarrow> bool" where
  "answers a res \<longleftrightarrow> (\<forall>r v a'. res = Some (r, v, a') \<longrightarrow> handled a a' \<and> r \<in> {OK, RESOURCE_NOT_FOUND, ERROR})"

lemma answersI:
  assumes "\<And>r v a'. res = Some (r, v, a') \<Longrightarrow> handled a a' \<and> r \<in> {OK, RESOURCE_NOT_FOUND, ERROR}"
  shows "answers a res"
  using assms by (simp add: answers_def)

lemma answers_None [simp]: "answers a None"
  by (simp add: answers_def)

lemma answers_refl [simp]: "answers a (Some (RESOURCE_NOT_FOUND, v, a)) = agent_ok a"
  by (auto simp: answers_def handled_def status_step_def)

lemma answers_fail: "agent_ok a \<Longrightarrow> answers a (fail_with m a)"
  by (simp add: answers_def fail_with_text handled_logged)

lemma answers_reads: "agent_ok a \<Longrightarrow> only_reads a res \<Longrightarrow> answers a res"
  by (auto simp: only_reads_def answers_def intro: handled_logged)

lemma agent_ok_control [simp]:
  "agent_ok (a\<lparr>status := s\<rparr>) = agent_ok a"
  "agent_ok (a\<lparr>restart_mqtt := f\<rparr>) = agent_ok a" "agent_ok (a\<lparr>restart_http := f\<rparr>) = agent_ok a"
  "agent_ok (a\<lparr>can_up := f\<rparr>) = agent_ok a" "agent_ok (a\<lparr>rest_server_port := n\<rparr>) = agent_ok a"
  "agent_ok (a\<lparr>mqtt_broker_host := t\<rparr>) = agent_ok a" "agent_ok (a\<lparr>mqtt_broker_port := n\<rparr>) = agent_ok a"
  "agent_ok (a\<lparr>mqtt_qos := n\<rparr>) = agent_ok a" "agent_ok (a\<lparr>can_conf_id := t\<rparr>) = agent_ok a"
  "agent_ok (a\<lparr>canport := t\<rparr>) = agent_ok a" "agent_ok (a\<lparr>bitrate := n\<rparr>) = agent_ok a"
  by (rule same_tables_ok(1), simp add: same_tables_def)+

lemma handled_marked:
  assumes "agent_ok b" and "same_control b a"
  shows "handled a (mark_configured b)"
  using assms same_controlD [OF assms(2)] by (auto simp: handled_def status_step_def mark_configured_def)

lemma answers_create_sensor: "agent_ok a \<Longrightarrow> answers a (create_sensors_configuration values a)"
proof (rule answersI)
  fix r v a' assume a: "agent_ok a" and c: "create_sensors_configuration values a = Some (r, v, a')"
  note ok = create_sensors_ok [OF a c]
  from a c show "handled a a' \<and> r \<in> {OK, RESOURCE_NOT_FOUND, ERROR}"
    by (rule create_sensors_cases) (use ok a in \<open>auto intro: handled_logged handled_marked\<close>)
qed

lemma answers_create_group: "agent_ok a \<Longrightarrow> answers a (create_sensorgroups_subscription values a)"
proof (rule answersI)
  fix r v a' assume a: "agent_ok a" and c: "create_sensorgroups_subscription values a = Some (r, v, a')"
  note ok = create_groups_ok [OF a c]
  from a c show "handled a a' \<and> r \<in> {OK, RESOURCE_NOT_FOUND, ERROR}"
    by (rule create_groups_cases) (use ok in \<open>auto simp: sensors_kept_def intro: handled_same handled_marked\<close>)
qed

lemma answers_delete_sensors: "agent_ok a \<Longrightarrow> answers a (delete_sensors_configuration v qs a)"
  using delete_sensors_total [of a v qs] by (auto simp: answers_def intro: handled_same)

lemma answers_delete_groups: "agent_ok a \<Longrightarrow> answers a (delete_sensorgroups_subscription v qs a)"
  using delete_groups_total [of a v qs] by (auto simp: answers_def intro: handled_same)

lemma handled_after:
  assumes "same_control b a" and "handled b a'"
  shows "handled a a'"
  using assms(2) same_controlD [OF assms(1)] by (simp add: handled_def)

lemma answers_update_sensors: "agent_ok a \<Longrightarrow> answers a (update_sensors_configuration v qs a)"
proof -
  assume "agent_ok a"
  from delete_sensors_total [OF this, of v qs] obtain r w b where
    d: "delete_sensors_configuration v qs a = Some (r, w, b)" "agent_ok b" "same_control b a" "r = OK \<or> r = ERROR"
    by blast
  from handled_same [OF d(2,3)] handled_after [OF d(3)] answers_create_sensor [OF d(2), of w] d show ?thesis
    by (auto simp: update_sensors_configuration_def answers_def bind_Some_iff split: if_splits)
qed

lemma answers_update_groups: "agent_ok a \<Longrightarrow> answers a (update_sensorgroups_subscription v qs a)"
proof -
  assume "agent_ok a"
  from delete_groups_total [OF this, of v qs] obtain r w b where
    d: "delete_sensorgroups_subscription v qs a = Some (r, w, b)" "agent_ok b" "same_control b a" "r = OK \<or> r = ERROR"
    by blast
  from handled_same [OF d(2,3)] handled_after [OF d(3)] answers_create_group [OF d(2), of w] d show ?thesis
    by (auto simp: update_sensorgroups_subscription_def answers_def bind_Some_iff split: if_splits)
qed

text \<open>The rules that follow the text of a handler.\<close>

lemma handled_control [simp]:
  "handled a (b\<lparr>restart_mqtt := f\<rparr>) = handled a b" "handled a (b\<lparr>restart_http := f\<rparr>) = handled a b"
  "handled a (b\<lparr>can_up := f\<rparr>) = handled a b" "handled a (b\<lparr>rest_server_port := n\<rparr>) = handled a b"
  "handled a b \<Longrightarrow> handled a (b\<lparr>mqtt_broker_host := Some h\<rparr>)" "handled a (b\<lparr>mqtt_broker_port := n\<rparr>) = handled a b"
  "handled a (b\<lparr>mqtt_qos := n\<rparr>) = handled a b" "handled a (b\<lparr>can_conf_id := t\<rparr>) = handled a b"
  "handled a (b\<lparr>canport := t\<rparr>) = handled a b" "handled a (b\<lparr>bitrate := n\<rparr>) = handled a b"
  "handled a (b\<lparr>overruns := l\<rparr>) = handled a b" "handled a (log_overrun p i j b) = handled a b"
  by (simp_all add: handled_def log_overrun_def)

lemma handled_refl [simp]: "handled a a = agent_ok a"
  by (simp add: handled_def status_step_def)

lemma answers_bind: "(\<And>x. m = Some x \<Longrightarrow> answers a (f x)) \<Longrightarrow> answers a (Option.bind m f)"
  by (cases m) auto

lemma answers_if: "(c \<Longrightarrow> answers a x) \<Longrightarrow> (\<not> c \<Longrightarrow> answers a y) \<Longrightarrow> answers a (if c then x else y)"
  by simp

lemma answers_handled:
  "handled a b \<Longrightarrow> answers a (Some (OK, v, b))" "handled a b \<Longrightarrow> answers a (Some (ERROR, v, b))"
  "handled a b \<Longrightarrow> answers a (fail_with m b)"
  by (simp_all add: answers_def fail_with_text)

lemma connection_settings_frame:
  "connection_settings vs b = Some (c, d) \<Longrightarrow> handled a b \<Longrightarrow> handled a d"
proof (induction vs arbitrary: b)
  case (Cons v vs)
  from Cons.prems show ?case
    by (auto simp: Let_def bind_Some_iff split: if_splits dest!: Cons.IH)
qed simp

lemma down_command_frame: "down_command b = Some c \<Longrightarrow> handled a b \<Longrightarrow> handled a c"
  by (auto simp: down_command_def bind_Some_iff split: if_splits)

lemma answers_update_connection:
  assumes "agent_ok a"
  shows "answers a (update_connection_configuration values a)"
proof -
  have "answers a (case canport c of None \<Rightarrow> fail_with m c
      | Some port \<Rightarrow> if bitrate c = 0 then fail_with m c else Some (OK, v, (log_overrun p n (k port) c)\<lparr>can_up := 1\<rparr>))"
    if "handled a c" for c m v p n k
    using that by (auto split: option.splits intro: answers_handled)
  note last = this
  show ?thesis
    unfolding update_connection_configuration_def
  proof (rule answers_bind, rule answers_bind, goal_cases)
    case (1 b jobj)
    with assms have b: "handled a b" by (auto dest!: down_command_frame [where a = a])
    show ?case unfolding Let_def split_beta
      by (intro answers_if answers_bind answers_handled last)
        (use b in \<open>auto dest!: connection_settings_frame [where a = a]\<close>)
  qed
qed

lemma answers_update_microservice:
  assumes "agent_ok a"
  shows "answers a (update_microservice_configuration values a)"
proof -
  have "handled a (if status a = running then b\<lparr>status := running\<rparr> else b)"
    if "handled a (b\<lparr>status := status a\<rparr>)" "status a \<noteq> running \<Longrightarrow> status b = status a" for b
    using that by (auto simp: handled_def status_step_def)
  note again = this
  show ?thesis unfolding update_microservice_configuration_def Let_def
    using assms by (intro answers_if answers_bind answers_handled again) (simp_all add: handled_def status_step_def)
qed

lemma answers_cmd_execute: "agent_ok a \<Longrightarrow> answers a (cmd_execute_configuration values a)"
  unfolding cmd_execute_configuration_def
  by (intro answers_bind answers_if answers_handled) (simp_all add: handled_def status_step_def)

section \<open>Requests\<close>

lemma method_bits [simp]:
  "method_bit GET = 1" "method_bit POST = 2" "method_bit PUT = 4" "method_bit PATCH = 8"
  "method_bit DELETE = 16" "method_bit UNKNOWN = 1024"
  by (simp_all add: method_bit_def)

lemma dispatch_startConfigured:
  assumes "url \<noteq> []" and "url \<noteq> ''/''" and "nurl = normalizeUrl url"
  shows "dispatch startConfigured url m =
    (case map_of [(''/adms/v2/status'', Service_status), (''/adms/v2/performance'', Metrics),
                  (''/adms/v2/microservice-info'', Info), (''/adms/v2/ping'', Ping)] nurl of
       Some h \<Rightarrow> if m = GET then Route h [] else Method_not_allowed
     | None \<Rightarrow>
         if take 9 nurl \<noteq> ''/adms/v2/'' then Not_found
         else if m \<in> {GET, PUT, POST, DELETE} then Route Specific (drop 9 nurl)
         else Method_not_allowed)"
proof -
  have one: "method_bit m AND 1 \<noteq> 0 \<longleftrightarrow> m = GET" by (cases m) simp_all
  have four: "method_bit m AND 23 \<noteq> 0 \<longleftrightarrow> m \<in> {GET, PUT, POST, DELETE}" by (cases m) simp_all
  show ?thesis
    using assms(1,2)
    by (simp add: dispatch_def startConfigured_def adeptness_rest_server_register_handler_def handler_matches_def
        Let_def one four assms(3) [symmetric] eval_nat_numeral)
qed

text \<open>A body that is one chunk with a NUL behind it, and an object, reaches the callback.\<close>

lemma checked_payload_sent:
  assumes "payload_object (Some p) = Some (Some obj)" and "nul_free p" and "p \<noteq> []"
  shows "checked_payload (request_body [(p, CHR 0x00)]) = Some (Inr p)"
proof -
  have "json_parse_string (Some p) \<noteq> None"
    using assms(1) by (cases "json_parse_string (Some p)") (auto simp: payload_object_def)
  moreover have "c_str (p @ [CHR 0x00]) = p" using assms(2) by (induction p) (simp_all add: c_str_def)
  ultimately show ?thesis
    using assms(3) by (auto simp: checked_payload_def request_body_eq upload_string_def)
qed

text \<open>
  C22: The routing table of the service. A URL other than the root is normalised first; the
  four exact URLs answer GET only (405 otherwise) and are tried before the prefix
  \<^verbatim>\<open>/adms/v2/\<close>, which was registered first and therefore comes last; what remains after
  the prefix goes to the specific handler for its four methods, and every other URL is not found.
\<close>

theorem routing:
  assumes "url \<noteq> []" and "url \<noteq> ''/''" and "nurl = normalizeUrl url"
  shows "dispatch startConfigured url m =
    (case map_of [(''/adms/v2/status'', Service_status), (''/adms/v2/performance'', Metrics),
                  (''/adms/v2/microservice-info'', Info), (''/adms/v2/ping'', Ping)] nurl of
       Some h \<Rightarrow> if m = GET then Route h [] else Method_not_allowed
     | None \<Rightarrow>
         if take 9 nurl \<noteq> ''/adms/v2/'' then Not_found
         else if m \<in> {GET, PUT, POST, DELETE} then Route Specific (drop 9 nurl)
         else Method_not_allowed)"
  using assms by (rule dispatch_startConfigured)

theorem routing_witness: "dispatch startConfigured ''//adms/v2//setup'' PUT = Route Specific ''setup''"
  by (simp add: routing [of _ "''/adms/v2/setup''"] normalizeUrl.simps)


text \<open>Every GET handler, whether or not it is defined.\<close>

lemma answers_get: "agent_ok a \<Longrightarrow> answers a (myAdeptnessService_get_handler url v qs a)"
proof -
  assume a: "agent_ok a"
  have "answers a (read_sensorgroups_subscription a)"
    using read_groups_None [OF a] read_groups_total [OF a] answers_reads [OF a]
    by (cases "references_ok a") auto
  moreover have "answers a (read_connection_configuration a)"
  proof (cases "can_conf_id a \<noteq> None \<longrightarrow> canport a \<noteq> None")
    case True
    with read_connection_total answers_reads [OF a] show ?thesis by blast
  qed (auto simp: read_connection_configuration_def)
  ultimately show ?thesis
    using a answers_reads [OF a read_sensors_total [OF a]] answers_reads [OF a read_measurements_total [OF a]]
      answers_reads [OF a read_status_total]
    by (simp add: myAdeptnessService_get_handler_def)
qed

lemma answers_put: "agent_ok a \<Longrightarrow> answers a (myAdeptnessService_put_handler url v qs a)"
  by (simp add: myAdeptnessService_put_handler_def answers_update_microservice answers_update_connection
      answers_update_sensors answers_update_groups answers_cmd_execute)

lemma answers_post: "agent_ok a \<Longrightarrow> answers a (myAdeptnessService_post_handler url v qs a)"
  by (simp add: myAdeptnessService_post_handler_def answers_create_sensor answers_create_group)

lemma answers_delete: "agent_ok a \<Longrightarrow> answers a (myAdeptnessService_delete_handler url v qs a)"
  by (simp add: myAdeptnessService_delete_handler_def answers_delete_sensors answers_delete_groups)

definition reply_codes :: "nat set" where
  "reply_codes = {200, 400, 404, 405, 409}"

lemma checked_payload_400: "checked_payload ctx = Some (Inl code) \<Longrightarrow> code = 400"
  by (auto simp: checked_payload_def bind_Some_iff split: if_splits)

lemma specific_ok:
  assumes a: "agent_ok a" and c: "adeptness_specific_handler url m qs ctx a = Some (r, a')"
  shows "handled a a' \<and> http_status r \<in> reply_codes"
proof (cases m)
  case GET
  with c answers_get [OF a, of url None qs] show ?thesis
    by (auto simp: adeptness_specific_handler_def bind_Some_iff bare_def json_reply_def answers_def reply_codes_def)
next
  case PUT
  with c obtain p where p: "checked_payload ctx = Some p"
    by (auto simp: adeptness_specific_handler_def bind_Some_iff)
  show ?thesis
  proof (cases p)
    case (Inl code)
    with c p PUT a checked_payload_400 show ?thesis
      by (auto simp: adeptness_specific_handler_def bare_def reply_codes_def)
  next
    case (Inr t)
    with c p PUT answers_put [OF a, of url "Some t" qs] show ?thesis
      by (auto simp: adeptness_specific_handler_def bind_Some_iff bare_def json_reply_def answers_def reply_codes_def)
  qed
next
  case POST
  with c obtain p where p: "checked_payload ctx = Some p"
    by (auto simp: adeptness_specific_handler_def bind_Some_iff)
  show ?thesis
  proof (cases p)
    case (Inl code)
    with c p POST a checked_payload_400 show ?thesis
      by (auto simp: adeptness_specific_handler_def bare_def reply_codes_def)
  next
    case (Inr t)
    with c p POST answers_post [OF a, of url "Some t" qs] show ?thesis
      by (auto simp: adeptness_specific_handler_def bind_Some_iff bare_def json_reply_def answers_def reply_codes_def)
  qed
next
  case DELETE
  with c answers_delete [OF a, of url None qs] show ?thesis
    by (auto simp: adeptness_specific_handler_def bind_Some_iff bare_def json_reply_def answers_def reply_codes_def)
qed (use a c in \<open>auto simp: adeptness_specific_handler_def bare_def reply_codes_def\<close>)

lemma info_ok: "agent_ok a \<Longrightarrow> adeptness_info_handler ip a = Some (r, a') \<Longrightarrow> handled a a' \<and> http_status r = 200"
  by (auto simp: adeptness_info_handler_def json_reply_def bind_Some_iff Let_def)

lemma status_ok: "adeptness_status_handler a = Some r \<Longrightarrow> http_status r = 200 \<or> http_status r = 409"
  unfolding adeptness_status_handler_def json_reply_def Let_def bind_Some_iff
  by (elim exE conjE) (auto split: if_splits)

lemma http_handler_ok:
  assumes "agent_ok a" and "http_handler env req a = Some (r, a')"
  shows "handled a a' \<and> http_status r \<in> reply_codes"
  using assms(2,1) unfolding http_handler_def Let_def
  by (auto simp: bare_def reply_codes_def adeptness_ping_handler_def bind_Some_iff
      split: route.splits service_handler.splits dest: info_ok [OF assms(1)] status_ok metrics_ok
      dest!: specific_ok [OF assms(1), unfolded reply_codes_def])

text \<open>
  C6: Whatever a client sends (any method, URL, queries and body), a request that does not run
  into undefined behaviour leaves a well-formed agent: both hash tables are well formed, every
  object is stored under its own id and its strings and counts are in order. The identity of the
  agent is kept, the status stays, becomes configured, or goes from configured to running, and
  the reply has one of five status codes; 500 is never sent.
\<close>

theorem request_keeps_agent:
  assumes "agent_ok a" and "http_handler env req a = Some (r, a')"
  shows "agent_ok a' \<and> monitor_id a' = monitor_id a \<and>
    (status a' = status a \<or> status a' = configured \<or> (status a = configured \<and> status a' = running)) \<and>
    http_status r \<in> {200, 400, 404, 405, 409}"
  using http_handler_ok [OF assms] by (simp add: handled_def status_step_def reply_codes_def)


theorem request_keeps_agent_witness:
  "\<exists>env r a'. http_handler env \<lparr>req_method = ''GET'', req_url = ''/adms/v2/ping'', req_args = [], req_body = []\<rparr>
     (populated [] []) = Some (r, a') \<and> agent_ok a' \<and> http_status r \<in> {200, 400, 404, 405, 409}"
proof -
  let ?env = "\<lparr>host_ip = [], counters = idle_counters\<rparr>"
  let ?req = "\<lparr>req_method = ''GET'', req_url = ''/adms/v2/ping'', req_args = [], req_body = []\<rparr>"
  have h: "http_handler ?env ?req (populated [] []) = Some (adeptness_ping_handler ''1.0'', populated [] [])"
    by (simp add: http_handler_def method_from_string_def dispatch_startConfigured [OF _ _ refl] normalizeUrl.simps)
  have a: "agent_ok (populated [] [])" using populated_ok [of "[]" "[]"] by simp
  from request_keeps_agent [OF a h] have "http_status (adeptness_ping_handler ''1.0'') \<in> {200, 400, 404, 405, 409}"
    by (simp add: bare_def)
  with a h show ?thesis by blast
qed

text \<open>
  Reading is safe: as long as every id that a group lists is the id of a sensor and the
  port of a configured CAN connection is set, a GET request to the specific handler with any
  URL, queries and body returns, changes nothing in the agent but the ledger of overruns, and
  answers 404 exactly for the URLs that are not in the table.
\<close>

theorem get_requests_return:
  assumes "agent_ok a" and "references_ok a" and "can_conf_id a \<noteq> None \<longrightarrow> canport a \<noteq> None"
  shows "\<exists>r l. adeptness_specific_handler url GET queries ctx a = Some (r, a\<lparr>overruns := l\<rparr>) \<and>
    http_status r \<in> {200, 404, 409} \<and> (http_status r = 404 \<longleftrightarrow>
      url \<notin> {URL_CONNECTION, URL_SENSORS_CONF, URL_SENSORGROUPS, URL_AGENT_STATUS, URL_SENSORS_VAL})"
proof (cases "url \<in> {URL_CONNECTION, URL_SENSORS_CONF, URL_SENSORGROUPS, URL_AGENT_STATUS, URL_SENSORS_VAL}")
  case True
  then have "only_reads a (myAdeptnessService_get_handler url None queries a)"
    using read_sensors_total [OF assms(1)] read_measurements_total [OF assms(1)] read_groups_total [OF assms(1,2)]
      read_connection_total [OF assms(3)] read_status_total [of a]
    by (auto simp: myAdeptnessService_get_handler_def)
  then obtain r t l where "myAdeptnessService_get_handler url None queries a = Some (r, Some t, a\<lparr>overruns := l\<rparr>)"
      "r = OK \<or> r = ERROR"
    by (auto simp: only_reads_def)
  with True show ?thesis by (auto simp: adeptness_specific_handler_def json_reply_def)
next
  case False
  then have "adeptness_specific_handler url GET queries ctx a = Some (bare 404, a\<lparr>overruns := overruns a\<rparr>)"
    by (simp add: adeptness_specific_handler_def myAdeptnessService_get_handler_def)
  with False show ?thesis by (intro exI [of _ "bare 404"] exI [of _ "overruns a"]) (simp add: bare_def)
qed

theorem get_requests_return_witness:
  "\<exists>r l. adeptness_specific_handler ''setup'' GET [] new_context (populated [] []) =
     Some (r, (populated [] [])\<lparr>overruns := l\<rparr>) \<and> http_status r = 404"
proof -
  have p: "agent_ok (populated [] [])" "groups_of (populated [] []) = Map.empty"
    using populated_ok [of "[]" "[]"] by simp_all
  then have "references_ok (populated [] [])" by (simp add: references_ok_def)
  moreover have "can_conf_id (populated [] []) = None" by (simp add: populated_def started_agent_def Let_def)
  ultimately show ?thesis
    using get_requests_return [of "populated [] []" "''setup''" "[]" new_context] p(1) by (auto simp: url_defs)
qed

text \<open>
  Deleting is safe: from any well-formed agent a DELETE request returns, whatever its URL and
  its queries are, to a well-formed agent of the same status and configuration, and it answers
  404 exactly for the URLs that are not in the table.
\<close>

theorem delete_requests_return:
  assumes "agent_ok a"
  shows "\<exists>r a'. adeptness_specific_handler url DELETE queries ctx a = Some (r, a') \<and>
    agent_ok a' \<and> same_control a' a \<and> http_status r \<in> {200, 404, 409} \<and>
    (http_status r = 404 \<longleftrightarrow> url \<notin> {URL_SENSORS_CONF, URL_SENSORGROUPS})"
proof -
  consider (sensors) "url = URL_SENSORS_CONF" | (groups) "url = URL_SENSORGROUPS"
    | (other) "url \<notin> {URL_SENSORS_CONF, URL_SENSORGROUPS}" by blast
  then show ?thesis
  proof cases
    case sensors
    with delete_sensors_total [OF assms, of None queries] show ?thesis
      by (auto simp: adeptness_specific_handler_def myAdeptnessService_delete_handler_def bare_def json_reply_def)
  next
    case groups
    then have "url \<noteq> URL_SENSORS_CONF" by (simp add: url_defs)
    with groups delete_groups_total [OF assms, of None queries] show ?thesis
      by (auto simp: adeptness_specific_handler_def myAdeptnessService_delete_handler_def bare_def json_reply_def)
  qed (use assms in \<open>auto simp: adeptness_specific_handler_def myAdeptnessService_delete_handler_def bare_def\<close>)
qed

theorem delete_requests_return_witness:
  "\<exists>r a'. adeptness_specific_handler URL_SENSORS_CONF DELETE [(''id'', ''s'')] new_context
      (populated [byte_sensor ''s''] []) = Some (r, a') \<and> agent_ok a'"
  using delete_requests_return [of "populated [byte_sensor ''s''] []" URL_SENSORS_CONF "[(''id'', ''s'')]" new_context]
    populated_ok [of "[byte_sensor ''s'']" "[]"] by auto



end
