(* ===== verification/MqttClient.thy ===== *)
theory MqttClient
  imports RestHandlers JsonRoundtrip
begin

text \<open>
  \<^verbatim>\<open>mqtt/mqtt_payload_helpers.c\<close> and \<^verbatim>\<open>mqtt/mqtt_utils.c\<close>: the texts the agent
  publishes and the calls it makes to the MQTT client library (paho). The library is not part
  of the program: what is modelled is the sequence of calls with their arguments; whether a
  connection attempt succeeds is a parameter, and the results the code ignores do not appear.
  A NULL string handed to a \<open>%s\<close> or to \<open>strcat\<close> is undefined.
\<close>

section \<open>The calls to the client library\<close>

datatype mqtt_call =
    Create cstring cstring
  | Connect cstring
  | Disconnect
  | Publish cstring cstring nat u32

text \<open>
  \<open>mqtt_host\<close> has 100 bytes. The restart flag is cleared only after a successful connection,
  the first result is the \<open>int\<close> that the function returns.
\<close>

definition initialize_mqtt ::
  "cstring option \<Rightarrow> u32 \<Rightarrow> u32 \<Rightarrow> cstring option \<Rightarrow> cstring option \<Rightarrow> bool \<Rightarrow> agent \<Rightarrow> (int \<times> mqtt_call list \<times> agent) option" where
  "initialize_mqtt mqttBrokerHost mqttBrokerPort mqttQoS mqttUsername clientIdentifier connects a = do {
     host \<leftarrow> mqttBrokerHost;
     username \<leftarrow> mqttUsername;
     ident \<leftarrow> clientIdentifier;
     let mqtt_host = ''tcp://'' @ host @ '':'' @ fmt_d32 mqttBrokerPort;
     let a1 = log_overrun Mqtt_host_100 100 (length mqtt_host + 1) a;
     let a2 = a1\<lparr>mqtt_qos := mqttQoS\<rparr>;
     let made = [Create mqtt_host ident, Connect username];
     if \<not> connects then Some (- 1, made, a2)
     else Some (0, made, a2\<lparr>restart_mqtt := 0\<rparr>) }"

definition clean_mqtt :: "mqtt_call list" where
  "clean_mqtt = [Disconnect]"

definition connlost :: "agent \<Rightarrow> mqtt_call list \<times> agent" where
  "connlost a = ([Disconnect], a\<lparr>restart_mqtt := 1\<rparr>)"

text \<open>The terminator is part of the message.\<close>

definition publish :: "cstring \<Rightarrow> cstring \<Rightarrow> agent \<Rightarrow> mqtt_call" where
  "publish topic payload a = Publish topic payload (length payload + 1) (mqtt_qos a)"

section \<open>The discovery message\<close>

definition MS_TYPE :: cstring where
  "MS_TYPE = ''monitor-agent''"

definition DISCOVERY_TOPIC :: cstring where
  "DISCOVERY_TOPIC = ''adms/v2/discovery''"

text \<open>The \<open>ip\<close> of the HTTP endpoint is set twice: to the address of the host, then to the loopback.\<close>

definition discovery_http_endpoint :: "cstring \<Rightarrow> agent \<Rightarrow> json" where
  "discovery_http_endpoint IPbuffer a = JObject (object_of
     [(''endpoint-type'', json_value_init_string (Some ''http'')),
      (''endpoint-config'', Some (JObject (object_of
         [(''ip'', json_value_init_string (Some IPbuffer)),
          (''ip'', json_value_init_string (Some ''127.0.0.1'')),
          (''port'', json_value_init_number (double_of_i32 (rest_server_port a)))])))])"

definition discovery_value :: "cstring \<Rightarrow> cstring \<Rightarrow> agent \<Rightarrow> json" where
  "discovery_value IPbuffer ident a = JObject (object_of
     [(''id'', json_value_init_string (Some ident)),
      (''name'', json_value_init_string (Some ident)),
      (''microservice-type'', json_value_init_string (Some MS_TYPE)),
      (''endpoints'', Some (JArray [mqtt_endpoint ident a, discovery_http_endpoint IPbuffer a]))])"

definition create_discovery_payload :: "cstring \<Rightarrow> agent \<Rightarrow> (cstring \<times> agent) option" where
  "create_discovery_payload IPbuffer a = do {
     ident \<leftarrow> monitor_id a;
     payload \<leftarrow> serialized (Some (discovery_value IPbuffer ident a));
     Some (payload, log_overrun Base_topic_100 100 (length (base_topic ident) + 1) a) }"

section \<open>The message of a group\<close>

definition data_entry :: "sensor \<Rightarrow> json" where
  "data_entry sens = JObject (object_of
     [(''bn'', json_value_init_string (Some (sens_id sens))),
      (''n'', json_value_init_string (Some (sens_name sens))),
      (''v'', json_value_init_string (Some (sens_value sens))),
      (''bt'', json_value_init_number (double_of_u64 (sens_timestamp sens)))])"

definition create_data_payload :: "agent \<Rightarrow> sensorgroup \<Rightarrow> cstring option" where
  "create_data_payload a sg = do {
     sensors \<leftarrow> map_ub (listed_sensor a sg) [0..<sensorcount sg];
     serialized (Some (JArray (map data_entry sensors))) }"

definition data_topic :: "cstring \<Rightarrow> sensorgroup \<Rightarrow> cstring" where
  "data_topic ident sg = DATA_TOPIC_PREFIX @ ''/'' @ ident @ ''/'' @ sg_id sg"

section \<open>Properties\<close>

lemma listed_sensors:
  assumes "agent_ok a" and "group_ok g"
  shows "map_ub (listed_sensor a g) [0..<sensorcount g] =
    (if group_resolved a g then Some (map (the \<circ> sensors_of a) (members g)) else None)"
proof -
  have le: "sensorcount g \<le> length (sensor_list g)" using assms(2) by (simp add: group_ok_def)
  have each: "listed_sensor a g i = sensors_of a (sensor_list g ! i)" if "i < sensorcount g" for i
    using listed_sensor_ok [OF assms(1)] that le by simp
  have mem: "members g = map (\<lambda>i. sensor_list g ! i) [0..<sensorcount g]"
    using le by (simp add: members_def list_eq_iff_nth_eq)
  show ?thesis
  proof (cases "group_resolved a g")
    case True
    then have "sensors_of a (sensor_list g ! i) \<noteq> None" if "i < sensorcount g" for i
      using that by (auto simp: group_resolved_def mem)
    with True each show ?thesis by (subst map_ub_map [where g = "\<lambda>i. the (sensors_of a (sensor_list g ! i))"]) (auto simp: mem)
  next
    case False
    then have "\<exists>i < sensorcount g. sensors_of a (sensor_list g ! i) = None" by (auto simp: group_resolved_def mem)
    with each False show ?thesis by (auto simp: map_ub_None)
  qed
qed

text \<open>The text of the message of a group of which every listed id is the id of a sensor.\<close>

definition data_text :: "agent \<Rightarrow> sensorgroup \<Rightarrow> cstring" where
  "data_text a g = json_write 0 False (JArray (map (data_entry \<circ> the \<circ> sensors_of a) (members g)))"

lemma create_data_payload_eq:
  assumes "agent_ok a" and "group_ok g"
  shows "create_data_payload a g = (if group_resolved a g then Some (data_text a g) else None)"
  using listed_sensors [OF assms] by (simp add: create_data_payload_def data_text_def comp_assoc)

text \<open>What a subscriber should see of a sensor, and the sensors for which it does.\<close>

definition measured :: "sensor \<Rightarrow> json" where
  "measured s = JObject [(''bn'', JString (sens_id s)), (''n'', JString (sens_name s)), (''v'', JString (sens_value s)),
     (''bt'', JNumber (double_of_u64 (sens_timestamp s)))]"

definition printable :: "sensor \<Rightarrow> bool" where
  "printable s \<longleftrightarrow> is_valid_utf8 (sens_id s) \<and> is_valid_utf8 (sens_name s) \<and> is_valid_utf8 (sens_value s) \<and>
     sens_timestamp s < 2 ^ 53"

lemma data_entry_measured:
  assumes "sensor_ok s" and "printable s"
  shows "data_entry s = measured s \<and> json_ok (measured s) \<and> json_integral (measured s)"
proof -
  have ts: "\<bar>uint (sens_timestamp s)\<bar> < 2 ^ 53" using assms(2) by (simp add: printable_def word_less_def)
  have t: "trunc_double (double_of_u64 (sens_timestamp s)) = Some (uint (sens_timestamp s))"
    unfolding double_of_u64_def using ts by (rule trunc_double_of_int)
  then have "is_finite (double_of_u64 (sens_timestamp s))"
    by (auto simp: trunc_double_def is_finite_def split: double.splits)
  with assms ts t show ?thesis
    by (simp add: data_entry_def measured_def object_of_def json_value_init_string_def json_value_init_number_def
        json_object_set_value_def json_object_get_value_def json_object_add_def sensor_ok_def printable_def double_of_u64_def)
qed

lemma data_text_read:
  assumes "agent_ok a" and "group_resolved a g" and "\<And>k. k \<in> set (members g) \<Longrightarrow> printable (the (sensors_of a k))"
  shows "json_parse_string (Some (data_text a g)) = Some (JArray (map (measured \<circ> the \<circ> sensors_of a) (members g)))"
proof -
  have each: "data_entry (the (sensors_of a k)) = measured (the (sensors_of a k)) \<and>
      json_ok (measured (the (sensors_of a k))) \<and> json_integral (measured (the (sensors_of a k)))" if k: "k \<in> set (members g)" for k
  proof -
    from assms(2) k obtain s where "sensors_of a k = Some s" by (auto simp: group_resolved_def)
    with agent_okD(3) [OF assms(1)] assms(3) [OF k] data_entry_measured [of s] show ?thesis by auto
  qed
  let ?v = "JArray (map (measured \<circ> the \<circ> sensors_of a) (members g))"
  have "json_depth ?v \<le> 2" by (auto simp: fold_max_le measured_def)
  then have "json_depth ?v \<le> MAX_NESTING" by (simp add: MAX_NESTING_def del: json_depth.simps)
  with each have "json_parse_string (Some (json_write 0 False ?v)) = Some ?v" by (intro parse_written) auto
  moreover have "data_text a g = json_write 0 False ?v" using each by (simp add: data_text_def comp_def cong: map_cong)
  ultimately show ?thesis by simp
qed

text \<open>
  C23: The message of a group. It can be put together exactly when every id the group lists is
  the id of a sensor; it is then the JSON array with one entry for each listed id, in the
  order of the list. A subscriber that parses the message reads the id, the name, the last
  value and the time of each sensor, when these are UTF-8 and the time is below \<open>2 ^ 53\<close>.
\<close>

theorem data_payload:
  assumes "agent_ok a" and "group_ok g"
  shows "case create_data_payload a g of
      None \<Rightarrow> \<exists>k \<in> set (members g). sensors_of a k = None
    | Some text \<Rightarrow> (\<forall>k \<in> set (members g). sensors_of a k \<noteq> None) \<and>
        text = json_write 0 False (JArray (map (data_entry \<circ> the \<circ> sensors_of a) (members g))) \<and>
        ((\<forall>k \<in> set (members g). printable (the (sensors_of a k))) \<longrightarrow>
          json_parse_string (Some text) = Some (JArray (map (measured \<circ> the \<circ> sensors_of a) (members g))))"
  using create_data_payload_eq [OF assms] data_text_read [OF assms(1), of g]
  by (auto simp: group_resolved_def data_text_def)

theorem data_payload_witness:
  \<open>create_data_payload (populated [byte_sensor ''s''] []) (plain_group ''g'' [''s'']) =
     Some ''[{"bn":"s","n":"speed","v":"","bt":0}]'' \<and>
   json_parse_string (Some ''[{"bn":"s","n":"speed","v":"","bt":0}]'') = Some (JArray [measured (byte_sensor ''s'')])\<close>
proof -
  let ?a = "populated [byte_sensor ''s''] []"
  have p: "agent_ok ?a" "sensors_of ?a = [''s'' \<mapsto> byte_sensor ''s'']"
    using populated_ok [of "[byte_sensor ''s'']" "[]"] by simp_all
  have t: \<open>json_write 0 False (JArray [data_entry (byte_sensor ''s'')]) = ''[{"bn":"s","n":"speed","v":"","bt":0}]''\<close>
    by code_simp
  have u: "is_valid_utf8 ''s'' \<and> is_valid_utf8 ''speed'' \<and> is_valid_utf8 []" by code_simp
  have "printable (byte_sensor ''s'')"
    unfolding printable_def byte_sensor_def by (simp add: u)
  with data_payload [OF p(1), of "plain_group ''g'' [''s'']"] p(2) t show ?thesis by (auto split: option.splits)
qed

lemma set_twice:
  "snd (json_object_set_value (snd (json_object_set_value [] k v)) k (Some w)) = snd (json_object_set_value [] k (Some w))"
  by (cases v) (auto simp: json_object_set_value_def json_object_add_def json_object_get_value_def)

lemma loopback_endpoint: "discovery_http_endpoint ip a = http_endpoint ''127.0.0.1'' a"
proof -
  have w: "json_value_init_string (Some ''127.0.0.1'') = Some (JString ''127.0.0.1'')" by code_simp
  show ?thesis by (simp add: discovery_http_endpoint_def http_endpoint_def object_of_def w set_twice)
qed

text \<open>
  The discovery message does not depend on the address of the host: whatever address the
  resolver returns, the HTTP endpoint that is announced is the loopback. The base topic fits
  its 100 bytes exactly for identifiers of at most 77 characters.
\<close>

theorem discovery_announces_loopback:
  assumes "monitor_id a = Some ident"
  shows "\<exists>text. create_discovery_payload ip a =
      Some (text, a\<lparr>overruns := overruns a @ overrun Base_topic_100 100 (length ident + 23)\<rparr>) \<and>
    text = json_write 0 False (JObject (object_of
       [(''id'', json_value_init_string (Some ident)), (''name'', json_value_init_string (Some ident)),
        (''microservice-type'', json_value_init_string (Some ''monitor-agent'')),
        (''endpoints'', Some (JArray [mqtt_endpoint ident a, http_endpoint ''127.0.0.1'' a]))])) \<and>
    (overrun Base_topic_100 100 (length ident + 23) = [] \<longleftrightarrow> length ident \<le> 77)"
  using assms
  by (simp add: create_discovery_payload_def discovery_value_def loopback_endpoint MS_TYPE_def log_overrun_def
      base_topic_def DATA_TOPIC_PREFIX_def eval_nat_numeral)

theorem discovery_announces_loopback_witness:
  "\<exists>text. create_discovery_payload ''10.0.0.7'' (populated [] []) = Some (text, populated [] [])"
proof -
  have m: "monitor_id (populated [] []) = Some ''monitor''" by (simp add: populated_def started_agent_def Let_def)
  from discovery_announces_loopback [OF m, of "''10.0.0.7''"] show ?thesis by auto
qed

end
