(* ===== verification/TableWalk.thy ===== *)
theory TableWalk
  imports AgentState
begin

text \<open>
  The loop of \<open>parse_can_frame\<close> and of the publishing part of \<open>main\<close>: over the buckets of a
  table and the chain of each bucket, changing the payloads in place and carrying a state
  along. \<open>thread\<close> is the same loop over the list of payloads; \<open>walk_update_thread\<close> shows that
  the walk over the heap does what \<open>thread\<close> does, so that the components reason about lists.
  The locale \<open>payload_update\<close> is the contract of a loop body that keeps a relation between
  the old and the new payload.
\<close>

section \<open>The loop over the table and the loop over its payloads\<close>

definition visit :: "('v \<Rightarrow> 's \<Rightarrow> ('v \<times> 's) option) \<Rightarrow> nat \<Rightarrow> 'v heap \<times> 's \<Rightarrow> ('v heap \<times> 's) option" where
  "visit f p hs = do {
     v \<leftarrow> deref (fst hs) p;
     (v', s) \<leftarrow> f v (snd hs);
     h \<leftarrow> hwrite p v' (fst hs);
     Some (h, s) }"

definition walk_update :: "('v \<Rightarrow> 's \<Rightarrow> ('v \<times> 's) option) \<Rightarrow> 'v store \<Rightarrow> 's \<Rightarrow> ('v store \<times> 's) option" where
  "walk_update f t s = do {
     tab \<leftarrow> st_table t;
     (h, s') \<leftarrow> fold_ub (visit f) (map snd (entries tab)) (st_heap t, s);
     Some (t\<lparr>st_heap := h\<rparr>, s') }"

fun thread :: "('v \<Rightarrow> 's \<Rightarrow> ('v \<times> 's) option) \<Rightarrow> 'v list \<Rightarrow> 's \<Rightarrow> ('v list \<times> 's) option" where
  "thread f [] s = Some ([], s)"
| "thread f (v # vs) s = do {
     (v', s1) \<leftarrow> f v s;
     (vs', s2) \<leftarrow> thread f vs s1;
     Some (v' # vs', s2) }"

lemma thread_length: "thread f vs s = Some (vs', s') \<Longrightarrow> length vs' = length vs"
  by (induction vs arbitrary: s vs') (auto simp: bind_Some_iff)

lemma thread_rel:
  assumes "thread f vs s = Some (vs', s')" and "\<And>v s v' s'. v \<in> set vs \<Longrightarrow> f v s = Some (v', s') \<Longrightarrow> R v v'"
  shows "list_all2 R vs vs'"
  using assms by (induction vs arbitrary: s vs') (fastforce simp: bind_Some_iff)+

lemma thread_append:
  "thread f (us @ vs) s = do { (us', s1) \<leftarrow> thread f us s; (vs', s2) \<leftarrow> thread f vs s1; Some (us' @ vs', s2) }"
  by (induction us arbitrary: s) (auto split: bind_splits)

text \<open>A loop body that is defined on all payloads, whatever the state.\<close>

lemma thread_total:
  assumes "\<And>v s. v \<in> set vs \<Longrightarrow> f v s \<noteq> None"
  shows "thread f vs s \<noteq> None"
  using assms
proof (induction vs arbitrary: s)
  case (Cons v vs)
  then obtain v' s1 where "f v s = Some (v', s1)" by fastforce
  with Cons show ?case by (fastforce split: bind_splits)
qed simp

lemma thread_None: "v \<in> set vs \<Longrightarrow> (\<And>s. f v s = None) \<Longrightarrow> thread f vs s = None"
proof (induction vs arbitrary: s)
  case (Cons w vs)
  then show ?case by (cases "f w s") (auto simp: bind_None_iff)
qed simp

lemma map_ub_deref_upd: "p \<notin> set ps \<Longrightarrow> map_ub (deref (h\<lparr>cells := (cells h)(p \<mapsto> v)\<rparr>)) ps = map_ub (deref h) ps"
  by (induction ps) (auto simp: deref_def)

lemma fold_visit:
  assumes "distinct ps" and "map_ub (deref h) ps = Some vs"
  shows "fold_ub (visit f) ps (h, s) = map_option (\<lambda>(vs', s'). (h\<lparr>cells := cells h ++ map_of (zip ps vs')\<rparr>, s')) (thread f vs s)"
  using assms
proof (induction ps arbitrary: h s vs)
  case Nil
  then show ?case by simp
next
  case (Cons p ps)
  from Cons.prems(2) obtain v ws where d: "deref h p = Some v" and ws: "map_ub (deref h) ps = Some ws" "vs = v # ws"
    by (auto simp: bind_Some_iff)
  from d have v: "cells h p = Some v" by (simp add: deref_def)
  show ?case
  proof (cases "f v s")
    case None
    with v ws show ?thesis by (simp add: visit_def deref_def)
  next
    case (Some r)
    then obtain v' s1 where r: "f v s = Some (v', s1)" by (cases r) auto
    let ?h = "h\<lparr>cells := (cells h)(p \<mapsto> v')\<rparr>"
    from Cons.prems(1) ws(1) have step: "map_ub (deref ?h) ps = Some ws" by (simp add: map_ub_deref_upd)
    have "fold_ub (visit f) (p # ps) (h, s) = fold_ub (visit f) ps (?h, s1)"
      using v r by (simp add: visit_def deref_def hwrite_def)
    also have "\<dots> = map_option (\<lambda>(vs', s'). (?h\<lparr>cells := cells ?h ++ map_of (zip ps vs')\<rparr>, s')) (thread f ws s1)"
      by (rule Cons.IH [OF _ step]) (use Cons.prems(1) in simp)
    also have "\<dots> = map_option (\<lambda>(vs', s'). (h\<lparr>cells := cells h ++ map_of (zip (p # ps) vs')\<rparr>, s')) (thread f vs s)"
    proof (cases "thread f ws s1")
      case (Some q)
      then obtain us s2 where q: "thread f ws s1 = Some (us, s2)" by (cases q) auto
      have "p \<notin> dom (map_of (zip ps us))" using Cons.prems(1) by (auto dest: map_of_SomeD in_set_zipE)
      then have "(cells h)(p \<mapsto> v') ++ map_of (zip ps us) = cells h ++ map_of (zip (p # ps) (v' # us))"
        by (simp add: map_add_upd_left)
      with q r ws(2) show ?thesis by simp
    qed (use r ws(2) in simp)
    finally show ?thesis .
  qed
qed

lemma map_ub_deref_zip:
  assumes "distinct ps" and "length vs = length ps"
  shows "map_ub (deref (h\<lparr>cells := cells h ++ map_of (zip ps vs)\<rparr>)) ps = Some vs"
  using assms by (auto simp: map_ub_eq_Some deref_def map_add_def map_of_zip_nth)

text \<open>
  The walk over a well-formed table is \<open>thread\<close> over its payloads: it is defined exactly when
  \<open>thread\<close> is, it leaves the same keys in the same order, and any relation between the old
  and the new payloads in order is one between the old and the new payload under each key.
\<close>

lemma walk_update_thread:
  assumes "store_ready t" and "walk t = Some vs"
  shows "thread f vs s = None \<Longrightarrow> walk_update f t s = None"
    and "thread f vs s = Some (vs', s') \<Longrightarrow> \<exists>t'. walk_update f t s = Some (t', s') \<and> store_ready t' \<and>
      st_table t' = st_table t \<and> walk t' = Some vs' \<and>
      (\<forall>R. list_all2 R vs vs' \<longrightarrow> (\<forall>k. rel_option R (store_lookup t k) (store_lookup t' k)))"
proof -
  from assms(1) obtain tab where tab: "st_table t = Some tab" "store_ok t" by (auto simp: store_ready_def)
  note ok = store_okD [OF tab(2,1)]
  let ?ps = "map snd (entries tab)"
  from assms(2) tab(1) have vs: "map_ub (deref (st_heap t)) ?ps = Some vs" by (simp add: walk_def)
  note fold = fold_visit [OF ok(2) vs]
  show "walk_update f t s = None" if "thread f vs s = None"
    using tab(1) fold [of f s] that by (simp add: walk_update_def)
  assume th: "thread f vs s = Some (vs', s')"
  let ?h = "(st_heap t)\<lparr>cells := cells (st_heap t) ++ map_of (zip ?ps vs')\<rparr>"
  let ?t = "t\<lparr>st_heap := ?h\<rparr>"
  have len: "length vs = length ?ps" "length vs' = length ?ps"
    using vs thread_length [OF th] by (auto simp: map_ub_eq_Some)
  have "walk_update f t s = Some (?t, s')" using tab(1) fold [of f s] th by (simp add: walk_update_def)
  moreover have dom: "dom (cells ?h) = dom (cells (st_heap t))"
  proof -
    have "set ?ps \<subseteq> dom (cells (st_heap t))" by (auto dest: ok(4))
    then show ?thesis using len by (auto simp: dom_map_of_zip)
  qed
  have "store_ready ?t"
  proof -
    have live: "cells ?h a = None \<longleftrightarrow> cells (st_heap t) a = None" for a using dom by (auto simp only: dom_def)
    have "heap_ok ?h" unfolding heap_ok_def live using ok(3) by (simp add: heap_ok_def)
    moreover have "\<exists>v. cells ?h p = Some v" if "(k, p) \<in> set (entries tab)" for k p
    proof -
      from ok(4) that have "p \<in> dom (cells (st_heap t))" by blast
      then have "p \<in> dom (cells ?h)" unfolding dom .
      then show ?thesis by blast
    qed
    ultimately show ?thesis using tab ok by (auto simp: store_ready_def store_ok_def)
  qed
  moreover have "walk ?t = Some vs'"
    using tab(1) map_ub_deref_zip [OF ok(2), of vs' "st_heap t"] len by (simp add: walk_def)
  moreover have "rel_option R (store_lookup t k) (store_lookup ?t k)" if R: "list_all2 R vs vs'" for R k
  proof (cases "map_of (entries tab) k")
    case None
    with tab(1) show ?thesis by (simp add: store_lookup_def st_entries_def)
  next
    case (Some p)
    then have "p \<in> set ?ps" by (simp add: map_of_snd)
    then obtain i where i: "i < length ?ps" "?ps ! i = p" by (auto simp: in_set_conv_nth)
    have "map_of (zip ?ps vs') p = Some (vs' ! i)"
      using map_of_zip_nth [of ?ps vs' i] i len ok(2) by simp
    moreover have "cells (st_heap t) p = Some (vs ! i)" using vs i by (auto simp: map_ub_eq_Some deref_def)
    moreover have "R (vs ! i) (vs' ! i)" using R i len by (auto simp: list_all2_conv_all_nth)
    ultimately show ?thesis using Some tab(1) by (simp add: store_lookup_def st_entries_def map_add_def)
  qed
  ultimately show "\<exists>t'. walk_update f t s = Some (t', s') \<and> store_ready t' \<and>
      st_table t' = st_table t \<and> walk t' = Some vs' \<and>
      (\<forall>R. list_all2 R vs vs' \<longrightarrow> (\<forall>k. rel_option R (store_lookup t k) (store_lookup t' k)))"
    by (intro exI [of _ ?t] conjI) simp_all
qed

section \<open>The contract of a loop body\<close>

locale payload_update =
  fixes f :: "'v \<Rightarrow> 's \<Rightarrow> ('v \<times> 's) option"
    and keeps :: "'v \<Rightarrow> 'v \<Rightarrow> bool"
  assumes kept: "f v s = Some (v', s') \<Longrightarrow> keeps v v'"
begin

lemma walk_keeps:
  assumes "store_ready t" and "walk_update f t s = Some (t', s')"
  shows "store_ready t' \<and> (\<forall>k. rel_option keeps (store_lookup t k) (store_lookup t' k))"
proof -
  from walk_ok [OF assms(1)] obtain vs where vs: "walk t = Some vs" by blast
  note walk = walk_update_thread [OF assms(1) vs, of f s]
  from assms(2) walk(1) obtain vs' s1 where th: "thread f vs s = Some (vs', s1)" by fastforce
  have "list_all2 keeps vs vs'" using thread_rel [OF th] kept by blast
  with walk(2) [OF th] assms(2) show ?thesis by auto
qed

lemma walk_dom:
  assumes "store_ready t" and "walk_update f t s = Some (t', s')"
  shows "dom (store_lookup t') = dom (store_lookup t)"
proof -
  have "store_lookup t' k = None \<longleftrightarrow> store_lookup t k = None" for k
    using walk_keeps [OF assms] by (metis option.rel_distinct(1) option.rel_distinct(2) not_Some_eq)
  then show ?thesis by (auto simp: dom_def)
qed

end

end
