(* ===== verification/CanDecode.thy ===== *)
theory CanDecode
  imports Doubles
begin

unbundle bit_operations_syntax

text \<open>
  From a CAN frame to the text of a sensor value: \<open>mask_can_frame\<close> and \<open>var_cast\<close> of
  \<^verbatim>\<open>CanMonitor.c\<close>. The arithmetic is kept at the widths of the code: bit positions and the
  shift distance are 32-bit words that wrap around, the data are a 64-bit word; a shift by
  64 or more is undefined behaviour. The machine is little-endian.
\<close>

record can_frame =
  frame_id :: u32
  can_dlc :: u8
  frame_data :: "u8 list"

section \<open>Extracting a bit field\<close>

text \<open>The loop over the data bytes of the frame.\<close>

definition uni_data :: "can_frame \<Rightarrow> u64 option" where
  "uni_data frame =
     fold_ub (\<lambda>ii u. do { b \<leftarrow> at (frame_data frame) ii; Some (push_bit 8 u OR ucast b) })
       [0..<unat (can_dlc frame)] 0"

definition mask_can_frame :: "can_frame \<Rightarrow> u32 \<Rightarrow> u32 \<Rightarrow> u64 option" where
  "mask_can_frame frame init_bit end_bit = do {
     let var_length = end_bit - init_bit + 1;
     require (unat var_length < 64);
     let mask = push_bit (unat var_length) (1 :: u64) - 1;
     u \<leftarrow> uni_data frame;
     let mask_shift = 8 * ucast (can_dlc frame) - var_length - init_bit;
     require (unat mask_shift < 64);
     Some (drop_bit (unat mask_shift) (push_bit (unat mask_shift) mask AND u)) }"

text \<open>What the frame carries: the data bytes as one number, the first byte the most significant.\<close>

definition big_endian :: "u8 list \<Rightarrow> nat" where
  "big_endian bs = foldl (\<lambda>n b. 256 * n + unat b) 0 bs"

lemma big_endian_snoc: "big_endian (bs @ [b]) = 256 * big_endian bs + unat b"
  by (simp add: big_endian_def)

lemma big_endian_bound: "big_endian bs < 256 ^ length bs"
proof (induction bs rule: rev_induct)
  case Nil
  then show ?case by (simp add: big_endian_def)
next
  case (snoc b bs)
  then have "256 * big_endian bs + unat b < 256 * 256 ^ length bs"
    using unat_u8 [of b] by simp
  then show ?case by (simp add: big_endian_snoc)
qed

lemma shift_or_byte:
  assumes "unat (u :: u64) * 256 < 2 ^ 64"
  shows "unat (push_bit 8 u OR ucast (b :: u8)) = 256 * unat u + unat b"
proof -
  have disj: "push_bit 8 u AND ucast b = 0"
    by (rule bit_word_eqI) (auto simp: bit_and_iff bit_push_bit_iff bit_ucast_iff dest: bit_imp_le_length)
  then have "push_bit 8 u OR ucast b = push_bit 8 u + ucast b"
    by (simp add: disjunctive_add_eq_or [symmetric])
  moreover have "unat (push_bit 8 u) = 256 * unat u"
    using assms by (simp add: push_bit_eq_mult unat_word_ariths mult.commute)
  moreover have "unat (ucast b :: u64) = unat b" 
    by (simp add: unsigned_ucast_eq take_bit_nat_eq_self_iff less_le_trans [OF unat_u8])
  moreover have "256 * unat u + unat b < 2 ^ 64"
  proof -
    have "256 * m + k < 18446744073709551616" if "m * 256 < 18446744073709551616" "k < 256" for m k :: nat
      using that by presburger
    from this [of "unat u" "unat b"] assms unat_u8 [of b] show ?thesis by simp
  qed
  moreover have "unat b < 18446744073709551616" by (rule less_le_trans [OF unat_u8]) simp
  ultimately show ?thesis by (simp add: unat_word_ariths)
qed

lemma uni_data_prefix:
  assumes "n \<le> 8" and "n \<le> length bs"
  shows "\<exists>u :: u64. fold_ub (\<lambda>ii u. do { b \<leftarrow> at bs ii; Some (push_bit 8 u OR ucast b) }) [0..<n] 0 = Some u \<and>
    unat u = big_endian (take n bs)"
  using assms
proof (induction n)
  case 0
  then show ?case by (simp add: big_endian_def)
next
  case (Suc n)
  then obtain u :: u64 where u: "fold_ub (\<lambda>ii u. do { b \<leftarrow> at bs ii; Some (push_bit 8 u OR ucast b) }) [0..<n] 0 = Some u"
      "unat u = big_endian (take n bs)"
    by auto
  have "(256::nat) ^ n \<le> 256 ^ 7" using Suc.prems(1) by (intro power_increasing) auto
  then have "unat u * 256 < 2 ^ 64"
    using big_endian_bound [of "take n bs"] u(2) Suc.prems(2) by (simp add: min_def)
  from shift_or_byte [OF this, of "bs ! n"] u Suc.prems show ?case
    by (simp add: fold_ub_append take_Suc_conv_app_nth big_endian_snoc)
qed

lemma uni_data_ok:
  assumes "unat (can_dlc frame) \<le> 8" and "unat (can_dlc frame) \<le> length (frame_data frame)"
  obtains u where "uni_data frame = Some u" "unat u = big_endian (take (unat (can_dlc frame)) (frame_data frame))"
  using uni_data_prefix [OF assms] by (auto simp: uni_data_def)

lemma mod_nat_diff:
  assumes "i \<le> e" and "e < 2 ^ 32 - 1"
  shows "(int e - int i + 1) mod 2 ^ 32 = int (e - i + 1)"
proof -
  have "int e - int i + 1 = int (e - i + 1)" using assms(1) by simp
  moreover have "int (e - i + 1) < 2 ^ 32" using assms by simp
  ultimately show ?thesis by (simp only: mod_pos_pos_trivial)
qed

lemma mod_nat_shift:
  assumes "e < 8 * d" and "d < 2 ^ 8"
  shows "(8 * int d - 1 - int e) mod 2 ^ 32 = int (8 * d - 1 - e)"
  using assms by (simp add: of_nat_diff)

lemma mod_nat_behind:
  assumes "8 * d \<le> e" and "e < 2 ^ 31"
  shows "64 \<le> (8 * int d - 1 - int e) mod 2 ^ 32"
proof -
  have "(8 * int d - 1 - int e) mod 2 ^ 32 = 2 ^ 32 + (8 * int d - 1 - int e)"
    using assms by (intro int_mod_pos_eq [where q = "-1"]) auto
  then show ?thesis using assms by simp
qed

lemma field_lengths:
  fixes i e :: u32 and d :: u8
  shows "uint (e - i + 1) = (uint e - uint i + 1) mod 2 ^ 32"
    and "uint (8 * ucast d - (e - i + 1) - i) = (8 * uint d - 1 - uint e) mod 2 ^ 32"
proof -
  show "uint (e - i + 1) = (uint e - uint i + 1) mod 2 ^ 32"
    by (simp add: uint_word_ariths mod_simps)
  have "8 * ucast d - (e - i + 1) - i = (of_int (8 * uint d - 1 - uint e) :: u32)"
    by (simp add: algebra_simps)
  then show "uint (8 * ucast d - (e - i + 1) - i) = (8 * uint d - 1 - uint e) mod 2 ^ 32"
    by (simp only: unsigned_of_int take_bit_eq_mod) simp
qed

lemma field_unat:
  fixes i e :: u32 and d :: u8
  assumes "i \<le> e" and "unat e < 8 * unat d"
  shows "unat (e - i + 1) = unat e - unat i + 1"
    and "unat (8 * ucast d - (e - i + 1) - i) = 8 * unat d - 1 - unat e"
proof -
  have b: "unat i \<le> unat e" "unat e < 2 ^ 32" "unat d < 2 ^ 8"
    using assms(1) unat_u32 [of e] unat_u8 [of d] by (simp_all add: word_le_nat_alt)
  have "int (unat (e - i + 1)) = (int (unat e) - int (unat i) + 1) mod 2 ^ 32"
    using field_lengths(1) [of e i] by (simp only: uint_nat)
  also have "\<dots> = int (unat e - unat i + 1)"
    using b assms(2) by (intro mod_nat_diff) auto
  finally have "int (unat (e - i + 1)) = int (unat e - unat i + 1)" .
  then show "unat (e - i + 1) = unat e - unat i + 1" by linarith
  have "int (unat (8 * ucast d - (e - i + 1) - i)) = (8 * int (unat d) - 1 - int (unat e)) mod 2 ^ 32"
    using field_lengths(2) [of d e i] by (simp only: uint_nat)
  also have "\<dots> = int (8 * unat d - 1 - unat e)"
    using b(3) assms(2) by (rule mod_nat_shift [rotated])
  finally have "int (unat (8 * ucast d - (e - i + 1) - i)) = int (8 * unat d - 1 - unat e)" .
  then show "unat (8 * ucast d - (e - i + 1) - i) = 8 * unat d - 1 - unat e" by linarith
qed

lemma extract_field:
  "unat (drop_bit s (push_bit s (push_bit l 1 - 1) AND (u :: u64))) = unat u div 2 ^ s mod 2 ^ l"
proof -
  have "push_bit l 1 - 1 = (mask l :: u64)" by (simp add: mask_eq_exp_minus_1 push_bit_eq_mult)
  moreover have "k < 64" if "bit u k" for k using bit_imp_le_length [OF that] by simp
  ultimately have "drop_bit s (push_bit s (push_bit l 1 - 1) AND u) = take_bit l (drop_bit s u)"
    by (auto intro!: bit_word_eqI simp: bit_simps)
  then have "unat (drop_bit s (push_bit s (push_bit l 1 - 1) AND u)) = take_bit l (drop_bit s (unat u))"
    by (simp only: unat_drop_bit_eq unsigned_take_bit_eq)
  then show ?thesis by (simp only: drop_bit_eq_div take_bit_eq_mod)
qed

section \<open>Values as text\<close>

text \<open>
  \<open>var_cast\<close> writes into the 4-byte block of \<open>strdup ("000")\<close>: the text it leaves there and
  the number of bytes it writes. The block is read at the width of the type; an unknown
  type leaves the block alone. \<open>%s\<close> reads the eight bytes of the value, least significant
  first, up to a NUL: with none among them it reads past the variable.
\<close>

definition le_bytes :: "u64 \<Rightarrow> cstring" where
  "le_bytes w = map (\<lambda>k. char_of (unat (drop_bit (8 * k) w) mod 256 :: nat)) [0..<8]"

definition printed :: "nat \<Rightarrow> cstring \<Rightarrow> (cstring \<times> nat) option" where
  "printed limit text = (let t = snprintf limit text in Some (t, length t + 1))"

definition var_cast :: "u64 \<Rightarrow> cstring \<Rightarrow> (cstring \<times> nat) option" where
  "var_cast v type =
     (if type = ''Uint8'' then printed 4 (show_nat (unat (ucast v :: u8)))
      else if type = ''Uint16'' then printed 6 (show_nat (unat (ucast v :: u16)))
      else if type = ''Uint32'' then printed 11 (show_nat (unat (ucast v :: u32)))
      else if type = ''Uint64'' then printed 21 (show_nat (unat v))
      else if type = ''Int8'' then printed 5 (show_int (sint (ucast v :: u8)))
      else if type = ''Int16'' then printed 7 (show_int (sint (ucast v :: u16)))
      else if type = ''Int32'' then printed 12 (show_int (sint (ucast v :: u32)))
      else if type = ''Int64'' then printed 21 (show_int (sint v))
      else if type = ''Double'' then printed 34 (fmt_f15 (double_of_bits v))
      else if type = ''string'' then do {
        require (CHR 0x00 \<in> set (le_bytes v));
        printed 9 (c_str (le_bytes v)) }
      else Some (''000'', 0))"

lemma printed_fits: "length t < limit \<Longrightarrow> printed limit t = Some (t, length t + 1)"
  by (simp add: printed_def snprintf_def)

lemma printed_nat:
  assumes "0 < k" "n < 10 ^ k"
  shows "printed (Suc k) (show_nat n) = Some (show_nat n, length (show_nat n) + 1)"
  using length_show_nat [OF assms] by (intro printed_fits) simp

lemma printed_int:
  assumes "0 < k" "- (10 ^ k) < i" "i < 10 ^ Suc k"
  shows "printed (Suc (Suc k)) (show_int i) = Some (show_int i, length (show_int i) + 1)"
proof -
  have "length (show_int i) \<le> Suc k"
  proof (cases "i < 0")
    case True
    have "nat (- i) < 10 ^ k" using True assms(2) by (simp add: nat_less_iff)
    from length_show_nat [OF assms(1) this] True show ?thesis by (simp add: show_int_def)
  next
    case False
    have "nat i < 10 ^ Suc k" using False assms(3) by (simp add: nat_less_iff)
    from length_show_nat [OF _ this] False show ?thesis by (simp add: show_int_def)
  qed
  then show ?thesis by (intro printed_fits) simp
qed

lemma printed_nat_below:
  assumes "n < b" "b \<le> 10 ^ k" "0 < k"
  shows "printed (Suc k) (show_nat n) = Some (show_nat n, length (show_nat n) + 1)"
  using assms by (intro printed_nat) auto

lemma printed_int_below:
  assumes "- b \<le> x \<and> x < b" "b < 10 ^ k" "0 < k"
  shows "printed (Suc (Suc k)) (show_int x) = Some (show_int x, length (show_int x) + 1)"
  using assms by (intro printed_int) auto

lemma sint_range:
  fixes w :: "'a::len word"
  shows "- (2 ^ (LENGTH('a) - 1)) \<le> sint w \<and> sint w < 2 ^ (LENGTH('a) - 1)"
  using sint_ge [of w] sint_lt [of w] by simp

section \<open>Properties\<close>

text \<open>
  C12: A bit field of a frame is read big-endian: for a field of at most 63 bits inside the
  data of a frame of at most eight bytes, \<open>mask_can_frame\<close> returns the bits from \<open>init_bit\<close>
  to \<open>end_bit\<close>, counted from the most significant bit of the first byte, as a number.
\<close>

theorem mask_can_frame_field:
  assumes "init_bit \<le> end_bit" and "unat end_bit < 8 * unat (can_dlc frame)"
    and "unat end_bit - unat init_bit < 63"
    and "unat (can_dlc frame) \<le> 8" and "unat (can_dlc frame) \<le> length (frame_data frame)"
  shows "map_option unat (mask_can_frame frame init_bit end_bit) =
    Some (big_endian (take (unat (can_dlc frame)) (frame_data frame))
            div 2 ^ (8 * unat (can_dlc frame) - 1 - unat end_bit)
            mod 2 ^ (unat end_bit - unat init_bit + 1))"
proof -
  from uni_data_ok [OF assms(4,5)] obtain u where
    u: "uni_data frame = Some u" "unat u = big_endian (take (unat (can_dlc frame)) (frame_data frame))" .
  have "(unat end_bit - unat init_bit + 1 < 64) = True" "(8 * unat (can_dlc frame) - 1 - unat end_bit < 64) = True"
    using assms by auto
  then show ?thesis
    by (simp only: mask_can_frame_def Let_def field_unat [OF assms(1,2)] u bind.simps require_simps
        option.map extract_field)
qed

theorem mask_can_frame_field_witness:
  "map_option unat (mask_can_frame \<lparr>frame_id = 5, can_dlc = 2, frame_data = [0xAB, 0xCD, 0, 0, 0, 0, 0, 0]\<rparr> 4 11)
     = Some 0xBC"
  using mask_can_frame_field [of 4 11 "\<lparr>frame_id = 5, can_dlc = 2, frame_data = [0xAB, 0xCD, 0, 0, 0, 0, 0, 0]\<rparr>"]
  by (simp add: big_endian_def)

text \<open>
  C31: When the extraction is undefined: for \<open>init_bit \<le> end_bit\<close> (and an \<open>end_bit\<close> that is
  not negative as an \<open>int\<close>), a shift by 64 or more happens exactly when the field ends
  behind the data of the frame or is 64 bits long. So a sensor that covers the whole of an
  eight-byte frame cannot be read.
\<close>

theorem mask_can_frame_undefined:
  assumes "init_bit \<le> end_bit" and "unat end_bit < 2 ^ 31"
    and "unat (can_dlc frame) \<le> 8" and "unat (can_dlc frame) \<le> length (frame_data frame)"
  shows "mask_can_frame frame init_bit end_bit = None \<longleftrightarrow>
    8 * unat (can_dlc frame) \<le> unat end_bit \<or> 63 \<le> unat end_bit - unat init_bit"
proof (cases "8 * unat (can_dlc frame) \<le> unat end_bit")
  case True
  let ?s = "8 * ucast (can_dlc frame) - (end_bit - init_bit + 1) - init_bit"
  have "int (unat ?s) = (8 * int (unat (can_dlc frame)) - 1 - int (unat end_bit)) mod 2 ^ 32"
    using field_lengths(2) [of "can_dlc frame" end_bit init_bit] by (simp only: uint_nat)
  moreover have "64 \<le> (8 * int (unat (can_dlc frame)) - 1 - int (unat end_bit)) mod 2 ^ 32"
    using True assms(2) by (rule mod_nat_behind)
  ultimately have "64 \<le> unat ?s" by linarith
  with True show ?thesis by (auto simp: mask_can_frame_def Let_def bind_None_iff require_def)
next
  case False
  then have b: "unat end_bit < 8 * unat (can_dlc frame)" by simp
  from uni_data_ok [OF assms(3,4)] obtain u where u: "uni_data frame = Some u" .
  have "8 * unat (can_dlc frame) - 1 - unat end_bit < 64" using assms by auto
  with False show ?thesis
    unfolding mask_can_frame_def Let_def field_unat [OF assms(1) b]
    by (auto simp: u bind_None_iff require_def)
qed

theorem mask_can_frame_undefined_witness:
  "mask_can_frame \<lparr>frame_id = 5, can_dlc = 8, frame_data = replicate 8 1\<rparr> 0 63 = None"
  using mask_can_frame_undefined [of 0 63 "\<lparr>frame_id = 5, can_dlc = 8, frame_data = replicate 8 1\<rparr>"]
  by simp

text \<open>
  C30: No integer value is truncated: for each of the eight integer types the limit given to
  \<open>snprintf\<close> is large enough, and the text is the decimal of the value read at the width
  and signedness of the type.
\<close>

theorem var_cast_integers:
  "var_cast v ''Uint8'' = Some (show_nat (unat (ucast v :: u8)), length (show_nat (unat (ucast v :: u8))) + 1) \<and>
   var_cast v ''Uint16'' = Some (show_nat (unat (ucast v :: u16)), length (show_nat (unat (ucast v :: u16))) + 1) \<and>
   var_cast v ''Uint32'' = Some (show_nat (unat (ucast v :: u32)), length (show_nat (unat (ucast v :: u32))) + 1) \<and>
   var_cast v ''Uint64'' = Some (show_nat (unat v), length (show_nat (unat v)) + 1) \<and>
   var_cast v ''Int8'' = Some (show_int (sint (ucast v :: u8)), length (show_int (sint (ucast v :: u8))) + 1) \<and>
   var_cast v ''Int16'' = Some (show_int (sint (ucast v :: u16)), length (show_int (sint (ucast v :: u16))) + 1) \<and>
   var_cast v ''Int32'' = Some (show_int (sint (ucast v :: u32)), length (show_int (sint (ucast v :: u32))) + 1) \<and>
   var_cast v ''Int64'' = Some (show_int (sint v), length (show_int (sint v)) + 1)"
proof (intro conjI)
  show "var_cast v ''Uint8'' = Some (show_nat (unat (ucast v :: u8)), length (show_nat (unat (ucast v :: u8))) + 1)"
    using printed_nat_below [OF unat_u8 [of "ucast v"], of 3] by (simp add: var_cast_def)
  show "var_cast v ''Uint16'' = Some (show_nat (unat (ucast v :: u16)), length (show_nat (unat (ucast v :: u16))) + 1)"
    using printed_nat_below [OF unsigned_less [of "ucast v :: u16"], of 5] by (simp add: var_cast_def)
  show "var_cast v ''Uint32'' = Some (show_nat (unat (ucast v :: u32)), length (show_nat (unat (ucast v :: u32))) + 1)"
    using printed_nat_below [OF unat_u32 [of "ucast v"], of 10] by (simp add: var_cast_def)
  show "var_cast v ''Uint64'' = Some (show_nat (unat v), length (show_nat (unat v)) + 1)"
    using printed_nat_below [OF unat_u64 [of v], of 20] by (simp add: var_cast_def)
  show "var_cast v ''Int8'' = Some (show_int (sint (ucast v :: u8)), length (show_int (sint (ucast v :: u8))) + 1)"
    using printed_int_below [OF sint_range [of "ucast v :: u8"], of 3] by (simp add: var_cast_def)
  show "var_cast v ''Int16'' = Some (show_int (sint (ucast v :: u16)), length (show_int (sint (ucast v :: u16))) + 1)"
    using printed_int_below [OF sint_range [of "ucast v :: u16"], of 5] by (simp add: var_cast_def)
  show "var_cast v ''Int32'' = Some (show_int (sint (ucast v :: u32)), length (show_int (sint (ucast v :: u32))) + 1)"
    using printed_int_below [OF sint_range [of "ucast v :: u32"], of 10] by (simp add: var_cast_def)
  show "var_cast v ''Int64'' = Some (show_int (sint v), length (show_int (sint v)) + 1)"
    using printed_int_below [OF sint_range [of v], of 19] by (simp add: var_cast_def)
qed

end
