(* ===== verification/MainLoop.thy ===== *)
theory MainLoop
  imports MqttClient TableWalk CanDecode
begin

text \<open>
  The two loops of \<^verbatim>\<open>CanMonitor.c\<close> that the main loop runs over the tables: a CAN frame
  that has been read is written to the sensors that listen to it (\<open>parse_can_frame\<close>), and the
  groups whose publish rate has elapsed are published. Both are instances of the contract
  \<open>payload_update\<close>.
\<close>

section \<open>A CAN frame is written to the sensors\<close>

text \<open>
  The body of the inner loop. The value is copied from a block of 4 bytes, \<open>strdup ("000")\<close>,
  into which \<open>var_cast\<close> writes; the \<open>int\<close> timestamp is converted to 64 bits with its sign.
\<close>

definition parse_sensor :: "can_frame \<Rightarrow> u32 \<Rightarrow> sensor \<Rightarrow> ledger \<Rightarrow> (sensor \<times> ledger) option" where
  "parse_sensor frame timestamp s l =
     (if frame_id frame = can_id s then do {
        var_value \<leftarrow> mask_can_frame frame (init_bit s) (end_bit s);
        (sensor_value, written) \<leftarrow> var_cast var_value (sens_type s);
        Some (s\<lparr>sens_value := sensor_value, sens_timestamp := scast timestamp\<rparr>,
              l @ overrun Value_text 4 written) }
      else Some (s, l))"

definition parse_can_frame :: "can_frame \<Rightarrow> u32 \<Rightarrow> agent \<Rightarrow> agent option" where
  "parse_can_frame frame timestamp a = do {
     (t, l) \<leftarrow> walk_update (parse_sensor frame timestamp) (sensors_table a) (overruns a);
     Some (a\<lparr>sensors_table := t, overruns := l\<rparr>) }"

text \<open>What the loop changes in a sensor: the value and its time.\<close>

definition same_sensor :: "sensor \<Rightarrow> sensor \<Rightarrow> bool" where
  "same_sensor s s' \<longleftrightarrow> s' = s\<lparr>sens_value := sens_value s', sens_timestamp := sens_timestamp s'\<rparr> \<and>
     (sensor_ok s \<longrightarrow> sensor_ok s')"

lemma same_sensorD:
  assumes "same_sensor s s'"
  shows "sens_id s' = sens_id s" "sensor_ok s \<Longrightarrow> sensor_ok s'"
  using assms by (cases s; cases s'; simp add: same_sensor_def)+

lemma show_int_nul_free [simp]: "nul_free (show_int i)"
  by (simp add: show_int_def)

lemma snprintf_nul_free: "nul_free t \<Longrightarrow> nul_free (snprintf n t)"
  by (auto simp: snprintf_def nul_free_def dest: in_set_takeD)

lemma fmt_f15_nul_free [simp]: "nul_free (fmt_f15 d)"
proof -
  have pad: "nul_free (pad_left n t)" if "nul_free t" for n t
    using that by (auto simp: pad_left_def nul_free_def)
  then show ?thesis
    by (auto simp: fmt_f15_def sign_text_def Let_def split: double.splits prod.splits)
qed

lemma var_cast_nul_free: "var_cast v type = Some (t, n) \<Longrightarrow> nul_free t"
  by (auto simp: var_cast_def printed_def Let_def snprintf_nul_free split: if_splits)

interpretation frame_walk: payload_update "parse_sensor frame timestamp" same_sensor
  for frame timestamp
proof unfold_locales
  fix s l s' l' assume "parse_sensor frame timestamp s l = Some (s', l')"
  then show "same_sensor s s'"
    by (auto simp: parse_sensor_def same_sensor_def sensor_ok_def bind_Some_iff dest: var_cast_nul_free split: if_splits)
qed

section \<open>The groups that are due are published\<close>

record timeval =
  tv_sec :: u64
  tv_usec :: u64

definition milliseconds :: "timeval \<Rightarrow> u64" where
  "milliseconds t = tv_sec t * 1000 + tv_usec t div 1000"

definition last_publish_time :: "sensorgroup \<Rightarrow> timeval" where
  "last_publish_time sg = \<lparr>tv_sec = last_tv_sec sg, tv_usec = last_tv_usec sg\<rparr>"

definition due :: "timeval \<Rightarrow> sensorgroup \<Rightarrow> bool" where
  "due current_time sg \<longleftrightarrow>
     milliseconds current_time - milliseconds (last_publish_time sg) \<ge> ucast (publish_rate sg)"

text \<open>
  The body of the inner loop. The state that is carried along is the number of the visit (the
  clock is read anew in each), the calls to the client library, and the ledger: the topic is
  put together in 200 bytes.
\<close>

definition publish_group ::
  "agent \<Rightarrow> (nat \<Rightarrow> timeval) \<Rightarrow> sensorgroup \<Rightarrow> nat \<times> mqtt_call list \<times> ledger
     \<Rightarrow> (sensorgroup \<times> nat \<times> mqtt_call list \<times> ledger) option" where
  "publish_group a clock sg st = (case st of (i, calls, l) \<Rightarrow>
     (let current_time = clock i in
      if due current_time sg then do {
        ident \<leftarrow> monitor_id a;
        let mqtt_data_topic = data_topic ident sg;
        payload \<leftarrow> create_data_payload a sg;
        Some (sg\<lparr>last_tv_sec := tv_sec current_time, last_tv_usec := tv_usec current_time\<rparr>,
              i + 1, calls @ [publish mqtt_data_topic payload a],
              l @ overrun Topic_200 200 (length mqtt_data_topic + 1)) }
      else Some (sg, i + 1, calls, l)))"

definition publish_groups :: "(nat \<Rightarrow> timeval) \<Rightarrow> agent \<Rightarrow> (mqtt_call list \<times> agent) option" where
  "publish_groups clock a = do {
     (t, i, calls, l) \<leftarrow> walk_update (publish_group a clock) (sensorgroup_table a) (0, [], overruns a);
     Some (calls, a\<lparr>sensorgroup_table := t, overruns := l\<rparr>) }"

text \<open>What the loop changes in a group: the time of its last message.\<close>

definition same_group :: "sensorgroup \<Rightarrow> sensorgroup \<Rightarrow> bool" where
  "same_group g g' \<longleftrightarrow> g' = g\<lparr>last_tv_sec := last_tv_sec g', last_tv_usec := last_tv_usec g'\<rparr>"

lemma same_groupD:
  assumes "same_group g g'"
  shows "sg_id g' = sg_id g" "publish_rate g' = publish_rate g" "sensorcount g' = sensorcount g"
    "sensor_list g' = sensor_list g" "members g' = members g"
  using assms by (cases g; cases g'; simp add: same_group_def members_def)+

interpretation publish_walk: payload_update "publish_group a clock" same_group
  for a clock
  by unfold_locales (auto simp: publish_group_def same_group_def bind_Some_iff Let_def split: if_splits)

text \<open>The value a frame has for a sensor: undefined where the field or the conversion is.\<close>

definition decoded :: "can_frame \<Rightarrow> sensor \<Rightarrow> cstring option" where
  "decoded frame s = do {
     var_value \<leftarrow> mask_can_frame frame (init_bit s) (end_bit s);
     (sensor_value, written) \<leftarrow> var_cast var_value (sens_type s);
     Some sensor_value }"

definition received :: "can_frame \<Rightarrow> u32 \<Rightarrow> sensor \<Rightarrow> sensor" where
  "received frame timestamp s =
     (if can_id s = frame_id frame
      then s\<lparr>sens_value := the (decoded frame s), sens_timestamp := scast timestamp\<rparr> else s)"

lemma parse_sensor_received:
  "parse_sensor frame timestamp s l = Some (s', l') \<Longrightarrow> s' = received frame timestamp s"
  by (auto simp: parse_sensor_def received_def decoded_def bind_Some_iff split: if_splits)

lemma parse_sensor_None: "parse_sensor frame timestamp s l = None \<longleftrightarrow> can_id s = frame_id frame \<and> decoded frame s = None"
  by (auto simp: parse_sensor_def decoded_def bind_None_iff split: prod.splits)

lemma agent_ok_same_sensors:
  assumes a: "agent_ok a" and w: "store_ready t" "\<And>k. rel_option same_sensor (sensors_of a k) (store_lookup t k)"
  shows "agent_ok (a\<lparr>sensors_table := t\<rparr>)"
proof (rule agent_ok_sensors [OF a w(1)])
  fix k s' assume "store_lookup t k = Some s'"
  with w(2) [of k] obtain s where s: "sensors_of a k = Some s" "same_sensor s s'" by (auto simp: option_rel_Some2)
  from agent_okD(3) [OF a s(1)] same_sensorD [OF s(2)] show "sens_id s' = k \<and> sensor_ok s'" by simp
qed

lemma agent_ok_same_groups:
  assumes a: "agent_ok a" and w: "store_ready t" "\<And>k. rel_option same_group (groups_of a k) (store_lookup t k)"
  shows "agent_ok (a\<lparr>sensorgroup_table := t\<rparr>)"
proof (rule agent_ok_groups [OF a w(1)])
  fix k g' assume "store_lookup t k = Some g'"
  with w(2) [of k] obtain g where g: "groups_of a k = Some g" "same_group g g'" by (auto simp: option_rel_Some2)
  from agent_okD(4) [OF a g(1)] same_groupD [OF g(2)] show "sg_id g' = k \<and> group_ok g'" by (auto simp: group_ok_def)
qed

lemma parse_can_frame_ok [c_inv]:
  assumes "agent_ok a" and "parse_can_frame frame timestamp a = Some a'"
  shows "agent_ok a' \<and> same_control a' a \<and> groups_of a' = groups_of a \<and> dom (sensors_of a') = dom (sensors_of a)"
proof -
  from assms(2) obtain t l where w: "walk_update (parse_sensor frame timestamp) (sensors_table a) (overruns a) = Some (t, l)"
    and a': "a' = a\<lparr>sensors_table := t, overruns := l\<rparr>"
    by (auto simp: parse_can_frame_def bind_Some_iff)
  note ready = agent_okD(1) [OF assms(1)]
  from frame_walk.walk_keeps [OF ready w] agent_ok_same_sensors [OF assms(1), of t] have "agent_ok (a\<lparr>sensors_table := t\<rparr>)"
    by (simp add: sensors_of_def)
  moreover have "groups_of a' = groups_of a" "sensors_of a' = store_lookup t" by (simp_all add: a' groups_of_def sensors_of_def)
  ultimately show ?thesis
    using frame_walk.walk_dom [OF ready w] by (simp add: a' sensors_of_def)
qed

lemma parse_can_frame_received:
  assumes "agent_ok a"
  shows "if \<forall>k s. sensors_of a k = Some s \<and> can_id s = frame_id frame \<longrightarrow> decoded frame s \<noteq> None
    then \<exists>a'. parse_can_frame frame timestamp a = Some a' \<and> agent_ok a' \<and> same_control a' a \<and>
      groups_of a' = groups_of a \<and> sensors_of a' = map_option (received frame timestamp) \<circ> sensors_of a
    else parse_can_frame frame timestamp a = None"
proof -
  note ready = agent_okD(1) [OF assms]
  from walk_ok [OF ready] obtain vs where vs: "walk (sensors_table a) = Some vs" "set vs = ran (sensors_of a)"
    by (auto simp: sensors_of_def)
  let ?f = "parse_sensor frame timestamp"
  note walk = walk_update_thread [OF ready vs(1), of ?f "overruns a"]
  show ?thesis
  proof (cases "\<forall>k s. sensors_of a k = Some s \<and> can_id s = frame_id frame \<longrightarrow> decoded frame s \<noteq> None")
    case True
    then have "?f v l \<noteq> None" if "v \<in> set vs" for v l
      using that unfolding vs(2) parse_sensor_None ran_def by blast
    then obtain vs' l where th: "thread ?f vs (overruns a) = Some (vs', l)"
      using thread_total [of vs ?f] by fastforce
    from thread_rel [OF th, of "\<lambda>v v'. v' = received frame timestamp v"]
    have all: "list_all2 (\<lambda>v v'. v' = received frame timestamp v) vs vs'" by (blast dest: parse_sensor_received)
    from walk(2) [OF th] obtain t where t: "walk_update ?f (sensors_table a) (overruns a) = Some (t, l)"
      "\<And>k. rel_option (\<lambda>v v'. v' = received frame timestamp v) (sensors_of a k) (store_lookup t k)"
      using all unfolding sensors_of_def by blast
    let ?a = "a\<lparr>sensors_table := t, overruns := l\<rparr>"
    have p: "parse_can_frame frame timestamp a = Some ?a" using t(1) by (simp add: parse_can_frame_def)
    have "sensors_of ?a k = (map_option (received frame timestamp) \<circ> sensors_of a) k" for k
      using t(2) [of k] by (cases "sensors_of a k") (auto simp: sensors_of_def option_rel_Some1)
    with parse_can_frame_ok [OF assms p] p True show ?thesis by (auto simp: fun_eq_iff)
  next
    case False
    then obtain k s where s: "sensors_of a k = Some s" "\<And>l. ?f s l = None" by (auto simp: parse_sensor_None)
    have "s \<in> set vs" using s(1) vs(2) by (auto simp: ran_def)
    with thread_None [of s vs ?f] s(2) walk(1) False show ?thesis by (simp add: parse_can_frame_def)
  qed
qed

text \<open>
  C7: A frame that has been read reaches exactly the sensors that listen to its id. The loop is
  defined exactly when the field and the conversion are defined for each of them; each then has
  the value of its field as a text and the time of the frame, and nothing else changes: no other
  sensor, no group, no part of the configuration.
\<close>

theorem frame_reaches_sensors:
  assumes "agent_ok a"
  shows "if \<forall>k s. sensors_of a k = Some s \<and> can_id s = frame_id frame \<longrightarrow> decoded frame s \<noteq> None
    then \<exists>a'. parse_can_frame frame timestamp a = Some a' \<and> agent_ok a' \<and> same_control a' a \<and>
      groups_of a' = groups_of a \<and> sensors_of a' = map_option (received frame timestamp) \<circ> sensors_of a
    else parse_can_frame frame timestamp a = None"
  using assms by (rule parse_can_frame_received)

theorem frame_reaches_sensors_witness:
  "\<exists>a'. parse_can_frame \<lparr>frame_id = 5, can_dlc = 1, frame_data = [7]\<rparr> 9 (populated [byte_sensor ''s''] []) = Some a' \<and>
    map_option sens_value (sensors_of a' ''s'') = Some ''7''"
proof -
  let ?frame = "\<lparr>frame_id = 5, can_dlc = 1, frame_data = [7]\<rparr>" and ?a = "populated [byte_sensor ''s''] []"
  have p: "agent_ok ?a" "sensors_of ?a = [''s'' \<mapsto> byte_sensor ''s'']"
    using populated_ok [of "[byte_sensor ''s'']" "[]"] by simp_all
  have d: "decoded ?frame (byte_sensor ''s'') = Some ''7''" and i: "can_id (byte_sensor ''s'') = 5" by code_simp+
  have c: "\<forall>k s. sensors_of ?a k = Some s \<and> can_id s = frame_id ?frame \<longrightarrow> decoded ?frame s \<noteq> None"
    by (auto simp: p(2) d split: if_splits)
  from frame_reaches_sensors [OF p(1), of ?frame 9, unfolded if_P [OF c]] show ?thesis
    by (auto simp: p(2) received_def i d)
qed

section \<open>What the publishing loop does\<close>

definition published :: "timeval \<Rightarrow> sensorgroup \<Rightarrow> sensorgroup" where
  "published current_time g = (if due current_time g
     then g\<lparr>last_tv_sec := tv_sec current_time, last_tv_usec := tv_usec current_time\<rparr> else g)"

definition message :: "agent \<Rightarrow> cstring \<Rightarrow> sensorgroup \<Rightarrow> mqtt_call" where
  "message a ident g = Publish (data_topic ident g) (data_text a g) (length (data_text a g) + 1) (mqtt_qos a)"

lemma publish_group_eq:
  assumes "agent_ok a" and "group_ok g" and "group_resolved a g" and "monitor_id a = Some ident"
  shows "\<exists>l'. publish_group a clock g (i, calls, l) =
    Some (published (clock i) g, i + 1, calls @ (if due (clock i) g then [message a ident g] else []), l')"
  using assms by (auto simp: publish_group_def published_def message_def publish_def create_data_payload_eq Let_def)

lemma thread_publish:
  assumes "agent_ok a" and "\<forall>g \<in> set gs. group_ok g \<and> group_resolved a g" and "monitor_id a = Some ident"
  shows "\<exists>l'. thread (publish_group a clock) gs (i, calls, l) =
    Some (map (\<lambda>(j, g). published (clock j) g) (enumerate i gs), i + length gs,
          calls @ concat (map (\<lambda>(j, g). if due (clock j) g then [message a ident g] else []) (enumerate i gs)), l')"
  using assms(2)
proof (induction gs arbitrary: i calls l)
  case (Cons g gs)
  from publish_group_eq [OF assms(1) _ _ assms(3), of g clock i calls l] Cons.prems obtain l1 where
    one: "publish_group a clock g (i, calls, l) =
      Some (published (clock i) g, i + 1, calls @ (if due (clock i) g then [message a ident g] else []), l1)" by auto
  from Cons.IH [of "i + 1" "calls @ (if due (clock i) g then [message a ident g] else [])" l1] Cons.prems one
  show ?case by (auto simp: enumerate_simps)
qed simp

lemma publish_groups_ok [c_inv]:
  assumes "agent_ok a" and "publish_groups clock a = Some (calls, a')"
  shows "agent_ok a' \<and> same_control a' a \<and> sensors_of a' = sensors_of a \<and>
    (\<forall>k. rel_option same_group (groups_of a k) (groups_of a' k))"
proof -
  from assms(2) obtain t i l where
    w: "walk_update (publish_group a clock) (sensorgroup_table a) (0, [], overruns a) = Some (t, i, calls, l)"
    and a': "a' = a\<lparr>sensorgroup_table := t, overruns := l\<rparr>"
    by (auto simp: publish_groups_def bind_Some_iff)
  from publish_walk.walk_keeps [OF agent_okD(2) [OF assms(1)] w] agent_ok_same_groups [OF assms(1), of t]
  show ?thesis by (simp add: a' groups_of_def sensors_of_def)
qed

lemma references_same_groups:
  assumes "references_ok a" and "\<And>k. rel_option same_group (groups_of a k) (groups_of b k)"
    and "dom (sensors_of b) = dom (sensors_of a)"
  shows "references_ok b"
  unfolding references_ok_def group_resolved_def
proof (intro allI impI ballI)
  fix k g' j assume g': "groups_of b k = Some g'" and j: "j \<in> set (members g')"
  from assms(2) [of k] g' obtain g where g: "groups_of a k = Some g" "same_group g g'" by (auto simp: option_rel_Some2)
  from assms(1) g(1) j same_groupD(5) [OF g(2)] have "sensors_of a j \<noteq> None"
    by (auto simp: references_ok_def group_resolved_def)
  then show "sensors_of b j \<noteq> None" using assms(3) by (auto simp: dom_def set_eq_iff)
qed

lemma publish_groups_defined:
  assumes "agent_ok a" and "references_ok a" and "monitor_id a = Some ident"
  shows "\<exists>gs a'. walk (sensorgroup_table a) = Some gs \<and>
    publish_groups clock a =
      Some (concat (map (\<lambda>(i, g). if due (clock i) g then [message a ident g] else []) (enumerate 0 gs)), a') \<and>
    walk (sensorgroup_table a') = Some (map (\<lambda>(i, g). published (clock i) g) (enumerate 0 gs)) \<and>
    agent_ok a' \<and> references_ok a' \<and> sensors_of a' = sensors_of a \<and> same_control a' a"
proof -
  note ready = agent_okD(2) [OF assms(1)]
  from walk_ok [OF ready] obtain gs where gs: "walk (sensorgroup_table a) = Some gs" "set gs = ran (groups_of a)"
    by (auto simp: groups_of_def)
  have "\<forall>g \<in> set gs. group_ok g \<and> group_resolved a g"
    using assms(1,2) agent_okD(4) [OF assms(1)] unfolding gs(2) ran_def references_ok_def by blast
  from thread_publish [OF assms(1) this assms(3), of clock 0 "[]" "overruns a"] obtain l where
    th: "thread (publish_group a clock) gs (0, [], overruns a) =
      Some (map (\<lambda>(j, g). published (clock j) g) (enumerate 0 gs), length gs,
        concat (map (\<lambda>(j, g). if due (clock j) g then [message a ident g] else []) (enumerate 0 gs)), l)" by auto
  from walk_update_thread(2) [OF ready gs(1) th] obtain t where
    t: "walk_update (publish_group a clock) (sensorgroup_table a) (0, [], overruns a) = Some (t, length gs,
        concat (map (\<lambda>(j, g). if due (clock j) g then [message a ident g] else []) (enumerate 0 gs)), l)"
      "walk t = Some (map (\<lambda>(j, g). published (clock j) g) (enumerate 0 gs))" by blast
  have p: "publish_groups clock a =
      Some (concat (map (\<lambda>(i, g). if due (clock i) g then [message a ident g] else []) (enumerate 0 gs)),
        a\<lparr>sensorgroup_table := t, overruns := l\<rparr>)"
    using t(1) by (simp add: publish_groups_def)
  from publish_groups_ok [OF assms(1) p] references_same_groups [OF assms(2)] gs(1) p t(2) show ?thesis by auto
qed

text \<open>The loop is undefined exactly when a group that is due at its visit lists an id that is not the id of a sensor.\<close>

lemma thread_publish_None:
  assumes "agent_ok a" and "\<forall>g \<in> set gs. group_ok g" and "monitor_id a = Some ident"
  shows "thread (publish_group a clock) gs (i, calls, l) = None \<longleftrightarrow>
    (\<exists>j < length gs. due (clock (i + j)) (gs ! j) \<and> \<not> group_resolved a (gs ! j))"
  using assms(2)
proof (induction gs arbitrary: i calls l)
  case (Cons g gs)
  have split: "(\<exists>j < length (g # gs). due (clock (i + j)) ((g # gs) ! j) \<and> \<not> group_resolved a ((g # gs) ! j)) \<longleftrightarrow>
      due (clock i) g \<and> \<not> group_resolved a g \<or> (\<exists>j < length gs. due (clock (i + 1 + j)) (gs ! j) \<and> \<not> group_resolved a (gs ! j))"
    by (auto simp: less_Suc_eq_0_disj)
  show ?case
  proof (cases "due (clock i) g \<and> \<not> group_resolved a g")
    case True
    then have "publish_group a clock g (i, calls, l) = None"
      using Cons.prems assms(1,3) by (simp add: publish_group_def create_data_payload_eq)
    with True show ?thesis unfolding split by simp
  next
    case False
    then obtain g' calls' l' where g': "publish_group a clock g (i, calls, l) = Some (g', i + 1, calls', l')"
      using Cons.prems assms(1,3) by (cases "due (clock i) g") (auto simp: publish_group_def create_data_payload_eq Let_def)
    have "thread (publish_group a clock) (g # gs) (i, calls, l) = None \<longleftrightarrow>
        thread (publish_group a clock) gs (i + 1, calls', l') = None"
      by (simp add: g' bind_None_iff split: prod.splits)
    moreover have "thread (publish_group a clock) gs (i + 1, calls', l') = None \<longleftrightarrow>
        (\<exists>j < length gs. due (clock (i + 1 + j)) (gs ! j) \<and> \<not> group_resolved a (gs ! j))"
      using Cons.IH [of "i + 1" calls' l'] Cons.prems by simp
    moreover have "(due (clock i) g \<and> \<not> group_resolved a g \<or> Q) \<longleftrightarrow> Q" for Q using False by blast
    ultimately show ?thesis by (simp only: split)
  qed
qed simp

lemma publish_groups_None:
  assumes "agent_ok a" and "monitor_id a \<noteq> None"
  shows "publish_groups clock a = None \<longleftrightarrow>
    (\<exists>gs j. walk (sensorgroup_table a) = Some gs \<and> j < length gs \<and> due (clock j) (gs ! j) \<and> \<not> group_resolved a (gs ! j))"
proof -
  note ready = agent_okD(2) [OF assms(1)]
  from assms(2) obtain ident where id: "monitor_id a = Some ident" by blast
  from walk_ok [OF ready] obtain gs where gs: "walk (sensorgroup_table a) = Some gs" "set gs = ran (groups_of a)"
    by (auto simp: groups_of_def)
  have ok: "\<forall>g \<in> set gs. group_ok g" using agent_okD(4) [OF assms(1)] unfolding gs(2) ran_def by blast
  let ?th = "thread (publish_group a clock) gs (0, [], overruns a)"
  have "publish_groups clock a = None \<longleftrightarrow> ?th = None"
  proof (cases ?th)
    case None
    from walk_update_thread(1) [OF ready gs(1) None] None show ?thesis by (simp add: publish_groups_def)
  next
    case (Some r)
    then obtain vs' st where "?th = Some (vs', st)" by (cases r) auto
    from walk_update_thread(2) [OF ready gs(1) this] Some show ?thesis by (auto simp: publish_groups_def split: prod.splits)
  qed
  with thread_publish_None [OF assms(1) ok id, of clock 0 "[]" "overruns a"] gs(1) show ?thesis by simp
qed

text \<open>
  C8: One turn of the publishing loop. As long as every listed id is the id of a sensor, the loop
  returns; it publishes the message of each group that is due at its visit, in the order of
  the table, and of no other, and sets the time of the last message of exactly those; the
  sensors, the lists of the groups and the configuration stay.
\<close>

theorem publish_due_groups:
  assumes "agent_ok a" and "references_ok a" and "monitor_id a = Some ident"
  shows "\<exists>gs a'. walk (sensorgroup_table a) = Some gs \<and>
    publish_groups clock a =
      Some (concat (map (\<lambda>(i, g). if due (clock i) g then [message a ident g] else []) (enumerate 0 gs)), a') \<and>
    walk (sensorgroup_table a') = Some (map (\<lambda>(i, g). published (clock i) g) (enumerate 0 gs)) \<and>
    agent_ok a' \<and> references_ok a' \<and> sensors_of a' = sensors_of a \<and> same_control a' a"
  using assms by (rule publish_groups_defined)

theorem publish_due_groups_witness:
  "\<exists>a'. publish_groups (\<lambda>i. \<lparr>tv_sec = 5, tv_usec = 0\<rparr>) (populated [] [plain_group ''g'' []]) =
     Some ([Publish ''adms/v2/monitor-agent/monitor/g'' ''[]'' 3 0], a') \<and> agent_ok a'"
proof -
  let ?g = "plain_group ''g'' []" and ?a = "populated [] [plain_group ''g'' []]" and ?t = "\<lparr>tv_sec = 5, tv_usec = 0\<rparr>"
  have p: "agent_ok ?a" "sensors_of ?a = Map.empty" "groups_of ?a = [''g'' \<mapsto> ?g]"
    using populated_ok [of "[]" "[?g]"] by simp_all
  have m: "monitor_id ?a = Some ''monitor''" "mqtt_qos ?a = 0" by (simp_all add: populated_def started_agent_def Let_def)
  have r: "references_ok ?a" by (auto simp: references_ok_def group_resolved_def p(3) split: if_splits)
  have d: "due ?t ?g" by code_simp
  have x: "message ?a ''monitor'' ?g = Publish ''adms/v2/monitor-agent/monitor/g'' ''[]'' 3 0"
    by (simp add: message_def data_text_def data_topic_def DATA_TOPIC_PREFIX_def m bracketed_def)
  from publish_due_groups [OF p(1) r m(1), of "\<lambda>i. ?t"] obtain gs a' where
    gs: "walk (sensorgroup_table ?a) = Some gs" and pub: "publish_groups (\<lambda>i. ?t) ?a =
      Some (concat (map (\<lambda>(i, g). if due ?t g then [message ?a ''monitor'' g] else []) (enumerate 0 gs)), a')"
      "agent_ok a'" by auto
  have "walk (sensorgroup_table ?a) = Some [?g]" by code_simp
  with gs have "gs = [?g]" by simp
  with pub d x show ?thesis by auto
qed

text \<open>
  When a group is due. With a clock that has not been set back, a group is due exactly when
  its publish rate, in milliseconds, has passed since its last message, without any wrap-around
  in the comparison; when the clock has been set back the difference wraps around, and the group
  is due at once unless the rate exceeds what is left to two to the power of 64.
\<close>

theorem due_after_rate:
  "due now g \<longleftrightarrow>
    (let last = unat (milliseconds (last_publish_time g)); current = unat (milliseconds now) in
     if last \<le> current then last + unat (publish_rate g) \<le> current
     else last + unat (publish_rate g) \<le> current + 2 ^ 64)"
proof -
  let ?l = "milliseconds (last_publish_time g)" and ?c = "milliseconds now"
  have r: "unat (ucast (publish_rate g) :: u64) = unat (publish_rate g)" 
    using unat_u32 [of "publish_rate g"] by (simp add: unsigned_ucast_eq take_bit_nat_eq_self)
  have "due now g \<longleftrightarrow> unat (publish_rate g) \<le> unat (?c - ?l)"
    by (simp add: due_def word_le_nat_alt r)
  moreover have "unat (?c - ?l) = (if unat ?l \<le> unat ?c then unat ?c - unat ?l else unat ?c + 2 ^ 64 - unat ?l)"
    by (simp add: unat_sub_if')
  moreover have "unat ?l < 2 ^ 64" by (rule unat_u64)
  ultimately show ?thesis by (auto simp: Let_def)
qed

end
