(* ===== verification/Lifecycle.thy ===== *)
theory Lifecycle
  imports MainLoop
begin

unbundle bit_operations_syntax

text \<open>
  The life of the program: the service of \<^verbatim>\<open>common/adeptnessSvc.c\<close> with its server, the
  start-up, the main loop and the end of \<open>main\<close> in \<^verbatim>\<open>CanMonitor.c\<close>. The requests of the
  clients, the signals and the callback of the MQTT library run beside the main loop without
  any lock; \<open>step\<close> interleaves them with the parts of an iteration. A race inside one
  part is not modelled here; \<open>Interleaving\<close> has the one of the loops over the tables.
\<close>

section \<open>The service and its server\<close>

record rest_server =
  rs_port :: u16
  rs_handlers :: "service_handler handler_list_entry list"

record adeptness_service =
  svc_name :: cstring
  svc_version :: cstring
  svc_port :: u16
  svc_daemon :: "nat option"

definition ADEPTNESS_HTTP_SERVER_FAIL :: int where "ADEPTNESS_HTTP_SERVER_FAIL = 5"
definition ADEPTNESS_NO_DEVICE_NAME :: int where "ADEPTNESS_NO_DEVICE_NAME = 6"
definition ADEPTNESS_NO_DEVICE_VERSION :: int where "ADEPTNESS_NO_DEVICE_VERSION = 7"

text \<open>
  The error code and the service; \<open>implementation data\<close> is the address of a variable of
  \<open>main\<close>, never NULL. The port is truncated to 16 bits.
\<close>

definition adeptness_service_new :: "cstring \<Rightarrow> cstring \<Rightarrow> u32 \<Rightarrow> int \<times> adeptness_service option" where
  "adeptness_service_new name version port =
     (if name = [] then (ADEPTNESS_NO_DEVICE_NAME, None)
      else if version = [] then (ADEPTNESS_NO_DEVICE_VERSION, None)
      else (0, Some \<lparr>svc_name = name, svc_version = version, svc_port = ucast port, svc_daemon = None\<rparr>))"

definition adeptness_rest_server_destroy :: "nat \<Rightarrow> rest_server heap \<Rightarrow> rest_server heap option" where
  "adeptness_rest_server_destroy svr h = do { s \<leftarrow> deref h svr; hfree svr h }"

text \<open>\<open>starts\<close>: whether \<open>MHD_start_daemon\<close> succeeds; if not, the server is released again.\<close>

definition adeptness_rest_server_create :: "u16 \<Rightarrow> bool \<Rightarrow> rest_server heap \<Rightarrow> (int \<times> nat option \<times> rest_server heap) option" where
  "adeptness_rest_server_create port starts h = (let (svr, h1) = alloc \<lparr>rs_port = port, rs_handlers = []\<rparr> h in
     if starts then Some (0, Some svr, h1)
     else do { h2 \<leftarrow> adeptness_rest_server_destroy svr h1; Some (ADEPTNESS_HTTP_SERVER_FAIL, None, h2) })"

definition adeptness_service_start ::
  "adeptness_service \<Rightarrow> bool \<Rightarrow> rest_server heap \<Rightarrow> (int \<times> adeptness_service \<times> rest_server heap) option" where
  "adeptness_service_start svc starts h = do {
     (code, daemon, h1) \<leftarrow> adeptness_rest_server_create (svc_port svc) starts h;
     let svc1 = svc\<lparr>svc_daemon := daemon\<rparr>;
     case daemon of
       None \<Rightarrow> Some (code, svc1, h1)
     | Some d \<Rightarrow> do {
         svr \<leftarrow> deref h1 d;
         h2 \<leftarrow> hwrite d (svr\<lparr>rs_handlers := startConfigured\<rparr>) h1;
         Some (code, svc1, h2) } }"

text \<open>The pointer to the server stays in the service.\<close>

definition adeptness_service_stop :: "adeptness_service \<Rightarrow> rest_server heap \<Rightarrow> rest_server heap option" where
  "adeptness_service_stop svc h =
     (case svc_daemon svc of None \<Rightarrow> Some h | Some d \<Rightarrow> adeptness_rest_server_destroy d h)"

section \<open>The state of the program\<close>

text \<open>
  The parts of the main loop in their order, the end of \<open>main\<close> after the loop, and the exit
  with its code.
\<close>

datatype phase = Test | Mqtt | Http | Can | Publishing | Shutdown | Exited int

record system =
  sys :: agent
  calls :: "mqtt_call list"
  service :: adeptness_service
  servers :: "rest_server heap"
  phase :: phase

section \<open>The parts of an iteration\<close>

definition test_phase :: "system \<Rightarrow> system" where
  "test_phase s = s\<lparr>phase := (if status (sys s) \<noteq> exit_ms then Mqtt else Shutdown)\<rparr>"

text \<open>\<open>ip\<close> is what the resolver returns, \<open>connects\<close> whether the broker accepts the connection.\<close>

definition connect_and_announce :: "cstring \<Rightarrow> bool \<Rightarrow> agent \<Rightarrow> (mqtt_call list \<times> agent) option" where
  "connect_and_announce ip connects a = do {
     (rc, made, a1) \<leftarrow> initialize_mqtt (mqtt_broker_host a) (mqtt_broker_port a) (mqtt_qos a)
                         (mqtt_username a) (monitor_id a) connects a;
     (discovery_payload, a2) \<leftarrow> create_discovery_payload ip a1;
     Some (made @ [publish DISCOVERY_TOPIC discovery_payload a2], a2) }"

definition mqtt_phase :: "cstring \<Rightarrow> bool \<Rightarrow> system \<Rightarrow> system option" where
  "mqtt_phase ip connects s =
     (if restart_mqtt (sys s) \<noteq> 0 then do {
        (made, a) \<leftarrow> connect_and_announce ip connects (sys s);
        Some (s\<lparr>sys := a, calls := calls s @ clean_mqtt @ made, phase := Http\<rparr>) }
      else Some (s\<lparr>phase := Http\<rparr>))"

text \<open>
  The new service is declared inside the block: the variable \<open>service\<close> of \<open>main\<close> keeps the
  old one, whose server has just been released.
\<close>

definition http_phase :: "bool \<Rightarrow> system \<Rightarrow> system option" where
  "http_phase starts s =
     (if restart_http (sys s) \<noteq> 0 then do {
        h1 \<leftarrow> adeptness_service_stop (service s) (servers s);
        case adeptness_service_new (svc_name (service s)) ''1.0'' (rest_server_port (sys s)) of
          (code, None) \<Rightarrow> Some (s\<lparr>servers := h1, phase := Exited code\<rparr>)
        | (_, Some svc) \<Rightarrow> do {
            (code, svc1, h2) \<leftarrow> adeptness_service_start svc starts h1;
            if code \<noteq> 0 then Some (s\<lparr>servers := h2, phase := Exited code\<rparr>)
            else Some (s\<lparr>servers := h2, sys := (sys s)\<lparr>restart_http := 0\<rparr>, phase := Can\<rparr>) } }
      else Some (s\<lparr>phase := Can\<rparr>))"

definition CAN_EFF_MASK :: u32 where "CAN_EFF_MASK = 0x1FFFFFFF"
definition CAN_SFF_MASK :: u32 where "CAN_SFF_MASK = 0x7FF"

text \<open>What \<open>read\<close> delivers: the number of bytes, or a negative number, and the frame.\<close>

definition can_phase :: "int \<Rightarrow> can_frame \<Rightarrow> timeval \<Rightarrow> system \<Rightarrow> system option" where
  "can_phase nbytes frame current_time s =
     (if status (sys s) = configured \<or> status (sys s) = running then do {
        let ExtFlag = can_read nbytes (frame_id frame);
        a \<leftarrow> (if ExtFlag = 2 then
               parse_can_frame (frame\<lparr>frame_id := frame_id frame AND CAN_EFF_MASK\<rparr>) (ucast (tv_sec current_time)) (sys s)
             else if ExtFlag = 1 then
               parse_can_frame (frame\<lparr>frame_id := frame_id frame AND CAN_SFF_MASK\<rparr>) (ucast (tv_sec current_time)) (sys s)
             else Some (sys s));
        Some (s\<lparr>sys := a, phase := Publishing\<rparr>) }
      else Some (s\<lparr>phase := Publishing\<rparr>))"

definition publish_phase :: "(nat \<Rightarrow> timeval) \<Rightarrow> system \<Rightarrow> system option" where
  "publish_phase clock s =
     (if status (sys s) = running then do {
        (made, a) \<leftarrow> publish_groups clock (sys s);
        Some (s\<lparr>sys := a, calls := calls s @ made, phase := Test\<rparr>) }
      else Some (s\<lparr>phase := Test\<rparr>))"

text \<open>After the loop: both tables, the connection, the server.\<close>

definition shutdown_phase :: "system \<Rightarrow> system option" where
  "shutdown_phase s = do {
     h1 \<leftarrow> hts_free (sensors_table (sys s));
     h2 \<leftarrow> htsg_free (sensorgroup_table (sys s));
     h3 \<leftarrow> adeptness_service_stop (service s) (servers s);
     Some (s\<lparr>sys := (sys s)\<lparr>sensors_table := \<lparr>st_table = None, st_heap = h1\<rparr>,
                           sensorgroup_table := \<lparr>st_table = None, st_heap = h2\<rparr>\<rparr>,
             calls := calls s @ clean_mqtt, servers := h3, phase := Exited 0\<rparr>) }"

section \<open>The start-up\<close>

record settings =
  set_rest_port :: u32
  set_broker_host :: cstring
  set_broker_port :: u32
  set_qos :: u32
  set_id :: cstring
  set_username :: cstring

text \<open>
  From the configuration to the entry of the main loop: the exit code of a failed start, or
  the system. The tables are created last, after the service has been started.
\<close>

definition boot :: "cstring \<Rightarrow> settings \<Rightarrow> cstring \<Rightarrow> bool \<Rightarrow> bool \<Rightarrow> (int + system) option" where
  "boot svcname cfg ip starts connects =
     (case adeptness_service_new svcname ''1.0'' (set_rest_port cfg) of
        (code, None) \<Rightarrow> Some (Inl code)
      | (_, Some svc) \<Rightarrow> do {
          (code, svc1, h) \<leftarrow> adeptness_service_start svc starts empty_heap;
          if code \<noteq> 0 then Some (Inl code)
          else do {
            let a = started_agent (set_rest_port cfg) (set_broker_host cfg) (set_broker_port cfg)
                      (set_qos cfg) (set_id cfg) (set_username cfg);
            (made, a1) \<leftarrow> connect_and_announce ip connects a;
            Some (Inr \<lparr>sys = a1, calls = made, service = svc1, servers = h, phase = Test\<rparr>) } })"

section \<open>The steps\<close>

definition looping :: "phase \<Rightarrow> bool" where
  "looping p \<longleftrightarrow> p \<in> {Test, Mqtt, Http, Can, Publishing}"

text \<open>
  The environment: a request, the signal SIGINT, the
  callback of a lost connection. They happen while the main loop is running. A step of the
  program is one part of an iteration; where a part is undefined there is no step.
\<close>

inductive env_step :: "system \<Rightarrow> system \<Rightarrow> bool" where
  request: "looping (phase s) \<Longrightarrow> http_handler env req (sys s) = Some (r, a) \<Longrightarrow> env_step s (s\<lparr>sys := a\<rparr>)"
| interrupt: "looping (phase s) \<Longrightarrow> env_step s (s\<lparr>sys := (sys s)\<lparr>status := exit_ms\<rparr>\<rparr>)"
| lost: "looping (phase s) \<Longrightarrow> connlost (sys s) = (made, a) \<Longrightarrow> env_step s (s\<lparr>sys := a, calls := calls s @ made\<rparr>)"

inductive main_step :: "system \<Rightarrow> system \<Rightarrow> bool" where
  test: "phase s = Test \<Longrightarrow> main_step s (test_phase s)"
| mqtt: "phase s = Mqtt \<Longrightarrow> mqtt_phase ip connects s = Some t \<Longrightarrow> main_step s t"
| http: "phase s = Http \<Longrightarrow> http_phase starts s = Some t \<Longrightarrow> main_step s t"
| can: "phase s = Can \<Longrightarrow> can_phase nbytes frame current_time s = Some t \<Longrightarrow> main_step s t"
| publishing: "phase s = Publishing \<Longrightarrow> publish_phase clock s = Some t \<Longrightarrow> main_step s t"
| shutdown: "phase s = Shutdown \<Longrightarrow> shutdown_phase s = Some t \<Longrightarrow> main_step s t"

definition step :: "system \<Rightarrow> system \<Rightarrow> bool" where
  "step s t \<longleftrightarrow> env_step s t \<or> main_step s t"

definition booted :: "system \<Rightarrow> bool" where
  "booted s \<longleftrightarrow> (\<exists>svcname cfg ip starts connects. boot svcname cfg ip starts connects = Some (Inr s))"

inductive_cases main_step_elims: "main_step s t"
inductive_simps env_step_simps: "env_step s t"

section \<open>The invariant of the system\<close>

text \<open>
  What holds from the entry of the main loop until the end of \<open>main\<close>: the agent is well
  formed and identified, its status is never the error status, the service of \<open>main\<close> has
  a server, released or not, and exactly one server is alive, with all its handlers.
\<close>

definition one_server :: "system \<Rightarrow> bool" where
  "one_server s \<longleftrightarrow> (\<exists>d e svr. svc_daemon (service s) = Some d \<and> d \<le> e \<and> e < next_addr (servers s) \<and>
     cells (servers s) = [e \<mapsto> svr] \<and> rs_handlers svr = startConfigured)"

definition system_ok :: "system \<Rightarrow> bool" where
  "system_ok s \<longleftrightarrow> (\<forall>code. phase s \<noteq> Exited code) \<longrightarrow>
     agent_ok (sys s) \<and> status (sys s) \<noteq> error_ms \<and> monitor_id (sys s) \<noteq> None \<and>
     mqtt_username (sys s) \<noteq> None \<and> mqtt_broker_host (sys s) \<noteq> None \<and>
     svc_name (service s) \<noteq> [] \<and> one_server s"

lemma one_server_daemon: "one_server s \<Longrightarrow> \<exists>d < next_addr (servers s). svc_daemon (service s) = Some d"
  by (auto simp: one_server_def)

lemma one_server_cong: "service t = service s \<Longrightarrow> servers t = servers s \<Longrightarrow> one_server t = one_server s"
  by (simp add: one_server_def)

text \<open>The server of the service of \<open>main\<close> has been released; its address is not handed out again.\<close>

definition server_released :: "system \<Rightarrow> bool" where
  "server_released s \<longleftrightarrow> (\<exists>d. svc_daemon (service s) = Some d \<and> cells (servers s) d = None \<and> d < next_addr (servers s))"

lemma connect_frame:
  assumes "connect_and_announce ip connects a = Some (made, b)"
  shows "\<exists>q l. b = a\<lparr>mqtt_qos := q, restart_mqtt := (if connects then 0 else restart_mqtt a), overruns := l\<rparr>"
  using assms
  by (cases a) (auto simp: connect_and_announce_def initialize_mqtt_def create_discovery_payload_def log_overrun_def
      bind_Some_iff Let_def split: if_splits)

lemma connect_defined:
  assumes "mqtt_broker_host a \<noteq> None" and "mqtt_username a \<noteq> None" and "monitor_id a \<noteq> None"
  shows "connect_and_announce ip connects a \<noteq> None"
  using assms
  by (auto simp: connect_and_announce_def initialize_mqtt_def create_discovery_payload_def log_overrun_def Let_def)

text \<open>Starting a service adds one live server and keeps the addresses of the others.\<close>

lemma service_start_ok:
  "\<exists>code svc1 h1. adeptness_service_start svc starts h = Some (code, svc1, h1) \<and>
     next_addr h1 = Suc (next_addr h) \<and> (\<forall>d < next_addr h. cells h1 d = cells h d) \<and>
     svc1 = svc\<lparr>svc_daemon := (if starts then Some (next_addr h) else None)\<rparr> \<and> (code = 0 \<longleftrightarrow> starts) \<and>
     (starts \<longrightarrow> (\<exists>svr. cells h1 = (cells h)(next_addr h \<mapsto> svr) \<and> rs_handlers svr = startConfigured))"
  by (auto simp: adeptness_service_start_def adeptness_rest_server_create_def adeptness_rest_server_destroy_def
      alloc_def hfree_def hwrite_def deref_def ADEPTNESS_HTTP_SERVER_FAIL_def
      intro!: exI [of _ "\<lparr>rs_port = svc_port svc, rs_handlers = startConfigured\<rparr>"])

lemma service_stop_eq:
  "svc_daemon svc = Some d \<Longrightarrow> adeptness_service_stop svc h =
    (if cells h d = None then None else Some (h\<lparr>cells := (cells h)(d := None)\<rparr>))"
  by (auto simp: adeptness_service_stop_def adeptness_rest_server_destroy_def deref_def hfree_def split: option.splits)

lemma http_phase_frame:
  assumes "http_phase starts s = Some t"
  shows "service t = service s \<and> next_addr (servers s) \<le> next_addr (servers t) \<and>
    (\<forall>d < next_addr (servers s). cells (servers s) d = None \<or>
       restart_http (sys s) \<noteq> 0 \<and> svc_daemon (service s) = Some d \<longrightarrow> cells (servers t) d = None) \<and>
    (\<exists>f. sys t = (sys s)\<lparr>restart_http := f\<rparr>)"
proof (cases "restart_http (sys s) \<noteq> 0")
  case True
  with assms obtain h1 where h1: "adeptness_service_stop (service s) (servers s) = Some h1"
    by (auto simp: http_phase_def bind_Some_iff)
  then have h: "next_addr h1 = next_addr (servers s)" 
    "\<And>d. cells (servers s) d = None \<or> svc_daemon (service s) = Some d \<Longrightarrow> cells h1 d = None"
    by (auto simp: adeptness_service_stop_def adeptness_rest_server_destroy_def hfree_def bind_Some_iff split: option.splits if_splits)
  have id: "sys s = (sys s)\<lparr>restart_http := restart_http (sys s)\<rparr>" by simp
  obtain code osvc where new: "adeptness_service_new (svc_name (service s)) ''1.0'' (rest_server_port (sys s)) = (code, osvc)"
    by fastforce
  show ?thesis
  proof (cases osvc)
    case None
    with assms True h1 new have "t = s\<lparr>servers := h1, phase := Exited code\<rparr>" by (simp add: http_phase_def)
    with h show ?thesis by (auto intro: exI [of _ "restart_http (sys s)"])
  next
    case (Some svc)
    obtain c svc1 h2 where st: "adeptness_service_start svc starts h1 = Some (c, svc1, h2)"
      "next_addr h2 = Suc (next_addr h1)" "\<forall>d < next_addr h1. cells h2 d = cells h1 d"
      using service_start_ok [of svc starts h1] by blast
    from assms True h1 new Some st(1) have
      "t = (if c \<noteq> 0 then s\<lparr>servers := h2, phase := Exited c\<rparr>
            else s\<lparr>servers := h2, sys := (sys s)\<lparr>restart_http := 0\<rparr>, phase := Can\<rparr>)"
      by (simp add: http_phase_def split: if_splits)
    with h st(2,3) show ?thesis
      by (cases "c = 0") (auto intro: exI [of _ 0] exI [of _ "restart_http (sys s)"])
  qed
next
  case False
  with assms show ?thesis by (auto simp: http_phase_def intro: exI [of _ "restart_http (sys s)"])
qed

lemma http_phase_one_server:
  assumes "one_server s" and "http_phase starts s = Some t" and "\<And>code. phase t \<noteq> Exited code"
  shows "one_server t"
proof (cases "restart_http (sys s) \<noteq> 0")
  case True
  from assms(1) obtain d e svr where s: "svc_daemon (service s) = Some d" "d \<le> e" "e < next_addr (servers s)"
    "cells (servers s) = [e \<mapsto> svr]" by (auto simp: one_server_def)
  from assms(2) True obtain h1 where h1: "adeptness_service_stop (service s) (servers s) = Some h1"
    by (auto simp: http_phase_def bind_Some_iff)
  then have h: "cells h1 = Map.empty" "next_addr h1 = next_addr (servers s)"
    by (auto simp: service_stop_eq [OF s(1)] s(4) split: if_splits)
  obtain code osvc where new: "adeptness_service_new (svc_name (service s)) ''1.0'' (rest_server_port (sys s)) = (code, osvc)"
    by fastforce
  with assms(2,3) True h1 obtain svc where svc: "osvc = Some svc" by (cases osvc) (force simp: http_phase_def)+
  obtain c svc1 h2 where st: "adeptness_service_start svc starts h1 = Some (c, svc1, h2)" "next_addr h2 = Suc (next_addr h1)"
    "c = 0 \<longleftrightarrow> starts" "starts \<longrightarrow> (\<exists>svr. cells h2 = (cells h1)(next_addr h1 \<mapsto> svr) \<and> rs_handlers svr = startConfigured)"
    using service_start_ok [of svc starts h1] by blast
  have t: "t = (if c \<noteq> 0 then s\<lparr>servers := h2, phase := Exited c\<rparr>
      else s\<lparr>servers := h2, sys := (sys s)\<lparr>restart_http := 0\<rparr>, phase := Can\<rparr>)"
    using assms(2) True h1 new svc st(1) by (simp add: http_phase_def split: if_splits)
  with assms(3) [of c] have "c = 0" by (cases "c = 0") simp_all
  with t st s(1-3) h show ?thesis by (auto simp: one_server_def intro!: exI [of _ "next_addr (servers s)"])
next
  case False
  with assms(2) have "t = s\<lparr>phase := Can\<rparr>" by (simp add: http_phase_def)
  with assms(1) show ?thesis by (simp add: one_server_def)
qed

lemma phase_frames:
  "mqtt_phase ip connects s = Some t \<Longrightarrow>
     service t = service s \<and> servers t = servers s \<and> phase t = Http \<and> agent_ok (sys t) = agent_ok (sys s) \<and>
     status (sys t) = status (sys s) \<and> monitor_id (sys t) = monitor_id (sys s) \<and>
     mqtt_username (sys t) = mqtt_username (sys s) \<and> mqtt_broker_host (sys t) = mqtt_broker_host (sys s) \<and>
     restart_http (sys t) = restart_http (sys s)"
  "publish_phase clock s = Some t \<Longrightarrow> service t = service s \<and> servers t = servers s \<and> phase t = Test"
  "can_phase nbytes frame now s = Some t \<Longrightarrow> service t = service s \<and> servers t = servers s \<and> phase t = Publishing"
  "service (test_phase s) = service s" "servers (test_phase s) = servers s" "sys (test_phase s) = sys s"
  by (auto simp: mqtt_phase_def publish_phase_def can_phase_def test_phase_def bind_Some_iff Let_def
      split: if_splits dest!: connect_frame)

lemma can_phase_keeps:
  assumes "agent_ok (sys s)" and "can_phase nbytes frame now s = Some t"
  shows "agent_ok (sys t) \<and> same_control (sys t) (sys s)"
  using assms by (auto simp: can_phase_def bind_Some_iff Let_def split: if_splits dest: parse_can_frame_ok)

lemma publish_phase_keeps:
  assumes "agent_ok (sys s)" and "publish_phase clock s = Some t"
  shows "agent_ok (sys t) \<and> same_control (sys t) (sys s)"
  using assms by (auto simp: publish_phase_def bind_Some_iff split: if_splits dest: publish_groups_ok)

lemma booted_ok:
  assumes "booted s"
  shows "system_ok s \<and> heap_ok (servers s) \<and> phase s = Test \<and> status (sys s) = unconfigured \<and> \<not> server_released s \<and>
    groups_of (sys s) = Map.empty"
proof -
  from assms obtain svcname cfg ip starts connects where
    b: "boot svcname cfg ip starts connects = Some (Inr s)" by (auto simp: booted_def)
  obtain code osvc where new: "adeptness_service_new svcname ''1.0'' (set_rest_port cfg) = (code, osvc)" by fastforce
  from b new obtain svc where svc: "osvc = Some svc" "svc_name svc = svcname" "svcname \<noteq> []"
    by (cases osvc) (auto simp: boot_def adeptness_service_new_def split: if_splits)
  obtain c svc1 h where st: "adeptness_service_start svc starts empty_heap = Some (c, svc1, h)"
    "next_addr h = Suc (next_addr (empty_heap :: rest_server heap))"
    "svc1 = svc\<lparr>svc_daemon := (if starts then Some (next_addr (empty_heap :: rest_server heap)) else None)\<rparr>"
    "c = 0 \<longleftrightarrow> starts" "starts \<longrightarrow> (\<exists>svr. cells h = (cells empty_heap)(next_addr (empty_heap :: rest_server heap) \<mapsto> svr) \<and> rs_handlers svr = startConfigured)"
    using service_start_ok [of svc starts empty_heap] by blast
  let ?a = "started_agent (set_rest_port cfg) (set_broker_host cfg) (set_broker_port cfg) (set_qos cfg) (set_id cfg) (set_username cfg)"
  from b new svc st(1,4) obtain made a1 where
    starts and a1: "connect_and_announce ip connects ?a = Some (made, a1)" and
    s: "s = \<lparr>sys = a1, calls = made, service = svc1, servers = h, phase = Test\<rparr>"
    by (auto simp: boot_def bind_Some_iff Let_def split: if_splits)
  have a: "agent_ok ?a" by (rule agent_ok_started)
  have f: "status ?a = unconfigured" "monitor_id ?a \<noteq> None" "mqtt_username ?a \<noteq> None" "mqtt_broker_host ?a \<noteq> None"
    by (simp_all add: started_agent_def)
  obtain q f l where "a1 = ?a\<lparr>mqtt_qos := q, restart_mqtt := f, overruns := l\<rparr>" using connect_frame [OF a1] by blast
  with a f agent_ok_started(3) have "agent_ok a1" "groups_of a1 = Map.empty" "status a1 = unconfigured" "monitor_id a1 \<noteq> None"
      "mqtt_username a1 \<noteq> None" "mqtt_broker_host a1 \<noteq> None"
    by (simp_all add: groups_of_def)
  moreover have "heap_ok h"
    using st(1) \<open>starts\<close>
    by (auto simp: adeptness_service_start_def adeptness_rest_server_create_def alloc_def deref_def hwrite_def
        heap_ok_def empty_heap_def)
  ultimately show ?thesis
    using st(2,3,5) svc(2,3) \<open>starts\<close> by (auto simp: s system_ok_def server_released_def one_server_def empty_heap_def)
qed

lemma env_step_ok:
  assumes "env_step s t" and "system_ok s"
  shows "system_ok t \<and> service t = service s \<and> servers t = servers s \<and> phase t = phase s"
  using assms(1)
proof cases
  case (request env req r a)
  from request(2) assms(2) have ok: "agent_ok (sys s)" by (auto simp: looping_def system_ok_def)
  from http_handler_ok [OF ok request(3)] request(2) assms(2) show ?thesis
    by (auto simp: request(1) system_ok_def handled_def status_step_def looping_def one_server_def)
qed (use assms(2) in \<open>auto simp: system_ok_def looping_def connlost_def one_server_def\<close>)

lemma main_step_ok:
  assumes "main_step s t" and "system_ok s"
  shows "system_ok t"
  using assms(1)
proof cases
  case test
  then show ?thesis using assms(2) by (auto simp: system_ok_def phase_frames one_server_def)
next
  case (mqtt ip connects)
  from phase_frames(1) [OF mqtt(2)] mqtt(1) assms(2) show ?thesis by (auto simp: system_ok_def one_server_def)
next
  case (http starts)
  from http_phase_frame [OF http(2)] http_phase_one_server [OF _ http(2)] http(1) assms(2) show ?thesis by (auto simp: system_ok_def)
next
  case (can nbytes frame now)
  from can(1) assms(2) have "agent_ok (sys s)" by (simp add: system_ok_def)
  from can_phase_keeps [OF this can(2)] phase_frames(3) [OF can(2)] can(1) assms(2) show ?thesis
    by (auto simp: system_ok_def same_controlD one_server_def)
next
  case (publishing clock)
  from publishing(1) assms(2) have "agent_ok (sys s)" by (simp add: system_ok_def)
  from publish_phase_keeps [OF this publishing(2)] phase_frames(2) [OF publishing(2)] publishing(1) assms(2) show ?thesis
    by (auto simp: system_ok_def same_controlD one_server_def)
next
  case shutdown
  then show ?thesis by (auto simp: shutdown_phase_def bind_Some_iff system_ok_def)
qed

interpretation life: step_invariant booted step system_ok
  by unfold_locales (auto simp: step_def booted_ok dest: env_step_ok main_step_ok)

text \<open>Once released, the server of \<open>main\<close> stays released.\<close>

lemma release_kept:
  assumes "step s t" and "server_released s"
  shows "server_released t"
proof -
  from assms(2) obtain d where d: "svc_daemon (service s) = Some d" "cells (servers s) d = None" "d < next_addr (servers s)"
    by (auto simp: server_released_def)
  have frame: "server_released t" if "service t = service s" "servers t = servers s"
    using assms(2) that by (simp add: server_released_def)
  from assms(1) consider "env_step s t" | "main_step s t" by (auto simp: step_def)
  then show ?thesis
  proof cases
    case 1
    then show ?thesis by cases (use assms(2) in \<open>auto simp: server_released_def\<close>)
  next
    case 2
    then show ?thesis
    proof cases
      case test
      show ?thesis by (rule frame) (simp_all add: test(1) phase_frames)
    next
      case (http starts)
      from http_phase_frame [OF http(2)] d show ?thesis by (auto simp: server_released_def)
    next
      case shutdown
      with d show ?thesis by (auto simp: shutdown_phase_def bind_Some_iff service_stop_eq [OF d(1)])
    qed (auto intro!: frame dest: phase_frames(1-3))
  qed
qed

interpretation released: step_invariant "\<lambda>s. server_released s" step server_released
  by unfold_locales (auto dest: release_kept)

text \<open>
  C4: The invariant of the running program. In every state that the program reaches, whatever
  requests, signals and lost connections come in between, until it exits: the agent is well
  formed, it has an identity, a user name and a broker, and its status is never the error status;
  and exactly one server is alive, with all its handlers registered. The service of \<open>main\<close> points
  to that server, or else, after a restart of HTTP, to one that has been released before.
\<close>

theorem reachable_system:
  assumes "reach booted step s" and "\<And>code. phase s \<noteq> Exited code"
  shows "agent_ok (sys s) \<and> status (sys s) \<noteq> error_ms \<and> monitor_id (sys s) \<noteq> None \<and>
    mqtt_username (sys s) \<noteq> None \<and> mqtt_broker_host (sys s) \<noteq> None \<and>
    (\<exists>d e svr. svc_daemon (service s) = Some d \<and> d \<le> e \<and> cells (servers s) = [e \<mapsto> svr] \<and> rs_handlers svr = startConfigured)"
  using life.reach_inv [OF assms(1)] assms(2) unfolding system_ok_def one_server_def by blast

text \<open>A booted system, for the witnesses.\<close>

definition sample_settings :: settings where
  "sample_settings = \<lparr>set_rest_port = 8080, set_broker_host = ''broker'', set_broker_port = 1883, set_qos = 1,
     set_id = ''m'', set_username = ''adeptness''\<rparr>"

lemma sample_booted: "\<exists>s. boot ''svc'' sample_settings ''10.0.0.7'' True True = Some (Inr s) \<and> booted s"
proof -
  let ?svc = "\<lparr>svc_name = ''svc'', svc_version = ''1.0'', svc_port = 8080, svc_daemon = None\<rparr>"
  obtain code svc1 h where st: "adeptness_service_start ?svc True empty_heap = Some (code, svc1, h)" "code = 0"
    using service_start_ok [of ?svc True empty_heap] by auto
  let ?a = "started_agent 8080 ''broker'' 1883 1 ''m'' ''adeptness''"
  have "connect_and_announce ''10.0.0.7'' True ?a \<noteq> None"
    by (rule connect_defined) (simp_all add: started_agent_def)
  with st have "\<exists>s. boot ''svc'' sample_settings ''10.0.0.7'' True True = Some (Inr s)"
    by (auto simp: boot_def adeptness_service_new_def sample_settings_def)
  then show ?thesis unfolding booted_def by blast
qed

theorem reachable_system_witness:
  "\<exists>s. boot ''svc'' sample_settings ''10.0.0.7'' True True = Some (Inr s) \<and> agent_ok (sys s)"
proof -
  from sample_booted obtain s where s: "boot ''svc'' sample_settings ''10.0.0.7'' True True = Some (Inr s)" "booted s" by blast
  from booted_ok [OF s(2)] have "phase s = Test" by simp
  with reachable_system [OF reach_init [where init = booted and step = step, OF s(2)]] s(1) show ?thesis by auto
qed

lemma stop_None_iff:
  "svc_daemon svc = Some d \<Longrightarrow> adeptness_service_stop svc h = None \<longleftrightarrow> cells h d = None"
  by (simp add: service_stop_eq)

lemma http_phase_None:
  assumes "svc_daemon (service s) = Some d"
  shows "http_phase starts s = None \<longleftrightarrow> restart_http (sys s) \<noteq> 0 \<and> cells (servers s) d = None"
proof (cases "restart_http (sys s) \<noteq> 0 \<and> cells (servers s) d \<noteq> None")
  case True
  then obtain h1 where h1: "adeptness_service_stop (service s) (servers s) = Some h1" by (auto simp: service_stop_eq [OF assms])
  obtain code osvc where new: "adeptness_service_new (svc_name (service s)) ''1.0'' (rest_server_port (sys s)) = (code, osvc)"
    by fastforce
  obtain c svc1 h2 where "adeptness_service_start (the osvc) starts h1 = Some (c, svc1, h2)"
    using service_start_ok [of "the osvc" starts h1] by blast
  with True h1 new show ?thesis by (cases osvc) (simp_all add: http_phase_def)
qed (auto simp: http_phase_def service_stop_eq [OF assms])

lemma http_phase_starts:
  assumes "http_phase True s = Some t" and "svc_name (service s) \<noteq> []"
  shows "phase t = Can"
proof (cases "restart_http (sys s) \<noteq> 0")
  case True
  with assms(1) obtain h1 where h1: "adeptness_service_stop (service s) (servers s) = Some h1"
    by (auto simp: http_phase_def bind_Some_iff)
  from assms(2) obtain svc where new:
    "adeptness_service_new (svc_name (service s)) ''1.0'' (rest_server_port (sys s)) = (0, Some svc)"
    by (simp add: adeptness_service_new_def)
  obtain svc1 h2 where "adeptness_service_start svc True h1 = Some (0, svc1, h2)"
    using service_start_ok [of svc True h1] by auto
  with assms(1) True h1 new show ?thesis by (auto simp: http_phase_def)
qed (use assms(1) in \<open>auto simp: http_phase_def\<close>)






text \<open>
  The HTTP server can be restarted once. The restart declares a new variable \<open>service\<close>, so that
  after it the pointer of \<open>main\<close> to its server dangles for good: whatever happens then, the next
  restart and also the end of \<open>main\<close> stop the released server again, which is undefined.
\<close>

theorem second_restart_undefined:
  assumes "reach booted step s" and "phase s = Http" and "restart_http (sys s) \<noteq> 0"
    and "http_phase starts s = Some t" and "step\<^sup>*\<^sup>* t u"
  shows "(restart_http (sys u) \<noteq> 0 \<longrightarrow> http_phase starts' u = None) \<and> shutdown_phase u = None"
proof -
  from life.reach_inv [OF assms(1)] assms(2) have "one_server s" by (simp add: system_ok_def)
  from one_server_daemon [OF this] obtain d where "svc_daemon (service s) = Some d" "d < next_addr (servers s)" by blast
  with http_phase_frame [OF assms(4)] assms(3) have "server_released t" by (auto simp: server_released_def)
  with released.steps_inv [OF assms(5)] obtain e where e: "svc_daemon (service u) = Some e" "cells (servers u) e = None"
    by (auto simp: server_released_def)
  have "shutdown_phase u = None"
    by (auto simp: shutdown_phase_def bind_None_iff stop_None_iff [OF e(1)] e(2) split: option.splits)
  with http_phase_None [OF e(1), of starts'] e(2) show ?thesis by simp
qed

text \<open>A request that is handed to the specific handler with its body.\<close>

definition sample_request :: "cstring \<Rightarrow> cstring \<Rightarrow> cstring \<Rightarrow> http_request" where
  "sample_request m url payload = \<lparr>req_method = m, req_url = ''/adms/v2/'' @ url, req_args = [], req_body = [(payload, CHR 0x00)]\<rparr>"

definition sample_env :: surroundings where
  "sample_env = \<lparr>host_ip = ''10.0.0.7'', counters = idle_counters\<rparr>"

definition setup_payload :: cstring where
  \<open>setup_payload = ''{"endpoint-type":"http","endpoint-config":{"ip":"i","port":"0"}}''\<close>

lemma setup_request:
  "http_handler sample_env (sample_request ''PUT'' URL_SETUP setup_payload) a =
     Some (bare 200, a\<lparr>rest_server_port := 0, restart_http := 1\<rparr>)"
proof -
  let ?obj = "[(''endpoint-type'', JString ''http''), (''endpoint-config'', JObject [(''ip'', JString ''i''), (''port'', JString ''0'')])]"
  have p: "payload_object (Some setup_payload) = Some (Some ?obj)" by code_simp
  have z: "double_to_i32 (json_object_get_number (Some [(''ip'', JString ''i''), (''port'', JString ''0'')]) ''port'') = Some 0"
    by (simp add: json_object_get_number_def)
  have u: "update_microservice_configuration (Some setup_payload) a =
      Some (OK, Some [], a\<lparr>rest_server_port := 0, restart_http := 1\<rparr>)"
    unfolding update_microservice_configuration_def p
    by (simp add: z clear_values_def)
  have "checked_payload (request_body [(setup_payload, CHR 0x00)]) = Some (Inr setup_payload)"
    by (rule checked_payload_sent [OF p]) (simp_all add: setup_payload_def)
  then show ?thesis
    by (simp add: http_handler_def sample_request_def method_from_string_def dispatch_startConfigured [OF _ _ refl]
        URL_SETUP_def normalizeUrl.simps adeptness_specific_handler_def myAdeptnessService_put_handler_def u)
qed

theorem second_restart_undefined_witness:
  "\<exists>s0 t. boot ''svc'' sample_settings ''10.0.0.7'' True True = Some (Inr s0) \<and>
    step\<^sup>*\<^sup>* s0 t \<and> phase t = Can \<and> shutdown_phase t = None"
proof -
  from sample_booted obtain s0 where s0: "boot ''svc'' sample_settings ''10.0.0.7'' True True = Some (Inr s0)" "booted s0" by blast
  from booted_ok [OF s0(2)] have b: "phase s0 = Test" "status (sys s0) = unconfigured" by simp_all
  let ?a = "(sys s0)\<lparr>rest_server_port := 0, restart_http := 1\<rparr>"
  let ?s1 = "s0\<lparr>sys := ?a\<rparr>" and ?s2 = "s0\<lparr>sys := ?a, phase := Mqtt\<rparr>"
  have "step s0 ?s1" unfolding step_def
    by (intro disjI1 request [OF _ setup_request]) (simp_all add: b looping_def)
  moreover have "step ?s1 ?s2" using main_step.test [of ?s1] b by (simp add: step_def test_phase_def)
  moreover have "mqtt_phase ''10.0.0.7'' True ?s2 \<noteq> None"
    using booted_ok [OF s0(2)] connect_defined [of ?a "''10.0.0.7''" True]
    by (auto simp: mqtt_phase_def bind_None_iff system_ok_def)
  then obtain s3 where s3: "mqtt_phase ''10.0.0.7'' True ?s2 = Some s3" "phase s3 = Http"
      "restart_http (sys s3) = 1" "service s3 = service s0" "servers s3 = servers s0"
    using phase_frames(1) by fastforce
  have "step ?s2 s3" using main_step.mqtt [of ?s2, OF _ s3(1)] by (simp add: step_def)
  ultimately have r: "step\<^sup>*\<^sup>* s0 s3" by (meson \<open>step ?s2 s3\<close> rtranclp.rtrancl_into_rtrancl rtranclp.rtrancl_refl)
  have reach: "reach booted step s3"
    using r by (induction rule: rtranclp_induct) (auto intro: reach_init s0(2) reach_step)
  from booted_ok [OF s0(2)] have b0: "one_server s3" "\<not> server_released s3" and d3: "svc_name (service s3) \<noteq> []"
    by (simp_all add: system_ok_def server_released_def one_server_def s3(4,5))
  from one_server_daemon [OF b0(1)] b0(2) obtain d where d: "svc_daemon (service s3) = Some d" "cells (servers s3) d \<noteq> None"
    by (auto simp: server_released_def)
  then obtain t where t: "http_phase True s3 = Some t" using http_phase_None [OF d(1), of True] by auto
  with http_phase_starts [OF t d3] have can: "phase t = Can" by simp
  have "step s3 t" using main_step.http [OF s3(2) t] by (simp add: step_def)
  with r s0(1) can second_restart_undefined [OF reach s3(2) _ t, of t True] s3(3) show ?thesis
    by (auto intro: rtranclp.rtrancl_into_rtrancl)
qed

section \<open>The signal and the requests\<close>

text \<open>An accepted POST sets the status to configured unless the agent is running.\<close>

lemma post_marks:
  assumes "agent_ok a" and "req_method req = ''POST''" and "http_handler env req a = Some (r, a')" and "http_status r = 200"
  shows "status a' = (if status a = running then running else configured)"
proof -
  let ?u = "req_url req"
  have m: "method_from_string (req_method req) = POST" using assms(2) by (simp add: method_from_string_def)
  have ne: "?u \<noteq> [] \<and> ?u \<noteq> ''/''"
    using assms(3,4) m by (auto simp: http_handler_def dispatch_def bare_def)
  from assms(3,4) dispatch_startConfigured [OF ne [THEN conjunct1] ne [THEN conjunct2] refl, of POST] m
  have s: "adeptness_specific_handler (drop 9 (normalizeUrl ?u)) POST (request_queries (req_args req))
      (request_body (req_body req)) a = Some (r, a')"
    by (auto simp: http_handler_def bare_def Let_def split: option.splits if_splits)
  then obtain q where q: "checked_payload (request_body (req_body req)) = Some q"
    by (auto simp: adeptness_specific_handler_def bind_Some_iff)
  obtain p where p: "checked_payload (request_body (req_body req)) = Some (Inr p)"
  proof (cases q)
    case (Inl code)
    with checked_payload_400 [of "request_body (req_body req)" code] s q assms(4) show ?thesis
      by (auto simp: adeptness_specific_handler_def bare_def)
  qed (use q that in simp)
  with s obtain resp v b where h: "myAdeptnessService_post_handler (drop 9 (normalizeUrl ?u)) (Some p)
      (request_queries (req_args req)) a = Some (resp, v, b)"
    by (auto simp: adeptness_specific_handler_def bind_Some_iff)
  with s p assms(4) have "resp = OK \<and> b = a'"
    by (cases resp) (auto simp: adeptness_specific_handler_def bind_Some_iff bare_def json_reply_def)
  with h have "myAdeptnessService_post_handler (drop 9 (normalizeUrl ?u)) (Some p)
      (request_queries (req_args req)) a = Some (OK, v, a')" by simp
  then consider (sensor) "create_sensors_configuration (Some p) a = Some (OK, v, a')"
    | (group) "create_sensorgroups_subscription (Some p) a = Some (OK, v, a')"
    by (auto simp: myAdeptnessService_post_handler_def split: if_splits)
  then show ?thesis
  proof cases
    case sensor
    from assms(1) sensor show ?thesis by (rule create_sensors_cases) simp_all
  next
    case group
    from assms(1) group show ?thesis
      by (rule create_groups_cases) (auto simp: sensors_kept_def same_controlD)
  qed
qed

text \<open>
  C32: An accepted POST cancels the signal. The handler of SIGINT only sets the status to
  \<open>exit_ms\<close>; a POST that creates a sensor or a group before the main loop tests the status
  again sets it to configured, and the loop goes on instead of ending.
\<close>

theorem post_cancels_interrupt:
  assumes "reach booted step s" and "phase s = Test" and "status (sys s) = exit_ms"
    and "req_method req = ''POST''"
    and "http_handler env req (sys s) = Some (r, a)" and "http_status r = 200"
  shows "phase (test_phase s) = Shutdown \<and> step s (s\<lparr>sys := a\<rparr>) \<and> phase (test_phase (s\<lparr>sys := a\<rparr>)) = Mqtt"
proof -
  from life.reach_inv [OF assms(1)] assms(2) have "agent_ok (sys s)" by (simp add: system_ok_def)
  from post_marks [OF this assms(4,5,6)] assms(3) have "status a = configured" by simp
  moreover have "step s (s\<lparr>sys := a\<rparr>)" unfolding step_def
    using request [OF _ assms(5)] assms(2) by (simp add: looping_def)
  ultimately show ?thesis using assms(2,3) by (simp add: test_phase_def)
qed

definition group_payload :: cstring where
  \<open>group_payload = ''{"sensorgroup-id":"g","publish-rate":"","sensor-list":[]}''\<close>

lemma group_request:
  assumes "agent_ok a" and "groups_of a ''g'' = None"
  shows "\<exists>a'. http_handler sample_env (sample_request ''POST'' URL_SENSORGROUPS group_payload) a = Some (bare 200, a')"
proof -
  let ?obj = "[(''sensorgroup-id'', JString ''g''), (''publish-rate'', JString []), (''sensor-list'', JArray [])]"
  have p: "payload_object (Some group_payload) = Some (Some ?obj)" by code_simp
  let ?g = "\<lparr>sg_id = ''g'', publish_rate = 0, sensorcount = 0, sensor_list = [], last_tv_sec = 0, last_tv_usec = 0\<rparr>"
  note ready = agent_okD(2) [OF assms(1)]
  have get: "htsg_get (sensorgroup_table a) ''g'' = Some None"
    using htsg_get_ok [OF ready] entry_lookup [OF ready] assms(2) by (simp add: groups_of_def)
  obtain t where "htsg_new ?g (sensorgroup_table a) = Some t"
    using htsg_new_ok [OF ready, of ?g] assms(2) by (auto simp: groups_of_def)
  with p get have c: "\<exists>v a'. create_sensorgroups_subscription (Some group_payload) a = Some (OK, v, a')"
    by (simp add: create_sensorgroups_subscription_def json_object_get_number_def json_object_get_array_def clear_values_def)
  have "checked_payload (request_body [(group_payload, CHR 0x00)]) = Some (Inr group_payload)"
    by (rule checked_payload_sent [OF p]) (simp_all add: group_payload_def)
  then show ?thesis using c
    by (auto simp: http_handler_def sample_request_def method_from_string_def dispatch_startConfigured [OF _ _ refl]
        url_defs normalizeUrl.simps adeptness_specific_handler_def myAdeptnessService_post_handler_def)
qed

theorem post_cancels_interrupt_witness:
  "\<exists>s0 s a. boot ''svc'' sample_settings ''10.0.0.7'' True True = Some (Inr s0) \<and> step s0 s \<and>
    phase (test_phase s) = Shutdown \<and> phase (test_phase (s\<lparr>sys := a\<rparr>)) = Mqtt \<and> step s (s\<lparr>sys := a\<rparr>)"
proof -
  from sample_booted obtain s0 where s0: "boot ''svc'' sample_settings ''10.0.0.7'' True True = Some (Inr s0)" "booted s0" by blast
  from booted_ok [OF s0(2)] have b: "phase s0 = Test" "agent_ok (sys s0)" "groups_of (sys s0) = Map.empty"
    by (simp_all add: system_ok_def)
  let ?s = "s0\<lparr>sys := (sys s0)\<lparr>status := exit_ms\<rparr>\<rparr>"
  have st: "step s0 ?s" using interrupt [of s0] b(1) by (simp add: step_def looping_def)
  have r: "reach booted step ?s" using st by (blast intro: reach_step reach_init s0(2))
  have "agent_ok (sys ?s)" "groups_of (sys ?s) ''g'' = None" using b(2,3) by (simp_all add: groups_of_def)
  from group_request [OF this] obtain a where
    h: "http_handler sample_env (sample_request ''POST'' URL_SENSORGROUPS group_payload) (sys ?s) = Some (bare 200, a)" by blast
  have "phase (test_phase ?s) = Shutdown \<and> step ?s (?s\<lparr>sys := a\<rparr>) \<and> phase (test_phase (?s\<lparr>sys := a\<rparr>)) = Mqtt"
    by (rule post_cancels_interrupt [OF r _ _ _ h]) (simp_all add: b(1) sample_request_def bare_def)
  with s0(1) st show ?thesis by blast
qed

end
