(* ===== verification/JsonAccess.thy ===== *)
theory JsonAccess
  imports JsonSerialize
begin

text \<open>
  The rest of the interface of \<^verbatim>\<open>common/parson.c\<close> to a value: its type, the accessors by index,
  the setters of each type, clearing, and the variants that write indented text or read and
  write files. The contents of a file, and whether it can be opened, written and closed, are
  parameters.
\<close>

section \<open>Types\<close>

datatype json_value_type = JSONError | JSONNull | JSONString | JSONNumber | JSONObject | JSONArray | JSONBoolean

fun json_value_get_type :: "json option \<Rightarrow> json_value_type" where
  "json_value_get_type None = JSONError"
| "json_value_get_type (Some JNull) = JSONNull"
| "json_value_get_type (Some (JString s)) = JSONString"
| "json_value_get_type (Some (JNumber d)) = JSONNumber"
| "json_value_get_type (Some (JObject obj)) = JSONObject"
| "json_value_get_type (Some (JArray xs)) = JSONArray"
| "json_value_get_type (Some (JBoolean b)) = JSONBoolean"

definition json_type :: "json option \<Rightarrow> json_value_type" where "json_type v = json_value_get_type v"
definition json_object :: "json option \<Rightarrow> json_object option" where "json_object v = json_value_get_object v"
definition json_array :: "json option \<Rightarrow> json list option" where "json_array v = json_value_get_array v"
definition json_string :: "json option \<Rightarrow> cstring option" where "json_string v = json_value_get_string v"
definition json_number :: "json option \<Rightarrow> double" where "json_number v = json_value_get_number v"
definition json_boolean :: "json option \<Rightarrow> int" where "json_boolean v = json_value_get_boolean v"

section \<open>New values\<close>

definition json_value_init_object :: "json option" where "json_value_init_object = Some (JObject [])"
definition json_value_init_array :: "json option" where "json_value_init_array = Some (JArray [])"

definition json_value_init_boolean :: "int \<Rightarrow> json option" where
  "json_value_init_boolean boolean = Some (JBoolean (boolean \<noteq> 0))"

definition json_value_init_null :: "json option" where "json_value_init_null = Some JNull"

section \<open>Objects and arrays by index\<close>

definition json_object_get_count :: "json_object option \<Rightarrow> nat" where
  "json_object_get_count object = (case object of None \<Rightarrow> 0 | Some obj \<Rightarrow> length obj)"

definition json_object_get_name :: "json_object option \<Rightarrow> nat \<Rightarrow> cstring option" where
  "json_object_get_name object index =
     (case object of
        None \<Rightarrow> None
      | Some obj \<Rightarrow> if json_object_get_count object \<le> index then None else Some (fst (obj ! index)))"

definition json_object_get_value_at :: "json_object option \<Rightarrow> nat \<Rightarrow> json option" where
  "json_object_get_value_at object index =
     (case object of
        None \<Rightarrow> None
      | Some obj \<Rightarrow> if json_object_get_count object \<le> index then None else Some (snd (obj ! index)))"

definition json_object_has_value :: "json_object option \<Rightarrow> cstring \<Rightarrow> bool" where
  "json_object_has_value object name \<longleftrightarrow> json_object_get_value object name \<noteq> None"

definition json_object_has_value_of_type :: "json_object option \<Rightarrow> cstring \<Rightarrow> json_value_type \<Rightarrow> bool" where
  "json_object_has_value_of_type object name ty \<longleftrightarrow>
     (let val = json_object_get_value object name in val \<noteq> None \<and> json_value_get_type val = ty)"

definition json_array_get_string :: "json list option \<Rightarrow> nat \<Rightarrow> cstring option" where
  "json_array_get_string array index = json_value_get_string (json_array_get_value array index)"

definition json_array_get_number :: "json list option \<Rightarrow> nat \<Rightarrow> double" where
  "json_array_get_number array index = json_value_get_number (json_array_get_value array index)"

definition json_array_get_object :: "json list option \<Rightarrow> nat \<Rightarrow> json_object option" where
  "json_array_get_object array index = json_value_get_object (json_array_get_value array index)"

definition json_array_get_array :: "json list option \<Rightarrow> nat \<Rightarrow> json list option" where
  "json_array_get_array array index = json_value_get_array (json_array_get_value array index)"

definition json_array_get_boolean :: "json list option \<Rightarrow> nat \<Rightarrow> int" where
  "json_array_get_boolean array index = json_value_get_boolean (json_array_get_value array index)"

section \<open>Setters of each type\<close>

definition json_object_set_boolean :: "json_object \<Rightarrow> cstring \<Rightarrow> int \<Rightarrow> json_status \<times> json_object" where
  "json_object_set_boolean object name boolean = json_object_set_value object name (json_value_init_boolean boolean)"

definition json_object_set_null :: "json_object \<Rightarrow> cstring \<Rightarrow> json_status \<times> json_object" where
  "json_object_set_null object name = json_object_set_value object name json_value_init_null"

text \<open>A value that could not be made is refused before the array is touched.\<close>

definition json_array_replace_string :: "json list option \<Rightarrow> nat \<Rightarrow> cstring option \<Rightarrow> json_status \<times> json list option" where
  "json_array_replace_string array i str =
     (case json_value_init_string str of
        None \<Rightarrow> (JSONFailure, array)
      | Some v \<Rightarrow> json_array_replace_value array i (Some v))"

definition json_array_replace_number :: "json list option \<Rightarrow> nat \<Rightarrow> double \<Rightarrow> json_status \<times> json list option" where
  "json_array_replace_number array i number =
     (case json_value_init_number number of
        None \<Rightarrow> (JSONFailure, array)
      | Some v \<Rightarrow> json_array_replace_value array i (Some v))"

definition json_array_replace_boolean :: "json list option \<Rightarrow> nat \<Rightarrow> int \<Rightarrow> json_status \<times> json list option" where
  "json_array_replace_boolean array i boolean =
     (case json_value_init_boolean boolean of
        None \<Rightarrow> (JSONFailure, array)
      | Some v \<Rightarrow> json_array_replace_value array i (Some v))"

definition json_array_replace_null :: "json list option \<Rightarrow> nat \<Rightarrow> json_status \<times> json list option" where
  "json_array_replace_null array i =
     (case json_value_init_null of
        None \<Rightarrow> (JSONFailure, array)
      | Some v \<Rightarrow> json_array_replace_value array i (Some v))"

definition json_array_append_string :: "json list option \<Rightarrow> cstring option \<Rightarrow> json_status \<times> json list option" where
  "json_array_append_string array str =
     (case json_value_init_string str of
        None \<Rightarrow> (JSONFailure, array)
      | Some v \<Rightarrow> json_array_append_value array (Some v))"

definition json_array_append_number :: "json list option \<Rightarrow> double \<Rightarrow> json_status \<times> json list option" where
  "json_array_append_number array number =
     (case json_value_init_number number of
        None \<Rightarrow> (JSONFailure, array)
      | Some v \<Rightarrow> json_array_append_value array (Some v))"

definition json_array_append_boolean :: "json list option \<Rightarrow> int \<Rightarrow> json_status \<times> json list option" where
  "json_array_append_boolean array boolean =
     (case json_value_init_boolean boolean of
        None \<Rightarrow> (JSONFailure, array)
      | Some v \<Rightarrow> json_array_append_value array (Some v))"

definition json_array_append_null :: "json list option \<Rightarrow> json_status \<times> json list option" where
  "json_array_append_null array =
     (case json_value_init_null of
        None \<Rightarrow> (JSONFailure, array)
      | Some v \<Rightarrow> json_array_append_value array (Some v))"

definition json_array_clear :: "json list option \<Rightarrow> json_status \<times> json list option" where
  "json_array_clear array = (case array of None \<Rightarrow> (JSONFailure, None) | Some xs \<Rightarrow> (JSONSuccess, Some []))"

definition json_object_clear :: "json_object option \<Rightarrow> json_status \<times> json_object option" where
  "json_object_clear object = (case object of None \<Rightarrow> (JSONFailure, None) | Some obj \<Rightarrow> (JSONSuccess, Some []))"

section \<open>Indented text\<close>

definition json_serialize_to_buffer_pretty :: "json option \<Rightarrow> nat \<Rightarrow> (json_status \<times> cstring) option" where
  "json_serialize_to_buffer_pretty v buf_size = do {
     needed_size \<leftarrow> json_serialization_size_pretty v;
     Some (if needed_size = 0 \<or> buf_size < needed_size then (JSONFailure, [])
           else (case v of None \<Rightarrow> (JSONFailure, []) | Some w \<Rightarrow> (JSONSuccess, json_write 0 True w))) }"

definition json_serialize_to_string_pretty :: "json option \<Rightarrow> cstring option option" where
  "json_serialize_to_string_pretty v = do {
     size \<leftarrow> json_serialization_size_pretty v;
     if size = 0 then Some None
     else do {
       (status, text) \<leftarrow> json_serialize_to_buffer_pretty v size;
       Some (if status = JSONFailure then None else Some text) } }"

section \<open>Files\<close>

text \<open>
  \<open>contents\<close>: what a file that can be opened contains. A file without any byte is
  refused; as a C string the text ends at its first NUL.
\<close>

definition read_file :: "cstring option \<Rightarrow> cstring option" where
  "read_file contents =
     (case contents of None \<Rightarrow> None | Some c \<Rightarrow> if c = [] then None else Some (c_str c))"

definition json_parse_file :: "cstring option \<Rightarrow> json option" where
  "json_parse_file contents =
     (case read_file contents of None \<Rightarrow> None | Some file_contents \<Rightarrow> json_parse_string (Some file_contents))"

text \<open>What writing a file meets: whether \<open>fopen\<close>, \<open>fputs\<close> and \<open>fclose\<close> succeed.\<close>

record file_outcome =
  fopen_ok :: bool
  fputs_ok :: bool
  fclose_ok :: bool

text \<open>The status and the text handed to \<open>fputs\<close>.\<close>

definition write_file :: "file_outcome \<Rightarrow> cstring option \<Rightarrow> json_status \<times> cstring option" where
  "write_file out serialized_string =
     (case serialized_string of
        None \<Rightarrow> (JSONFailure, None)
      | Some text \<Rightarrow>
          if \<not> fopen_ok out then (JSONFailure, None)
          else (if fputs_ok out \<and> fclose_ok out then JSONSuccess else JSONFailure, Some text))"

definition json_serialize_to_file :: "file_outcome \<Rightarrow> json option \<Rightarrow> (json_status \<times> cstring option) option" where
  "json_serialize_to_file out v = do {
     serialized_string \<leftarrow> json_serialize_to_string v;
     Some (write_file out serialized_string) }"

definition json_serialize_to_file_pretty :: "file_outcome \<Rightarrow> json option \<Rightarrow> (json_status \<times> cstring option) option" where
  "json_serialize_to_file_pretty out v = do {
     serialized_string \<leftarrow> json_serialize_to_string_pretty v;
     Some (write_file out serialized_string) }"

section \<open>What the setters keep\<close>

text \<open>Every setter keeps the invariant of a value, whatever it is given.\<close>

lemma init_ok:
  "json_value_init_string str = Some v \<Longrightarrow> json_ok v"
  "json_value_init_number d = Some v \<Longrightarrow> json_ok v"
  by (auto simp: json_value_init_string_def json_value_init_number_def split: option.splits if_splits)

lemma array_setters_ok:
  assumes "json_ok (JArray xs)" and "w = None \<or> (\<exists>v. w = Some v \<and> json_ok v)"
  shows "\<exists>ys. snd (json_array_append_value (Some xs) w) = Some ys \<and> json_ok (JArray ys)"
    and "\<exists>ys. snd (json_array_replace_value (Some xs) i w) = Some ys \<and> json_ok (JArray ys)"
    and "\<exists>ys. snd (json_array_remove (Some xs) i) = Some ys \<and> json_ok (JArray ys)"
  using assms set_update_subset_insert [of xs i "the w"] set_take_subset [of i xs] set_drop_subset [of "Suc i" xs]
  by (auto simp: json_array_append_value_def json_array_replace_value_def json_array_remove_def split: option.splits)

lemma serialize_pretty:
  "json_serialize_to_string_pretty (Some v) =
     (if int (length (json_write 0 True v)) < INT_MAX then Some (Some (json_write 0 True v)) else None)"
  by (simp add: json_serialize_to_string_pretty_def serialization_size_Some json_serialize_to_buffer_pretty_def)

end
