(* ===== verification/Config.thy ===== *)
theory Config
  imports Lifecycle JsonAccess
begin

text \<open>
  The beginning of \<open>main\<close> in \<^verbatim>\<open>CanMonitor.c\<close>: the command line, the configuration file
  and the environment variables, up to the entry of the main loop. What the process gets from
  outside are parameters: the arguments, \<open>getenv\<close>, and for each file name whether the file
  exists and what can be read from it.
\<close>

section \<open>The command line\<close>

text \<open>\<open>strncmp (a, b, n) == 0\<close> for strings without NUL.\<close>

definition strncmp_eq :: "cstring \<Rightarrow> cstring \<Rightarrow> nat \<Rightarrow> bool" where
  "strncmp_eq a b n \<longleftrightarrow> take n a = take n b"

text \<open>
  The process ends, or the option was found with its value and the next position, or the
  argument is not this option.
\<close>

datatype arg_result = Arg_exit | Arg_found nat cstring | Arg_other

definition test_arg :: "cstring list \<Rightarrow> nat \<Rightarrow> cstring \<Rightarrow> cstring \<Rightarrow> arg_result option" where
  "test_arg argv pos pshort plong = do {
     arg \<leftarrow> CPrelude.at argv pos;
     if arg = pshort \<or> arg = plong then
       (if pos < length argv - 1 then do {
          v \<leftarrow> CPrelude.at argv (pos + 1);
          Some (Arg_found (pos + 2) v) }
        else Some Arg_exit)
     else if CHR ''='' \<in> set arg then
       (let eq = length (takeWhile (\<lambda>c. c \<noteq> CHR ''='') arg) in
        if strncmp_eq arg pshort eq \<or> strncmp_eq arg plong eq then
          (let v = drop (eq + 1) arg in if v \<noteq> [] then Some (Arg_found (pos + 1) v) else Some Arg_exit)
        else Some Arg_other)
     else Some Arg_other }"

lemma test_arg_progress: "test_arg argv pos s l = Some (Arg_found n v) \<Longrightarrow> pos < n \<and> pos < length argv"
  by (auto simp: test_arg_def bind_Some_iff Let_def split: if_splits)

datatype command_line = Leave | Go cstring "cstring option"

function parse_args :: "cstring list \<Rightarrow> nat \<Rightarrow> cstring \<Rightarrow> cstring option \<Rightarrow> command_line option" where
  "parse_args argv n svcname config_file =
     (if \<not> n < length argv then Some (Go svcname config_file)
      else do {
        arg \<leftarrow> CPrelude.at argv n;
        if arg = ''-h'' \<or> arg = ''--help'' then Some Leave
        else (case test_arg argv n ''-n'' ''--name'' of
            None \<Rightarrow> None
          | Some Arg_exit \<Rightarrow> Some Leave
          | Some (Arg_found m v) \<Rightarrow> parse_args argv m v config_file
          | Some Arg_other \<Rightarrow>
              (case test_arg argv n ''-c'' ''--config'' of
                  None \<Rightarrow> None
                | Some Arg_exit \<Rightarrow> Some Leave
                | Some (Arg_found m v) \<Rightarrow> parse_args argv m svcname (Some v)
                | Some Arg_other \<Rightarrow> Some Leave)) })"
  by pat_completeness auto
termination
  by (relation "measure (\<lambda>(argv, n, svcname, config_file). length argv - n)")
    (auto dest: test_arg_progress)

declare parse_args.simps [simp del]

definition DEF_SVC_NAME :: cstring where
  "DEF_SVC_NAME = ''adeptness-service''"

section \<open>The environment and the configuration file\<close>

definition get_info_from_environment_variables :: "(cstring \<Rightarrow> cstring option) \<Rightarrow> int + settings" where
  "get_info_from_environment_variables getenv =
     (case getenv ''REST_PORT'' of None \<Rightarrow> Inl (- 1) | Some port \<Rightarrow>
      (case getenv ''MQTT_BROKER_IP'' of None \<Rightarrow> Inl (- 1) | Some host \<Rightarrow>
      (case getenv ''MQTT_BROKER_PORT'' of None \<Rightarrow> Inl (- 1) | Some broker_port \<Rightarrow>
      (case getenv ''MQTT_QOS'' of None \<Rightarrow> Inl (- 1) | Some qos \<Rightarrow>
      (case getenv ''SVC_ID'' of None \<Rightarrow> Inl (- 1) | Some ident \<Rightarrow>
         Inr \<lparr>set_rest_port = atoi port, set_broker_host = host, set_broker_port = atoi broker_port,
              set_qos = atoi qos, set_id = ident, set_username = ''adeptness''\<rparr>)))))"

text \<open>
  \<open>files name\<close>: \<open>None\<close> when there is no such file, otherwise what reading it gives. A member that
  is missing or not a string is NULL, which \<open>strdup\<close> does not take.
\<close>

definition get_info_from_config_file :: "(cstring \<Rightarrow> cstring option option) \<Rightarrow> cstring \<Rightarrow> (int + settings) option" where
  "get_info_from_config_file files config_file =
     (case files config_file of
        None \<Rightarrow> Some (Inl 2)
      | Some contents \<Rightarrow> do {
          let obj = json_value_get_object (json_parse_file contents);
          port \<leftarrow> double_to_i32 (json_object_get_number obj ''rest_server_port'');
          host \<leftarrow> dup_string obj ''mqtt_broker_ip'';
          broker_port \<leftarrow> double_to_i32 (json_object_get_number obj ''mqtt_broker_port'');
          qos \<leftarrow> double_to_i32 (json_object_get_number obj ''mqtt_qos'');
          ident \<leftarrow> dup_string obj ''mqtt_id'';
          username \<leftarrow> dup_string obj ''mqtt_username'';
          Some (Inr \<lparr>set_rest_port = port, set_broker_host = host, set_broker_port = broker_port,
                     set_qos = qos, set_id = ident, set_username = username\<rparr>) })"

text \<open>From the start of the process to the main loop, or the exit code of \<open>main\<close>.\<close>

definition main_start ::
  "cstring list \<Rightarrow> (cstring \<Rightarrow> cstring option) \<Rightarrow> (cstring \<Rightarrow> cstring option option) \<Rightarrow> cstring \<Rightarrow> bool \<Rightarrow> bool
     \<Rightarrow> (int + system) option" where
  "main_start argv getenv files ip starts connects = do {
     line \<leftarrow> parse_args argv 1 DEF_SVC_NAME None;
     case line of
       Leave \<Rightarrow> Some (Inl 0)
     | Go svcname config_file \<Rightarrow> do {
         info \<leftarrow> (case config_file of
             None \<Rightarrow> Some (get_info_from_environment_variables getenv)
           | Some name \<Rightarrow> get_info_from_config_file files name);
         case info of
           Inl code \<Rightarrow> Some (Inl 0)
         | Inr cfg \<Rightarrow> boot svcname cfg ip starts connects } }"

section \<open>Properties\<close>

text \<open>The options as they are written on the command line: a name or a file.\<close>

datatype opt = Name cstring | File cstring

fun written :: "opt \<Rightarrow> cstring list" where
  "written (Name v) = [''-n'', v]"
| "written (File v) = [''-c'', v]"

fun chosen :: "opt list \<Rightarrow> cstring \<times> cstring option \<Rightarrow> cstring \<times> cstring option" where
  "chosen [] r = r"
| "chosen (Name v # os) (svcname, file) = chosen os (v, file)"
| "chosen (File v # os) (svcname, file) = chosen os (svcname, Some v)"

lemma test_arg_given:
  assumes "argv = pre @ [o1, v] @ post"
  shows "o1 = s \<Longrightarrow> test_arg argv (length pre) s l = Some (Arg_found (length pre + 2) v)"
    and "CHR ''='' \<notin> set o1 \<Longrightarrow> o1 \<noteq> s \<Longrightarrow> o1 \<noteq> l \<Longrightarrow> test_arg argv (length pre) s l = Some Arg_other"
  using assms by (auto simp: test_arg_def nth_append)

lemma parse_args_written:
  "argv = pre @ concat (map written os) \<Longrightarrow>
    parse_args argv (length pre) svcname fl = Some (case chosen os (svcname, fl) of (n, f) \<Rightarrow> Go n f)"
proof (induction os arbitrary: pre svcname fl)
  case Nil
  then show ?case by (simp add: parse_args.simps)
next
  case (Cons opt os)
  let ?post = "concat (map written os)"
  show ?case
  proof (cases opt)
    case (Name v)
    with Cons.prems have a: "argv = pre @ [''-n'', v] @ ?post" by simp
    from Cons.IH [of "pre @ [''-n'', v]" v fl] a Name test_arg_given(1) [OF a, of "''-n''" "''--name''"]
    show ?thesis by (subst parse_args.simps) (simp add: nth_append)
  next
    case (File v)
    with Cons.prems have a: "argv = pre @ [''-c'', v] @ ?post" by simp
    from Cons.IH [of "pre @ [''-c'', v]" svcname "Some v"] a File
      test_arg_given(1) [OF a, of "''-c''" "''--config''"] test_arg_given(2) [OF a, of "''-n''" "''--name''"]
    show ?thesis by (subst parse_args.simps) (simp add: nth_append)
  qed
qed

text \<open>
  The command line. Any sequence of the options \<open>-n\<close> and \<open>-c\<close>, each with a value (which
  may look like an option itself), is accepted, and the last value of each counts; without
  \<open>-n\<close> the name is the default one, without \<open>-c\<close> there is no file.
\<close>

theorem command_line_options:
  "parse_args (program # concat (map written os)) 1 DEF_SVC_NAME None =
    Some (case chosen os (DEF_SVC_NAME, None) of (svcname, fl) \<Rightarrow> Go svcname fl)"
  using parse_args_written [of "program # concat (map written os)" "[program]" os DEF_SVC_NAME None] by simp

text \<open>
  A configuration file that is there but is not a JSON object with the three strings the
  program copies makes the start undefined; in particular any file that is not JSON does.
\<close>

theorem config_file_undefined:
  assumes "files name = Some contents"
    and "\<forall>obj. json_parse_file contents = Some (JObject obj) \<longrightarrow>
      (\<exists>key \<in> {''mqtt_broker_ip'', ''mqtt_id'', ''mqtt_username''}. \<forall>s. map_of obj key \<noteq> Some (JString s))"
  shows "get_info_from_config_file files name = None"
proof -
  let ?obj = "json_value_get_object (json_parse_file contents)"
  have "\<exists>key \<in> {''mqtt_broker_ip'', ''mqtt_id'', ''mqtt_username''}. dup_string ?obj key = None"
  proof (cases ?obj)
    case None
    then show ?thesis by (intro bexI [of _ "''mqtt_id''"]) (simp_all add: dup_string_def json_object_get_string_def)
  next
    case (Some obj)
    then have "json_parse_file contents = Some (JObject obj)" by (elim json_value_get_object.elims) auto
    with assms(2) obtain key where "key \<in> {''mqtt_broker_ip'', ''mqtt_id'', ''mqtt_username''}"
      "\<forall>s. map_of obj key \<noteq> Some (JString s)" by blast
    moreover from this(2) have "dup_string (Some obj) key = None"
      by (cases "map_of obj key"; cases "the (map_of obj key)") (auto simp: dup_string_def json_object_get_string_def)
    ultimately show ?thesis using Some by auto
  qed
  then show ?thesis using assms(1)
    by (auto simp: get_info_from_config_file_def Let_def bind_None_iff)
qed

theorem config_file_undefined_witness:
  "get_info_from_config_file (\<lambda>name. Some (Some ''port=80'')) ''agent.conf'' = None"
proof -
  have "json_parse_file (Some ''port=80'') = None" by code_simp
  then show ?thesis by (intro config_file_undefined [of _ _ "Some ''port=80''"]) simp_all
qed

end
