(* ===== verification/Service.thy ===== *)
theory Service
  imports RestHandlers JsonRoundtrip
begin

text \<open>
  The contract of the configuration service, and the proof that the program keeps it. The
  abstract state is a catalogue of sensors, the subscriptions (the groups), and the mode;
  \<open>perform\<close> says what an order does to it. \<open>request_of\<close> is the request with which a client
  sends an order, with its body as a JSON text. The handlers of the program refine \<open>perform\<close>
  for every sequence of orders, from the text of the requests to the tables.
\<close>

section \<open>The specification\<close>

record service_view =
  catalogue :: "cstring \<Rightarrow> sensor option"
  subscriptions :: "cstring \<Rightarrow> (u32 \<times> cstring list) option"
  mode :: ms_status

text \<open>The sensor of \<open>Add_sensor\<close> is a description: its value and its time are not looked at.\<close>

datatype client_order =
    Add_sensor sensor
  | Remove_sensor cstring
  | Add_group cstring u32 "cstring list"
  | Remove_group cstring
  | Start
  | Stop

definition touched :: "ms_status \<Rightarrow> ms_status" where
  "touched m = (if m = running then running else configured)"

text \<open>The status code of the reply, and the new state: 409 is a refusal, which changes nothing.\<close>

fun perform :: "client_order \<Rightarrow> service_view \<Rightarrow> nat \<times> service_view" where
  "perform (Add_sensor s) v =
     (if catalogue v (sens_id s) \<noteq> None then (409, v)
      else (200, v\<lparr>catalogue := (catalogue v)(sens_id s \<mapsto> s\<lparr>sens_value := [], sens_timestamp := 0\<rparr>),
                   mode := touched (mode v)\<rparr>))"
| "perform (Remove_sensor k) v =
     (if catalogue v k = None then (409, v)
      else (200, v\<lparr>catalogue := (catalogue v)(k := None),
                   subscriptions := (\<lambda>g. map_option (apsnd (remove1 k)) (subscriptions v g))\<rparr>))"
| "perform (Add_group g rate ks) v =
     (if subscriptions v g \<noteq> None \<or> \<not> (\<forall>k \<in> set ks. catalogue v k \<noteq> None) then (409, v)
      else (200, v\<lparr>subscriptions := (subscriptions v)(g \<mapsto> (rate, ks)), mode := touched (mode v)\<rparr>))"
| "perform (Remove_group g) v =
     (if subscriptions v g = None then (409, v)
      else (200, v\<lparr>subscriptions := (subscriptions v)(g := None)\<rparr>))"
| "perform Start v = (if mode v = configured then (200, v\<lparr>mode := running\<rparr>) else (409, v))"
| "perform Stop v = (if mode v = running then (200, v\<lparr>mode := configured\<rparr>) else (409, v))"

section \<open>What the agent shows of it\<close>

definition view :: "agent \<Rightarrow> service_view" where
  "view a = \<lparr>catalogue = sensors_of a,
             subscriptions = (\<lambda>k. map_option (\<lambda>g. (publish_rate g, members g)) (groups_of a k)),
             mode = status a\<rparr>"

section \<open>The requests of a client\<close>

definition described_setting :: "cstring \<Rightarrow> cstring \<Rightarrow> json" where
  "described_setting key text = JObject [(''key'', JString key), (''value'', JString text)]"

definition sensor_object :: "sensor \<Rightarrow> json_object" where
  "sensor_object s =
     [(''sensor-id'', JString (sens_id s)), (''sensor-name'', JString (sens_name s)), (''sensor-type'', JString (sens_type s)),
      (''sensor-settings'', JArray [described_setting ''can-id'' (fmt_u32 (can_id s)),
         described_setting ''init-bit'' (fmt_u32 (init_bit s)), described_setting ''end-bit'' (fmt_u32 (end_bit s))]),
      (''sampling-rate'', JNumber (double_of_i32 (sampling_rate s)))]"

definition group_object :: "cstring \<Rightarrow> u32 \<Rightarrow> cstring list \<Rightarrow> json_object" where
  "group_object g rate ks =
     [(''sensorgroup-id'', JString g), (''publish-rate'', JNumber (double_of_i32 rate)),
      (''sensor-list'', JArray (map (\<lambda>k. JObject [(''sensor-id'', JString k)]) ks))]"

definition command_object :: "cstring \<Rightarrow> json_object" where
  "command_object cmd = [(''order'', JString cmd)]"

definition body_text :: "json_object \<Rightarrow> cstring" where
  "body_text obj = json_write 0 False (JObject obj)"

definition with_body :: "cstring \<Rightarrow> cstring \<Rightarrow> json_object \<Rightarrow> http_request" where
  "with_body m url obj = \<lparr>req_method = m, req_url = ''/adms/v2/'' @ url, req_args = [], req_body = [(body_text obj, CHR 0x00)]\<rparr>"

definition with_id :: "cstring \<Rightarrow> cstring \<Rightarrow> http_request" where
  "with_id url k = \<lparr>req_method = ''DELETE'', req_url = ''/adms/v2/'' @ url, req_args = [(''id'', Some k)], req_body = []\<rparr>"

fun request_of :: "client_order \<Rightarrow> http_request" where
  "request_of (Add_sensor s) = with_body ''POST'' URL_SENSORS_CONF (sensor_object s)"
| "request_of (Remove_sensor k) = with_id URL_SENSORS_CONF k"
| "request_of (Add_group g rate ks) = with_body ''POST'' URL_SENSORGROUPS (group_object g rate ks)"
| "request_of (Remove_group g) = with_id URL_SENSORGROUPS g"
| "request_of Start = with_body ''PUT'' URL_CMD_EXECUTE (command_object ''start'')"
| "request_of Stop = with_body ''PUT'' URL_CMD_EXECUTE (command_object ''stop'')"

text \<open>Strings that a client can write: no NUL byte.\<close>

fun writable :: "client_order \<Rightarrow> bool" where
  "writable (Add_sensor s) = (nul_free (sens_id s) \<and> nul_free (sens_name s) \<and> nul_free (sens_type s))"
| "writable (Add_group g rate ks) = (nul_free g \<and> (\<forall>k \<in> set ks. nul_free k))"
| "writable _ = True"

definition serve :: "surroundings \<Rightarrow> client_order \<Rightarrow> agent \<Rightarrow> (nat \<times> agent) option" where
  "serve env order a = do { (r, a') \<leftarrow> http_handler env (request_of order) a; Some (http_status r, a') }"

section \<open>The body of a request arrives\<close>

lemma integral_i32: "json_integral (JNumber (double_of_i32 w))" "json_ok (JNumber (double_of_i32 w))"
proof -
  have "\<bar>sint w\<bar> < 2 ^ 53" using sint_ge [of w] sint_lt [of w] by (simp add: abs_less_iff)
  then have t: "trunc_double (double_of_i32 w) = Some (sint w)" "\<bar>sint w\<bar> < 2 ^ 53"
    by (simp_all add: double_of_i32_def trunc_double_of_int)
  then show "json_integral (JNumber (double_of_i32 w))" by (simp add: double_of_i32_def)
  from t(1) show "json_ok (JNumber (double_of_i32 w))"
    by (auto simp: trunc_double_def is_finite_def split: double.splits)
qed

lemma fmt_u32_nul_free [simp]: "nul_free (fmt_u32 w)"
  by (simp add: fmt_u32_def)

lemma body_arrives:
  assumes "json_ok (JObject obj)" and "json_integral (JObject obj)" and "json_depth (JObject obj) \<le> 4"
  shows "payload_object (Some (body_text obj)) = Some (Some obj) \<and>
    checked_payload (request_body [(body_text obj, CHR 0x00)]) = Some (Inr (body_text obj))"
proof -
  have "json_depth (JObject obj) \<le> MAX_NESTING" using assms(3) by (simp add: MAX_NESTING_def)
  from parse_written [OF assms(1,2) this, of 0 False]
  have p: "payload_object (Some (body_text obj)) = Some (Some obj)" by (simp add: payload_object_def body_text_def)
  have "nul_free (body_text obj)" unfolding body_text_def by (rule json_write_nul_free [OF assms(1)])
  moreover have "body_text obj \<noteq> []"
    using assms(1) by (simp add: body_text_def json_write_object bracketed_between del: json_write.simps)
  ultimately show ?thesis using checked_payload_sent [OF p] p by blast
qed

lemma sensor_body:
  assumes "nul_free (sens_id s)" and "nul_free (sens_name s)" and "nul_free (sens_type s)"
  shows "payload_object (Some (body_text (sensor_object s))) = Some (Some (sensor_object s)) \<and>
    checked_payload (request_body [(body_text (sensor_object s), CHR 0x00)]) = Some (Inr (body_text (sensor_object s)))"
proof (rule body_arrives)
  show "json_ok (JObject (sensor_object s))" "json_integral (JObject (sensor_object s))"
    using assms integral_i32 [of "sampling_rate s"] by (simp_all add: sensor_object_def described_setting_def)
  show "json_depth (JObject (sensor_object s)) \<le> 4" by (simp add: sensor_object_def described_setting_def)
qed

lemma group_body:
  assumes "nul_free g" and "\<forall>k \<in> set ks. nul_free k"
  shows "payload_object (Some (body_text (group_object g rate ks))) = Some (Some (group_object g rate ks)) \<and>
    checked_payload (request_body [(body_text (group_object g rate ks), CHR 0x00)]) = Some (Inr (body_text (group_object g rate ks)))"
proof (rule body_arrives)
  show "json_ok (JObject (group_object g rate ks))" "json_integral (JObject (group_object g rate ks))"
    using assms integral_i32 [of rate] by (auto simp: group_object_def)
  have "fold max (map (json_depth \<circ> (\<lambda>k. JObject [(''sensor-id'', JString k)])) ks) 0 \<le> 1" by (simp add: fold_max_le)
  then show "json_depth (JObject (group_object g rate ks)) \<le> 4" by (simp add: group_object_def)
qed

lemma command_body:
  assumes "nul_free cmd"
  shows "payload_object (Some (body_text (command_object cmd))) = Some (Some (command_object cmd)) \<and>
    checked_payload (request_body [(body_text (command_object cmd), CHR 0x00)]) = Some (Inr (body_text (command_object cmd)))"
  using assms by (intro body_arrives) (simp_all add: command_object_def)

section \<open>Each order\<close>

text \<open>The outcome of a handler as the status code of the reply: 200 or 409.\<close>

definition answered :: "outcome \<Rightarrow> (nat \<times> agent) option" where
  "answered r = (case r of
     Some (OK, v, a) \<Rightarrow> Some (200, a)
   | Some (ERROR, Some reply, a) \<Rightarrow> Some (409, a)
   | _ \<Rightarrow> None)"

lemmas routed = http_handler_def method_from_string_def dispatch_startConfigured [OF _ _ refl]
  url_defs normalizeUrl.simps adeptness_specific_handler_def

lemma answered_Some:
  "answered r = Some (code, a) \<longleftrightarrow> (\<exists>v. code = 200 \<and> r = Some (OK, v, a)) \<or> (\<exists>reply. code = 409 \<and> r = Some (ERROR, Some reply, a))"
  by (auto simp: answered_def split: option.splits adeptness_rest_response.splits)

lemma serve_post:
  assumes "checked_payload (request_body [(body_text obj, CHR 0x00)]) = Some (Inr (body_text obj))"
    and "answered (myAdeptnessService_post_handler url (Some (body_text obj)) [] a) = Some (code, a')"
    and "url \<in> {URL_SENSORS_CONF, URL_SENSORGROUPS}"
  shows "\<exists>r. http_handler env (with_body ''POST'' url obj) a = Some (r, a') \<and> http_status r = code"
  using assms
  by (auto simp: with_body_def routed request_queries_def answered_Some json_reply_def bare_def)

lemma serve_put:
  assumes "checked_payload (request_body [(body_text obj, CHR 0x00)]) = Some (Inr (body_text obj))"
    and "answered (cmd_execute_configuration (Some (body_text obj)) a) = Some (code, a')"
  shows "\<exists>r. http_handler env (with_body ''PUT'' URL_CMD_EXECUTE obj) a = Some (r, a') \<and> http_status r = code"
  using assms
  by (auto simp: with_body_def routed request_queries_def answered_Some json_reply_def bare_def myAdeptnessService_put_handler_def)

lemma serve_delete:
  assumes "answered (myAdeptnessService_delete_handler url None [(''id'', k)] a) = Some (code, a')"
    and "url \<in> {URL_SENSORS_CONF, URL_SENSORGROUPS}"
  shows "\<exists>r. http_handler env (with_id url k) a = Some (r, a') \<and> http_status r = code"
  using assms
  by (auto simp: with_id_def routed request_queries_def queryIterator_def query_paramlist_def answered_Some json_reply_def bare_def)

lemma table_updates [simp]:
  "sensors_of (a\<lparr>sensors_table := t\<rparr>) = store_lookup t" "sensors_of (a\<lparr>sensorgroup_table := u\<rparr>) = sensors_of a"
  "groups_of (a\<lparr>sensorgroup_table := u\<rparr>) = store_lookup u" "groups_of (a\<lparr>sensors_table := t\<rparr>) = groups_of a"
  "sensors_of (a\<lparr>status := m\<rparr>) = sensors_of a" "groups_of (a\<lparr>status := m\<rparr>) = groups_of a"
  by (simp_all add: sensors_of_def groups_of_def)

lemma view_simps [simp]:
  "catalogue (view a) = sensors_of a" "mode (view a) = status a"
  "subscriptions (view a) k = map_option (\<lambda>g. (publish_rate g, members g)) (groups_of a k)"
  "view (a\<lparr>overruns := l\<rparr>) = view a"
  "view (a\<lparr>sensors_table := t\<rparr>) = (view a)\<lparr>catalogue := store_lookup t\<rparr>"
  "view (a\<lparr>sensorgroup_table := u\<rparr>) =
     (view a)\<lparr>subscriptions := (\<lambda>k. map_option (\<lambda>g. (publish_rate g, members g)) (store_lookup u k))\<rparr>"
  "view (a\<lparr>status := m\<rparr>) = (view a)\<lparr>mode := m\<rparr>"
  "view (mark_configured a) = (view a)\<lparr>mode := touched (status a)\<rparr>"
  by (simp_all add: view_def sensors_of_def groups_of_def mark_configured_def touched_def)

text \<open>What it means that a handler carries an order out.\<close>

definition carries_out :: "client_order \<Rightarrow> agent \<Rightarrow> outcome \<Rightarrow> bool" where
  "carries_out order a r \<longleftrightarrow> (\<exists>code a'. answered r = Some (code, a') \<and> agent_ok a' \<and> perform order (view a) = (code, view a'))"

lemma carries_out_refusal:
  assumes "agent_ok a" and "perform order (view a) = (409, view a)"
  shows "carries_out order a (fail_with message a)"
  using assms by (simp add: carries_out_def fail_with_text answered_def)

lemma carries_out_OK:
  assumes "r = Some (OK, v, a')" and "agent_ok a'" and "perform order (view a) = (200, view a')"
  shows "carries_out order a r"
  using assms by (simp add: carries_out_def answered_def)

lemma settings_read:
  "sensor_settings [described_setting ''can-id'' (fmt_u32 c), described_setting ''init-bit'' (fmt_u32 i),
      described_setting ''end-bit'' (fmt_u32 e)] (0, 0, 0, 0) = Some (Inr (c, i, e, 3))"
  by (simp add: described_setting_def json_object_get_string_def scan_u32_show)

lemma add_sensor:
  assumes a: "agent_ok a" and w: "writable (Add_sensor s)"
  shows "carries_out (Add_sensor s) a (create_sensors_configuration (Some (body_text (sensor_object s))) a)"
proof -
  note ready = agent_okD(1) [OF a]
  let ?obj = "sensor_object s" and ?s = "s\<lparr>sens_value := [], sens_timestamp := 0\<rparr>"
  have p: "payload_object (Some (body_text ?obj)) = Some (Some ?obj)" using sensor_body [of s] w by simp
  have get: "hts_get (sensors_table a) (sens_id s) = Some (map_of (st_entries (sensors_table a)) (sens_id s))"
    "map_of (st_entries (sensors_table a)) (sens_id s) = None \<longleftrightarrow> sensors_of a (sens_id s) = None"
    using hts_get_ok [OF ready] entry_lookup [OF ready] by (simp_all add: sensors_of_def)
  show ?thesis
  proof (cases "sensors_of a (sens_id s) = None")
    case False
    with get obtain q where "hts_get (sensors_table a) (sens_id s) = Some (Some q)" by auto
    then have "create_sensors_configuration (Some (body_text ?obj)) a = fail_with ''A sensor with that id already exists'' a"
      unfolding create_sensors_configuration_def p by (simp add: sensor_object_def)
    with False a show ?thesis by (simp add: carries_out_refusal)
  next
    case True
    from hts_new_ok [OF ready, of ?s] True obtain t where t: "hts_new ?s (sensors_table a) = Some t" "store_ready t"
        "store_lookup t = (sensors_of a)(sens_id s \<mapsto> ?s)"
      by (auto simp: sensors_of_def)
    have s: "\<lparr>sens_id = sens_id s, sens_name = sens_name s, sens_type = sens_type s, can_id = can_id s, init_bit = init_bit s,
        end_bit = end_bit s, sampling_rate = sampling_rate s, sens_value = [], sens_timestamp = 0\<rparr> = ?s" by simp
    have c: "create_sensors_configuration (Some (body_text ?obj)) a = Some (OK, Some [], mark_configured (a\<lparr>sensors_table := t\<rparr>))"
      unfolding create_sensors_configuration_def p
      using get True t(1) settings_read [of "can_id s" "init_bit s" "end_bit s"]
      by (simp add: sensor_object_def json_object_get_array_def json_array_get_count_def json_object_get_number_def
          double_i32_roundtrip clear_values_def s)
    have "agent_ok (a\<lparr>sensors_table := t\<rparr>)"
      using a t w by (intro agent_ok_sensors) (auto dest: agent_okD(3) simp: sensor_ok_def split: if_splits)
    with True t(3) show ?thesis by (intro carries_out_OK [OF c]) simp_all
  qed
qed

lemma remove_sensor:
  assumes a: "agent_ok a"
  shows "carries_out (Remove_sensor k) a (delete_sensors_configuration None [(''id'', k)] a)"
proof (cases "sensors_of a k = None")
  case True
  note ready = agent_okD(1) [OF a]
  from hts_delete_ok [OF ready, of k] True obtain t where
    t: "hts_delete (sensors_table a) k = Some (None, t)" "store_ready t" "store_lookup t = (sensors_of a)(k := None)"
    by (auto simp: sensors_of_def)
  let ?b = "(log_overrun Message_50 50 (length (''There is no sensor with id '' @ k) + 1) (a\<lparr>sensors_table := t\<rparr>))"
  have "delete_sensors_configuration None [(''id'', k)] a =
      Some (ERROR, Some (error_text (''There is no sensor with id '' @ k)), ?b\<lparr>overruns := overruns ?b @ [(Error_reply, 1)]\<rparr>)"
    using t(1) by (simp add: delete_sensors_configuration_def leave_def fail_with_text Let_def)
  moreover have "agent_ok (a\<lparr>sensors_table := t\<rparr>)" using agent_ok_remove [OF a t(2,3)] .
  moreover have "view (a\<lparr>sensors_table := t\<rparr>) = view a" using t(3) True by (simp add: view_def fun_upd_idem)
  ultimately show ?thesis using True by (simp add: carries_out_def answered_def log_overrun_def)
next
  case False
  from delete_one_sensor [OF a _ False, of "[(''id'', k)]" None] obtain a' where
    a': "delete_sensors_configuration None [(''id'', k)] a = Some (OK, None, a')" "agent_ok a'"
      "sensors_of a' = (sensors_of a)(k := None)" "same_control a' a"
      "\<forall>j. map_option members (groups_of a' j) = map_option (\<lambda>g. remove1 k (members g)) (groups_of a j)"
      "\<forall>j. map_option publish_rate (groups_of a' j) = map_option publish_rate (groups_of a j)"
    by auto
  have "map_option (\<lambda>g. (publish_rate g, members g)) (groups_of a' j) =
      map_option (apsnd (remove1 k)) (map_option (\<lambda>g. (publish_rate g, members g)) (groups_of a j))" for j
    using a'(5,6) [rule_format, of j] by (cases "groups_of a j"; cases "groups_of a' j") simp_all
  with a' False show ?thesis
    by (intro carries_out_OK [OF a'(1,2)]) (simp add: view_def same_controlD)
qed

lemma list_ids:
  assumes "agent_ok a"
  shows "if \<forall>k \<in> set ks. sensors_of a k \<noteq> None
    then \<exists>o'. group_sensors (map (\<lambda>k. JObject [(''sensor-id'', JString k)]) ks) l a = Some (Continue (l @ ks, a\<lparr>overruns := o'\<rparr>))
    else \<exists>reply o'. group_sensors (map (\<lambda>k. JObject [(''sensor-id'', JString k)]) ks) l a =
      Some (Return ERROR (Some reply) (a\<lparr>overruns := o'\<rparr>))"
  using assms
proof (induction ks arbitrary: l a)
  case Nil
  show ?case by (simp add: exI [of _ "overruns a"])
next
  case (Cons k ks)
  let ?member = "\<lambda>k. JObject [(''sensor-id'', JString k)]"
  note ready = agent_okD(1) [OF Cons.prems]
  have get: "hts_get (sensors_table a) k = Some (map_of (st_entries (sensors_table a)) k)"
    "map_of (st_entries (sensors_table a)) k = None \<longleftrightarrow> sensors_of a k = None"
    using hts_get_ok [OF ready] entry_lookup [OF ready] by (simp_all add: sensors_of_def)
  show ?case
  proof (cases "sensors_of a k = None")
    case True
    with get have "group_sensors (map ?member (k # ks)) l a =
        leave (fail_with ''One of the sensors of the sensorgroup is not correct'' a)"
      by (simp add: complete_sensor_def only_id_def)
    with True show ?thesis by (auto simp: leave_def fail_with_text)
  next
    case False
    with get obtain q where q: "hts_get (sensors_table a) k = Some (Some q)" by auto
    let ?b = "list_sensor k a"
    have step: "group_sensors (map ?member (k # ks)) l a = group_sensors (map ?member ks) (l @ [k]) ?b"
      using q by (simp add: complete_sensor_def only_id_def)
    have eq: "?b\<lparr>overruns := o'\<rparr> = a\<lparr>overruns := o'\<rparr>" for o' by (simp add: list_sensor_def log_overrun_def)
    have "agent_ok ?b" using Cons.prems by simp
    from Cons.IH [OF this, of "l @ [k]", unfolded eq] False show ?thesis
      unfolding step by (auto split: if_splits)
  qed
qed

lemma add_group:
  assumes a: "agent_ok a" and w: "writable (Add_group g rate ks)"
  shows "carries_out (Add_group g rate ks) a (create_sensorgroups_subscription (Some (body_text (group_object g rate ks))) a)"
proof -
  note ready = agent_okD(2) [OF a]
  let ?obj = "group_object g rate ks" and ?new = "\<lparr>sg_id = g, publish_rate = rate, sensorcount = length ks, sensor_list = ks,
      last_tv_sec = 0, last_tv_usec = 0\<rparr>"
  have p: "payload_object (Some (body_text ?obj)) = Some (Some ?obj)" using group_body [of g ks rate] w by simp
  have get: "htsg_get (sensorgroup_table a) g = Some (map_of (st_entries (sensorgroup_table a)) g)"
    "map_of (st_entries (sensorgroup_table a)) g = None \<longleftrightarrow> groups_of a g = None"
    using htsg_get_ok [OF ready] entry_lookup [OF ready] by (simp_all add: groups_of_def)
  note create = create_sensorgroups_subscription_def [of "Some (body_text ?obj)" a, unfolded p]
  show ?thesis
  proof (cases "groups_of a g = None")
    case False
    with get obtain q where "htsg_get (sensorgroup_table a) g = Some (Some q)" by auto
    then have "create_sensorgroups_subscription (Some (body_text ?obj)) a = fail_with ''A sensorgroup with that id already exists'' a"
      unfolding create by (simp add: group_object_def)
    with False a show ?thesis by (simp add: carries_out_refusal)
  next
    case True
    with get have none: "htsg_get (sensorgroup_table a) g = Some None" by simp
    have loop: "create_sensorgroups_subscription (Some (body_text ?obj)) a =
        do { r \<leftarrow> group_sensors (map (\<lambda>k. JObject [(''sensor-id'', JString k)]) ks) [] a;
             case r of
               Return response reply a' \<Rightarrow> Some (response, reply, a')
             | Continue (l, a') \<Rightarrow> do {
                 t \<leftarrow> htsg_new \<lparr>sg_id = g, publish_rate = rate, sensorcount = length l, sensor_list = l,
                        last_tv_sec = 0, last_tv_usec = 0\<rparr> (sensorgroup_table a');
                 Some (OK, Some [], mark_configured (a'\<lparr>sensorgroup_table := t\<rparr>)) } }"
      unfolding create using none
      by (simp add: group_object_def json_object_get_array_def json_object_get_number_def double_i32_roundtrip clear_values_def)
    show ?thesis
    proof (cases "\<forall>k \<in> set ks. sensors_of a k \<noteq> None")
      case False
      with list_ids [OF a, of ks "[]"] obtain reply o' where
        "group_sensors (map (\<lambda>k. JObject [(''sensor-id'', JString k)]) ks) [] a = Some (Return ERROR (Some reply) (a\<lparr>overruns := o'\<rparr>))"
        by (auto split: if_splits)
      with loop False a show ?thesis by (auto simp: carries_out_def answered_def)
    next
      case ids: True
      with list_ids [OF a, of ks "[]"] obtain o' where
        o': "group_sensors (map (\<lambda>k. JObject [(''sensor-id'', JString k)]) ks) [] a = Some (Continue (ks, a\<lparr>overruns := o'\<rparr>))"
        by (auto split: if_splits)
      from htsg_new_ok [OF ready, of ?new] True obtain t where t: "htsg_new ?new (sensorgroup_table a) = Some t" "store_ready t"
          "store_lookup t = (groups_of a)(g \<mapsto> ?new)"
        by (auto simp: groups_of_def)
      have c: "create_sensorgroups_subscription (Some (body_text ?obj)) a =
          Some (OK, Some [], mark_configured (a\<lparr>overruns := o', sensorgroup_table := t\<rparr>))"
        unfolding loop o' using t(1) by simp
      have "agent_ok (a\<lparr>overruns := o', sensorgroup_table := t\<rparr>)"
        using a t w by (intro agent_ok_groups) (auto dest: agent_okD(4) simp: group_ok_def split: if_splits)
      moreover have "(\<lambda>k. map_option (\<lambda>g. (publish_rate g, members g)) (((groups_of a)(g \<mapsto> ?new)) k)) =
          (subscriptions (view a))(g \<mapsto> (rate, ks))"
        by (auto simp: members_def fun_eq_iff)
      ultimately show ?thesis using True ids t(3) by (intro carries_out_OK [OF c]) simp_all
    qed
  qed
qed

lemma remove_group:
  assumes a: "agent_ok a"
  shows "carries_out (Remove_group g) a (delete_sensorgroups_subscription None [(''id'', g)] a)"
proof -
  note ready = agent_okD(2) [OF a]
  have get: "htsg_get (sensorgroup_table a) g = Some (map_of (st_entries (sensorgroup_table a)) g)"
    "map_of (st_entries (sensorgroup_table a)) g = None \<longleftrightarrow> groups_of a g = None"
    using htsg_get_ok [OF ready] entry_lookup [OF ready] by (simp_all add: groups_of_def)
  show ?thesis
  proof (cases "groups_of a g = None")
    case True
    with get have "htsg_get (sensorgroup_table a) g = Some None" by simp
    with True a show ?thesis
      by (simp add: delete_sensorgroups_subscription_def leave_def fail_with_text carries_out_def answered_def log_overrun_def Let_def)
  next
    case False
    with get obtain q where q: "htsg_get (sensorgroup_table a) g = Some (Some q)" by auto
    from htsg_delete_ok [OF ready, of g] False obtain p t where
      t: "htsg_delete (sensorgroup_table a) g = Some (Some p, t)" "store_ready t" "store_lookup t = (groups_of a)(g := None)"
      by (auto simp: groups_of_def)
    have c: "delete_sensorgroups_subscription None [(''id'', g)] a = Some (OK, None, a\<lparr>sensorgroup_table := t\<rparr>)"
      using q t(1) by (simp add: delete_sensorgroups_subscription_def)
    have "agent_ok (a\<lparr>sensorgroup_table := t\<rparr>)"
      using a t by (intro agent_ok_groups) (auto dest: agent_okD(4) split: if_splits)
    moreover have "(\<lambda>k. map_option (\<lambda>g. (publish_rate g, members g)) (((groups_of a)(g := None)) k)) =
        (subscriptions (view a))(g := None)"
      by (auto simp: fun_eq_iff)
    ultimately show ?thesis using False t(3) by (intro carries_out_OK [OF c]) simp_all
  qed
qed

lemma command:
  assumes a: "agent_ok a"
  shows "carries_out Start a (cmd_execute_configuration (Some (body_text (command_object ''start''))) a)"
    "carries_out Stop a (cmd_execute_configuration (Some (body_text (command_object ''stop''))) a)"
proof -
  have ok: "agent_ok (a\<lparr>status := m\<rparr>)" for m
    using a same_tables_ok [of "a\<lparr>status := m\<rparr>" a] by (simp add: same_tables_def)
  have p: "payload_object (Some (body_text (command_object c))) = Some (Some (command_object c))" if "nul_free c" for c
    using command_body [OF that] by simp
  show "carries_out Start a (cmd_execute_configuration (Some (body_text (command_object ''start''))) a)"
    using a ok p [of "''start''"]
    by (simp add: cmd_execute_configuration_def clear_values_def carries_out_def fail_with_text answered_def) (simp add: command_object_def fail_with_text clear_values_def)
  show "carries_out Stop a (cmd_execute_configuration (Some (body_text (command_object ''stop''))) a)"
    using a ok p [of "''stop''"]
    by (simp add: cmd_execute_configuration_def clear_values_def carries_out_def fail_with_text answered_def) (simp add: command_object_def fail_with_text clear_values_def)
qed

section \<open>The service keeps its contract\<close>

lemma serve_refines:
  assumes a: "agent_ok a" and w: "writable order"
  shows "\<exists>code a'. serve env order a = Some (code, a') \<and> agent_ok a' \<and> perform order (view a) = (code, view a')"
proof -
  have "carries_out order a r \<Longrightarrow> (\<And>code a'. answered r = Some (code, a') \<Longrightarrow>
      \<exists>rep. http_handler env (request_of order) a = Some (rep, a') \<and> http_status rep = code) \<Longrightarrow> ?thesis" for r
    unfolding carries_out_def serve_def by fastforce
  note via = this
  show ?thesis
  proof (cases order)
    case (Add_sensor s)
    with w sensor_body [of s] serve_post [of "sensor_object s" URL_SENSORS_CONF] add_sensor [OF a, of s] show ?thesis
      by (intro via [of "create_sensors_configuration (Some (body_text (sensor_object s))) a"])
        (simp_all add: myAdeptnessService_post_handler_def)
  next
    case (Remove_sensor k)
    with serve_delete [of URL_SENSORS_CONF k] remove_sensor [OF a, of k] show ?thesis
      by (intro via [of "delete_sensors_configuration None [(''id'', k)] a"]) (simp_all add: myAdeptnessService_delete_handler_def)
  next
    case (Add_group g rate ks)
    have "URL_SENSORGROUPS \<noteq> URL_SENSORS_CONF" by (simp add: url_defs)
    with Add_group w group_body [of g ks rate] serve_post [of "group_object g rate ks" URL_SENSORGROUPS] add_group [OF a, of g rate ks]
    show ?thesis
      by (intro via [of "create_sensorgroups_subscription (Some (body_text (group_object g rate ks))) a"])
        (simp_all add: myAdeptnessService_post_handler_def)
  next
    case (Remove_group g)
    have "URL_SENSORGROUPS \<noteq> URL_SENSORS_CONF" by (simp add: url_defs)
    with Remove_group serve_delete [of URL_SENSORGROUPS g] remove_group [OF a, of g] show ?thesis
      by (intro via [of "delete_sensorgroups_subscription None [(''id'', g)] a"]) (simp_all add: myAdeptnessService_delete_handler_def)
  next
    case Start
    with command_body [of "''start''"] serve_put [of "command_object ''start''"] command(1) [OF a] show ?thesis
      by (intro via [of "cmd_execute_configuration (Some (body_text (command_object ''start''))) a"]) simp_all
  next
    case Stop
    with command_body [of "''stop''"] serve_put [of "command_object ''stop''"] command(2) [OF a] show ?thesis
      by (intro via [of "cmd_execute_configuration (Some (body_text (command_object ''stop''))) a"]) simp_all
  qed
qed

interpretation service: functional_refinement agent_ok view writable "serve env" perform
  for env
  by unfold_locales (rule serve_refines)

text \<open>
  C1: The program keeps the contract of the configuration service. For every sequence of orders
  that clients send as requests (sensors and groups added and removed, start and stop), with
  their bodies as JSON texts, \<open>http_handler\<close> is defined on each request, the status codes are
  those of the specification (200, or 409 for a refusal, which changes nothing), and what the
  tables and the status show afterwards is the state of the specification.
\<close>

theorem orders_refine_specification:
  assumes "agent_ok a" and "\<forall>order \<in> set orders. writable order"
  shows "\<exists>codes a'. run_ub (serve env) orders a = Some (codes, a') \<and> agent_ok a' \<and>
    run_spec perform orders (view a) = (codes, view a')"
  using assms by (rule service.runs_refine)

theorem orders_refine_specification_witness:
  "\<exists>a'. run_ub (serve \<lparr>host_ip = ''10.0.0.7'', counters = idle_counters\<rparr>)
      [Add_sensor (byte_sensor ''s''), Add_group ''g'' 1000 [''s''], Start, Remove_sensor ''s'', Add_group ''h'' 5 [''s'']]
      (populated [] []) = Some ([200, 200, 200, 200, 409], a') \<and>
    subscriptions (view a') ''g'' = Some (1000, []) \<and> mode (view a') = running"
proof -
  have p: "agent_ok (populated [] [])" "view (populated [] []) = \<lparr>catalogue = Map.empty, subscriptions = Map.empty, mode = unconfigured\<rparr>"
    using populated_ok [of "[]" "[]"] by (simp_all add: view_def)
  let ?orders = "[Add_sensor (byte_sensor ''s''), Add_group ''g'' 1000 [''s''], Start, Remove_sensor ''s'', Add_group ''h'' 5 [''s'']]"
  have "writable (Add_sensor (byte_sensor ''s''))" by (simp add: byte_sensor_def)
  then have w: "\<forall>order \<in> set ?orders. writable order" by simp
  from orders_refine_specification [OF p(1) w, of "\<lparr>host_ip = ''10.0.0.7'', counters = idle_counters\<rparr>"] obtain codes a' where
    a': "run_ub (serve \<lparr>host_ip = ''10.0.0.7'', counters = idle_counters\<rparr>) ?orders (populated [] []) = Some (codes, a')"
      "run_spec perform ?orders (view (populated [] [])) = (codes, view a')" by blast
  define v where "v = view a'"
  from a'(2) have "codes = [200, 200, 200, 200, 409] \<and> subscriptions v ''g'' = Some (1000, []) \<and> mode v = running"
    unfolding p(2) v_def [symmetric] by (auto simp: Let_def touched_def byte_sensor_def)
  with a'(1) show ?thesis unfolding v_def by blast
qed

end
