(* ===== verification/Monitoring.thy ===== *)
theory Monitoring
  imports MainLoop Service
begin

text \<open>
  The purpose of the program, from end to end: the value of a frame on the CAN bus is what a
  subscriber reads in the message of a group that lists the sensor.
\<close>

lemma received_keys:
  "sens_id (received frame timestamp s) = sens_id s" "sens_name (received frame timestamp s) = sens_name s"
  by (simp_all add: received_def)

lemma enumerate_mem: "g \<in> set gs \<Longrightarrow> \<exists>i. (i, g) \<in> set (enumerate n gs)"
  by (metis in_set_conv_nth length_enumerate nth_enumerate_eq nth_mem)

text \<open>
  C2: From the bus to the subscriber. A frame arrives while a group that lists a sensor of its
  id is due: the loop over the sensors and the publishing loop are both defined, the group is
  published under its topic, and whoever parses the message reads, for that sensor, its id and
  name, the decoded value of the field of the frame, and the time of the frame. (The sensors
  of the frame's id must have defined fields, every listed id must be a sensor, and the texts
  of the group must be UTF-8.)
\<close>

theorem measurement_reaches_subscriber:
  assumes a: "agent_ok a" "references_ok a" "monitor_id a = Some ident"
    and g: "groups_of a k = Some g" "j \<in> set (members g)" "\<And>i. due (clock i) g"
    and s: "sensors_of a j = Some s" "can_id s = frame_id frame"
    and d: "\<And>i s'. sensors_of a i = Some s' \<Longrightarrow> can_id s' = frame_id frame \<Longrightarrow> decoded frame s' \<noteq> None"
    and u: "\<And>i s'. i \<in> set (members g) \<Longrightarrow> sensors_of a i = Some s' \<Longrightarrow> printable (received frame timestamp s')"
  shows "\<exists>a1 made a2 payload vs. parse_can_frame frame timestamp a = Some a1 \<and> publish_groups clock a1 = Some (made, a2) \<and>
    Publish (data_topic ident g) payload (length payload + 1) (mqtt_qos a) \<in> set made \<and>
    json_parse_string (Some payload) = Some (JArray vs) \<and> length vs = length (members g) \<and>
    JObject [(''bn'', JString j), (''n'', JString (sens_name s)), (''v'', JString (the (decoded frame s))),
      (''bt'', JNumber (double_of_u64 (scast timestamp)))] \<in> set vs"
proof -
  have "\<forall>k s. sensors_of a k = Some s \<and> can_id s = frame_id frame \<longrightarrow> decoded frame s \<noteq> None" using d by blast
  from parse_can_frame_received [OF a(1), of frame timestamp, unfolded if_P [OF this]] obtain a1 where
    a1: "parse_can_frame frame timestamp a = Some a1" "agent_ok a1" "same_control a1 a" "groups_of a1 = groups_of a"
      "sensors_of a1 = map_option (received frame timestamp) \<circ> sensors_of a" by blast
  have ref: "references_ok a1" using a(2) a1(4,5) by (auto simp: references_ok_def group_resolved_def)
  have id: "monitor_id a1 = Some ident" "mqtt_qos a1 = mqtt_qos a" using same_controlD [OF a1(3)] a(3) by simp_all
  from publish_groups_defined [OF a1(2) ref id(1), of clock] obtain gs a2 where
    gs: "walk (sensorgroup_table a1) = Some gs" and
    p: "publish_groups clock a1 =
      Some (concat (map (\<lambda>(i, g). if due (clock i) g then [message a1 ident g] else []) (enumerate 0 gs)), a2)" by blast
  from walk_ok [OF agent_okD(2) [OF a1(2)]] gs have "set gs = ran (groups_of a1)" by (simp add: groups_of_def)
  then have "g \<in> set gs" using g(1) a1(4) by (auto simp: ran_def)
  from enumerate_mem [OF this] obtain i where "(i, g) \<in> set (enumerate 0 gs)" by blast
  then have made: "message a1 ident g \<in> set (concat (map (\<lambda>(i, g). if due (clock i) g then [message a1 ident g] else []) (enumerate 0 gs)))"
    using g(3) by fastforce
  have res: "group_resolved a1 g" using ref g(1) a1(4) by (simp add: references_ok_def)
  have "printable (the (sensors_of a1 i))" if "i \<in> set (members g)" for i
    using u [OF that] res that a1(5) by (auto simp: group_resolved_def)
  from data_text_read [OF a1(2) res this]
  have parsed: "json_parse_string (Some (data_text a1 g)) = Some (JArray (map (measured \<circ> the \<circ> sensors_of a1) (members g)))" .
  have "sens_id s = j" using agent_okD(3) [OF a(1) s(1)] by simp
  then have entry: "(measured \<circ> the \<circ> sensors_of a1) j = JObject [(''bn'', JString j), (''n'', JString (sens_name s)),
      (''v'', JString (the (decoded frame s))), (''bt'', JNumber (double_of_u64 (scast timestamp)))]"
    using s a1(5) by (simp add: measured_def received_def)
  show ?thesis
  proof (intro exI conjI)
    show "parse_can_frame frame timestamp a = Some a1" by (rule a1(1))
    show "publish_groups clock a1 = Some (concat (map (\<lambda>(i, g). if due (clock i) g then [message a1 ident g] else []) (enumerate 0 gs)), a2)"
      by (rule p)
    show "Publish (data_topic ident g) (data_text a1 g) (length (data_text a1 g) + 1) (mqtt_qos a) \<in>
        set (concat (map (\<lambda>(i, g). if due (clock i) g then [message a1 ident g] else []) (enumerate 0 gs)))"
      using made id(2) by (simp add: message_def)
    show "json_parse_string (Some (data_text a1 g)) = Some (JArray (map (measured \<circ> the \<circ> sensors_of a1) (members g)))"
      by (rule parsed)
  qed (use g(2) entry in \<open>simp_all, metis comp_apply image_eqI\<close>)
qed

theorem measurement_reaches_subscriber_witness:
  "\<exists>a1 made a2 payload vs.
    parse_can_frame \<lparr>frame_id = 5, can_dlc = 1, frame_data = [7]\<rparr> 9 (populated [byte_sensor ''s''] [plain_group ''g'' [''s'']]) = Some a1 \<and>
    publish_groups (\<lambda>i. \<lparr>tv_sec = 5, tv_usec = 0\<rparr>) a1 = Some (made, a2) \<and>
    Publish ''adms/v2/monitor-agent/monitor/g'' payload (length payload + 1) 0 \<in> set made \<and>
    json_parse_string (Some payload) = Some (JArray vs) \<and> length vs = 1 \<and>
    JObject [(''bn'', JString ''s''), (''n'', JString ''speed''), (''v'', JString ''7''), (''bt'', JNumber (double_of_u64 9))] \<in> set vs"
proof -
  let ?frame = "\<lparr>frame_id = 5, can_dlc = 1, frame_data = [7]\<rparr>" and ?g = "plain_group ''g'' [''s'']" and ?s = "byte_sensor ''s''"
  let ?a = "populated [?s] [?g]"
  have p: "agent_ok ?a" "sensors_of ?a = [''s'' \<mapsto> ?s]" "groups_of ?a = [''g'' \<mapsto> ?g]"
    using populated_ok [of "[?s]" "[?g]"] by simp_all
  have m: "monitor_id ?a = Some ''monitor''" "mqtt_qos ?a = 0" by (simp_all add: populated_def started_agent_def Let_def)
  have r: "references_ok ?a" by (auto simp: references_ok_def group_resolved_def p split: if_splits)
  have d: "decoded ?frame ?s = Some ''7''" and i: "can_id ?s = 5" and due: "due \<lparr>tv_sec = 5, tv_usec = 0\<rparr> ?g" by code_simp+
  have u: "is_valid_utf8 ''s'' \<and> is_valid_utf8 ''speed'' \<and> is_valid_utf8 ''7''" by code_simp
  have n: "sens_name ?s = ''speed''" "sens_id ?s = ''s''" by (simp_all add: byte_sensor_def)
  have t: "data_topic ''monitor'' ?g = ''adms/v2/monitor-agent/monitor/g''" by (simp add: data_topic_def DATA_TOPIC_PREFIX_def plain_group_def)
  have pr: "printable (received ?frame 9 ?s)" by (simp add: printable_def received_def i d u n)
  have D: "decoded ?frame s' \<noteq> None" if "sensors_of ?a i = Some s'" for i s'
    using that by (auto simp: p d split: if_splits)
  have U: "printable (received ?frame 9 s')" if "sensors_of ?a i = Some s'" for i s'
    using that by (auto simp: p pr split: if_splits)
  have g: "groups_of ?a ''g'' = Some ?g" "''s'' \<in> set (members ?g)" "length (members ?g) = 1"
    and s: "sensors_of ?a ''s'' = Some ?s" "can_id ?s = frame_id ?frame" by (simp_all add: p i)
  from measurement_reaches_subscriber [OF p(1) r m(1) g(1,2) due s D U]
  show ?thesis unfolding m(2) t n d g(3) by simp
qed

end
