(* ===== verification/Interleaving.thy ===== *)
theory Interleaving
  imports MainLoop
begin

text \<open>
  The loops over the tables in \<^verbatim>\<open>CanMonitor.c\<close> run in the main thread while the threads of the
  REST server change the same tables, and there is no lock. Here a loop is a sequence of turns,
  each of which visits the node it points to and moves on to the next, and between two turns the
  table may change; a turn and a change are each taken as atomic. Nodes are known by the address
  of their payload, which is never used again; a node that has been unlinked has been freed.
  Without changes the turns are \<open>parse_can_frame\<close> (\<open>turns_parse_can_frame\<close>).
\<close>

section \<open>The loop turn by turn\<close>

text \<open>The bucket and the node that the loop points to; \<open>None\<close> when it has ended.\<close>

type_synonym cursor = "(nat \<times> nat) option"

text \<open>\<open>seen\<close> is the history of the visits.\<close>

record ('v, 's) loop =
  tbl :: "'v store"
  carried :: 's
  cursor :: cursor
  seen :: "nat list"

text \<open>The first node of the buckets from \<open>i\<close> on, and the node behind the one of \<open>p\<close> in bucket \<open>i\<close>.\<close>

definition node_from :: "htable \<Rightarrow> nat \<Rightarrow> cursor" where
  "node_from t i =
     (case dropWhile (\<lambda>j. ht_array t ! j = []) [i..<unat (ht_size t)] of
        [] \<Rightarrow> None
      | j # _ \<Rightarrow> Some (j, snd (hd (ht_array t ! j))))"

definition node_after :: "htable \<Rightarrow> nat \<Rightarrow> nat \<Rightarrow> cursor option" where
  "node_after t i p =
     (case dropWhile (\<lambda>e. snd e \<noteq> p) (ht_array t ! i) of
        [] \<Rightarrow> None
      | [_] \<Rightarrow> Some (node_from t (Suc i))
      | _ # e # _ \<Rightarrow> Some (Some (i, snd e)))"

definition loop_turn :: "('v \<Rightarrow> 's \<Rightarrow> ('v \<times> 's) option) \<Rightarrow> ('v, 's) loop \<Rightarrow> ('v, 's) loop option" where
  "loop_turn f l =
     (case cursor l of
        None \<Rightarrow> Some l
      | Some (i, p) \<Rightarrow> do {
          t \<leftarrow> st_table (tbl l);
          next_node \<leftarrow> node_after t i p;
          (h, s) \<leftarrow> visit f p (st_heap (tbl l), carried l);
          Some (l\<lparr>tbl := (tbl l)\<lparr>st_heap := h\<rparr>, carried := s, cursor := next_node, seen := seen l @ [p]\<rparr>) })"

definition loop_start :: "'v store \<Rightarrow> 's \<Rightarrow> ('v, 's) loop option" where
  "loop_start t s = do {
     tab \<leftarrow> st_table t;
     Some \<lparr>tbl = t, carried = s, cursor = node_from tab 0, seen = []\<rparr> }"

text \<open>
  What happens: a turn of the loop, or a request that puts a new key, removes a key or rewrites
  payloads in place (as the deletion of a sensor does with the lists of the groups).
\<close>

datatype 'v event = Turn | Change "'v table_op" | Rewrite "'v \<Rightarrow> 'v"

fun event_step :: "('v \<Rightarrow> 's \<Rightarrow> ('v \<times> 's) option) \<Rightarrow> 'v event \<Rightarrow> ('v, 's) loop \<Rightarrow> ('v, 's) loop option" where
  "event_step f Turn l = loop_turn f l"
| "event_step f (Change c) l = do { t \<leftarrow> table_step c (tbl l); Some (l\<lparr>tbl := t\<rparr>) }"
| "event_step f (Rewrite g) l = do { t \<leftarrow> update_all (\<lambda>v. Some (g v)) (tbl l); Some (l\<lparr>tbl := t\<rparr>) }"

definition run_loop :: "('v \<Rightarrow> 's \<Rightarrow> ('v \<times> 's) option) \<Rightarrow> 'v event list \<Rightarrow> ('v, 's) loop \<Rightarrow> ('v, 's) loop option" where
  "run_loop f es l = fold_ub (event_step f) es l"

section \<open>What is ahead of the loop\<close>

definition on_node :: "htable \<Rightarrow> cursor \<Rightarrow> bool" where
  "on_node t c = (case c of None \<Rightarrow> True | Some (i, p) \<Rightarrow> i < length (ht_array t) \<and> p \<in> snd ` set (ht_array t ! i))"

definition ahead :: "htable \<Rightarrow> cursor \<Rightarrow> (cstring \<times> nat) list" where
  "ahead t c = (case c of None \<Rightarrow> []
     | Some (i, p) \<Rightarrow> dropWhile (\<lambda>e. snd e \<noteq> p) (ht_array t ! i) @ concat (drop (Suc i) (ht_array t)))"

lemma node_from_ahead:
  assumes "length (ht_array t) = unat (ht_size t)"
  shows "on_node t (node_from t i) \<and> ahead t (node_from t i) = concat (drop i (ht_array t))"
proof (induction "length (ht_array t) - i" arbitrary: i)
  case 0
  then show ?case using assms by (simp add: node_from_def on_node_def ahead_def)
next
  case (Suc n)
  then have i: "i < length (ht_array t)" by simp
  then have split: "[i..<unat (ht_size t)] = i # [Suc i..<unat (ht_size t)]" "drop i (ht_array t) = ht_array t ! i # drop (Suc i) (ht_array t)"
    using assms by (simp_all add: upt_conv_Cons Cons_nth_drop_Suc)
  show ?case
  proof (cases "ht_array t ! i")
    case Nil
    then have "node_from t i = node_from t (Suc i)" by (simp add: node_from_def split(1))
    with Suc.hyps(1) [of "Suc i"] Suc.hyps(2) Nil show ?thesis by (simp add: split(2))
  next
    case (Cons e b)
    then show ?thesis using i by (simp add: node_from_def split on_node_def ahead_def)
  qed
qed

lemma dropWhile_found: "p \<notin> snd ` set pre \<Longrightarrow> dropWhile (\<lambda>e. snd e \<noteq> p) (pre @ (k, p) # b) = (k, p) # b"
  by (induction pre) auto

lemma node_after_ahead:
  assumes "length (ht_array t) = unat (ht_size t)" and "distinct (map snd (entries t))" and "on_node t (Some (i, p))"
  shows "\<exists>c k. node_after t i p = Some c \<and> on_node t c \<and> ahead t (Some (i, p)) = (k, p) # ahead t c"
proof -
  from assms(3) have i: "i < length (ht_array t)" and "p \<in> snd ` set (ht_array t ! i)" by (simp_all add: on_node_def)
  then obtain k where "(k, p) \<in> set (ht_array t ! i)" by auto
  then obtain pre b where b: "ht_array t ! i = pre @ (k, p) # b" by (meson split_list)
  have "ht_array t ! i \<in> set (ht_array t)" using i by simp
  then have d: "distinct (map snd (ht_array t ! i))"
    using assms(2) by (auto simp: entries_def map_concat distinct_concat_iff)
  have found: "dropWhile (\<lambda>e. snd e \<noteq> p) (ht_array t ! i) = (k, p) # b"
    unfolding b by (rule dropWhile_found) (use d in \<open>auto simp: b\<close>)
  show ?thesis
  proof (cases b)
    case Nil
    with found node_from_ahead [OF assms(1), of "Suc i"] show ?thesis by (auto simp: node_after_def ahead_def)
  next
    case (Cons e b')
    have "dropWhile (\<lambda>x. snd x \<noteq> snd e) (ht_array t ! i) = e # b'"
      using dropWhile_found [of "snd e" "pre @ [(k, p)]" "fst e" b'] d by (auto simp: b Cons)
    with found i show ?thesis by (simp add: node_after_def ahead_def on_node_def Cons b)
  qed
qed

text \<open>An entry that has been unlinked is not found.\<close>

lemma node_after_None: "p \<notin> snd ` set (entries t) \<Longrightarrow> i < length (ht_array t) \<Longrightarrow> node_after t i p = None"
proof -
  assume a: "p \<notin> snd ` set (entries t)" "i < length (ht_array t)"
  then have "\<forall>e \<in> set (ht_array t ! i). snd e \<noteq> p" using bucket_sub_entries [of i t] by force
  then have "dropWhile (\<lambda>e. snd e \<noteq> p) (ht_array t ! i) = []" by (simp add: dropWhile_eq_Nil_conv)
  then show ?thesis by (simp only: node_after_def list.case)
qed

section \<open>What a turn and what a change does\<close>

definition table_of :: "('v, 's) loop \<Rightarrow> htable" where
  "table_of l = the (st_table (tbl l))"

definition loop_ok :: "('v, 's) loop \<Rightarrow> bool" where
  "loop_ok l \<longleftrightarrow> store_ready (tbl l) \<and> on_node (table_of l) (cursor l)"

definition to_visit :: "('v, 's) loop \<Rightarrow> (cstring \<times> nat) list" where
  "to_visit l = ahead (table_of l) (cursor l)"

text \<open>The loop points to a node that has been freed.\<close>

definition dangling :: "('v, 's) loop \<Rightarrow> bool" where
  "dangling l \<longleftrightarrow> store_ready (tbl l) \<and> (\<exists>i p. cursor l = Some (i, p) \<and> i < length (ht_array (table_of l)) \<and>
     p < next_addr (st_heap (tbl l)) \<and> p \<notin> snd ` set (entries (table_of l)))"

lemma store_readyD:
  assumes "store_ready s"
  obtains t where "st_table s = Some t" "table_ok t" "distinct (map fst (entries t))" "distinct (map snd (entries t))"
    "length (ht_array t) = unat (ht_size t)" "store_ok s"
  using assms store_okD [of s] by (auto simp: store_ready_def table_ok_def)

lemma entry_below: "store_ready s \<Longrightarrow> st_table s = Some t \<Longrightarrow> e \<in> set (entries t) \<Longrightarrow>
  snd e < next_addr (st_heap s)"
proof -
  assume a: "store_ready s" "st_table s = Some t" "e \<in> set (entries t)"
  then have "cells (st_heap s) (snd e) \<noteq> None" "heap_ok (st_heap s)"
    using store_okD [of s t] by (cases e; force simp: store_ready_def)+
  then show ?thesis by (meson heap_ok_def leI)
qed

lemma ahead_entries: "on_node t c \<Longrightarrow> set (ahead t c) \<subseteq> set (entries t)"
proof (cases c)
  case (Some ip)
  assume "on_node t c"
  then obtain i p where c: "c = Some (i, p)" "i < length (ht_array t)" using Some by (cases ip) (simp add: on_node_def)
  have "ht_array t ! i \<in> set (ht_array t)" using c(2) by simp
  then show ?thesis by (auto simp: ahead_def c(1) entries_def dest: set_dropWhileD in_set_dropD)
qed (simp add: ahead_def)

lemma start_ok:
  assumes "store_ready t"
  shows "\<exists>l. loop_start t s = Some l \<and> loop_ok l \<and> to_visit l = st_entries t \<and> tbl l = t \<and> carried l = s \<and>
    seen l = []"
proof -
  from assms obtain tab where tab: "st_table t = Some tab" "length (ht_array tab) = unat (ht_size tab)" by (rule store_readyD)
  with node_from_ahead [OF tab(2), of 0] assms show ?thesis
    by (simp add: loop_start_def loop_ok_def to_visit_def table_of_def st_entries_def entries_def)
qed

text \<open>A turn on a node that is there is the visit of its payload.\<close>

lemma turn_visit:
  assumes "loop_ok l" and "to_visit l = e # es"
  shows "\<exists>c. loop_turn f l = map_option (\<lambda>(h, s). l\<lparr>tbl := (tbl l)\<lparr>st_heap := h\<rparr>, carried := s, cursor := c, seen := seen l @ [snd e]\<rparr>)
      (visit f (snd e) (st_heap (tbl l), carried l)) \<and> on_node (table_of l) c \<and> ahead (table_of l) c = es"
proof -
  from assms(1) have ready: "store_ready (tbl l)" "on_node (table_of l) (cursor l)" by (simp_all add: loop_ok_def)
  from ready(1) obtain t where t: "st_table (tbl l) = Some t" "distinct (map snd (entries t))" "length (ht_array t) = unat (ht_size t)"
    by (rule store_readyD)
  have tab: "table_of l = t" by (simp add: table_of_def t(1))
  from assms(2) obtain i p where c: "cursor l = Some (i, p)" by (auto simp: to_visit_def ahead_def split: option.splits)
  from node_after_ahead [OF t(3,2), of i p] ready(2) assms(2) obtain c' where
    "node_after t i p = Some c'" "on_node t c'" "ahead t c' = es" "p = snd e"
    by (auto simp: tab c to_visit_def)
  then show ?thesis
    by (intro exI [of _ c'], cases "visit f (snd e) (st_heap (tbl l), carried l)") (auto simp: loop_turn_def c t(1) tab)
qed

lemma visit_ready:
  assumes "store_ready t" and "visit f p (st_heap t, s) = Some (h, s')"
  shows "store_ready (t\<lparr>st_heap := h\<rparr>) \<and> next_addr h = next_addr (st_heap t)"
proof -
  from assms(2) obtain v v' where v: "cells (st_heap t) p = Some v" "hwrite p v' (st_heap t) = Some h"
    by (auto simp: visit_def deref_def bind_Some_iff)
  then have h: "h = (st_heap t)\<lparr>cells := (cells (st_heap t))(p \<mapsto> v')\<rparr>" by (simp add: hwrite_def)
  with v(1) assms(1) show ?thesis
    by (auto simp: store_ready_def store_ok_def heap_ok_def split: option.splits)
qed

lemma turn_ok:
  assumes "loop_ok l" and "to_visit l = e # es" and "loop_turn f l = Some l'"
  shows "loop_ok l' \<and> to_visit l' = es \<and> st_table (tbl l') = st_table (tbl l) \<and>
    seen l' = seen l @ [snd e] \<and> next_addr (st_heap (tbl l')) = next_addr (st_heap (tbl l))"
proof -
  from turn_visit [OF assms(1,2), of f] assms(3) obtain c h s where
    c: "visit f (snd e) (st_heap (tbl l), carried l) = Some (h, s)"
      "l' = l\<lparr>tbl := (tbl l)\<lparr>st_heap := h\<rparr>, carried := s, cursor := c, seen := seen l @ [snd e]\<rparr>"
      "on_node (table_of l) c" "ahead (table_of l) c = es" by force
  from assms(1) have "store_ready (tbl l)" by (simp add: loop_ok_def)
  from visit_ready [OF this c(1)] c show ?thesis
    by (auto simp: loop_ok_def to_visit_def table_of_def)
qed

text \<open>A loop body that is defined on all payloads of a set and stays in it, and a loop over such payloads.\<close>

definition body_total :: "'v set \<Rightarrow> ('v \<Rightarrow> 's \<Rightarrow> ('v \<times> 's) option) \<Rightarrow> bool" where
  "body_total I f \<longleftrightarrow> (\<forall>v \<in> I. \<forall>s. \<exists>v' s'. f v s = Some (v', s') \<and> v' \<in> I)"

definition payloads_in :: "'v set \<Rightarrow> 'v store \<Rightarrow> bool" where
  "payloads_in I t \<longleftrightarrow> (\<forall>(k, p) \<in> set (st_entries t). \<exists>v \<in> I. cells (st_heap t) p = Some v)"

lemma payloads_in_ran:
  assumes "store_ready t"
  shows "payloads_in I t \<longleftrightarrow> ran (store_lookup t) \<subseteq> I"
proof -
  from assms obtain tab where tab: "st_table t = Some tab" "distinct (map fst (entries tab))" "store_ok t" by (rule store_readyD)
  have "store_lookup t k = cells (st_heap t) p" if "(k, p) \<in> set (entries tab)" for k p
    using map_of_is_SomeI [OF tab(2) that] tab(1) by (simp add: store_lookup_def)
  moreover have "\<exists>p. (k, p) \<in> set (entries tab)" if "store_lookup t k = Some v" for k v
    using that tab(1) by (auto simp: store_lookup_def dest: map_of_SomeD split: option.splits)
  ultimately show ?thesis
    using store_okD(4) [OF tab(3,1)] tab(1) by (fastforce simp: payloads_in_def ran_def)
qed

lemma turn_defined:
  assumes "loop_ok l" and total: "body_total I f" and pay: "payloads_in I (tbl l)" and "to_visit l = e # es"
  shows "\<exists>l'. loop_turn f l = Some l' \<and> payloads_in I (tbl l')"
proof -
  from assms(1) have ready: "store_ready (tbl l)" "on_node (table_of l) (cursor l)" by (simp_all add: loop_ok_def)
  from ready(1) obtain t where t: "st_table (tbl l) = Some t" by (rule store_readyD)
  have "e \<in> set (entries t)" using ahead_entries [OF ready(2)] assms(4) t by (auto simp: to_visit_def table_of_def)
  with pay t obtain v where v: "cells (st_heap (tbl l)) (snd e) = Some v" "v \<in> I" by (fastforce simp: payloads_in_def)
  with total obtain v' s' where v': "f v (carried l) = Some (v', s')" "v' \<in> I" by (fastforce simp: body_total_def)
  from turn_visit [OF assms(1,4), of f] v(1) v' pay t show ?thesis
    by (auto simp: visit_def deref_def hwrite_def payloads_in_def)
qed

lemma turn_ended: "to_visit l = [] \<Longrightarrow> loop_ok l \<Longrightarrow> cursor l = None \<and> loop_turn f l = Some l"
proof -
  assume a: "to_visit l = []" "loop_ok l"
  have "cursor l = None"
  proof (rule ccontr)
    assume "cursor l \<noteq> None"
    then obtain i p where c: "cursor l = Some (i, p)" by auto
    from a(2) obtain t where t: "st_table (tbl l) = Some t" "distinct (map snd (entries t))" "length (ht_array t) = unat (ht_size t)"
      by (auto simp: loop_ok_def elim: store_readyD)
    with node_after_ahead [OF t(3,2), of i p] a c show False by (auto simp: loop_ok_def to_visit_def table_of_def)
  qed
  then show ?thesis by (simp add: loop_turn_def)
qed

lemma turn_dangling: "dangling l \<Longrightarrow> loop_turn f l = None"
  by (auto simp: dangling_def loop_turn_def table_of_def node_after_None bind_None_iff elim!: store_readyD)

text \<open>A new node comes to the front of its chain.\<close>

lemma put_exact:
  assumes "store_ready s" and "st_table s = Some t"
  shows "\<exists>s'. table_step (Put_new k v) s = Some s' \<and> store_ready s' \<and> next_addr (st_heap s) \<le> next_addr (st_heap s') \<and>
    (st_table s' = Some t \<or> (\<exists>j < length (ht_array t). st_table s' =
      Some (set_bucket j ((k, next_addr (st_heap s)) # ht_array t ! j) t)))"
proof -
  from table_step_ok [OF assms(1), of "Put_new k v"] obtain s' where s': "table_step (Put_new k v) s = Some s'" "store_ready s'" by blast
  from assms obtain j where j: "bucket_index t k = Some j" "j < length (ht_array t)"
    using table_okD [of t k] by (auto simp: store_ready_def dest: store_okD)
  have "st_heap s' = st_heap s \<and> st_table s' = Some t \<or>
      st_heap s' = snd (alloc v (st_heap s)) \<and> st_table s' = Some (set_bucket j ((k, next_addr (st_heap s)) # ht_array t ! j) t)"
    using s'(1) assms(2) j
    by (auto simp: ht_get_def store_insert_def ht_put_def node_handler_def alloc_def Let_def split: if_splits option.splits)
  with s' j(2) show ?thesis by (auto simp: alloc_def)
qed

lemma chain_unlink_filter:
  "distinct (map fst b) \<Longrightarrow> chain_unlink k b = Some (p, b') \<Longrightarrow> b' = filter (\<lambda>e. fst e \<noteq> k) b"
proof (induction k b arbitrary: b' rule: chain_unlink.induct)
  case (2 key k p b)
  have "filter (\<lambda>e. fst e \<noteq> key) b = b" if "key \<notin> fst ` set b" using that by (auto simp: filter_id_conv)
  with 2 show ?case by (auto split: if_splits option.splits)
qed simp

lemma remove_exact:
  assumes "store_ready s" and "st_table s = Some t"
  shows "\<exists>s' t'. table_step (Remove k) s = Some s' \<and> store_ready s' \<and> st_heap s' = st_heap s \<and> st_table s' = Some t' \<and>
    ht_array t' = map (filter (\<lambda>e. fst e \<noteq> k)) (ht_array t)"
proof -
  from table_step_ok [OF assms(1), of "Remove k"] obtain s' where s': "table_step (Remove k) s = Some s'" "store_ready s'" by blast
  from assms have tok: "table_ok t" by (auto simp: store_ready_def dest: store_okD)
  then obtain j where j: "bucket_index t k = Some j" "j < length (ht_array t)" using table_okD by blast
  have other: "filter (\<lambda>e. fst e \<noteq> k) (ht_array t ! i) = ht_array t ! i" if "i < length (ht_array t)" "i \<noteq> j" for i
    using tok that j(1) by (fastforce simp: table_ok_def filter_id_conv)
  show ?thesis
  proof (cases "chain_unlink k (ht_array t ! j)")
    case None
    then have "filter (\<lambda>e. fst e \<noteq> k) (ht_array t ! j) =
      ht_array t ! j" by (auto simp: chain_unlink_None map_of_eq_None_iff filter_id_conv)
    with other have "map (filter (\<lambda>e. fst e \<noteq> k)) (ht_array t) = ht_array t"
      by (intro map_idI) (metis in_set_conv_nth)
    with None s' assms(2) j(1) show ?thesis by (auto simp: ht_delete_def)
  next
    case (Some pb)
    obtain p b' where pb: "pb = (p, b')" by (cases pb)
    have "ht_array t ! j \<in> set (ht_array t)" using j(2) by simp
    then have "distinct (map fst (ht_array t ! j))" using tok by (auto simp: table_ok_def entries_def map_concat distinct_concat_iff)
    then have "b' = filter (\<lambda>e. fst e \<noteq> k) (ht_array t ! j)" using chain_unlink_filter Some pb by blast
    then have "ht_array (set_bucket j b' t) = map (filter (\<lambda>e. fst e \<noteq> k)) (ht_array t)"
      using other by (intro nth_equalityI) (auto simp: nth_set_bucket)
    with Some pb s' assms(2) j(1) show ?thesis by (auto simp: ht_delete_def)
  qed
qed

lemma rewrite_exact:
  assumes "store_ready s"
  shows "\<exists>s'. update_all (\<lambda>v. Some (g v)) s = Some s' \<and> store_ready s' \<and> st_table s' = st_table s \<and>
    next_addr (st_heap s') = next_addr (st_heap s)"
proof -
  from update_all_ok [OF assms, of "\<lambda>v. Some (g v)" g] obtain s' where
    s': "update_all (\<lambda>v. Some (g v)) s = Some s'" "store_ready s'" "st_table s' = st_table s" by auto
  have "next_addr h' = next_addr h" if "fold_ub (\<lambda>p h. do { v \<leftarrow> deref h p; v' \<leftarrow> Some (g v); hwrite p v' h }) ps h = Some h'" for ps h h'
    using that
  proof (induction ps arbitrary: h)
    case (Cons p ps)
    then obtain v h1 where h1: "hwrite p (g v) h = Some h1"
        "fold_ub (\<lambda>p h. do { v \<leftarrow> deref h p; v' \<leftarrow> Some (g v); hwrite p v' h }) ps h1 = Some h'"
      by (auto simp: bind_Some_iff)
    have "next_addr h1 = next_addr h" using h1(1) by (auto simp: hwrite_def split: option.splits)
    with Cons.IH [OF h1(2)] show ?case by simp
  qed simp
  with s' show ?thesis by (auto simp: update_all_def bind_Some_iff)
qed

section \<open>What stays ahead of the loop\<close>

lemma ahead_put:
  assumes "on_node t c" and "j < length (ht_array t)" and "\<forall>e \<in> set (entries t). snd e \<noteq> p"
  shows "on_node (set_bucket j ((k, p) # ht_array t ! j) t) c \<and>
    (\<exists>us vs. ahead t c = us @ vs \<and> ahead (set_bucket j ((k, p) # ht_array t ! j) t) c \<in> {us @ vs, us @ (k, p) # vs})"
proof (cases c)
  case None
  then show ?thesis by (simp add: on_node_def ahead_def)
next
  case (Some ip)
  obtain i q where ip: "ip = (i, q)" by (cases ip)
  let ?b = "(k, p) # ht_array t ! j"
  have i: "i < length (ht_array t)" "q \<in> snd ` set (ht_array t ! i)" using assms(1) by (simp_all add: on_node_def Some ip)
  have q: "q \<noteq> p" using assms(3) i bucket_sub_entries by fastforce
  have on: "on_node (set_bucket j ?b t) c" using i by (auto simp: on_node_def Some ip nth_set_bucket)
  consider "j < Suc i" | "Suc i \<le> j" by linarith
  then show ?thesis
  proof cases
    case 1
    then have "ahead (set_bucket j ?b t) c = ahead t c"
      using i q by (cases "i = j") (auto simp: ahead_def Some ip set_bucket_def)
    with on show ?thesis by auto
  next
    case 2
    let ?r = "drop (Suc i) (ht_array t)"
    have j: "j - Suc i < length ?r" "?r ! (j - Suc i) = ht_array t ! j" using assms(2) 2 by auto
    then have "ahead t c = (dropWhile (\<lambda>e. snd e \<noteq> q) (ht_array t ! i) @ concat (take (j - Suc i) ?r)) @ (ht_array t ! j @ concat (drop (Suc (j - Suc i)) ?r))"
      using id_take_nth_drop [OF j(1)] by (simp add: ahead_def Some ip flip: concat_append) (metis append_Cons concat.simps(2) concat_append)
    moreover have "drop (Suc i) (ht_array (set_bucket j ?b t)) = ?r [j - Suc i := ?b]"
      using 2 by (simp add: set_bucket_def drop_update_swap)
    then have "ahead (set_bucket j ?b t) c = (dropWhile (\<lambda>e. snd e \<noteq> q) (ht_array t ! i) @ concat (take (j - Suc i) ?r)) @ (k, p) # (ht_array t ! j @ concat (drop (Suc (j - Suc i)) ?r))"
      using 2 i j(1) by (simp add: ahead_def Some ip nth_set_bucket upd_conv_take_nth_drop)
    ultimately show ?thesis using on by blast
  qed
qed

lemma dropWhile_filter:
  assumes "p \<in> snd ` set b" and "\<forall>e \<in> set b. snd e = p \<longrightarrow> Q e"
  shows "dropWhile (\<lambda>e. snd e \<noteq> p) (filter Q b) = filter Q (dropWhile (\<lambda>e. snd e \<noteq> p) b)"
  using assms by (induction b) auto

lemma ahead_remove:
  assumes "on_node t c" and "ht_array t' = map (filter (\<lambda>e. fst e \<noteq> k)) (ht_array t)"
    and "\<And>i p e. c = Some (i, p) \<Longrightarrow> e \<in> set (entries t) \<Longrightarrow> snd e = p \<Longrightarrow> fst e \<noteq> k"
  shows "on_node t' c \<and> ahead t' c = filter (\<lambda>e. fst e \<noteq> k) (ahead t c)"
proof (cases c)
  case None
  then show ?thesis by (simp add: on_node_def ahead_def)
next
  case (Some ip)
  obtain i p where ip: "ip = (i, p)" by (cases ip)
  have i: "i < length (ht_array t)" "p \<in> snd ` set (ht_array t ! i)" using assms(1) by (simp_all add: on_node_def Some ip)
  have keep: "\<forall>e \<in> set (ht_array t ! i). snd e = p \<longrightarrow> fst e \<noteq> k"
    using assms(3) [of i p] bucket_sub_entries [OF i(1)] Some ip by blast
  with i(2) have "p \<in> snd ` set (filter (\<lambda>e. fst e \<noteq> k) (ht_array t ! i))" by auto
  with i keep show ?thesis
    by (simp add: on_node_def ahead_def Some ip assms(2) dropWhile_filter drop_map filter_concat)
qed

section \<open>Events\<close>

text \<open>The event frees the node the loop points to.\<close>

definition cuts :: "('v, 's) loop \<Rightarrow> 'v event \<Rightarrow> bool" where
  "cuts l e \<longleftrightarrow> (\<exists>k i p. e = Change (Remove k) \<and> cursor l = Some (i, p) \<and> (k, p) \<in> set (st_entries (tbl l)))"

text \<open>No payload is ahead that has been visited before.\<close>

definition fresh_ahead :: "('v, 's) loop \<Rightarrow> bool" where
  "fresh_ahead l \<longleftrightarrow> distinct (seen l @ map snd (to_visit l)) \<and>
     (\<forall>p \<in> set (seen l) \<union> snd ` set (to_visit l). p < next_addr (st_heap (tbl l)))"

definition follows :: "'v event \<Rightarrow> ('v, 's) loop \<Rightarrow> ('v, 's) loop \<Rightarrow> bool" where
  "follows e l l' \<longleftrightarrow> loop_ok l' \<and> (fresh_ahead l \<longrightarrow> fresh_ahead l') \<and>
    set (seen l) \<subseteq> set (seen l') \<and>
     (\<forall>k p. (k, p) \<in> set (to_visit l) \<longrightarrow> e \<noteq> Change (Remove k) \<longrightarrow> (k, p) \<in> set (to_visit l') \<or> p \<in> set (seen l'))"

lemma fresh_insert: "distinct (as @ bs @ cs) \<Longrightarrow> \<forall>x \<in> set (as @ bs @ cs). x < n \<Longrightarrow>
  distinct (as @ bs @ n # cs)"
  for n :: nat
  by auto

lemma put_follows:
  assumes "loop_ok l"
  shows "\<exists>l'. event_step f (Change (Put_new k v)) l = Some l' \<and> follows (Change (Put_new k v)) l l'"
proof -
  from assms have ready: "store_ready (tbl l)" "on_node (table_of l) (cursor l)" by (simp_all add: loop_ok_def)
  from ready(1) obtain t where t: "st_table (tbl l) = Some t" by (rule store_readyD)
  have tab: "table_of l = t" by (simp add: table_of_def t)
  let ?p = "next_addr (st_heap (tbl l))"
  have below: "\<forall>e \<in> set (entries t). snd e \<noteq> ?p" by (auto dest: entry_below [OF ready(1) t])
  from put_exact [OF ready(1) t, of k v] obtain s' where s': "table_step (Put_new k v) (tbl l) = Some s'" "store_ready s'"
      "?p \<le> next_addr (st_heap s')"
      "st_table s' = Some t \<or> (\<exists>j < length (ht_array t). st_table s' = Some (set_bucket j ((k, ?p) # ht_array t ! j) t))" by blast
  let ?l = "l\<lparr>tbl := s'\<rparr>"
  have step: "event_step f (Change (Put_new k v)) l = Some ?l" using s'(1) by simp
  have mono: "p < next_addr (st_heap s')" if "p < ?p" for p using that s'(3) by (rule less_le_trans)
  from s'(4) show ?thesis
  proof (elim disjE exE conjE)
    assume "st_table s' = Some t"
    then have same: "to_visit ?l = to_visit l" "on_node (table_of ?l) (cursor ?l)" using ready(2) t by (simp_all add: to_visit_def table_of_def)
    then have "fresh_ahead ?l" if "fresh_ahead l" using that by (auto simp: fresh_ahead_def intro: mono)
    with same s'(2) have "follows (Change (Put_new k v)) l ?l" by (auto simp: follows_def loop_ok_def)
    with step show ?thesis by blast
  next
    fix j assume j: "j < length (ht_array t)" "st_table s' = Some (set_bucket j ((k, ?p) # ht_array t ! j) t)"
    have tab': "table_of ?l = set_bucket j ((k, ?p) # ht_array t ! j) t" by (simp add: table_of_def j(2))
    from ahead_put [OF ready(2) [unfolded tab] j(1) below, of k] obtain us vs where
      "on_node (set_bucket j ((k, ?p) # ht_array t ! j) t) (cursor l)" "ahead t (cursor l) = us @ vs"
      "ahead (set_bucket j ((k, ?p) # ht_array t ! j) t) (cursor l) \<in> {us @ vs, us @ (k, ?p) # vs}" by blast
    then have a: "on_node (table_of ?l) (cursor ?l)" "to_visit l = us @ vs" "to_visit ?l \<in> {us @ vs, us @ (k, ?p) # vs}"
      by (simp_all add: to_visit_def tab tab')
    have new: "?p < next_addr (st_heap s') \<or> to_visit ?l = us @ vs"
    proof (cases "to_visit ?l = us @ vs")
      case False
      with a(3) have "(k, ?p) \<in> set (to_visit ?l)" by auto
      then have "(k, ?p) \<in> set (entries (table_of ?l))" using ahead_entries [OF a(1)] by (auto simp: to_visit_def)
      with entry_below [OF s'(2) j(2)] j(2) show ?thesis by (force simp: table_of_def)
    qed simp
    have "fresh_ahead ?l" if "fresh_ahead l"
    proof -
      from that have f: "distinct (seen l @ map snd us @ map snd vs)" "\<forall>p \<in> set (seen l @ map snd us @ map snd vs). p < ?p"
        by (simp_all add: fresh_ahead_def a(2) ball_Un image_Un)
      from f(2) have "\<forall>p \<in> set (seen l @ map snd us @ map snd vs). p < next_addr (st_heap s')" by (blast intro: mono)
      with f(1) fresh_insert [OF f] a(3) new show ?thesis
        by (elim insertE emptyE) (simp_all add: fresh_ahead_def ball_Un image_Un)
    qed
    with s'(2) a have "follows (Change (Put_new k v)) l ?l" by (auto simp: follows_def loop_ok_def)
    with step show ?thesis by blast
  qed
qed

lemma remove_follows:
  assumes "loop_ok l" and "\<not> cuts l (Change (Remove k))"
  shows "\<exists>l'. event_step f (Change (Remove k)) l = Some l' \<and> follows (Change (Remove k)) l l'"
proof -
  from assms(1) have ready: "store_ready (tbl l)" "on_node (table_of l) (cursor l)" by (simp_all add: loop_ok_def)
  from ready(1) obtain t where t: "st_table (tbl l) = Some t" by (rule store_readyD)
  have tab: "table_of l = t" by (simp add: table_of_def t)
  from remove_exact [OF ready(1) t, of k] obtain s' t' where s': "table_step (Remove k) (tbl l) = Some s'" "store_ready s'"
      "st_heap s' = st_heap (tbl l)" "st_table s' = Some t'" "ht_array t' = map (filter (\<lambda>e. fst e \<noteq> k)) (ht_array t)" by blast
  let ?l = "l\<lparr>tbl := s'\<rparr>"
  have "fst e \<noteq> k" if "cursor l = Some (i, p)" "e \<in> set (entries t)" "snd e = p" for i p e
    using assms(2) that t by (cases e) (auto simp: cuts_def st_entries_def)
  from ahead_remove [OF ready(2) [unfolded tab] s'(5) this] have
    a: "on_node (table_of ?l) (cursor ?l)" "to_visit ?l = filter (\<lambda>e. fst e \<noteq> k) (to_visit l)"
    by (auto simp: to_visit_def table_of_def t s'(4))
  have "fresh_ahead ?l" if "fresh_ahead l"
    using that s'(3) by (auto simp: fresh_ahead_def a(2) distinct_map_filter)
  with s'(2) a have "follows (Change (Remove k)) l ?l" by (auto simp: follows_def loop_ok_def)
  with s'(1) show ?thesis by auto
qed

lemma rewrite_follows:
  assumes "loop_ok l"
  shows "\<exists>l'. event_step f (Rewrite g) l = Some l' \<and> follows (Rewrite g) l l'"
proof -
  from assms have ready: "store_ready (tbl l)" "on_node (table_of l) (cursor l)" by (simp_all add: loop_ok_def)
  from rewrite_exact [OF ready(1), of g] obtain s' where s': "update_all (\<lambda>v. Some (g v)) (tbl l) = Some s'" "store_ready s'"
      "st_table s' = st_table (tbl l)" "next_addr (st_heap s') = next_addr (st_heap (tbl l))" by blast
  with ready show ?thesis by (auto simp: follows_def loop_ok_def fresh_ahead_def to_visit_def table_of_def)
qed

lemma turn_follows:
  assumes "loop_ok l" and "event_step f Turn l = Some l'"
  shows "follows Turn l l'"
proof (cases "to_visit l")
  case Nil
  with turn_ended [OF Nil assms(1), of f] assms show ?thesis by (auto simp: follows_def)
next
  case (Cons e es)
  from turn_ok [OF assms(1) Cons, of f l'] assms(2) show ?thesis by (auto simp: follows_def fresh_ahead_def Cons)
qed

lemma event_follows:
  assumes "loop_ok l" and "\<not> cuts l e" and "event_step f e l = Some l'"
  shows "follows e l l'"
proof (cases e)
  case Turn
  with turn_follows assms(1,3) show ?thesis by blast
next
  case (Change c)
  with put_follows [OF assms(1), where f = f] remove_follows [OF assms(1), where f = f] assms(2,3) show ?thesis
    by (cases c) (metis option.inject)+
next
  case (Rewrite g)
  with rewrite_follows [OF assms(1), of f g] assms(3) show ?thesis by auto
qed

text \<open>The payloads that a change brings in.\<close>

fun brings :: "'v set \<Rightarrow> 'v event \<Rightarrow> bool" where
  "brings I (Change (Put_new k v)) \<longleftrightarrow> v \<in> I"
| "brings I (Rewrite g) \<longleftrightarrow> g ` I \<subseteq> I"
| "brings I e \<longleftrightarrow> True"

lemma event_defined:
  assumes "loop_ok l" and "body_total I f" and "payloads_in I (tbl l)" and "brings I e"
  shows "\<exists>l'. event_step f e l = Some l' \<and> payloads_in I (tbl l')"
proof -
  from assms(1) have ready: "store_ready (tbl l)" by (simp add: loop_ok_def)
  note ran = payloads_in_ran [OF ready, of I]
  show ?thesis
  proof (cases e)
    case Turn
    show ?thesis
    proof (cases "to_visit l")
      case Nil
      with turn_ended [OF Nil assms(1), of f] assms(3) Turn show ?thesis by simp
    qed (use turn_defined [OF assms(1-3)] Turn in auto)
  next
    case (Change c)
    from table_step_ok [OF ready, of c] obtain t where t: "table_step c (tbl l) = Some t" "store_ready t"
      "store_lookup t = map_step c (store_lookup (tbl l))" by blast
    have "ran (store_lookup t) \<subseteq> I"
      using assms(3,4) ran unfolding t(3) Change by (cases c) (auto simp: ran_def split: if_splits)
    with t(1) payloads_in_ran [OF t(2), of I] Change show ?thesis by simp
  next
    case (Rewrite g)
    from update_all_ok [OF ready, of "\<lambda>v. Some (g v)" g] obtain t where t: "update_all (\<lambda>v. Some (g v)) (tbl l) = Some t"
      "store_ready t" "store_lookup t = (\<lambda>k. map_option g (store_lookup (tbl l) k))" by auto
    have "ran (store_lookup t) \<subseteq> I" using assms(3,4) ran unfolding t(3) Rewrite by (fastforce simp: ran_def)
    with t(1) payloads_in_ran [OF t(2), of I] Rewrite show ?thesis by simp
  qed
qed

text \<open>Once the node has been freed, the loop is undefined from its next turn on.\<close>

lemma event_cut:
  assumes "loop_ok l" and "cuts l e"
  shows "\<exists>l'. event_step f e l = Some l' \<and> dangling l'"
proof -
  from assms(2) obtain k i p where e: "e = Change (Remove k)" "cursor l = Some (i, p)" "(k, p) \<in> set (st_entries (tbl l))"
    by (auto simp: cuts_def)
  from assms(1) have ready: "store_ready (tbl l)" "on_node (table_of l) (cursor l)" by (simp_all add: loop_ok_def)
  from ready(1) obtain t where t: "st_table (tbl l) = Some t" "distinct (map snd (entries t))" by (rule store_readyD)
  from e(3) t have k: "(k, p) \<in> set (entries t)" by (simp add: st_entries_def)
  from remove_exact [OF ready(1) t(1), of k] obtain s' t' where s': "table_step (Remove k) (tbl l) = Some s'" "store_ready s'"
      "st_heap s' = st_heap (tbl l)" "st_table s' = Some t'" "ht_array t' = map (filter (\<lambda>e. fst e \<noteq> k)) (ht_array t)" by blast
  have "entries t' = filter (\<lambda>e. fst e \<noteq> k) (entries t)" using s'(5) by (simp add: entries_def filter_concat)
  moreover have "fst x = k" if "x \<in> set (entries t)" "snd x = p" for x
    using inj_onD [of snd "set (entries t)" x "(k, p)"] that k t(2) by (simp add: distinct_map)
  ultimately have "p \<notin> snd ` set (entries t')" by auto
  moreover have "i < length (ht_array t')" using ready(2) e(2) s'(5) t(1) by (simp add: on_node_def table_of_def)
  moreover have "p < next_addr (st_heap s')" using entry_below [OF ready(1) t(1) k] s'(3) by simp
  ultimately have "dangling (l\<lparr>tbl := s'\<rparr>)" using s'(2,4) e(2) by (simp add: dangling_def table_of_def)
  with s'(1) e(1) show ?thesis by auto
qed

lemma event_dangling:
  assumes "dangling l" and "e \<noteq> Turn"
  shows "\<exists>l'. event_step f e l = Some l' \<and> dangling l'"
proof -
  from assms(1) obtain i p where l: "store_ready (tbl l)" "cursor l = Some (i, p)" "i < length (ht_array (table_of l))"
      "p < next_addr (st_heap (tbl l))" "p \<notin> snd ` set (entries (table_of l))" by (auto simp: dangling_def)
  from l(1) obtain t where t: "st_table (tbl l) = Some t" by (rule store_readyD)
  have tab: "table_of l = t" by (simp add: table_of_def t)
  have put: "dangling (l\<lparr>tbl := s'\<rparr>)" if "store_ready s'" "next_addr (st_heap (tbl l)) \<le> next_addr (st_heap s')"
      "st_table s' = Some t'" "length (ht_array t') = length (ht_array t)" "p \<notin> snd ` set (entries t')" for s' t'
    using that l by (auto simp: dangling_def table_of_def t)
  show ?thesis
  proof (cases e)
    case Turn
    with assms(2) show ?thesis by simp
  next
    case (Rewrite g)
    with rewrite_exact [OF l(1), of g] put t l(5) tab show ?thesis by fastforce
  next
    case (Change c)
    show ?thesis
    proof (cases c)
      case (Remove k)
      from remove_exact [OF l(1) t, of k] obtain s' t' where s': "table_step (Remove k) (tbl l) = Some s'" "store_ready s'"
        "st_heap s' = st_heap (tbl l)" "st_table s' = Some t'" "ht_array t' = map (filter (\<lambda>e. fst e \<noteq> k)) (ht_array t)" by blast
      then have "p \<notin> snd ` set (entries t')" using l(5) by (auto simp: entries_def tab)
      with put [OF s'(2) _ s'(4)] s' Change Remove show ?thesis by auto
    next
      case (Put_new k v)
      let ?p = "next_addr (st_heap (tbl l))"
      from put_exact [OF l(1) t, of k v] obtain s' where s': "table_step (Put_new k v) (tbl l) = Some s'" "store_ready s'"
        "?p \<le> next_addr (st_heap s')"
        "st_table s' = Some t \<or> (\<exists>j < length (ht_array t). st_table s' = Some (set_bucket j ((k, ?p) # ht_array t ! j) t))" by blast
      have "p \<notin> snd ` set (entries (set_bucket j ((k, ?p) # ht_array t ! j) t))" if "j < length (ht_array t)" for j
      proof -
        have "set (entries (set_bucket j ((k, ?p) # ht_array t ! j) t)) \<subseteq> insert (k, ?p) (set (entries t))"
          using that by (auto simp: entries_def set_bucket_def dest: set_update_subset_insert [THEN subsetD])
        with l(4,5) show ?thesis by (auto simp: tab)
      qed
      with s'(4) put [OF s'(2,3)] l(5) have "dangling (l\<lparr>tbl := s'\<rparr>)" by (auto simp: tab)
      with s'(1) Change Put_new show ?thesis by auto
    qed
  qed
qed

lemma run_dangling: "dangling l \<Longrightarrow> run_loop f es l = None \<longleftrightarrow> Turn \<in> set es"
proof (induction es arbitrary: l)
  case (Cons e es)
  show ?case
  proof (cases "e = Turn")
    case True
    with Cons.prems show ?thesis by (simp add: run_loop_def turn_dangling)
  next
    case False
    from event_dangling [OF Cons.prems False, of f] obtain l' where l': "event_step f e l = Some l'" "dangling l'" by blast
    with Cons.IH [OF l'(2)] False show ?thesis by (auto simp: run_loop_def)
  qed
qed (simp add: run_loop_def)

lemma run_undefined:
  assumes "loop_ok l" and total: "body_total I f" and "payloads_in I (tbl l)" and "\<forall>e \<in> set es. brings I e"
  shows "run_loop f es l = None \<longleftrightarrow>
    (\<exists>us e vs l'. es = us @ e # vs \<and> run_loop f us l = Some l' \<and> cuts l' e \<and> Turn \<in> set vs)"
  using assms(1,3,4)
proof (induction es arbitrary: l)
  case Nil
  then show ?case by (simp add: run_loop_def)
next
  case (Cons e es)
  have split: "(\<exists>us x vs l'. e # es = us @ x # vs \<and> run_loop f us l = Some l' \<and> cuts l' x \<and>
    Turn \<in> set vs) \<longleftrightarrow>
      (cuts l e \<and> Turn \<in> set es) \<or>
      (\<exists>l1. event_step f e l = Some l1 \<and> (\<exists>us x vs l'. es = us @ x # vs \<and> run_loop f us l1 = Some l' \<and>
        cuts l' x \<and> Turn \<in> set vs))"
    (is "?L \<longleftrightarrow> ?R")
  proof
    assume ?L
    then obtain us x vs l' where u: "e # es = us @ x # vs" "run_loop f us l = Some l'" "cuts l' x" "Turn \<in> set vs" by blast
    then show ?R by (cases us) (auto simp: run_loop_def bind_Some_iff)
  next
    assume ?R
    then show ?L
    proof (elim disjE exE conjE)
      assume "cuts l e" "Turn \<in> set es"
      then show ?L by (intro exI [of _ "[]"] exI [of _ e] exI [of _ es] exI [of _ l]) (simp add: run_loop_def)
    next
      fix l1 us x vs l' assume "event_step f e l = Some l1" "es = us @ x # vs" "run_loop f us l1 = Some l'" "cuts l' x" "Turn \<in> set vs"
      then show ?L by (intro exI [of _ "e # us"] exI [of _ x] exI [of _ vs] exI [of _ l']) (simp add: run_loop_def)
    qed
  qed
  show ?case
  proof (cases "cuts l e")
    case True
    from event_cut [OF Cons.prems(1) True, of f] obtain l1 where l1: "event_step f e l = Some l1" "dangling l1" by blast
    have "run_loop f (e # es) l = None \<longleftrightarrow> Turn \<in> set es" using run_dangling [OF l1(2)] l1(1) by (simp add: run_loop_def)
    with True show ?thesis unfolding split by auto
  next
    case False
    from event_defined [OF Cons.prems(1) total Cons.prems(2)] Cons.prems(3) obtain l1 where
      l1: "event_step f e l = Some l1" "payloads_in I (tbl l1)" by auto
    from event_follows [OF Cons.prems(1) False l1(1)] have "loop_ok l1" by (simp add: follows_def)
    with Cons.IH [OF _ l1(2)] Cons.prems(3) l1(1) False show ?thesis unfolding split by (simp add: run_loop_def)
  qed
qed

text \<open>The loop does not end once it points to a freed node.\<close>

lemma run_dangling_stuck: "dangling l \<Longrightarrow> run_loop f es l = Some l' \<Longrightarrow> cursor l' \<noteq> None"
proof (induction es arbitrary: l)
  case Nil
  then show ?case by (auto simp: run_loop_def dangling_def)
next
  case (Cons e es)
  then have "e \<noteq> Turn" by (auto simp: run_loop_def turn_dangling)
  from event_dangling [OF Cons.prems(1) this, of f] Cons show ?case by (auto simp: run_loop_def)
qed

lemma run_follows:
  assumes "loop_ok l" and "fresh_ahead l" and "run_loop f es l = Some l'" and "cursor l' = None"
  shows "distinct (seen l') \<and> set (seen l) \<subseteq> set (seen l') \<and>
    (\<forall>k p. (k, p) \<in> set (to_visit l) \<longrightarrow> Change (Remove k) \<notin> set es \<longrightarrow> p \<in> set (seen l'))"
  using assms(1-3)
proof (induction es arbitrary: l)
  case Nil
  with assms(4) show ?case by (auto simp: run_loop_def fresh_ahead_def to_visit_def ahead_def)
next
  case (Cons e es)
  then obtain l1 where l1: "event_step f e l = Some l1" "run_loop f es l1 = Some l'" by (auto simp: run_loop_def bind_Some_iff)
  have "\<not> cuts l e"
  proof
    assume "cuts l e"
    from event_cut [OF Cons.prems(1) this, of f] l1(1) have "dangling l1" by auto
    from run_dangling_stuck [OF this l1(2)] assms(4) show False by simp
  qed
  from event_follows [OF Cons.prems(1) this l1(1)] have f: "follows e l l1" .
  with Cons.IH [OF _ _ l1(2)] Cons.prems(2) show ?case by (fastforce simp: follows_def)
qed

text \<open>Without changes the turns are the loop of \<open>TableWalk\<close>.\<close>

lemma turns_visit:
  assumes "loop_ok l"
  shows "map_option (\<lambda>l. (tbl l, carried l)) (run_loop f (replicate (length (to_visit l)) Turn) l) =
    map_option (\<lambda>(h, s). ((tbl l)\<lparr>st_heap := h\<rparr>, s)) (fold_ub (visit f) (map snd (to_visit l)) (st_heap (tbl l), carried l))"
  using assms
proof (induction "to_visit l" arbitrary: l)
  case Nil
  then show ?case by (simp add: run_loop_def flip: Nil.hyps)
next
  case (Cons e es)
  from turn_visit [OF Cons.prems Cons.hyps(2) [symmetric], of f] obtain c where
    c: "loop_turn f l = map_option (\<lambda>(h, s). l\<lparr>tbl := (tbl l)\<lparr>st_heap := h\<rparr>, carried := s, cursor := c, seen := seen l @ [snd e]\<rparr>)
      (visit f (snd e) (st_heap (tbl l), carried l))" by blast
  show ?case
  proof (cases "visit f (snd e) (st_heap (tbl l), carried l)")
    case None
    then show ?thesis by (simp add: run_loop_def c flip: Cons.hyps(2))
  next
    case (Some hs)
    obtain h s where hs: "hs = (h, s)" by (cases hs)
    let ?l = "l\<lparr>tbl := (tbl l)\<lparr>st_heap := h\<rparr>, carried := s, cursor := c, seen := seen l @ [snd e]\<rparr>"
    have l': "loop_turn f l = Some ?l" by (simp add: c Some hs)
    from turn_ok [OF Cons.prems Cons.hyps(2) [symmetric] l'] have "loop_ok ?l" "es = to_visit ?l" by simp_all
    from Cons.hyps(1) [OF this(2,1)] show ?thesis
      by (simp add: run_loop_def l' Some hs flip: Cons.hyps(2)  \<open>es = to_visit ?l\<close>)
  qed
qed

theorem turns_parse_can_frame:
  assumes "agent_ok a" and "loop_start (sensors_table a) (overruns a) = Some l"
  shows "map_option (\<lambda>l. a\<lparr>sensors_table := tbl l, overruns := carried l\<rparr>)
      (run_loop (parse_sensor frame timestamp) (replicate (length (st_entries (sensors_table a))) Turn) l) =
    parse_can_frame frame timestamp a"
proof -
  from agent_okD(1) [OF assms(1)] have ready: "store_ready (sensors_table a)" .
  from start_ok [OF ready, of "overruns a"] assms(2) have
    l: "loop_ok l" "to_visit l = st_entries (sensors_table a)" "tbl l = sensors_table a" "carried l = overruns a" by auto
  from ready obtain t where t: "st_table (sensors_table a) = Some t" by (rule store_readyD)
  let ?run = "run_loop (parse_sensor frame timestamp) (replicate (length (st_entries (sensors_table a))) Turn) l"
  have run: "map_option (\<lambda>l. (tbl l, carried l)) ?run = walk_update (parse_sensor frame timestamp) (sensors_table a) (overruns a)"
    using turns_visit [OF l(1), of "parse_sensor frame timestamp"] unfolding l(2-4)
    by (cases "fold_ub (visit (parse_sensor frame timestamp)) (map snd (entries t)) (st_heap (sensors_table a), overruns a)")
      (auto simp: walk_update_def t)
  show ?thesis by (cases ?run) (simp_all add: parse_can_frame_def flip: run)
qed

section \<open>Races\<close>

text \<open>A sensor for which the frame can be read.\<close>

definition readable :: "can_frame \<Rightarrow> sensor \<Rightarrow> bool" where
  "readable frame s \<longleftrightarrow> (can_id s = frame_id frame \<longrightarrow> decoded frame s \<noteq> None)"

lemma readable_total: "body_total (Collect (readable frame)) (parse_sensor frame timestamp)"
proof -
  have "\<exists>s' l'. parse_sensor frame timestamp s l = Some (s', l') \<and> readable frame s'" if "readable frame s" for s l
  proof -
    from that parse_sensor_None [of frame timestamp s l] obtain s' l' where p: "parse_sensor frame timestamp s l = Some (s', l')"
      by (cases "parse_sensor frame timestamp s l") (auto simp: readable_def)
    with that parse_sensor_received [OF p] show ?thesis by (auto simp: readable_def received_def decoded_def)
  qed
  then show ?thesis by (simp add: body_total_def)
qed

text \<open>
  C5: While a CAN frame is written to the sensors, the threads of the server put, delete and
  rewrite sensors. When the frame can be read for all sensors, this runs into undefined
  behaviour exactly when the very sensor that the loop points to is deleted and the loop makes
  another turn: it goes on from a node that has been freed. All other changes are harmless.
\<close>

theorem race_undefined:
  assumes "agent_ok a" and "\<forall>s \<in> ran (sensors_of a). readable frame s"
    and "\<forall>e \<in> set es. brings (Collect (readable frame)) e" and "loop_start (sensors_table a) (overruns a) = Some l"
  shows "run_loop (parse_sensor frame timestamp) es l = None \<longleftrightarrow>
    (\<exists>us e vs l'. es = us @ e # vs \<and> run_loop (parse_sensor frame timestamp) us l = Some l' \<and> cuts l' e \<and> Turn \<in> set vs)"
proof -
  from agent_okD(1) [OF assms(1)] have ready: "store_ready (sensors_table a)" .
  from start_ok [OF ready, of "overruns a"] assms(4) have l: "loop_ok l" "tbl l = sensors_table a" by auto
  have "payloads_in (Collect (readable frame)) (tbl l)"
    unfolding l(2) payloads_in_ran [OF ready] using assms(2) by (auto simp: sensors_of_def)
  from run_undefined [OF l(1) readable_total this assms(3)] show ?thesis .
qed

theorem race_undefined_witness:
  "\<exists>l. loop_start (sensors_table (populated [byte_sensor ''s''] [])) [] = Some l \<and>
    run_loop (parse_sensor \<lparr>frame_id = 5, can_dlc = 1, frame_data = [7]\<rparr> 9) [Change (Remove ''s''), Turn] l = None"
proof -
  let ?frame = "\<lparr>frame_id = 5, can_dlc = 1, frame_data = [7]\<rparr>" and ?a = "populated [byte_sensor ''s''] []"
  have p: "agent_ok ?a" "sensors_of ?a = [''s'' \<mapsto> byte_sensor ''s'']"
    using populated_ok [of "[byte_sensor ''s'']" "[]"] by simp_all
  have o: "overruns ?a = []" by code_simp
  have d: "decoded ?frame (byte_sensor ''s'') = Some ''7''" by code_simp
  have "map_option (\<lambda>l. (cursor l, st_entries (tbl l))) (loop_start (sensors_table ?a) ([] :: ledger)) = Some (Some (5, 0), [(''s'', 0)])"
    by code_simp
  then obtain l where l: "loop_start (sensors_table ?a) ([] :: ledger) = Some l" "cursor l = Some (5, 0)" "st_entries (tbl l) = [(''s'', 0)]" by auto
  have cut: "cuts l (Change (Remove ''s''))" by (simp add: cuts_def l(2,3))
  have "run_loop (parse_sensor ?frame 9) [Change (Remove ''s''), Turn] l = None"
  proof (rule race_undefined [OF p(1), where l = l, THEN iffD2])
    show "\<forall>s \<in> ran (sensors_of ?a). readable ?frame s" by (simp add: p(2) readable_def d)
    show "\<exists>us e vs l'. [Change (Remove ''s''), Turn] = us @ e # vs \<and> run_loop (parse_sensor ?frame 9) us l = Some l' \<and>
        cuts l' e \<and> Turn \<in> set vs"
      using cut by (intro exI [of _ "[]"] exI [of _ "Change (Remove ''s'')"] exI [of _ "[Turn]"] exI [of _ l]) (simp add: run_loop_def)
  qed (simp_all add: o l(1))
  with l(1) show ?thesis by blast
qed

text \<open>
  C11: When a loop over a table ends, it has visited no payload twice and all payloads that were
  there at its start and have not been deleted meanwhile, whatever was put, deleted and
  rewritten between its turns.
\<close>

theorem visited_once:
  assumes "store_ready t" and "loop_start t s = Some l0" and "run_loop f es l0 = Some l" and "cursor l = None"
  shows "distinct (seen l) \<and> (\<forall>(k, p) \<in> set (st_entries t). Change (Remove k) \<in> set es \<or> p \<in> set (seen l))"
proof -
  from start_ok [OF assms(1), of s] assms(2) have l0: "loop_ok l0" "to_visit l0 = st_entries t" "tbl l0 = t" "seen l0 = []" by auto
  from assms(1) obtain tab where tab: "st_table t = Some tab" "distinct (map snd (entries tab))" by (rule store_readyD)
  have "fresh_ahead l0" using tab by (auto simp: fresh_ahead_def l0(2-4) dest: entry_below [OF assms(1) tab(1)])
  from run_follows [OF l0(1) this assms(3,4)] show ?thesis unfolding l0(2) by auto
qed

theorem visited_once_witness:
  "\<exists>l0 l. loop_start (sensors_table (populated [byte_sensor ''s'', byte_sensor ''t''] [])) [] = Some l0 \<and>
    run_loop (parse_sensor \<lparr>frame_id = 5, can_dlc = 1, frame_data = [7]\<rparr> 9)
      [Turn, Change (Put_new ''u'' (byte_sensor ''u'')), Change (Remove ''s''), Turn, Turn] l0 = Some l \<and>
    distinct (seen l) \<and> 1 \<in> set (seen l)"
proof -
  let ?a = "populated [byte_sensor ''s'', byte_sensor ''t''] []"
    and ?f = "parse_sensor \<lparr>frame_id = 5, can_dlc = 1, frame_data = [7]\<rparr> 9"
    and ?es = "[Turn, Change (Put_new ''u'' (byte_sensor ''u'')), Change (Remove ''s''), Turn, Turn]"
  have "agent_ok ?a" using populated_ok [of "[byte_sensor ''s'', byte_sensor ''t'']" "[]"] by simp
  from agent_okD(1) [OF this] have ready: "store_ready (sensors_table ?a)" .
  have "map_option cursor (loop_start (sensors_table ?a) [] \<bind> run_loop ?f ?es) = Some None" by code_simp
  then obtain l0 l where l: "loop_start (sensors_table ?a) [] = Some l0" "run_loop ?f ?es l0 = Some l" "cursor l = None"
    by (auto simp: bind_Some_iff)
  have e: "st_entries (sensors_table ?a) = [(''s'', 0), (''t'', 1)]" by code_simp
  from visited_once [OF ready l] have "distinct (seen l) \<and> 1 \<in> set (seen l)" by (simp add: e)
  with l show ?thesis by blast
qed

end
