(* ===== verification/MetricsSpec.thy ===== *)
theory MetricsSpec
  imports Metrics DoubleSpec
begin

text \<open>
  What the reply of the performance resource contains: which members it has, and when the
  handler is defined at all.
\<close>

lemma long_result_Some: "long_result v = Some x \<longleftrightarrow> x = v \<and> - (2 ^ 63) \<le> v \<and> v < 2 ^ 63"
  by (auto simp: long_result_def require_def bind_Some_iff split: if_splits)

lemma int_result_Some: "int_result v = Some x \<longleftrightarrow> x = v \<and> - (2 ^ 31) \<le> v \<and> v < 2 ^ 31"
  by (auto simp: int_result_def require_def bind_Some_iff split: if_splits)

lemma double_const: "at_least (double_of_int MICROS) 0" "at_most (double_of_int MILLIS) 10"
proof -
  show "at_least (double_of_int MICROS) 0" by (rule double_of_int_at_least [where k = 20]) (simp_all add: MICROS_def)
  show "at_most (double_of_int MILLIS) 10" using double_of_int_at_most [of MILLIS 10] by (simp add: MILLIS_def)
qed

lemma cpu_time_at_most:
  assumes "cpu_time r = Some x"
  shows "at_most x 64"
proof -
  from assms obtain secs usecs where
    l: "long_result (sint (ru_utime_sec r) + sint (ru_stime_sec r)) = Some secs"
      "long_result (sint (ru_utime_usec r) + sint (ru_stime_usec r)) = Some usecs"
    and x: "x = double_add (double_of_int secs) (double_divide (double_of_int usecs) (double_of_int MICROS))"
    by (auto simp: cpu_time_def bind_Some_iff)
  from l have b: "\<bar>secs\<bar> \<le> 2 ^ 63" "\<bar>usecs\<bar> \<le> 2 ^ 63" by (auto simp: long_result_Some)
  have "at_most (double_of_int secs) 63" "at_most (double_of_int usecs) 63"
    using double_of_int_at_most [OF b(1)] double_of_int_at_most [OF b(2)] by simp_all
  with double_divide_at_most [OF _ double_const(1), of "double_of_int usecs" 63] show ?thesis
    unfolding x using double_add_at_most [of "double_of_int secs" 63] by simp
qed

lemma zero_divide: "at_least y k \<Longrightarrow> \<exists>s' e'. double_divide (Fin s 0 e) y = Fin s' 0 e'"
proof -
  assume y: "at_least y k"
  have p: "(0::real) < 2 powi k" by simp
  from y obtain s' m' e' where e: "y = Fin s' m' e'" by (cases y) (auto simp: at_least_def is_finite_def)
  have "m' \<noteq> 0"
  proof
    assume "m' = 0"
    with y have "(2::real) powi k \<le> 0" by (simp add: e at_least_def)
    with p show False by linarith
  qed
  then show ?thesis by (simp add: e double_divide_def scaled_def round_frac_def)
qed

text \<open>The wall time is zero exactly when the clock shows the start time.\<close>

lemma wall_time_cases:
  assumes "wall_time c = Some x"
  shows "(device_millitime (clock_now c) (time_now c) = Some (starttime c) \<and> (\<exists>s e. x = Fin s 0 e)) \<or>
    (device_millitime (clock_now c) (time_now c) \<noteq> Some (starttime c) \<and> at_least x (- 10))"
proof -
  from assms obtain now where now: "device_millitime (clock_now c) (time_now c) = Some now"
    and x: "x = double_divide (double_of_u64 (now - starttime c)) (double_of_int MILLIS)"
    by (auto simp: wall_time_def bind_Some_iff)
  define w where "w = now - starttime c"
  have least: "at_least (double_of_int MILLIS) 0"
    by (rule double_of_int_at_least [where k = 10]) (simp_all add: MILLIS_def)
  show ?thesis
  proof (cases "w = 0")
    case True
    have "\<exists>s e. double_divide (double_of_int 0) (double_of_int MILLIS) = Fin s 0 e"
      using zero_divide [OF least] by (simp add: double_of_int_def round_frac_def)
    with True now show ?thesis by (auto simp: x w_def double_of_u64_def)
  next
    case False
    then have w: "uint w \<noteq> 0" "\<bar>uint w\<bar> \<le> 2 ^ 64" using uint_lt2p [of w] by (simp_all add: uint_0_iff)
    have "at_most (double_of_int (uint w)) 64" using double_of_int_at_most [OF w(2)] by simp
    from double_divide_at_most [OF this least] have "is_finite x"
      by (simp add: x w_def [symmetric] double_of_u64_def at_most_def)
    with double_divide_at_least [OF double_of_int_at_least [OF w] double_const(2)] have "at_least x (- 10)"
      by (simp add: x w_def [symmetric] double_of_u64_def)
    with False now show ?thesis by (simp add: w_def)
  qed
qed

lemma finite_init_number: "json_value_init_number x \<noteq> None \<longleftrightarrow> is_finite x"
  by (simp add: json_value_init_number_def)

lemma usage_quotient:
  assumes "cpu_time r = Some x" and "wall_time c = Some w"
  shows "is_finite (double_divide x w) \<longleftrightarrow> device_millitime (clock_now c) (time_now c) \<noteq> Some (starttime c)"
  using wall_time_cases [OF assms(2)]
proof (elim disjE exE conjE)
  fix s e
  assume "w = Fin s 0 e" "device_millitime (clock_now c) (time_now c) = Some (starttime c)"
  then show ?thesis by (auto simp: double_divide_zero is_finite_def split: double.splits)
next
  assume "at_least w (- 10)" "device_millitime (clock_now c) (time_now c) \<noteq> Some (starttime c)"
  with double_divide_at_most [OF cpu_time_at_most [OF assms(1)], of w "- 10"] show ?thesis by (simp add: at_most_def)
qed

text \<open>Members whose value is missing are left out.\<close>

lemma set_value_lookup:
  "map_of (snd (json_object_set_value obj name v)) key = (if key = name \<and> v \<noteq> None then v else map_of obj key)"
  by (cases v) (simp add: json_object_set_value_def, simp add: json_object_set_value_lookup)

lemma map_of_members:
  "distinct (map fst ms) \<Longrightarrow>
    map_of (foldl (\<lambda>obj (name, v). snd (json_object_set_value obj name v)) obj ms) key =
      (case map_of ms key of Some (Some w) \<Rightarrow> Some w | _ \<Rightarrow> map_of obj key)"
proof (induction ms arbitrary: obj)
  case (Cons m ms)
  obtain name v where m: "m = (name, v)" by fastforce
  from Cons.prems m have "map_of ms name = None" by (simp add: map_of_eq_None_iff)
  with Cons.IH [of "snd (json_object_set_value obj name v)"] Cons.prems show ?case
    by (auto simp: m set_value_lookup split: option.splits)
qed simp

lemma map_of_object_of:
  "distinct (map fst ms) \<Longrightarrow> map_of (object_of ms) key = Option.bind (map_of ms key) (\<lambda>v. v)"
  by (simp add: object_of_def map_of_members split: option.splits)

lemma sum_finite: "- (2 ^ 31) \<le> v \<Longrightarrow> v < 2 ^ 31 \<Longrightarrow> is_finite (double_of_int v)"
  using double_of_int_at_most [of v 31] by (simp add: at_most_def abs_le_iff)

text \<open>
  C38: The performance resource. Where none of the sums of counters overflows, the handler answers 200
  with a JSON object: the numbers of allocated bytes exactly; the CPU time exactly when the usage
  is known; the average usage exactly when, besides, the clock does not show the very millisecond
  in which the service was started, as the quotient is not finite then and is refused; and the load
  average exactly when it is known and its percentage per processor is finite.
\<close>

theorem metrics_members:
  assumes "metrics_value c = Some val"
  shows "\<exists>obj. val = JObject obj \<and>
    adeptness_handler_metrics c = Some \<lparr>http_status = 200, http_text = Some (json_write 0 False val),
      http_type = Some ''application/json''\<rparr> \<and>
    map_of obj ''memory'' = Some (JObject [(''alloc'', JNumber (double_of_int (sint (uordblks c)))),
      (''total-alloc'', JNumber (double_of_int (sint (arena c) + sint (hblkhd c))))]) \<and>
    (map_of obj ''cpu-time'' \<noteq> None \<longleftrightarrow> usage c \<noteq> None) \<and>
    (map_of obj ''cpu-avg-usage'' \<noteq> None \<longleftrightarrow>
       usage c \<noteq> None \<and> device_millitime (clock_now c) (time_now c) \<noteq> Some (starttime c)) \<and>
    (map_of obj ''cpu-load-avg'' \<noteq> None \<longleftrightarrow> (\<exists>load. load_average c = Some load \<and>
       is_finite (double_divide (double_mult load (double_of_int 100)) (double_of_i32 (nprocs c)))))"
proof -
  from assms obtain mem cpu where mem: "memory_members c = Some mem" and cpu: "usage_members c = Some cpu"
    and val: "val = JObject (object_of ((''memory'', Some (JObject (object_of mem))) # load_members c @ cpu))"
    by (auto simp: metrics_value_def bind_Some_iff)
  have alloc: "is_finite (double_of_int (sint (uordblks c)))"
    using sint_ge [of "uordblks c"] sint_lt [of "uordblks c"] by (intro sum_finite) simp_all
  from mem have m: "object_of mem = [(''alloc'', JNumber (double_of_int (sint (uordblks c)))),
      (''total-alloc'', JNumber (double_of_int (sint (arena c) + sint (hblkhd c))))]"
    by (auto simp: memory_members_def bind_Some_iff int_result_Some object_of_def json_value_init_number_def
        double_of_i32_def alloc sum_finite json_object_set_value_def json_object_add_def json_object_getn_value_map_of)
  have reply: "adeptness_handler_metrics c = Some \<lparr>http_status = 200, http_text = Some (json_write 0 False val),
      http_type = Some ''application/json''\<rparr>"
    by (simp add: adeptness_handler_metrics_def assms json_reply_def)
  have d: "distinct (map fst ((''memory'', Some (JObject (object_of mem))) # load_members c @ cpu))"
    using cpu by (auto simp: load_members_def usage_members_def bind_Some_iff split: option.splits)
  note lookup = map_of_object_of [OF d]
  have load: "map_of cpu ''cpu-load-avg'' = None" "map_of cpu ''memory'' = None"
    using cpu by (auto simp: usage_members_def bind_Some_iff split: option.splits)
  have "usage c = None \<and> cpu = [] \<or> (\<exists>r x w. usage c = Some r \<and> cpu_time r = Some x \<and> wall_time c = Some w \<and>
      cpu = [(''cpu-time'', json_value_init_number x), (''cpu-avg-usage'', json_value_init_number (double_divide x w))])"
    using cpu by (auto simp: usage_members_def bind_Some_iff split: option.splits)
  then have members: "(Option.bind (map_of cpu ''cpu-time'') (\<lambda>v. v) \<noteq> None \<longleftrightarrow> usage c \<noteq> None)"
    "(Option.bind (map_of cpu ''cpu-avg-usage'') (\<lambda>v. v) \<noteq> None \<longleftrightarrow>
       usage c \<noteq> None \<and> device_millitime (clock_now c) (time_now c) \<noteq> Some (starttime c))"
    using usage_quotient cpu_time_at_most
    by (auto simp: json_value_init_number_def at_most_def)
  have avoid: "map_of (load_members c) ''cpu-time'' = None" "map_of (load_members c) ''cpu-avg-usage'' = None"
    "map_of (load_members c) ''memory'' = None"
    by (simp_all add: load_members_def split: option.split)
  define obj where "obj = object_of ((''memory'', Some (JObject (object_of mem))) # load_members c @ cpu)"
  have memory: "map_of obj ''memory'' = Some (JObject (object_of mem))"
    unfolding obj_def lookup by simp
  have time: "map_of obj ''cpu-time'' = Option.bind (map_of cpu ''cpu-time'') (\<lambda>v. v)"
    "map_of obj ''cpu-avg-usage'' = Option.bind (map_of cpu ''cpu-avg-usage'') (\<lambda>v. v)"
    unfolding obj_def lookup by (simp_all add: avoid map_add_def split: option.split)
  have avg: "map_of obj ''cpu-load-avg'' = Option.bind (map_of (load_members c) ''cpu-load-avg'') (\<lambda>v. v)"
    unfolding obj_def lookup by (simp add: load map_add_def split: option.split)
  have loads: "map_of obj ''cpu-load-avg'' \<noteq> None \<longleftrightarrow> (\<exists>load. load_average c = Some load \<and>
       is_finite (double_divide (double_mult load (double_of_int 100)) (double_of_i32 (nprocs c))))"
    unfolding avg by (simp add: load_members_def json_value_init_number_def split: option.split)
  show ?thesis
    using val reply memory [unfolded m] members [folded time] loads unfolding obj_def [symmetric] by blast
qed

theorem metrics_members_witness:
  "\<exists>obj. metrics_value idle_counters = Some (JObject obj) \<and> map_of obj ''cpu-time'' = None"
proof -
  have "metrics_value idle_counters \<noteq> None"
    by (simp add: metrics_value_def memory_members_def usage_members_def int_result_def idle_counters_def require_def)
  then obtain v where v: "metrics_value idle_counters = Some v" by blast
  from metrics_members [OF v] obtain obj where "v = JObject obj" "map_of obj ''cpu-time'' \<noteq> None \<longleftrightarrow> usage idle_counters \<noteq> None"
    by blast
  with v show ?thesis by (simp add: idle_counters_def)
qed

end
