(* ===== verification/Tokens.thy ===== *)
theory Tokens
  imports Doubles
begin

text \<open>
  The tokeniser \<^verbatim>\<open>common/json.c\<close> (jsmn, compiled without \<open>JSON_STRICT\<close>). It splits a text into
  tokens, each with its type, its first and last position and the number of its children, in an
  array of the caller; with a NULL array it counts the tokens. The text is the list of the \<open>len\<close>
  bytes the caller passes; it is shorter than \<open>2^32\<close> bytes, so that the 32-bit position does not
  wrap around; \<open>toknext\<close> is never negative. Positions in tokens are kept at 32 bits, where -1 marks an end that is not known
  yet; indices into the array are integers and an access outside of it is undefined.
\<close>

section \<open>Tokens and the parser\<close>

datatype iot_json_type_t = IOT_JSON_UNDEFINED | IOT_JSON_OBJECT | IOT_JSON_ARRAY | IOT_JSON_STRING | IOT_JSON_PRIMITIVE

definition IOT_JSON_ERROR_NOMEM :: int where "IOT_JSON_ERROR_NOMEM = - 1"
definition IOT_JSON_ERROR_INVAL :: int where "IOT_JSON_ERROR_INVAL = - 2"
definition IOT_JSON_ERROR_PART :: int where "IOT_JSON_ERROR_PART = - 3"

record iot_json_tok_t =
  tok_type :: iot_json_type_t
  tok_start :: u32
  tok_end :: u32
  tok_size :: u32

record iot_json_parser =
  pos :: nat
  toknext :: int
  toksuper :: int

definition iot_json_init :: iot_json_parser where
  "iot_json_init = \<lparr>pos = 0, toknext = 0, toksuper = - 1\<rparr>"

definition token_at :: "iot_json_tok_t list \<Rightarrow> int \<Rightarrow> iot_json_tok_t option" where
  "token_at tokens i = (if 0 \<le> i \<and> nat i < length tokens then Some (tokens ! nat i) else None)"

text \<open>\<open>toknext < num_tokens\<close> compares an \<open>int32_t\<close> with a \<open>uint32_t\<close>: both are taken as unsigned.\<close>

definition iot_json_alloc_token ::
  "iot_json_parser \<Rightarrow> iot_json_tok_t list \<Rightarrow> u32 \<Rightarrow> (iot_json_parser \<times> iot_json_tok_t list \<times> int option) option" where
  "iot_json_alloc_token parser tokens num_tokens =
     (if word_of_int (toknext parser) < num_tokens then do {
        tok \<leftarrow> token_at tokens (toknext parser);
        require (toknext parser + 1 < 2 ^ 31);
        Some (parser\<lparr>toknext := toknext parser + 1\<rparr>,
              tokens[nat (toknext parser) := tok\<lparr>tok_start := - 1, tok_end := - 1, tok_size := 0\<rparr>],
              Some (toknext parser)) }
      else Some (parser, tokens, None))"

definition iot_json_fill_token :: "int \<Rightarrow> iot_json_type_t \<Rightarrow> nat \<Rightarrow> nat \<Rightarrow> iot_json_tok_t list \<Rightarrow> iot_json_tok_t list" where
  "iot_json_fill_token i ty start stop tokens =
     tokens[nat i := \<lparr>tok_type = ty, tok_start = of_nat start, tok_end = of_nat stop, tok_size = 0\<rparr>]"

section \<open>Primitives and strings\<close>

type_synonym token_state = "iot_json_parser \<times> iot_json_tok_t list option"

definition delimiter :: "char \<Rightarrow> bool" where
  "delimiter c \<longleftrightarrow> c \<in> {CHR '':'', CHR 0x09, CHR 0x0D, CHR 0x0A, CHR '' '', CHR '','', CHR '']'', CHR ''}''}"

text \<open>The position at which the primitive ends; \<open>None\<close> where a character is not printable ASCII.\<close>

function scan_primitive :: "cstring \<Rightarrow> nat \<Rightarrow> nat option" where
  "scan_primitive js p =
     (if p < length js \<and> js ! p \<noteq> CHR 0x00 then
        (if delimiter (js ! p) then Some p
         else if (of_char (js ! p) :: nat) < 32 \<or> 127 \<le> (of_char (js ! p) :: nat) then None
         else scan_primitive js (Suc p))
      else Some p)"
  by pat_completeness auto
termination by (relation "measure (\<lambda>(js, p). length js - p)") auto

declare scan_primitive.simps [simp del]

definition iot_json_parse_primitive :: "cstring \<Rightarrow> u32 \<Rightarrow> token_state \<Rightarrow> (int \<times> token_state) option" where
  "iot_json_parse_primitive js num_tokens s = (let (parser, tokens) = s in
     case scan_primitive js (pos parser) of
       None \<Rightarrow> Some (IOT_JSON_ERROR_INVAL, s)
     | Some p \<Rightarrow>
         (case tokens of
            None \<Rightarrow> Some (0, parser\<lparr>pos := p - 1\<rparr>, None)
          | Some ts \<Rightarrow> do {
              (parser1, ts1, token) \<leftarrow> iot_json_alloc_token parser ts num_tokens;
              case token of
                None \<Rightarrow> Some (IOT_JSON_ERROR_NOMEM, parser1, Some ts1)
              | Some i \<Rightarrow> Some (0, parser1\<lparr>pos := p - 1\<rparr>,
                  Some (iot_json_fill_token i IOT_JSON_PRIMITIVE (pos parser) p ts1)) }))"

text \<open>Up to \<open>n\<close> hexadecimal digits from \<open>p\<close> on: the position behind them.\<close>

fun scan_hex :: "cstring \<Rightarrow> nat \<Rightarrow> nat \<Rightarrow> nat option" where
  "scan_hex js 0 p = Some p"
| "scan_hex js (Suc n) p =
     (if p < length js \<and> js ! p \<noteq> CHR 0x00 then
        (if is_hex (js ! p) then scan_hex js n (Suc p) else None)
      else Some p)"

definition escape_letter :: "char \<Rightarrow> bool" where
  "escape_letter c \<longleftrightarrow> c \<in> {CHR 0x22, CHR ''/'', CHR 0x5C, CHR ''b'', CHR ''f'', CHR ''r'', CHR ''n'', CHR ''t''}"

datatype string_scan = Quote_at nat | Bad_escape | No_quote

lemma scan_hex_le: "scan_hex js n p = Some q \<Longrightarrow> p \<le> q"
  by (induction js n p rule: scan_hex.induct) (auto split: if_splits)

text \<open>
  The closing quote from \<open>p\<close> on. After \<open>\<u>\<close> and its digits the position is moved back, and the
  loop moves it on again.
\<close>

function scan_string :: "cstring \<Rightarrow> nat \<Rightarrow> string_scan" where
  "scan_string js p =
     (if p < length js \<and> js ! p \<noteq> CHR 0x00 then
        (if js ! p = CHR 0x22 then Quote_at p
         else if js ! p = CHR 0x5C \<and> p + 1 < length js then
           (let c = js ! (p + 1) in
            if escape_letter c then scan_string js (Suc (p + 1))
            else if c = CHR ''u'' then
              (case scan_hex js 4 (p + 2) of None \<Rightarrow> Bad_escape | Some q \<Rightarrow> scan_string js (Suc (q - 1)))
            else Bad_escape)
         else scan_string js (Suc p))
      else No_quote)"
  by pat_completeness auto
termination
  by (relation "measure (\<lambda>(js, p). length js - p)") (auto dest: scan_hex_le)

declare scan_string.simps [simp del]

definition iot_json_parse_string :: "cstring \<Rightarrow> u32 \<Rightarrow> token_state \<Rightarrow> (int \<times> token_state) option" where
  "iot_json_parse_string js num_tokens s = (let (parser, tokens) = s in
     case scan_string js (pos parser + 1) of
       Bad_escape \<Rightarrow> Some (IOT_JSON_ERROR_INVAL, s)
     | No_quote \<Rightarrow> Some (IOT_JSON_ERROR_PART, s)
     | Quote_at p \<Rightarrow>
         (case tokens of
            None \<Rightarrow> Some (0, parser\<lparr>pos := p\<rparr>, None)
          | Some ts \<Rightarrow> do {
              (parser1, ts1, token) \<leftarrow> iot_json_alloc_token parser ts num_tokens;
              case token of
                None \<Rightarrow> Some (IOT_JSON_ERROR_NOMEM, parser1, Some ts1)
              | Some i \<Rightarrow> Some (0, parser1\<lparr>pos := p\<rparr>,
                  Some (iot_json_fill_token i IOT_JSON_STRING (pos parser + 1) p ts1)) }))"

section \<open>The loop\<close>

text \<open>A token that has been opened and not been closed.\<close>

definition unclosed :: "iot_json_tok_t \<Rightarrow> bool" where
  "unclosed t \<longleftrightarrow> tok_start t \<noteq> - 1 \<and> tok_end t = - 1"

text \<open>
  \<open>for (i = n - 1; i >= 0; i--)\<close> until the test holds: the index, or -1.
\<close>

fun last_index :: "(iot_json_tok_t \<Rightarrow> bool) \<Rightarrow> iot_json_tok_t list \<Rightarrow> nat \<Rightarrow> int option" where
  "last_index P tokens 0 = Some (- 1)"
| "last_index P tokens (Suc n) = do {
     t \<leftarrow> token_at tokens (int n);
     if P t then Some (int n) else last_index P tokens n }"

text \<open>\<open>if (parser->toksuper != -1 && tokens != NULL) tokens[parser->toksuper].size++;\<close>\<close>

definition count_child :: "token_state \<Rightarrow> token_state option" where
  "count_child s = (let (parser, tokens) = s in
     case tokens of
       None \<Rightarrow> Some s
     | Some ts \<Rightarrow>
         if toksuper parser \<noteq> - 1 then do {
           t \<leftarrow> token_at ts (toksuper parser);
           Some (parser, Some (ts[nat (toksuper parser) := t\<lparr>tok_size := tok_size t + 1\<rparr>])) }
         else Some s)"

text \<open>The result of a character: an error code, or 0 to go on.\<close>

definition bracket_type :: "char \<Rightarrow> iot_json_type_t" where
  "bracket_type c = (if c = CHR ''{'' \<or> c = CHR ''}'' then IOT_JSON_OBJECT else IOT_JSON_ARRAY)"

definition open_bracket :: "char \<Rightarrow> u32 \<Rightarrow> token_state \<Rightarrow> (int \<times> token_state) option" where
  "open_bracket c num_tokens s = (let (parser, tokens) = s in
     case tokens of
       None \<Rightarrow> Some (0, s)
     | Some ts \<Rightarrow> do {
         (parser1, ts1, token) \<leftarrow> iot_json_alloc_token parser ts num_tokens;
         case token of
           None \<Rightarrow> Some (IOT_JSON_ERROR_NOMEM, parser1, Some ts1)
         | Some i \<Rightarrow> do {
             (parser2, ts2) \<leftarrow> count_child (parser1, Some ts1);
             ts3 \<leftarrow> ts2;
             t \<leftarrow> token_at ts3 i;
             Some (0, parser2\<lparr>toksuper := toknext parser2 - 1\<rparr>,
               Some (ts3[nat i := t\<lparr>tok_type := bracket_type c, tok_start := of_nat (pos parser2)\<rparr>])) } })"

definition close_bracket :: "char \<Rightarrow> token_state \<Rightarrow> (int \<times> token_state) option" where
  "close_bracket c s = (let (parser, tokens) = s in
     case tokens of
       None \<Rightarrow> Some (0, s)
     | Some ts \<Rightarrow> do {
         i \<leftarrow> last_index unclosed ts (nat (toknext parser));
         if i = - 1 then Some (IOT_JSON_ERROR_INVAL, s)
         else do {
           t \<leftarrow> token_at ts i;
           if tok_type t \<noteq> bracket_type c then Some (IOT_JSON_ERROR_INVAL, s)
           else do {
             let ts1 = ts[nat i := t\<lparr>tok_end := of_nat (pos parser + 1)\<rparr>];
             j \<leftarrow> last_index unclosed ts1 (Suc (nat i));
             Some (0, parser\<lparr>toksuper := j\<rparr>, Some ts1) } } })"

definition is_container :: "iot_json_tok_t \<Rightarrow> bool" where
  "is_container t \<longleftrightarrow> tok_type t = IOT_JSON_ARRAY \<or> tok_type t = IOT_JSON_OBJECT"

definition comma :: "token_state \<Rightarrow> token_state option" where
  "comma s = (let (parser, tokens) = s in
     case tokens of
       None \<Rightarrow> Some s
     | Some ts \<Rightarrow>
         if toksuper parser \<noteq> - 1 then do {
           t \<leftarrow> token_at ts (toksuper parser);
           if is_container t then Some s
           else do {
             i \<leftarrow> last_index (\<lambda>t. is_container t \<and> unclosed t) ts (nat (toknext parser));
             Some (if i = - 1 then s else (parser\<lparr>toksuper := i\<rparr>, tokens)) } }
         else Some s)"

definition element :: "(int \<times> token_state) option \<Rightarrow> (int \<times> token_state) option" where
  "element r = do {
     (code, s) \<leftarrow> r;
     if code < 0 then Some (code, s) else do { s1 \<leftarrow> count_child s; Some (0, s1) } }"

text \<open>One turn of the loop: the code, what is added to \<open>count\<close>, and the new state.\<close>

definition iot_json_char :: "cstring \<Rightarrow> u32 \<Rightarrow> token_state \<Rightarrow> (int \<times> int \<times> token_state) option" where
  "iot_json_char js num_tokens s = (let (parser, tokens) = s; c = js ! pos parser in
     if c = CHR ''{'' \<or> c = CHR ''['' then do { (code, s1) \<leftarrow> open_bracket c num_tokens s; Some (code, 1, s1) }
     else if c = CHR ''}'' \<or> c = CHR '']'' then do { (code, s1) \<leftarrow> close_bracket c s; Some (code, 0, s1) }
     else if c = CHR 0x22 then do { (code, s1) \<leftarrow> element (iot_json_parse_string js num_tokens s); Some (code, 1, s1) }
     else if c \<in> {CHR 0x09, CHR 0x0D, CHR 0x0A, CHR '' ''} then Some (0, 0, s)
     else if c = CHR '':'' then Some (0, 0, parser\<lparr>toksuper := toknext parser - 1\<rparr>, tokens)
     else if c = CHR '','' then do { s1 \<leftarrow> comma s; Some (0, 0, s1) }
     else do { (code, s1) \<leftarrow> element (iot_json_parse_primitive js num_tokens s); Some (code, 1, s1) })"

lemma scan_primitive_le: "scan_primitive js p = Some q \<Longrightarrow> p \<le> q"
proof (induction js p rule: scan_primitive.induct)
  case (1 js p)
  then show ?case by (subst (asm) (2) scan_primitive.simps) (auto split: if_splits)
qed

lemma scan_string_quote:
  "scan_string js p = Quote_at q \<Longrightarrow> p \<le> q \<and> q < length js \<and> js ! q = CHR 0x22"
proof (induction js p rule: scan_string.induct)
  case (1 js p)
  let ?c = "js ! (p + 1)"
  have step: "(if p < length js \<and> js ! p \<noteq> CHR 0x00 then
        (if js ! p = CHR 0x22 then Quote_at p
         else if js ! p = CHR 0x5C \<and> p + 1 < length js then
           (if escape_letter ?c then scan_string js (Suc (p + 1))
            else if ?c = CHR ''u'' then
              (case scan_hex js 4 (p + 2) of None \<Rightarrow> Bad_escape | Some q \<Rightarrow> scan_string js (Suc (q - 1)))
            else Bad_escape)
         else scan_string js (Suc p))
      else No_quote) = Quote_at q"
    using 1(4) unfolding scan_string.simps [of js p] Let_def .
  note IH = 1(1) [OF _ _ _ refl] 1(2) [OF _ _ _ refl] 1(3)
  show ?case
  proof (cases "scan_hex js 4 (p + 2)")
    case None
    with step IH(1,3) show ?thesis by (auto split: if_splits)
  next
    case (Some r)
    with scan_hex_le [OF Some] step IH show ?thesis by (auto split: if_splits)
  qed
qed

lemma alloc_pos: "iot_json_alloc_token parser ts num = Some (parser1, ts1, i) \<Longrightarrow> pos parser1 = pos parser"
  by (auto simp: iot_json_alloc_token_def bind_Some_iff split: if_splits)

lemma count_child_pos: "count_child s = Some s1 \<Longrightarrow> fst s1 = fst s"
  by (cases s) (auto simp: count_child_def bind_Some_iff split: option.splits if_splits)

text \<open>A character never moves the position back.\<close>

lemma iot_json_char_pos:
  assumes "iot_json_char js num s = Some (code, n, s1)" and "\<not> code < 0"
    and "pos (fst s) < length js" and "js ! pos (fst s) \<noteq> CHR 0x00"
  shows "pos (fst s) \<le> pos (fst s1)"
proof -
  obtain parser tokens where s: "s = (parser, tokens)" by fastforce
  have prim: "pos parser \<le> p - 1" if "scan_primitive js (pos parser) = Some p" "\<not> delimiter (js ! pos parser)" for p
    using that assms(3,4) by (subst (asm) scan_primitive.simps) (auto simp: s dest!: scan_primitive_le split: if_splits)
  have str: "pos parser \<le> p" if "scan_string js (Suc (pos parser)) = Quote_at p" for p
    using scan_string_quote [OF that] by simp
  show ?thesis
    using assms(1,2) unfolding s iot_json_char_def Let_def
    by (auto simp: bind_Some_iff open_bracket_def close_bracket_def comma_def element_def iot_json_parse_string_def
        iot_json_parse_primitive_def delimiter_def Let_def prim str
        split: if_splits option.splits string_scan.splits dest!: alloc_pos count_child_pos dest: str prim)
qed

text \<open>
  The loop with the counter: an \<open>int\<close>, whose overflow is undefined. An error ends it; behind the
  text an unclosed token is an error as well.
\<close>

definition iot_json_finish :: "int \<Rightarrow> token_state \<Rightarrow> (int \<times> token_state) option" where
  "iot_json_finish count s =
     (case snd s of
        None \<Rightarrow> Some (count, s)
      | Some ts \<Rightarrow> do {
          i \<leftarrow> last_index unclosed ts (nat (toknext (fst s)));
          Some (if i \<noteq> - 1 then IOT_JSON_ERROR_PART else count, s) })"

definition next_char :: "token_state \<Rightarrow> token_state" where
  "next_char s = ((fst s)\<lparr>pos := pos (fst s) + 1\<rparr>, snd s)"

function iot_json_loop :: "cstring \<Rightarrow> u32 \<Rightarrow> int \<Rightarrow> token_state \<Rightarrow> (int \<times> token_state) option" where
  "iot_json_loop js num_tokens count s =
     (if pos (fst s) < length js \<and> js ! pos (fst s) \<noteq> CHR 0x00 then
        (case iot_json_char js num_tokens s of
           None \<Rightarrow> None
         | Some (code, n, s1) \<Rightarrow>
             if code < 0 then Some (code, s1)
             else if count + n < 2 ^ 31 then iot_json_loop js num_tokens (count + n) (next_char s1)
             else None)
      else iot_json_finish count s)"
  by pat_completeness auto
termination
  by (relation "measure (\<lambda>(js, num_tokens, count, s). length js - pos (fst s))")
    (auto simp: next_char_def dest: iot_json_char_pos)

declare iot_json_loop.simps [simp del]

text \<open>The number of tokens, or an error, with the parser and the array.\<close>

definition iot_json_parse ::
  "iot_json_parser \<Rightarrow> cstring \<Rightarrow> iot_json_tok_t list option \<Rightarrow> u32 \<Rightarrow> (int \<times> token_state) option" where
  "iot_json_parse parser js tokens num_tokens = do {
     require (length js < 2 ^ 32);
     iot_json_loop js num_tokens (toknext parser) (parser, tokens) }"

end
