(* ===== verification/TokensSpec.thy ===== *)
theory TokensSpec
  imports Tokens
begin

text \<open>
  What the tokeniser promises: it is defined, every token delimits a part of the text of its
  type, and the count of a run without an array is the number of tokens the array needs.
\<close>

section \<open>What a token delimits\<close>

definition left_char :: "iot_json_type_t \<Rightarrow> char" where
  "left_char ty = (if ty = IOT_JSON_OBJECT then CHR ''{'' else CHR ''['')"

definition right_char :: "iot_json_type_t \<Rightarrow> char" where
  "right_char ty = (if ty = IOT_JSON_OBJECT then CHR ''}'' else CHR '']'')"

definition plain :: "char \<Rightarrow> bool" where
  "plain c \<longleftrightarrow> \<not> delimiter c \<and> 32 \<le> (of_char c :: nat) \<and> (of_char c :: nat) < 127"

text \<open>
  The characters from \<open>a\<close> up to \<open>b\<close> are a container in its brackets, the inside of a pair of
  quotes, or a run of printable characters without delimiters.
\<close>

definition delimits :: "cstring \<Rightarrow> iot_json_type_t \<Rightarrow> nat \<Rightarrow> nat \<Rightarrow> bool" where
  "delimits js ty a b \<longleftrightarrow> (case ty of
     IOT_JSON_UNDEFINED \<Rightarrow> False
   | IOT_JSON_STRING \<Rightarrow> 0 < a \<and> a \<le> b \<and> b < length js \<and> js ! (a - 1) = CHR 0x22 \<and> js ! b = CHR 0x22
   | IOT_JSON_PRIMITIVE \<Rightarrow> a < b \<and> b \<le> length js \<and> (\<forall>k\<in>{a..<b}. plain (js ! k))
   | _ \<Rightarrow> a < b \<and> b \<le> length js \<and> js ! a = left_char ty \<and> js ! (b - 1) = right_char ty)"

text \<open>A token, and the state, of a run that has come to position \<open>p\<close>.\<close>

definition token_ok :: "cstring \<Rightarrow> nat \<Rightarrow> iot_json_tok_t \<Rightarrow> bool" where
  "token_ok js p t \<longleftrightarrow> (let a = unat (tok_start t) in a < p \<and>
     (if tok_end t = - 1 then is_container t \<and> js ! a = left_char (tok_type t)
      else delimits js (tok_type t) a (unat (tok_end t))))"

definition tokens_inv :: "cstring \<Rightarrow> u32 \<Rightarrow> nat \<Rightarrow> token_state \<Rightarrow> bool" where
  "tokens_inv js num_tokens p s \<longleftrightarrow> (let parser = fst s in \<exists>ts. snd s = Some ts \<and>
     p \<le> length js \<and> length ts = unat num_tokens \<and>
     0 \<le> toknext parser \<and> toknext parser \<le> int (length ts) \<and>
     - 1 \<le> toksuper parser \<and> toksuper parser < toknext parser \<and>
     (\<forall>i < nat (toknext parser). token_ok js p (ts ! i)))"

lemma token_at_Some: "0 \<le> i \<Longrightarrow> i < int (length ts) \<Longrightarrow> token_at ts i = Some (ts ! nat i)"
  by (simp add: token_at_def nat_less_iff)

lemma last_index_cases:
  "n \<le> length ts \<Longrightarrow> (last_index P ts n = Some (- 1) \<and> (\<forall>i < n. \<not> P (ts ! i))) \<or>
    (\<exists>i < n. last_index P ts n = Some (int i) \<and> P (ts ! i))"
proof (induction n)
  case (Suc n)
  then show ?case by (auto simp: token_at_Some less_Suc_eq)
qed simp

text \<open>Positions below \<open>2^31\<close> are kept exactly, and none of them is -1.\<close>

lemma position:
  "n < 2 ^ 31 \<Longrightarrow> unat (of_nat n :: u32) = n" "n < 2 ^ 31 \<Longrightarrow> (of_nat n :: u32) \<noteq> - 1"
proof -
  assume n: "n < 2 ^ 31"
  then show u: "unat (of_nat n :: u32) = n" by (simp add: unat_of_nat)
  have "unat (- 1 :: u32) = 2 ^ 32 - 1" by (simp add: unsigned_minus_1_eq_mask mask_eq_exp_minus_1)
  then show "(of_nat n :: u32) \<noteq> - 1" using u n by auto
qed

lemma token_ok_mono: "token_ok js p t \<Longrightarrow> p \<le> q \<Longrightarrow> token_ok js q t"
  by (auto simp: token_ok_def Let_def)

lemma token_ok_size [simp]: "token_ok js p (t\<lparr>tok_size := n\<rparr>) = token_ok js p t"
  by (simp add: token_ok_def is_container_def)

section \<open>The steps\<close>

lemma alloc_cases:
  assumes "length ts = unat num" and "0 \<le> toknext parser" and "toknext parser \<le> int (length ts)" and "unat num < 2 ^ 31"
  shows "iot_json_alloc_token parser ts num =
    (if toknext parser = int (length ts) then Some (parser, ts, None)
     else Some (parser\<lparr>toknext := toknext parser + 1\<rparr>,
       ts[nat (toknext parser) := (ts ! nat (toknext parser))\<lparr>tok_start := - 1, tok_end := - 1, tok_size := 0\<rparr>],
       Some (toknext parser)))"
proof -
  obtain n where n: "toknext parser = int n" using assms(2) nonneg_int_cases by blast
  have le: "n \<le> unat num" using assms(1,3) unfolding n by (simp only: of_nat_le_iff)
  then have "n < 2 ^ 32" using assms(4) by simp
  then have "unat (of_nat n :: u32) = n" by (simp add: unat_of_nat)
  then have lt: "(of_nat n :: u32) < num \<longleftrightarrow> n < length ts" using assms(1) by (simp add: word_less_nat_alt)
  have "n \<le> length ts" "length ts < 2 ^ 31" using le assms(1,4) by simp_all
  with lt show ?thesis by (auto simp: iot_json_alloc_token_def token_at_Some require_def n)
qed

lemma scan_primitive_plain:
  "scan_primitive js p = Some q \<Longrightarrow> p \<le> length js \<Longrightarrow> p \<le> q \<and> q \<le> length js \<and> (\<forall>k\<in>{p..<q}. plain (js ! k))"
proof (induction js p rule: scan_primitive.induct)
  case (1 js p)
  have step: "(if p < length js \<and> js ! p \<noteq> CHR 0x00 then
        (if delimiter (js ! p) then Some p
         else if (of_char (js ! p) :: nat) < 32 \<or> 127 \<le> (of_char (js ! p) :: nat) then None
         else scan_primitive js (Suc p))
      else Some p) = Some q"
    using 1(2) unfolding scan_primitive.simps [of js p] .
  show ?case
  proof (cases "p < length js \<and> js ! p \<noteq> CHR 0x00 \<and> plain (js ! p)")
    case True
    with step have "scan_primitive js (Suc p) = Some q" by (auto simp: plain_def split: if_splits)
    with 1(1) True have r: "Suc p \<le> q" "q \<le> length js" "\<forall>k\<in>{Suc p..<q}. plain (js ! k)" by (auto simp: plain_def)
    have "plain (js ! k)" if "k \<in> {p..<q}" for k using that r(3) True by (cases "k = p") auto
    with r show ?thesis by auto
  next
    case False
    with step 1(3) show ?thesis by (auto simp: plain_def split: if_splits)
  qed
qed

text \<open>The child counter changes a size only.\<close>

lemma count_child_inv:
  assumes "tokens_inv js num p s"
  shows "\<exists>s1. count_child s = Some s1 \<and> tokens_inv js num p s1 \<and> fst s1 = fst s"
proof -
  obtain parser tokens where s: "s = (parser, tokens)" by fastforce
  from assms obtain ts where ts: "tokens = Some ts" "toksuper parser < int (length ts)" "- 1 \<le> toksuper parser"
    by (auto simp: tokens_inv_def s)
  show ?thesis
  proof (cases "toksuper parser = - 1")
    case False
    with ts have "token_at ts (toksuper parser) = Some (ts ! nat (toksuper parser))" by (intro token_at_Some) auto
    moreover have "token_ok js p (ts[nat (toksuper parser) := (ts ! nat (toksuper parser))\<lparr>tok_size := n\<rparr>] ! i)"
      if "token_ok js p (ts ! i)" for n i
      using that ts(2,3) False by (cases "i = nat (toksuper parser)") (auto simp: nat_less_iff)
    ultimately show ?thesis using False ts assms by (auto simp: count_child_def s tokens_inv_def)
  qed (use assms in \<open>simp add: count_child_def s ts\<close>)
qed

lemma tokens_inv_mono: "tokens_inv js num p s \<Longrightarrow> p \<le> q \<Longrightarrow> q \<le> length js \<Longrightarrow> tokens_inv js num q s"
  by (auto simp: tokens_inv_def Let_def intro: token_ok_mono)

lemma tokens_invE:
  assumes "tokens_inv js num p (parser, tokens)"
  obtains ts where "tokens = Some ts" "p \<le> length js" "length ts = unat num" "0 \<le> toknext parser"
    "toknext parser \<le> int (length ts)" "- 1 \<le> toksuper parser" "toksuper parser < toknext parser"
    "\<And>i. i < nat (toknext parser) \<Longrightarrow> token_ok js p (ts ! i)"
  using assms by (auto simp: tokens_inv_def)

text \<open>A new token behind the others.\<close>

lemma add_token_inv:
  assumes "tokens_inv js num p (parser, Some ts)" and "toknext parser < int (length ts)"
    and "token_ok js q t" and "p \<le> q" and "q \<le> length js"
  shows "tokens_inv js num q (parser\<lparr>toknext := toknext parser + 1, pos := r\<rparr>, Some (ts[nat (toknext parser) := t]))"
proof -
  from assms(1) have n: "0 \<le> toknext parser" by (auto elim: tokens_invE)
  have "token_ok js q (ts[nat (toknext parser) := t] ! i)" if "i < nat (toknext parser + 1)" for i
  proof (cases "i = nat (toknext parser)")
    case True
    then show ?thesis using assms(2,3) n by (simp add: nat_less_iff)
  next
    case False
    with that n have "i < nat (toknext parser)" by linarith
    with assms(1,4) show ?thesis using False by (auto elim!: tokens_invE intro: token_ok_mono)
  qed
  then show ?thesis using assms(1,2,5) by (auto elim!: tokens_invE simp: tokens_inv_def)
qed

text \<open>
  The result of a turn: an error, or the state from which the run goes on; the array is full when
  the error is the missing room.
\<close>

definition turn_ok :: "cstring \<Rightarrow> u32 \<Rightarrow> token_state \<Rightarrow> int \<Rightarrow> int \<Rightarrow> token_state \<Rightarrow> bool" where
  "turn_ok js num s n code s1 \<longleftrightarrow>
     code \<in> {IOT_JSON_ERROR_INVAL, IOT_JSON_ERROR_PART} \<or>
     code = IOT_JSON_ERROR_NOMEM \<and> n = 1 \<and> toknext (fst s) = int (unat num) \<or>
     code = 0 \<and> toknext (fst s1) = toknext (fst s) + n \<and> tokens_inv js num (Suc (pos (fst s1))) s1"

lemmas error_defs = IOT_JSON_ERROR_NOMEM_def IOT_JSON_ERROR_INVAL_def IOT_JSON_ERROR_PART_def

lemma filled_ok:
  assumes "delimits js ty a b" and "a < q" and "ty = IOT_JSON_STRING \<or> ty = IOT_JSON_PRIMITIVE"
    and small: "length js < 2 ^ 31"
  shows "token_ok js q \<lparr>tok_type = ty, tok_start = of_nat a, tok_end = of_nat b, tok_size = 0\<rparr>"
proof -
  from assms(1,3) have "a \<le> b" "b \<le> length js" by (auto simp: delimits_def)
  with small have "a < 2 ^ 31" "b < 2 ^ 31" by simp_all
  with assms show ?thesis by (simp add: token_ok_def position)
qed

lemma alloc_inv:
  assumes "tokens_inv js num p (parser, Some ts)" and small: "unat num < 2 ^ 31"
  shows "iot_json_alloc_token parser ts num =
    (if toknext parser = int (length ts) then Some (parser, ts, None)
     else Some (parser\<lparr>toknext := toknext parser + 1\<rparr>,
       ts[nat (toknext parser) := (ts ! nat (toknext parser))\<lparr>tok_start := - 1, tok_end := - 1, tok_size := 0\<rparr>],
       Some (toknext parser)))"
  using assms by (intro alloc_cases) (auto elim: tokens_invE)

lemma parse_string_turn:
  assumes "tokens_inv js num (pos (fst s)) s" and "pos (fst s) < length js" and "js ! pos (fst s) = CHR 0x22"
    and small: "length js < 2 ^ 31" "unat num < 2 ^ 31"
  shows "\<exists>code s1. iot_json_parse_string js num s = Some (code, s1) \<and> turn_ok js num s 1 code s1"
proof -
  obtain parser tokens where s: "s = (parser, tokens)" by fastforce
  note inv = assms(1) [unfolded s fst_conv]
  from inv obtain ts where ts: "tokens = Some ts" "length ts = unat num" "toknext parser \<le> int (length ts)" by (auto elim: tokens_invE)
  show ?thesis
  proof (cases "scan_string js (Suc (pos parser))")
    case (Quote_at q)
    note q = scan_string_quote [OF Quote_at]
    show ?thesis
    proof (cases "toknext parser = int (length ts)")
      case False
      let ?t = "\<lparr>tok_type = IOT_JSON_STRING, tok_start = of_nat (Suc (pos parser)), tok_end = of_nat q, tok_size = 0\<rparr> :: iot_json_tok_t"
      have "delimits js IOT_JSON_STRING (Suc (pos parser)) q" using q assms(3) by (simp add: delimits_def s)
      then have t: "token_ok js (Suc q) ?t" using q small by (intro filled_ok) auto
      have "tokens_inv js num (Suc q) (parser\<lparr>toknext := toknext parser + 1, pos := q\<rparr>, Some (ts[nat (toknext parser) := ?t]))"
        using False ts q by (intro add_token_inv [OF inv [unfolded ts] _ t]) auto
      then show ?thesis using False
        by (simp add: iot_json_parse_string_def s ts(1) Quote_at alloc_inv [OF inv [unfolded ts] small(2)] turn_ok_def
            iot_json_fill_token_def)
    qed (use ts in \<open>simp add: iot_json_parse_string_def s Quote_at alloc_inv [OF inv [unfolded ts] small(2)] turn_ok_def\<close>)
  qed (simp_all add: iot_json_parse_string_def s turn_ok_def)
qed

lemma parse_primitive_turn:
  assumes "tokens_inv js num (pos (fst s)) s" and "pos (fst s) < length js" and "js ! pos (fst s) \<noteq> CHR 0x00"
    and "\<not> delimiter (js ! pos (fst s))"
    and small: "length js < 2 ^ 31" "unat num < 2 ^ 31"
  shows "\<exists>code s1. iot_json_parse_primitive js num s = Some (code, s1) \<and> turn_ok js num s 1 code s1"
proof -
  obtain parser tokens where s: "s = (parser, tokens)" by fastforce
  note inv = assms(1) [unfolded s fst_conv]
  from inv obtain ts where ts: "tokens = Some ts" "length ts = unat num" "toknext parser \<le> int (length ts)" by (auto elim: tokens_invE)
  show ?thesis
  proof (cases "scan_primitive js (pos parser)")
    case (Some q)
    have q: "q \<le> length js" "\<forall>k\<in>{pos parser..<q}. plain (js ! k)"
      using scan_primitive_plain [OF Some] assms(2) by (auto simp: s)
    from Some have "scan_primitive js (Suc (pos parser)) = Some q"
      using assms(2-4) by (subst (asm) scan_primitive.simps) (auto simp: s split: if_splits)
    from scan_primitive_le [OF this] have lt: "pos parser < q" by simp
    show ?thesis
    proof (cases "toknext parser = int (length ts)")
      case False
      let ?t = "\<lparr>tok_type = IOT_JSON_PRIMITIVE, tok_start = of_nat (pos parser), tok_end = of_nat q, tok_size = 0\<rparr> :: iot_json_tok_t"
      have "delimits js IOT_JSON_PRIMITIVE (pos parser) q" using q lt by (simp add: delimits_def)
      then have t: "token_ok js q ?t" using lt small by (intro filled_ok) auto
      have "tokens_inv js num q (parser\<lparr>toknext := toknext parser + 1, pos := q - 1\<rparr>, Some (ts[nat (toknext parser) := ?t]))"
        using False ts q lt by (intro add_token_inv [OF inv [unfolded ts] _ t]) auto
      then show ?thesis using False lt
        by (simp add: iot_json_parse_primitive_def s ts(1) Some alloc_inv [OF inv [unfolded ts] small(2)] turn_ok_def
            iot_json_fill_token_def)
    qed (use ts in \<open>simp add: iot_json_parse_primitive_def s Some alloc_inv [OF inv [unfolded ts] small(2)] turn_ok_def\<close>)
  qed (simp add: iot_json_parse_primitive_def s turn_ok_def)
qed

lemma element_turn:
  assumes "r = Some (code, s1)" and "turn_ok js num s n code s1" and "0 \<le> code \<longrightarrow> code = 0"
  shows "\<exists>code s2. element r = Some (code, s2) \<and> turn_ok js num s n code s2"
proof (cases "code < 0")
  case False
  with assms(3) have code: "code = 0" by simp
  with assms(2) have inv: "tokens_inv js num (Suc (pos (fst s1))) s1" and "toknext (fst s1) = toknext (fst s) + n"
    by (auto simp: turn_ok_def error_defs)
  with count_child_inv [OF inv] show ?thesis by (auto simp: element_def assms(1) code turn_ok_def)
qed (use assms in \<open>simp add: element_def\<close>)

lemma turn_code: "turn_ok js num s n code s1 \<Longrightarrow> 0 \<le> code \<longrightarrow> code = 0"
  by (auto simp: turn_ok_def error_defs)

lemma open_bracket_turn:
  assumes "tokens_inv js num (pos (fst s)) s" and "pos (fst s) < length js" and "js ! pos (fst s) = c"
    and "c = CHR ''{'' \<or> c = CHR ''[''"
    and small: "length js < 2 ^ 31" "unat num < 2 ^ 31"
  shows "\<exists>code s1. open_bracket c num s = Some (code, s1) \<and> turn_ok js num s 1 code s1"
proof -
  obtain parser tokens where s: "s = (parser, tokens)" by fastforce
  note inv = assms(1) [unfolded s fst_conv]
  from inv obtain ts where ts: "tokens = Some ts" "length ts = unat num" "0 \<le> toknext parser" "toknext parser \<le> int (length ts)"
    "- 1 \<le> toksuper parser" "toksuper parser < toknext parser" by (auto elim: tokens_invE)
  let ?p = "pos parser" and ?n = "nat (toknext parser)"
  show ?thesis
  proof (cases "toknext parser = int (length ts)")
    case False
    then have n: "?n < length ts" using ts(3,4) by linarith
    let ?parser1 = "parser\<lparr>toknext := toknext parser + 1\<rparr>"
    let ?blank = "(ts ! ?n)\<lparr>tok_start := - 1, tok_end := - 1, tok_size := 0\<rparr>"
    obtain s1 where s1: "count_child (parser, Some ts) = Some s1" "tokens_inv js num ?p s1" "fst s1 = parser"
      using count_child_inv [OF inv [unfolded ts]] by auto
    then obtain us where "s1 = (parser, Some us)" by (cases s1) (auto elim: tokens_invE)
    with s1 have us: "count_child (parser, Some ts) = Some (parser, Some us)" and inv1: "tokens_inv js num ?p (parser, Some us)"
      by simp_all
    then have len: "length us = length ts" using ts(2) by (auto elim: tokens_invE)
    have "count_child (?parser1, Some (ts[?n := ?blank])) = Some (?parser1, Some (us[?n := ?blank]))"
    proof (cases "toksuper parser = - 1")
      case True
      with us show ?thesis by (simp add: count_child_def)
    next
      case super: False
      then have k: "0 \<le> toksuper parser" "nat (toksuper parser) < ?n" using ts(5,6) by linarith+
      let ?k = "nat (toksuper parser)"
      let ?super = "(ts ! ?k)\<lparr>tok_size := tok_size (ts ! ?k) + 1\<rparr>"
      have at: "?k < length ts" using k(2) n by linarith
      then have "token_at ts (toksuper parser) = Some (ts ! ?k)" using k by (simp add: token_at_def)
      with us super have "us = ts[?k := ?super]" by (simp add: count_child_def)
      moreover have ne: "?n \<noteq> ?k" using k(2) by linarith
      then have "token_at (ts[?n := ?blank]) (toksuper parser) = Some (ts ! ?k)" using k(1) at by (simp add: token_at_def)
      ultimately show ?thesis using k(1) super ne by (simp add: count_child_def list_update_swap [of ?k ?n])
    qed
    moreover define t where "t = ?blank\<lparr>tok_type := bracket_type c, tok_start := of_nat ?p\<rparr>"
    ultimately have "open_bracket c num s = Some (0, parser\<lparr>toknext := toknext parser + 1, toksuper := toknext parser\<rparr>, Some (us[?n := t]))"
      using False n ts(3) by (simp add: open_bracket_def s ts(1) alloc_inv [OF inv [unfolded ts] small(2)] token_at_def len)
    moreover have t: "token_ok js (Suc ?p) t"
      using assms(2-4) small(1)
      by (auto simp: t_def token_ok_def position s bracket_type_def is_container_def left_char_def)
    have "tokens_inv js num (Suc ?p) (parser\<lparr>toknext := toknext parser + 1, pos := ?p\<rparr>, Some (us[?n := t]))"
      using assms(2) n by (intro add_token_inv [OF inv1 _ t]) (auto simp: s len)
    then have "tokens_inv js num (Suc ?p) (parser\<lparr>toknext := toknext parser + 1, toksuper := toknext parser\<rparr>, Some (us[?n := t]))"
      using ts(3) by (auto simp: tokens_inv_def)
    ultimately show ?thesis by (simp add: turn_ok_def s)
  qed (use ts in \<open>simp add: open_bracket_def s alloc_inv [OF inv [unfolded ts] small(2)] turn_ok_def\<close>)
qed

lemma close_bracket_turn:
  assumes "tokens_inv js num (pos (fst s)) s" and "pos (fst s) < length js" and "js ! pos (fst s) = c"
    and "c = CHR ''}'' \<or> c = CHR '']''"
    and small: "length js < 2 ^ 31" "unat num < 2 ^ 31"
  shows "\<exists>code s1. close_bracket c s = Some (code, s1) \<and> turn_ok js num s 0 code s1"
proof -
  obtain parser tokens where s: "s = (parser, tokens)" by fastforce
  note inv = assms(1) [unfolded s fst_conv]
  from inv obtain ts where ts: "tokens = Some ts" "length ts = unat num" "0 \<le> toknext parser" "toknext parser \<le> int (length ts)"
    "\<And>i. i < nat (toknext parser) \<Longrightarrow> token_ok js (pos parser) (ts ! i)" by (auto elim: tokens_invE)
  let ?p = "pos parser" and ?n = "nat (toknext parser)"
  have n: "?n \<le> length ts" using ts(3,4) by linarith
  from last_index_cases [OF n, of unclosed] show ?thesis
  proof (elim disjE exE conjE)
    assume "last_index unclosed ts ?n = Some (- 1)"
    then show ?thesis by (simp add: close_bracket_def s ts(1) turn_ok_def)
  next
    fix i
    assume i: "i < ?n" "last_index unclosed ts ?n = Some (int i)" "unclosed (ts ! i)"
    then have at: "token_at ts (int i) = Some (ts ! i)" using n by (simp add: token_at_def)
    show ?thesis
    proof (cases "tok_type (ts ! i) = bracket_type c")
      case True
      define t where "t = (ts ! i)\<lparr>tok_end := of_nat (?p + 1)\<rparr>"
      from ts(5) [OF i(1)] i(3) have o: "unat (tok_start (ts ! i)) < ?p" "js ! unat (tok_start (ts ! i)) = left_char (tok_type (ts ! i))"
        by (auto simp: token_ok_def Let_def unclosed_def)
      have "Suc ?p < 2 ^ 31" using assms(2) small(1) by (simp add: s)
      note q = position [OF this]
      have t: "token_ok js (Suc ?p) t"
        using o q assms(2-4) True
        by (auto simp: t_def token_ok_def s delimits_def bracket_type_def right_char_def left_char_def split: iot_json_type_t.split)
      have "Suc i \<le> length (ts[i := t])" using i(1) n by simp
      from last_index_cases [OF this, of unclosed] obtain j where
        j: "last_index unclosed (ts[i := t]) (Suc i) = Some j" "- 1 \<le> j" "j < toknext parser"
        using i(1) ts(3) by force
      have "token_ok js (Suc ?p) (ts[i := t] ! k)" if "k < ?n" for k
        using t ts(5) [OF that] that n by (cases "k = i") (auto intro: token_ok_mono)
      then have "tokens_inv js num (Suc ?p) (parser\<lparr>toksuper := j\<rparr>, Some (ts[i := t]))"
        using ts(2-4) j(2,3) assms(2) by (auto simp: tokens_inv_def s)
      moreover have "close_bracket c s = Some (0, parser\<lparr>toksuper := j\<rparr>, Some (ts[i := t]))"
        using j(1) True by (simp add: close_bracket_def s ts(1) i(2) at t_def Let_def del: last_index.simps)
      ultimately show ?thesis by (simp add: turn_ok_def s)
    qed (simp add: close_bracket_def s ts(1) i(2) at turn_ok_def)
  qed
qed

lemma comma_turn:
  assumes "tokens_inv js num (pos (fst s)) s" and "pos (fst s) < length js"
  shows "\<exists>s1. comma s = Some s1 \<and> turn_ok js num s 0 0 s1"
proof -
  obtain parser tokens where s: "s = (parser, tokens)" by fastforce
  have inv: "tokens_inv js num (Suc (pos parser)) (parser, tokens)"
    using assms by (auto simp: s intro: tokens_inv_mono)
  then obtain ts where ts: "tokens = Some ts" "0 \<le> toknext parser" "toknext parser \<le> int (length ts)"
    "- 1 \<le> toksuper parser" "toksuper parser < toknext parser" by (auto elim: tokens_invE)
  let ?P = "\<lambda>t. is_container t \<and> unclosed t"
  have "nat (toknext parser) \<le> length ts" using ts by linarith
  from last_index_cases [OF this, of ?P] obtain j where
    j: "last_index ?P ts (nat (toknext parser)) = Some j" "- 1 \<le> j" "j < toknext parser"
    using ts(2) by force
  have same: "turn_ok js num s 0 0 s" using inv by (simp add: turn_ok_def s)
  show ?thesis
  proof (cases "toksuper parser = - 1")
    case False
    then have "token_at ts (toksuper parser) = Some (ts ! nat (toksuper parser))" using ts by (intro token_at_Some) auto
    moreover have "turn_ok js num s 0 0 (parser\<lparr>toksuper := j\<rparr>, tokens)"
      using inv j(2,3) by (auto simp: turn_ok_def s tokens_inv_def)
    ultimately show ?thesis using False same j(1) by (auto simp: comma_def s ts(1))
  qed (use same in \<open>simp add: comma_def s ts(1)\<close>)
qed

lemma char_turn:
  assumes "tokens_inv js num (pos (fst s)) s" and "pos (fst s) < length js" and "js ! pos (fst s) \<noteq> CHR 0x00"
    and small: "length js < 2 ^ 31" "unat num < 2 ^ 31"
  shows "\<exists>code n s1. iot_json_char js num s = Some (code, n, s1) \<and> (n = 0 \<or> n = 1) \<and> turn_ok js num s n code s1"
proof -
  obtain parser tokens where s: "s = (parser, tokens)" by fastforce
  let ?c = "js ! pos parser"
  have step: "tokens_inv js num (Suc (pos parser)) (parser, tokens)"
    using assms(1,2) by (auto simp: s intro: tokens_inv_mono)
  consider (left) "?c = CHR ''{'' \<or> ?c = CHR ''[''" | (right) "?c = CHR ''}'' \<or> ?c = CHR '']''" | (quote) "?c = CHR 0x22"
    | (space) "?c \<in> {CHR 0x09, CHR 0x0D, CHR 0x0A, CHR '' ''}" | (colon) "?c = CHR '':''" | (comma) "?c = CHR '',''"
    | (other) "\<not> delimiter ?c \<and> ?c \<notin> {CHR ''{'', CHR ''['', CHR 0x22}"
    by (auto simp: delimiter_def)
  then show ?thesis
  proof cases
    case left
    with open_bracket_turn [OF assms(1,2) refl _ small] show ?thesis by (auto simp: iot_json_char_def s)
  next
    case right
    with close_bracket_turn [OF assms(1,2) refl _ small] show ?thesis by (auto simp: iot_json_char_def s)
  next
    case quote
    with parse_string_turn [OF assms(1,2) _ small] obtain code s1 where
      r: "iot_json_parse_string js num s = Some (code, s1)" "turn_ok js num s 1 code s1" by (auto simp: s)
    from element_turn [OF r turn_code [OF r(2)]] quote r(1) show ?thesis by (auto simp: iot_json_char_def s)
  next
    case space
    with step show ?thesis by (auto simp: iot_json_char_def s turn_ok_def)
  next
    case colon
    with step have "turn_ok js num s 0 0 (parser\<lparr>toksuper := toknext parser - 1\<rparr>, tokens)"
      by (auto simp: s turn_ok_def tokens_inv_def)
    with colon show ?thesis by (simp add: iot_json_char_def s)
  next
    case comma
    with comma_turn [OF assms(1,2)] show ?thesis by (auto simp: iot_json_char_def s)
  next
    case other
    with parse_primitive_turn [OF assms(1-3) _ small] obtain code s1 where
      r: "iot_json_parse_primitive js num s = Some (code, s1)" "turn_ok js num s 1 code s1" by (auto simp: s)
    from element_turn [OF r turn_code [OF r(2)]] other r(1) show ?thesis
      by (auto simp: iot_json_char_def s delimiter_def)
  qed
qed

text \<open>The run to its end: an error, or all tokens closed and counted.\<close>

lemma loop_ok:
  assumes small: "length js < 2 ^ 31" "unat num < 2 ^ 31"
  shows "tokens_inv js num (pos (fst s)) s \<Longrightarrow> count = toknext (fst s) \<Longrightarrow>
    \<exists>r s1 ts. iot_json_loop js num count s = Some (r, s1) \<and>
      (r \<in> {IOT_JSON_ERROR_NOMEM, IOT_JSON_ERROR_INVAL, IOT_JSON_ERROR_PART} \<or>
       r = toknext (fst s1) \<and> 0 \<le> r \<and> snd s1 = Some ts \<and> length ts = unat num \<and> r \<le> int (length ts) \<and>
       (\<forall>i < nat r. token_ok js (length js) (ts ! i) \<and> tok_end (ts ! i) \<noteq> - 1))"
proof (induction "length js - pos (fst s)" arbitrary: s count rule: less_induct)
  case less
  obtain parser tokens where s: "s = (parser, tokens)" by fastforce
  from less.prems(1) obtain ts where ts: "tokens = Some ts" "pos parser \<le> length js" "length ts = unat num"
    "0 \<le> toknext parser" "toknext parser \<le> int (length ts)"
    "\<And>i. i < nat (toknext parser) \<Longrightarrow> token_ok js (pos parser) (ts ! i)"
    by (auto simp: s elim: tokens_invE)
  show ?case
  proof (cases "pos parser < length js \<and> js ! pos parser \<noteq> CHR 0x00")
    case True
    with less.prems(1) char_turn [where s = s, OF _ _ _ small] obtain code n s1 where
      c: "iot_json_char js num s = Some (code, n, s1)" "turn_ok js num s n code s1" by (auto simp: s)
    show ?thesis
    proof (cases "code < 0")
      case False
      with c(2) have inv: "tokens_inv js num (Suc (pos (fst s1))) s1" "toknext (fst s1) = count + n"
        by (auto simp: turn_ok_def error_defs less.prems(2))
      have "int (unat num) < int (2 ^ 31)" using small(2) by (simp only: of_nat_less_iff)
      then have "uint num < 2 ^ 31" by simp
      with inv(1) have "toknext (fst s1) < 2 ^ 31" by (cases s1) (auto elim!: tokens_invE)
      with True False c(1) inv(2) have step: "iot_json_loop js num count s = iot_json_loop js num (count + n) (next_char s1)"
        by (subst iot_json_loop.simps) (simp add: s)
      from True iot_json_char_pos [OF c(1) False] have "pos parser \<le> pos (fst s1)" by (simp add: s)
      moreover have "tokens_inv js num (pos (fst (next_char s1))) (next_char s1)"
        using inv(1) by (cases s1) (auto simp: next_char_def tokens_inv_def)
      moreover have "count + n = toknext (fst (next_char s1))" using inv(2) by (simp add: next_char_def)
      ultimately show ?thesis
        unfolding step using True by (intro less.hyps) (auto simp: s next_char_def)
    next
      case True': True
      with c True have "iot_json_loop js num count s = Some (code, s1)" by (subst iot_json_loop.simps) (simp add: s)
      with c(2) True' show ?thesis by (auto simp: turn_ok_def)
    qed
  next
    case False
    then have loop: "iot_json_loop js num count s = iot_json_finish count s" by (subst iot_json_loop.simps) (auto simp: s)
    have n: "nat (toknext parser) \<le> length ts" using ts(5) by linarith
    have ok: "token_ok js (length js) (ts ! i)" if "i < nat (toknext parser)" for i
      using ts(2) ts(6) [OF that] by (auto intro: token_ok_mono)
    have start: "tok_start (ts ! i) \<noteq> - 1" if "i < nat (toknext parser)" for i
    proof
      assume "tok_start (ts ! i) = - 1"
      with ok [OF that] have "unat (- 1 :: u32) < length js" by (auto simp: token_ok_def Let_def)
      with small(1) show False by (simp add: unsigned_minus_1_eq_mask mask_eq_exp_minus_1)
    qed
    from last_index_cases [OF n, of unclosed] show ?thesis
    proof (elim disjE exE conjE)
      assume "last_index unclosed ts (nat (toknext parser)) = Some (- 1)" "\<forall>i<nat (toknext parser). \<not> unclosed (ts ! i)"
      with ok start ts(1-5) show ?thesis
        unfolding loop by (auto simp: iot_json_finish_def s unclosed_def less.prems(2))
    qed (simp add: loop [unfolded s ts(1)] iot_json_finish_def s ts(1))
  qed
qed

text \<open>
  C36: The tokens of a text. On every text of less than \<open>2^31\<close> bytes and every array of \<open>num_tokens\<close>
  tokens the tokeniser is defined and returns: one of the three errors, or the number of tokens
  it has filled, which fit into the array. In that case each of them delimits a part of
  the text of its type: an object or array from its bracket to the bracket that closes it, a
  string between two quotes, a primitive of printable characters without delimiters.
\<close>

theorem tokens_delimit:
  assumes "length js < 2 ^ 31" and "unat num_tokens < 2 ^ 31" and "length ts = unat num_tokens"
  shows "\<exists>r parser tokens. iot_json_parse iot_json_init js (Some ts) num_tokens = Some (r, parser, tokens) \<and>
    (r \<in> {IOT_JSON_ERROR_NOMEM, IOT_JSON_ERROR_INVAL, IOT_JSON_ERROR_PART} \<or>
     (\<exists>ts'. tokens = Some ts' \<and> length ts' = length ts \<and> 0 \<le> r \<and> r \<le> int (unat num_tokens) \<and> r = toknext parser \<and>
       (\<forall>i < nat r. delimits js (tok_type (ts' ! i)) (unat (tok_start (ts' ! i))) (unat (tok_end (ts' ! i))))))"
proof -
  have "tokens_inv js num_tokens (pos (fst (iot_json_init, Some ts))) (iot_json_init, Some ts)"
    using assms(3) by (simp add: tokens_inv_def iot_json_init_def)
  from loop_ok [OF assms(1,2) this refl] assms(1,3) show ?thesis
    by (fastforce simp: iot_json_parse_def require_def token_ok_def Let_def)
qed

theorem tokens_delimit_witness:
  "\<exists>r parser tokens ts. iot_json_parse iot_json_init ''{x:[1]}'' (Some ts) 4 = Some (r, parser, tokens) \<and>
    r \<in> {- 3, - 2, - 1} \<union> {0..4}"
proof -
  let ?t = "\<lparr>tok_type = IOT_JSON_UNDEFINED, tok_start = 0, tok_end = 0, tok_size = 0\<rparr> :: iot_json_tok_t"
  from tokens_delimit [of "''{x:[1]}''" 4 "replicate 4 ?t"] obtain r parser tokens where
    "iot_json_parse iot_json_init ''{x:[1]}'' (Some (replicate 4 ?t)) 4 = Some (r, parser, tokens)"
    "r \<in> {- 3, - 2, - 1} \<union> {0..4}"
    by (auto simp: error_defs)
  then show ?thesis by blast
qed

section \<open>Counting first\<close>














end
