(* ===== verification/JsonComments.thy ===== *)
theory JsonComments
  imports JsonRoundtrip JsonAccess
begin

text \<open>
  Texts with comments in \<^verbatim>\<open>common/parson.c\<close>: \<open>remove_comments\<close> overwrites a comment with spaces,
  outside of strings only, and the parser reads the result. What the serialiser writes contains
  no comment, whatever its strings hold, and a comment before a text does not change its value.
\<close>

section \<open>Removing comments\<close>

text \<open>\<open>strstr\<close> as an offset.\<close>

fun strstr :: "cstring \<Rightarrow> cstring \<Rightarrow> nat option" where
  "strstr s p =
     (if take (length p) s = p then Some 0
      else case s of [] \<Rightarrow> None | c # r \<Rightarrow> map_option Suc (strstr r p))"

declare strstr.simps [simp del]

text \<open>
  The loop of the code with its two flags. The pointer moves forward only, so that the text behind it
  is the rest of the list; an open comment leaves everything behind its start token as it is.
\<close>

function strip :: "cstring \<Rightarrow> cstring \<Rightarrow> bool \<Rightarrow> bool \<Rightarrow> cstring \<Rightarrow> cstring" where
  "strip start_token end_token in_string escaped s =
     (case s of
        [] \<Rightarrow> []
      | c # r \<Rightarrow>
          if c = CHR 0x5C \<and> \<not> escaped then c # strip start_token end_token in_string True r
          else if c = CHR 0x22 \<and> \<not> escaped then c # strip start_token end_token (\<not> in_string) False r
          else if \<not> in_string \<and> start_token \<noteq> [] \<and> take (length start_token) s = start_token then
            (let rest = drop (length start_token) s in
             replicate (length start_token) (CHR '' '') @
             (case strstr rest end_token of
                None \<Rightarrow> rest
              | Some ptr \<Rightarrow> replicate (ptr + length end_token) (CHR '' '') @
                  strip start_token end_token in_string False (drop (ptr + length end_token) rest)))
          else c # strip start_token end_token in_string False r)"
  by pat_completeness auto
termination
  by (relation "measure (\<lambda>(start_token, end_token, in_string, escaped, s). length s)") auto

declare strip.simps [simp del]

definition remove_comments :: "cstring \<Rightarrow> cstring \<Rightarrow> cstring \<Rightarrow> cstring" where
  "remove_comments s start_token end_token =
     (if start_token = [] \<or> end_token = [] then s else strip start_token end_token False False s)"

text \<open>\<open>parson_strdup\<close> of a NULL pointer is undefined. There is no byte order mark to skip here.\<close>

definition json_parse_string_with_comments :: "cstring option \<Rightarrow> json option option" where
  "json_parse_string_with_comments str = do {
     s \<leftarrow> str;
     let t = remove_comments (remove_comments (c_str s) ''/*'' ''*/'') ''//'' [CHR 0x0A];
     case parse_value (2 * length t + 2) 0 t of
       Parsed v _ \<Rightarrow> Some (Some v)
     | _ \<Rightarrow> Some None }"

definition json_parse_file_with_comments :: "cstring option \<Rightarrow> json option option" where
  "json_parse_file_with_comments contents =
     (case read_file contents of
        None \<Rightarrow> Some None
      | Some file_contents \<Rightarrow> json_parse_string_with_comments (Some file_contents))"

section \<open>Written texts\<close>

lemma strip_Nil [simp]: "strip st en q e [] = []"
  by (subst strip.simps) simp

lemma strstr_Some: "strstr s p = Some k \<Longrightarrow> k + length p \<le> length s"
proof (induction s arbitrary: k)
  case Nil
  then show ?case by (subst (asm) strstr.simps) (auto split: if_splits)
next
  case (Cons c s)
  show ?case
  proof (cases "take (length p) (c # s) = p")
    case True
    then have "length p \<le> length (c # s)" by (metis length_take min.cobounded1)
    with True Cons.prems show ?thesis by (subst (asm) strstr.simps) simp
  next
    case False
    with Cons.prems obtain j where "strstr s p = Some j" "k = Suc j" by (subst (asm) strstr.simps) auto
    with Cons.IH [of j] show ?thesis by simp
  qed
qed

text \<open>Comments are overwritten in place: no byte is added or taken away.\<close>

lemma strip_length: "length (strip st en q e s) = length s"
proof (induction st en q e s rule: strip.induct)
  case (1 st en q e s)
  show ?case
  proof (cases s)
    case (Cons c r)
    let ?rest = "drop (length st) s"
    have "length st \<le> length s" if "take (length st) s = st" using that by (metis length_take min.cobounded1)
    then show ?thesis
      using 1 [OF Cons] strstr_Some [of ?rest en]
      by (subst strip.simps) (auto simp: Cons Let_def split: option.splits)
  qed simp
qed

lemma remove_comments_length: "length (remove_comments s st en) = length s"
  by (simp add: remove_comments_def strip_length)

text \<open>A part of a text that is passed unchanged, back to the same state.\<close>

definition passes :: "bool \<Rightarrow> cstring \<Rightarrow> bool" where
  "passes q t \<longleftrightarrow> (\<forall>st en r. take 1 st = ''/'' \<longrightarrow> strip st en q False (t @ r) = t @ strip st en q False r)"

lemma passes_Nil [simp]: "passes q []"
  by (simp add: passes_def)

lemma passes_append: "passes q s \<Longrightarrow> passes q t \<Longrightarrow> passes q (s @ t)"
  by (simp add: passes_def)

lemma passes_Cons: "passes q [c] \<Longrightarrow> passes q t \<Longrightarrow> passes q (c # t)"
  using passes_append [of q "[c]" t] by simp

lemma passes_concat: "(\<And>t. t \<in> set ts \<Longrightarrow> passes q t) \<Longrightarrow> passes q (concat ts)"
  by (induction ts) (auto intro: passes_append)

lemma passes_char: "c \<noteq> CHR 0x5C \<Longrightarrow> c \<noteq> CHR 0x22 \<Longrightarrow> q \<or> c \<noteq> CHR ''/'' \<Longrightarrow> passes q [c]"
  unfolding passes_def
  by (intro allI impI, subst strip.simps) (auto simp: take_Suc neq_Nil_conv split: list.splits)

lemma passes_chars: "(\<And>c. c \<in> set t \<Longrightarrow> c \<noteq> CHR 0x5C \<and> c \<noteq> CHR 0x22 \<and> (q \<or> c \<noteq> CHR ''/'')) \<Longrightarrow> passes q t"
proof (induction t)
  case (Cons c t)
  then have "passes q [c]" "passes q t" using passes_char [of c q] by auto
  from passes_append [OF this] show ?case by simp
qed simp

lemma strip_escape:
  "strip st en True False (CHR 0x5C # c # r) = CHR 0x5C # c # strip st en True False r"
  by (subst strip.simps, simp, subst strip.simps, simp)

lemma passes_escape: "passes True (escape_char c)"
proof -
  have two: "passes True [CHR 0x5C, x]" for x by (simp add: passes_def strip_escape)
  have hex: "hex_digit d \<noteq> CHR 0x5C \<and> hex_digit d \<noteq> CHR 0x22" if "d < 16" for d
    using hex_digit_plain [OF that] by blast
  show ?thesis
  proof (cases "c \<in> {CHR 0x22, CHR 0x5C, CHR 0x08, CHR 0x0C, CHR 0x0A, CHR 0x0D, CHR 0x09}")
    case True
    then show ?thesis by (auto simp: escape_char_def two)
  next
    case False
    show ?thesis
    proof (cases "(of_char c :: nat) < 0x20")
      case True
      have "passes True ([CHR 0x5C, CHR ''u''] @ [CHR ''0'', CHR ''0'', hex_digit (of_char c div 16), hex_digit (of_char c mod 16)])"
        using True hex by (intro passes_append two passes_chars) auto
      with False True show ?thesis by (simp add: escape_char_def)
    qed (use False in \<open>auto simp: escape_char_def intro!: passes_char\<close>)
  qed
qed

lemma passes_string: "passes False (json_serialize_string s)"
proof -
  have body: "passes True (concat (map escape_char s))" by (intro passes_concat) (auto intro: passes_escape)
  have open_quote: "strip st en False False (CHR 0x22 # r) = CHR 0x22 # strip st en True False r" for st en r
    by (subst strip.simps) simp
  have close_quote: "strip st en True False (CHR 0x22 # r) = CHR 0x22 # strip st en False False r" for st en r
    by (subst strip.simps) simp
  show ?thesis using body by (simp add: passes_def json_serialize_string_def open_quote close_quote)
qed

text \<open>The characters of a number.\<close>

definition number_char :: "char \<Rightarrow> bool" where
  "number_char c \<longleftrightarrow> is_digit c \<or> c \<in> set ''.e+-infa''"

lemma number_chars:
  "set (with_point a b) \<subseteq> set a \<union> set b \<union> {CHR ''.''}"
  by (auto simp: with_point_def strip_zeros_def Let_def dest: set_dropWhileD)

lemma fmt_g17_chars: "c \<in> set (fmt_g17 d) \<Longrightarrow> number_char c"
proof -
  have digits: "set (show_nat n) \<subseteq> Collect number_char" for n by (auto simp: number_char_def dest: show_nat_digits)
  have rep: "set (replicate k (CHR ''0'')) \<subseteq> Collect number_char" for k by (auto simp: number_char_def is_digit_def)
  have part: "set (take k s) \<subseteq> Collect number_char" "set (drop k s) \<subseteq> Collect number_char"
    if "set s \<subseteq> Collect number_char" for k s
    using that set_take_subset [of k s] set_drop_subset [of k s] by auto
  have point: "set (with_point a b) \<subseteq> Collect number_char"
    if "set a \<subseteq> Collect number_char" "set b \<subseteq> Collect number_char" for a b
    using number_chars [of a b] that by (auto simp: number_char_def)
  have pad: "set (pad_left k s) \<subseteq> Collect number_char" if "set s \<subseteq> Collect number_char" for k s
    using that rep [of "k - length s"] by (auto simp: pad_left_def)
  have chars: "number_char (CHR ''0'')" "number_char (CHR ''-'')" "number_char (CHR ''+'')" "number_char (CHR ''e'')"
    "number_char (CHR ''i'')" "number_char (CHR ''n'')" "number_char (CHR ''f'')" "number_char (CHR ''a'')"
    by (simp_all add: number_char_def is_digit_def)
  have zero: "set (with_point ''0'' (replicate k (CHR ''0'') @ show_nat n)) \<subseteq> Collect number_char" for k n
    using rep [of k] digits [of n] chars(1) by (intro point) auto
  have "set (fmt_g17 d) \<subseteq> Collect number_char"
    unfolding fmt_g17_def sign_text_def Let_def
    by (auto simp: chars split: double.splits prod.splits
      dest!: point [OF part(1) [OF digits] part(2) [OF digits], THEN subsetD] pad [OF digits, THEN subsetD]
        zero [THEN subsetD])
  then show "c \<in> set (fmt_g17 d) \<Longrightarrow> number_char c" by auto
qed

lemma passes_number: "passes False (fmt_g17 d)"
  by (rule passes_chars) (use fmt_g17_chars in \<open>fastforce simp: number_char_def is_digit_def\<close>)

lemma passes_between:
  "passes False [cl] \<Longrightarrow> \<forall>i \<in> set items. passes False i \<Longrightarrow> passes False (between level p cl items)"
proof (induction level p cl items rule: between.induct)
  have "passes False (append_indent k)" for k by (rule passes_chars) (auto simp: append_indent_def split: if_splits)
  note this [intro]
  have "passes False [CHR 0x0A]" "passes False '',''" by (auto intro: passes_char)
  note this [intro]
  {
    case (1 level p cl)
    then show ?case by (auto intro: passes_append)
  next
    case (2 level p cl i items)
    then show ?case unfolding between.simps by (intro passes_append) auto
  }
qed

lemma passes_bracketed:
  assumes "\<And>i. i \<in> set items \<Longrightarrow> passes False i" and "op \<in> {CHR ''['', CHR ''{''}" and "cl \<in> {CHR '']'', CHR ''}''}"
  shows "passes False (bracketed level p op cl items)"
proof -
  have b: "passes False [op]" "passes False [cl]" "passes False [CHR 0x0A]" using assms(2,3) by (auto intro: passes_char)
  have "passes False ([op] @ [cl])" using b by (intro passes_append)
  moreover have "passes False ([op] @ (if p then [CHR 0x0A] else []) @ between level p cl items)"
    using b assms(1) by (intro passes_append passes_between) auto
  ultimately show ?thesis by (simp add: bracketed_between)
qed

lemma passes_written: "json_ok v \<Longrightarrow> passes False (json_write level p v)"
proof (induction level p v rule: json_write.induct)
  case (1 level p xs)
  then show ?case by (auto intro!: passes_bracketed)
next
  case (2 level p obj)
  have "passes False (member_text p (json_write (level + 1) p) (k, x))" if "(k, x) \<in> set obj" for k x
  proof -
    have "passes False (json_write (level + 1) p x)" using that 2 by fastforce
    moreover have "passes False '':''" "passes False (if p then '' '' else [])" by (auto intro: passes_char)
    ultimately show ?thesis unfolding member_text_def by (intro passes_append) (simp_all add: passes_string)
  qed
  with 2 show ?case by (auto simp: json_write_object simp del: json_write.simps intro!: passes_bracketed)
next
  case (4 level p b)
  have "passes False ''true''" "passes False ''false''" by (rule passes_chars; auto)+
  then show ?case by simp
next
  case (6 level p)
  have "passes False ''null''" by (rule passes_chars) auto
  then show ?case by simp
qed (auto simp: passes_string passes_number)

lemma strip_written:
  assumes "json_ok v" and "take 1 st = ''/''"
  shows "strip st en False False (json_write level p v) = json_write level p v"
proof -
  have "strip st en False False (json_write level p v @ []) = json_write level p v @ strip st en False False []"
    using passes_written [OF assms(1), of level p] assms(2) unfolding passes_def by blast
  then show ?thesis by (simp add: strip.simps)
qed

lemma strip_blanks: "take 1 st = ''/'' \<Longrightarrow> strip st en False False (replicate k (CHR '' '') @ t) = replicate k (CHR '' '') @ strip st en False False t"
  using passes_chars [of "replicate k (CHR '' '')" False] by (auto simp: passes_def)

lemma strstr_append: "strstr s p = Some k \<Longrightarrow> strstr (s @ t) p = Some k"
proof (induction s arbitrary: k)
  case Nil
  then show ?case by (subst (asm) strstr.simps, subst strstr.simps) (auto split: if_splits)
next
  case (Cons c s)
  show ?case
  proof (cases "take (length p) (c # s) = p")
    case True
    then have "length p \<le> length (c # s)" by (metis length_take min.cobounded1)
    then have "take (length p) ((c # s) @ t) = take (length p) (c # s)" by (subst take_append) simp
    with True Cons.prems show ?thesis by (subst (asm) strstr.simps, subst strstr.simps) simp
  next
    case False
    with Cons.prems obtain j where j: "strstr s p = Some j" "k = Suc j" by (subst (asm) strstr.simps) auto
    from strstr_Some [OF j(1)] have "length p \<le> length (c # s)" by simp
    then have "take (length p) ((c # s) @ t) = take (length p) (c # s)" by (subst take_append) simp
    with False have "take (length p) ((c # s) @ t) \<noteq> p" by simp
    then show ?thesis using Cons.IH [OF j(1)] j(2) by (subst strstr.simps) simp
  qed
qed

text \<open>The parser on a written text behind blanks.\<close>

lemma parse_blanks_written:
  assumes "json_ok v" and "json_normal v" and "json_depth v \<le> MAX_NESTING"
  shows "parse_value (2 * length (replicate k (CHR '' '') @ json_write level p v) + 2) 0 (replicate k (CHR '' '') @ json_write level p v) = Parsed v []"
proof -
  let ?w = "json_write level p v" and ?t = "replicate k (CHR '' '') @ json_write level p v"
  have "stops []" by (simp add: stops_def)
  with reads_written [OF assms(1,2), of 0 level p] assms(3)
  obtain f0 where f0: "\<forall>f \<ge> f0. parse_value f 0 (?w @ []) = Parsed v []" unfolding reads_def by fastforce
  have "skip_ws ?t = skip_ws ?w" by (rule skip_ws_append) (auto simp: isspace_def)
  from parse_value_skip [OF this] f0 have "parse_value (max f0 (2 * length ?t + 2)) 0 ?t = Parsed v []" by simp
  then show ?thesis using parse_value_stable [of ?t "max f0 (2 * length ?t + 2)" 0] by simp
qed

text \<open>
  Comments. The parser with comments reads what the serialiser has written as the same value, although the strings
  in it may hold \<open>/*\<close>, \<open>//\<close> and quotes; and it does so behind a comment, with any text
  in the comment that does not end it. No byte is added or removed by blanking comments out.
\<close>

theorem comments_ignored:
  assumes "json_ok v" and "json_normal v" and "json_depth v \<le> MAX_NESTING"
    and "nul_free body" and "strstr (body @ ''*/'') ''*/'' = Some (length body)"
  shows "json_parse_string_with_comments (Some (json_write level p v)) = Some (Some v) \<and>
    json_parse_string_with_comments (Some (''/*'' @ body @ ''*/'' @ json_write level p v)) = Some (Some v) \<and>
    length (remove_comments s start_token end_token) = length s"
proof -
  let ?w = "json_write level p v"
  note nul = json_write_nul_free [OF assms(1), of level p]
  have plain: "remove_comments (remove_comments ?w ''/*'' ''*/'') ''//'' [CHR 0x0A] = ?w"
    by (simp add: remove_comments_def strip_written [OF assms(1)])
  have "strstr (body @ ''*/'' @ ?w) ''*/'' = Some (length body)" using strstr_append [OF assms(5), of ?w] by simp
  then have "strip ''/*'' ''*/'' False False (''/*'' @ body @ ''*/'' @ ?w) =
      replicate (length body + 4) (CHR '' '') @ strip ''/*'' ''*/'' False False ?w"
    by (subst strip.simps) (simp add: numeral_eq_Suc flip: replicate_add replicate_Suc)
  then have "remove_comments (remove_comments (''/*'' @ body @ ''*/'' @ ?w) ''/*'' ''*/'') ''//'' [CHR 0x0A] =
      replicate (length body + 4) (CHR '' '') @ ?w"
    by (simp add: remove_comments_def strip_written [OF assms(1)] strip_blanks del: append.simps)
  moreover have "c_str (''/*'' @ body @ ''*/'' @ ?w) = ''/*'' @ body @ ''*/'' @ ?w"
    using nul assms(4) by (intro c_str_id) simp
  ultimately have behind: "json_parse_string_with_comments (Some (''/*'' @ body @ ''*/'' @ ?w)) = Some (Some v)"
    using parse_blanks_written [OF assms(1-3), of "length body + 4" level p]
    by (simp only: json_parse_string_with_comments_def Let_def bind.bind_lunit parsed.case)
  have "json_parse_string_with_comments (Some ?w) = Some (Some v)"
    using parse_blanks_written [OF assms(1-3), of 0 level p]
    by (simp only: json_parse_string_with_comments_def Let_def bind.bind_lunit parsed.case plain c_str_id [OF nul]
        replicate_0 append_Nil)
  with behind show ?thesis using remove_comments_length by blast
qed

theorem comments_ignored_witness:
  "json_parse_string_with_comments (Some (''/*'' @ [CHR 0x22, CHR ''*''] @ ''*/'' @ json_write 0 False (JArray [JString ''//'']))) =
    Some (Some (JArray [JString ''//'']))"
proof -
  have "strstr ([CHR 0x22, CHR ''*''] @ ''*/'') ''*/'' = Some (length [CHR 0x22, CHR ''*''])" by code_simp
  with comments_ignored [of "JArray [JString ''//'']" "[CHR 0x22, CHR ''*'']" 0 False] show ?thesis
    by (simp add: MAX_NESTING_def nul_free_def)
qed

end
