(* ===== verification/TokensWritten.thy ===== *)
theory TokensWritten
  imports TokensSpec JsonComments
begin

text \<open>
  The two JSON libraries meet: what the serialiser of \<^verbatim>\<open>common/parson.c\<close> writes, the tokeniser
  of \<^verbatim>\<open>common/json.c\<close> splits into the tokens of the value: one for each value and each name, in the order
  of the text, with the number of its children. The proof follows the text; a \<open>point\<close> of the run is
  the position, the index of the token that gets the next child, the filled and the free tokens.
\<close>

section \<open>The tokens of a value\<close>

type_synonym token_view = "iot_json_type_t \<times> cstring \<times> u32"

text \<open>What a token delimits in a text.\<close>

definition token_view :: "cstring \<Rightarrow> iot_json_tok_t \<Rightarrow> token_view" where
  "token_view js t = (tok_type t, drop (unat (tok_start t)) (take (unat (tok_end t)) js), tok_size t)"

fun tokens_of :: "nat \<Rightarrow> bool \<Rightarrow> json \<Rightarrow> token_view list" where
  "tokens_of level p (JArray xs) =
     (IOT_JSON_ARRAY, json_write level p (JArray xs), of_nat (length xs)) # concat (map (tokens_of (level + 1) p) xs)"
| "tokens_of level p (JObject obj) =
     (IOT_JSON_OBJECT, json_write level p (JObject obj), of_nat (length obj)) #
     concat (map (\<lambda>(key, v). (IOT_JSON_STRING, concat (map escape_char key), 1) # tokens_of (level + 1) p v) obj)"
| "tokens_of level p (JString s) = [(IOT_JSON_STRING, concat (map escape_char s), 0)]"
| "tokens_of level p v = [(IOT_JSON_PRIMITIVE, json_write level p v, 0)]"

section \<open>Parts of a text\<close>

definition js_at :: "cstring \<Rightarrow> nat \<Rightarrow> cstring \<Rightarrow> bool" where
  "js_at js p t \<longleftrightarrow> p \<le> length js \<and> take (length t) (drop p js) = t"

lemma js_at_len: "js_at js p t \<Longrightarrow> p + length t \<le> length js"
  by (metis add.commute js_at_def le_diff_conv2 length_drop length_take min.absorb_iff2)

lemma js_at_append: "js_at js p (s @ t) \<longleftrightarrow> js_at js p s \<and> js_at js (p + length s) t"
proof
  assume a: "js_at js p (s @ t)"
  from js_at_len [OF a] a show "js_at js p s \<and> js_at js (p + length s) t"
    by (auto simp: js_at_def take_add append_eq_append_conv add.commute)
next
  assume "js_at js p s \<and> js_at js (p + length s) t"
  then show "js_at js p (s @ t)" by (auto simp: js_at_def take_add add.commute)
qed

lemma js_at_Nil [simp]: "js_at js p [] \<longleftrightarrow> p \<le> length js"
  by (simp add: js_at_def)

lemma js_at_Cons: "js_at js p (c # t) \<longleftrightarrow> p < length js \<and> js ! p = c \<and> js_at js (Suc p) t"
proof (cases "p < length js")
  case True
  then have "drop p js = js ! p # drop (Suc p) js" by (rule Cons_nth_drop_Suc [symmetric])
  with True show ?thesis by (auto simp: js_at_def)
qed (auto simp: js_at_def)

lemma js_at_take: "js_at js p t \<Longrightarrow> drop p (take (p + length t) js) = t"
  by (simp add: js_at_def drop_take)

lemma js_at_nth: "js_at js p t \<Longrightarrow> i < length t \<Longrightarrow> js ! (p + i) = t ! i"
proof -
  assume a: "js_at js p t" "i < length t"
  then have "take (length t) (drop p js) ! i = t ! i" by (simp add: js_at_def)
  with js_at_len [OF a(1)] a(2) show ?thesis by simp
qed

section \<open>Filled tokens\<close>

definition bump :: "int \<Rightarrow> iot_json_tok_t list \<Rightarrow> iot_json_tok_t list" where
  "bump super D = (if super = - 1 then D else D[nat super := (D ! nat super)\<lparr>tok_size := tok_size (D ! nat super) + 1\<rparr>])"

text \<open>The last token that has been opened and not been closed, or -1.\<close>

definition enclosing :: "iot_json_tok_t list \<Rightarrow> int" where
  "enclosing D = the (last_index unclosed D (length D))"

lemma length_bump [simp]: "length (bump super D) = length D"
  by (simp add: bump_def)

lemma last_index_append: "n \<le> length D \<Longrightarrow> last_index P (D @ R) n = last_index P D n"
  by (induction n) (simp_all add: token_at_def nth_append)

lemma last_index_total: "n \<le> length D \<Longrightarrow> \<exists>i. last_index P D n = Some i"
  using last_index_cases [of n D P] by blast

lemma last_index_last: "last_index P (D @ [t]) (Suc (length D)) = (if P t then Some (int (length D)) else last_index P D (length D))"
  by (simp add: token_at_def last_index_append)

lemma last_index_none: "\<forall>t \<in> set N. \<not> P t \<Longrightarrow> last_index P (D @ N) (length (D @ N)) = last_index P D (length D)"
proof (induction N rule: rev_induct)
  case (snoc t N)
  then show ?case using last_index_last [of P "D @ N" t] by simp
qed simp

lemma last_index_hit: "P t \<Longrightarrow> \<forall>t \<in> set N. \<not> P t \<Longrightarrow> last_index P (D @ t # N) (length (D @ t # N)) = Some (int (length D))"
  using last_index_none [of N P "D @ [t]"] last_index_last [of P D t] by simp

lemma enclosing_Some: "last_index unclosed (D @ R) (length D) = Some (enclosing D)"
  using last_index_total [of "length D" D unclosed] by (auto simp: last_index_append enclosing_def)

lemma enclosing_closed: "\<forall>t \<in> set N. \<not> unclosed t \<Longrightarrow> enclosing (D @ N) = enclosing D"
  using last_index_none [of N unclosed D] by (simp add: enclosing_def)

lemma enclosing_open: "unclosed t \<Longrightarrow> \<forall>t \<in> set N. \<not> unclosed t \<Longrightarrow> enclosing (D @ t # N) = int (length D)"
  using last_index_hit [of unclosed t N D] by (simp add: enclosing_def)

lemma enclosing_Nil [simp]: "enclosing [] = - 1"
  by (simp add: enclosing_def)

lemma enclosing_less: "- 1 \<le> enclosing D" "enclosing D < int (length D)"
  using last_index_cases [of "length D" D unclosed] by (auto simp: enclosing_def)

lemma last_index_cong: "n \<le> length D \<Longrightarrow> length E = length D \<Longrightarrow> (\<And>i. i < n \<Longrightarrow> P (D ! i) = P (E ! i)) \<Longrightarrow>
    last_index P D n = last_index P E n"
  by (induction n) (simp_all add: token_at_def)

lemma enclosing_bump [simp]: "enclosing (bump super D) = enclosing D"
proof -
  have "last_index unclosed (bump super D) (length D) = last_index unclosed D (length D)"
  proof (rule last_index_cong)
    show "unclosed (bump super D ! i) = unclosed (D ! i)" if "i < length D" for i
      using that by (cases "nat super < length D") (auto simp: bump_def unclosed_def nth_list_update list_update_beyond)
  qed simp_all
  then show ?thesis by (simp only: enclosing_def length_bump)
qed

section \<open>Points of a run\<close>

type_synonym point = "nat \<times> int \<times> iot_json_tok_t list \<times> iot_json_tok_t list"

definition at_point :: "point \<Rightarrow> token_state" where
  "at_point = (\<lambda>(p, super, D, R). (\<lparr>pos = p, toknext = int (length D), toksuper = super\<rparr>, Some (D @ R)))"

text \<open>The tokens fit into the array, which is shorter than \<open>2^31\<close>.\<close>

definition room :: "u32 \<Rightarrow> point \<Rightarrow> bool" where
  "room num = (\<lambda>(p, super, D, R). length (D @ R) = unat num \<and> unat num < 2 ^ 31)"

definition moves :: "cstring \<Rightarrow> u32 \<Rightarrow> point \<Rightarrow> point \<Rightarrow> bool" where
  "moves js num x y \<longleftrightarrow> (room num x \<longrightarrow> room num y \<and>
     iot_json_loop js num (int (length (fst (snd (snd x))))) (at_point x) =
     iot_json_loop js num (int (length (fst (snd (snd y))))) (at_point y))"

lemma moves_refl [simp]: "moves js num x x"
  by (simp add: moves_def)

lemma moves_trans [trans]: "moves js num x y \<Longrightarrow> moves js num y z \<Longrightarrow> moves js num x z"
  by (simp add: moves_def)

lemma moves_turn:
  assumes "room num (p, super, D, R) \<Longrightarrow> iot_json_char js num (at_point (p, super, D, R)) =
      Some (0, int (length D') - int (length D), at_point (q, super', D', R'))"
    and "length (D' @ R') = length (D @ R)" and "p < length js" and "js ! p \<noteq> CHR 0x00"
  shows "moves js num (p, super, D, R) (Suc q, super', D', R')"
  unfolding moves_def
proof
  assume r: "room num (p, super, D, R)"
  then have r': "room num (Suc q, super', D', R')" using assms(2) by (simp add: room_def)
  moreover have "int (length D') < 2 ^ 31" using r' by (simp add: room_def)
  moreover have "next_char (at_point (q, super', D', R')) = at_point (Suc q, super', D', R')" by (simp add: next_char_def at_point_def)
  ultimately show "room num (Suc q, super', D', R') \<and>
     iot_json_loop js num (int (length (fst (snd (snd (p, super, D, R)))))) (at_point (p, super, D, R)) =
     iot_json_loop js num (int (length (fst (snd (snd (Suc q, super', D', R')))))) (at_point (Suc q, super', D', R'))"
    using assms(1) [OF r] assms(3,4)
    by (subst iot_json_loop.simps) (simp add: at_point_def)
qed

section \<open>One character\<close>

lemma at_point_simps [simp]: "fst (at_point (p, super, D, R)) = \<lparr>pos = p, toknext = int (length D), toksuper = super\<rparr>"
  "snd (at_point (p, super, D, R)) = Some (D @ R)"
  by (simp_all add: at_point_def)

lemma alloc_at:
  assumes "room num (p, super, D, r # R)"
  shows "iot_json_alloc_token \<lparr>pos = p, toknext = int (length D), toksuper = super\<rparr> (D @ r # R) num =
    Some (\<lparr>pos = p, toknext = int (length D) + 1, toksuper = super\<rparr>,
      D @ r\<lparr>tok_start := - 1, tok_end := - 1, tok_size := 0\<rparr> # R, Some (int (length D)))"
proof -
  have len: "length D + 1 + length R = unat num" "unat num < 2 ^ 31" using assms by (simp_all add: room_def)
  then have "(word_of_int (int (length D)) :: u32) < num"
    by (simp add: word_less_nat_alt unat_of_nat)
  moreover from len have "int (length D + 1) < int (2 ^ 31)" by (simp only: of_nat_less_iff)
  then have "int (length D) + 1 < 2 ^ 31" by simp
  ultimately show ?thesis by (simp add: iot_json_alloc_token_def token_at_def require_def)
qed

lemma count_child_at:
  assumes "- 1 \<le> super" and "super < int (length D)"
  shows "count_child (\<lparr>pos = p, toknext = n, toksuper = super\<rparr>, Some (D @ R)) =
    Some (\<lparr>pos = p, toknext = n, toksuper = super\<rparr>, Some (bump super D @ R))"
  using assms by (auto simp: count_child_def token_at_def bump_def nth_append list_update_append)

lemma char_at:
  "iot_json_char js num (at_point (p, super, D, R)) = (let s = at_point (p, super, D, R); c = js ! p in
     if c = CHR ''{'' \<or> c = CHR ''['' then do { (code, s1) \<leftarrow> open_bracket c num s; Some (code, 1, s1) }
     else if c = CHR ''}'' \<or> c = CHR '']'' then do { (code, s1) \<leftarrow> close_bracket c s; Some (code, 0, s1) }
     else if c = CHR 0x22 then do { (code, s1) \<leftarrow> element (iot_json_parse_string js num s); Some (code, 1, s1) }
     else if c \<in> {CHR 0x09, CHR 0x0D, CHR 0x0A, CHR '' ''} then Some (0, 0, s)
     else if c = CHR '':'' then Some (0, 0, at_point (p, int (length D) - 1, D, R))
     else if c = CHR '','' then do { s1 \<leftarrow> comma s; Some (0, 0, s1) }
     else do { (code, s1) \<leftarrow> element (iot_json_parse_primitive js num s); Some (code, 1, s1) })"
  by (simp add: iot_json_char_def at_point_def Let_def)

lemma update_bump: "(bump super D @ x # R)[length D := y] = bump super D @ y # R"
  using list_update_length [of "bump super D"] by simp

lemma space_moves:
  assumes "js_at js p w" and "\<forall>c \<in> set w. c \<in> {CHR 0x0A, CHR '' ''}"
  shows "moves js num (p, super, D, R) (p + length w, super, D, R)"
  using assms
proof (induction w arbitrary: p)
  case (Cons c w)
  have c: "p < length js" "js ! p = c" "js_at js (Suc p) w" using Cons.prems(1) by (simp_all add: js_at_Cons)
  have "c = CHR 0x0A \<or> c = CHR '' ''" using Cons.prems(2) by simp
  then have "moves js num (p, super, D, R) (Suc p, super, D, R)"
    using c(1,2) by (intro moves_turn) (elim disjE; simp add: char_at)+
  also have "moves js num \<dots> (Suc p + length w, super, D, R)" using Cons.prems(2) by (intro Cons.IH c(3)) simp
  finally show ?case by simp
qed simp

lemma colon_moves:
  assumes "js_at js p '':''"
  shows "moves js num (p, super, D, R) (Suc p, int (length D) - 1, D, R)"
  using assms by (intro moves_turn) (auto simp: js_at_Cons char_at Let_def)

text \<open>After a member that is not a container the next child goes to the enclosing container again.\<close>

lemma comma_at:
  assumes "last_index (\<lambda>t. is_container t \<and> unclosed t) D (length D) = Some (int b)" and "0 \<le> super" and "super < int (length D)"
    and "is_container (D ! nat super) \<Longrightarrow> super = int b"
  shows "comma (at_point (p, super, D, R)) = Some (at_point (p, int b, D, R))"
proof -
  have "last_index (\<lambda>t. is_container t \<and> unclosed t) (D @ R) (length D) = Some (int b)"
    using assms(1) by (simp only: last_index_append [OF order_refl])
  moreover have "token_at (D @ R) super = Some (D ! nat super)" using assms(2,3) by (simp add: token_at_def nth_append nat_less_iff)
  ultimately show ?thesis using assms(2,4) by (auto simp: comma_def at_point_def)
qed

lemma comma_moves:
  assumes "js_at js p '',''" and "unclosed t" and "is_container t" and "\<forall>t \<in> set N. \<not> unclosed t"
    and "super = int (length B) \<or> (0 \<le> super \<and> super < int (length (B @ t # N)) \<and> \<not> is_container ((B @ t # N) ! nat super))"
  shows "moves js num (p, super, B @ t # N, R) (Suc p, int (length B), B @ t # N, R)"
proof (rule moves_turn)
  let ?D = "B @ t # N"
  have "last_index (\<lambda>t. is_container t \<and> unclosed t) ?D (length ?D) = Some (int (length B))"
    by (rule last_index_hit) (use assms(2-4) in auto)
  then have "comma (at_point (p, super, ?D, R)) = Some (at_point (p, int (length B), ?D, R))"
    by (rule comma_at) (use assms(3,5) in auto)
  then show "iot_json_char js num (at_point (p, super, ?D, R)) =
      Some (0, int (length ?D) - int (length ?D), at_point (p, int (length B), ?D, R))"
    using assms(1) by (simp add: js_at_Cons char_at)
qed (use assms(1) in \<open>auto simp: js_at_Cons\<close>)

section \<open>Brackets\<close>

lemma open_moves:
  assumes "js_at js p [c]" and "c = CHR ''{'' \<or> c = CHR ''[''" and "- 1 \<le> super" and "super < int (length D)"
  shows "moves js num (p, super, D, r # R) (Suc p, int (length D),
    bump super D @ [\<lparr>tok_type = bracket_type c, tok_start = of_nat p, tok_end = - 1, tok_size = 0\<rparr>], R)"
proof (rule moves_turn)
  let ?t = "\<lparr>tok_type = bracket_type c, tok_start = of_nat p, tok_end = - 1, tok_size = 0\<rparr> :: iot_json_tok_t"
  assume room: "room num (p, super, D, r # R)"
  have "open_bracket c num (at_point (p, super, D, r # R)) = Some (0, at_point (p, int (length D), bump super D @ [?t], R))"
    by (simp add: open_bracket_def at_point_def alloc_at [OF room] count_child_at [OF assms(3,4)] token_at_def nth_append update_bump)
  with assms(1,2) show "iot_json_char js num (at_point (p, super, D, r # R)) =
      Some (0, int (length (bump super D @ [?t])) - int (length D), at_point (p, int (length D), bump super D @ [?t], R))"
    by (auto simp: js_at_Cons char_at)
qed (use assms(1,2) in \<open>auto simp: js_at_Cons\<close>)

lemma close_at:
  assumes "last_index unclosed D (length D) = Some (int b)" and "b < length D" and "tok_type (D ! b) = bracket_type c"
    and "last_index unclosed E (Suc b) = Some e" and "E = D[b := (D ! b)\<lparr>tok_end := of_nat (Suc p)\<rparr>]"
  shows "close_bracket c (at_point (p, super, D, R)) = Some (0, at_point (p, e, E, R))"
proof -
  have "last_index unclosed (D @ R) (length D) = Some (int b)" using assms(1) by (simp only: last_index_append [OF order_refl])
  moreover have "token_at (D @ R) (int b) = Some (D ! b)" using assms(2) by (simp add: token_at_def nth_append)
  moreover have "last_index unclosed (E @ R) (Suc b) = Some e" using assms(2,4) last_index_append [of "Suc b" E unclosed R] by (simp only: assms(5) length_list_update Suc_le_eq)
  ultimately show ?thesis using assms(2,3,5)
    by (simp add: close_bracket_def at_point_def list_update_append Let_def del: last_index.simps)
qed

lemma close_moves:
  assumes "js_at js p [c]" and "c = CHR ''}'' \<or> c = CHR '']''" and "length js < 2 ^ 31"
    and "unclosed t" and "tok_type t = bracket_type c" and "\<forall>t \<in> set N. \<not> unclosed t"
  shows "moves js num (p, super, B @ t # N, R) (Suc p, enclosing B, B @ t\<lparr>tok_end := of_nat (Suc p)\<rparr> # N, R)"
proof (rule moves_turn)
  let ?D = "B @ t # N" and ?u = "t\<lparr>tok_end := of_nat (Suc p)\<rparr>"
  have p: "p < length js" using assms(1) by (simp add: js_at_Cons)
  have hit: "last_index unclosed ?D (length ?D) = Some (int (length B))" by (rule last_index_hit) (use assms(4,6) in auto)
  have "\<not> unclosed ?u" using position(2) [of "Suc p"] p assms(3) by (simp add: unclosed_def)
  then have "last_index unclosed (B @ ?u # N) (Suc (length B)) = Some (enclosing B)"
    using last_index_last [of unclosed B ?u] last_index_append [of "Suc (length B)" "B @ [?u]" unclosed N] enclosing_Some [of B "[]"] by simp
  then have "close_bracket c (at_point (p, super, ?D, R)) = Some (0, at_point (p, enclosing B, B @ ?u # N, R))"
    using assms(5) by (intro close_at [OF hit]) simp_all
  with assms(1,2) show "iot_json_char js num (at_point (p, super, ?D, R)) =
      Some (0, int (length (B @ ?u # N)) - int (length ?D), at_point (p, enclosing B, B @ ?u # N, R))"
    by (auto simp: js_at_Cons char_at)
qed (use assms(1,2) in \<open>auto simp: js_at_Cons\<close>)

section \<open>Strings\<close>

lemma is_hex_digit: "d < 16 \<Longrightarrow> is_hex (hex_digit d) \<and> hex_digit d \<noteq> CHR 0x00"
  using hex_digit_plain [of d] by (auto simp: is_hex_def hex_val_def hex_digit_def)

lemma scan_plain_char:
  "q < length js \<Longrightarrow> js ! q \<notin> {CHR 0x00, CHR 0x22, CHR 0x5C} \<Longrightarrow> scan_string js q = scan_string js (Suc q)"
  by (subst scan_string.simps) simp

lemma scan_escaped:
  "Suc q < length js \<Longrightarrow> js ! q = CHR 0x5C \<Longrightarrow> escape_letter (js ! Suc q) \<Longrightarrow> scan_string js q = scan_string js (Suc (Suc q))"
  by (subst scan_string.simps) simp

lemma scan_unicode:
  assumes "js_at js q ([CHR 0x5C, CHR ''u''] @ [a, b, c, d])" and "\<forall>x \<in> {a, b, c, d}. is_hex x \<and> x \<noteq> CHR 0x00"
  shows "scan_string js q = scan_string js (q + 6)"
proof -
  have "scan_hex js 4 (q + 2) = Some (q + 6)"
    using assms by (simp add: js_at_Cons eval_nat_numeral)
  with assms(1) show ?thesis
    by (subst scan_string.simps) (simp add: js_at_Cons escape_letter_def eval_nat_numeral)
qed

lemma scan_escape_char:
  assumes "js_at js q (escape_char c)" and "c \<noteq> CHR 0x00"
  shows "scan_string js q = scan_string js (q + length (escape_char c))"
proof -
  have two: "scan_string js q = scan_string js (q + 2)" if "js_at js q [CHR 0x5C, x]" "escape_letter x" for x
    using that scan_escaped [of q js] by (simp add: js_at_Cons)
  show ?thesis
  proof (cases "c \<in> {CHR 0x22, CHR 0x5C, CHR 0x08, CHR 0x0C, CHR 0x0A, CHR 0x0D, CHR 0x09}")
    case True
    then obtain x where "escape_char c = [CHR 0x5C, x]" "escape_letter x" by (auto simp: escape_char_def escape_letter_def)
    with assms(1) two [of x] show ?thesis by simp
  next
    case False
    show ?thesis
    proof (cases "(of_char c :: nat) < 0x20")
      case True
      let ?u = "[CHR ''0'', CHR ''0'', hex_digit (of_char c div 16), hex_digit (of_char c mod 16)]"
      have e: "escape_char c = [CHR 0x5C, CHR ''u''] @ ?u" using False True by (simp add: escape_char_def)
      have "is_hex (CHR ''0'')" by (simp add: is_hex_def hex_val_def)
      then have "scan_string js q = scan_string js (q + 6)"
        using assms(1) True is_hex_digit unfolding e by (intro scan_unicode) auto
      moreover have "length (escape_char c) = 6" by (simp add: e)
      ultimately show ?thesis by (simp only:)
    next
      case big: False
      with False assms scan_plain_char [of q js] show ?thesis by (simp add: escape_char_def js_at_Cons)
    qed
  qed
qed

lemma scan_written:
  "js_at js q (concat (map escape_char s) @ [CHR 0x22]) \<Longrightarrow> nul_free s \<Longrightarrow>
    scan_string js q = Quote_at (q + length (concat (map escape_char s)))"
proof (induction s arbitrary: q)
  case Nil
  then show ?case by (subst scan_string.simps) (simp add: js_at_Cons)
next
  case (Cons c s)
  then have "js_at js q (escape_char c)" "js_at js (q + length (escape_char c)) (concat (map escape_char s) @ [CHR 0x22])"
    by (simp_all add: js_at_append)
  with Cons scan_escape_char [of js q c] show ?case by (auto simp: nul_free_def add.assoc)
qed

lemma string_moves:
  assumes "js_at js p (json_serialize_string s)" and "nul_free s" and "- 1 \<le> super" and "super < int (length D)"
  shows "moves js num (p, super, D, r # R) (p + length (json_serialize_string s), super,
    bump super D @ [\<lparr>tok_type = IOT_JSON_STRING, tok_start = of_nat (Suc p), tok_end = of_nat (Suc p + length (concat (map escape_char s))), tok_size = 0\<rparr>], R)"
proof -
  let ?q = "Suc p + length (concat (map escape_char s))"
  let ?t = "\<lparr>tok_type = IOT_JSON_STRING, tok_start = of_nat (Suc p), tok_end = of_nat ?q, tok_size = 0\<rparr> :: iot_json_tok_t"
  have at: "js_at js p [CHR 0x22]" "js_at js (Suc p) (concat (map escape_char s) @ [CHR 0x22])"
    using assms(1) by (auto simp: json_serialize_string_def js_at_Cons)
  have "moves js num (p, super, D, r # R) (Suc ?q, super, bump super D @ [?t], R)"
  proof (rule moves_turn)
    assume room: "room num (p, super, D, r # R)"
    have "iot_json_parse_string js num (at_point (p, super, D, r # R)) =
        Some (0, \<lparr>pos = ?q, toknext = int (length D) + 1, toksuper = super\<rparr>, Some (D @ ?t # R))"
      using scan_written [OF at(2) assms(2)] by (simp add: iot_json_parse_string_def at_point_def alloc_at [OF room] iot_json_fill_token_def)
    then have "element (iot_json_parse_string js num (at_point (p, super, D, r # R))) = Some (0, at_point (?q, super, bump super D @ [?t], R))"
      by (simp add: element_def count_child_at [OF assms(3,4)] at_point_def)
    with at(1) show "iot_json_char js num (at_point (p, super, D, r # R)) =
        Some (0, int (length (bump super D @ [?t])) - int (length D), at_point (?q, super, bump super D @ [?t], R))"
      by (simp add: js_at_Cons char_at)
  qed (use at(1) in \<open>auto simp: js_at_Cons\<close>)
  then show ?thesis by (simp add: json_serialize_string_def)
qed

section \<open>Primitives\<close>

text \<open>A value ends where the text ends or a delimiter follows.\<close>

definition ends_at :: "cstring \<Rightarrow> nat \<Rightarrow> bool" where
  "ends_at js q \<longleftrightarrow> q = length js \<or> (q < length js \<and> js ! q \<noteq> CHR 0x00 \<and> delimiter (js ! q))"

lemma scan_primitive_written:
  "js_at js p w \<Longrightarrow> \<forall>c \<in> set w. plain c \<Longrightarrow> ends_at js (p + length w) \<Longrightarrow> scan_primitive js p = Some (p + length w)"
proof (induction w arbitrary: p)
  case Nil
  then show ?case by (subst scan_primitive.simps) (auto simp: ends_at_def)
next
  case (Cons c w)
  have "plain c" using Cons.prems(2) by simp
  then have "c \<noteq> CHR 0x00" "\<not> delimiter c" "\<not> (of_char c :: nat) < 32" "\<not> 127 \<le> (of_char c :: nat)" by (auto simp: plain_def)
  with Cons show ?case by (subst scan_primitive.simps) (simp add: js_at_Cons)
qed

lemma primitive_moves:
  assumes "js_at js p w" and "w \<noteq> []" and "\<forall>c \<in> set w. plain c \<and> c \<notin> {CHR ''{'', CHR ''['', CHR 0x22}" and "ends_at js (p + length w)"
    and "- 1 \<le> super" and "super < int (length D)"
  shows "moves js num (p, super, D, r # R) (p + length w, super,
    bump super D @ [\<lparr>tok_type = IOT_JSON_PRIMITIVE, tok_start = of_nat p, tok_end = of_nat (p + length w), tok_size = 0\<rparr>], R)"
proof -
  let ?q = "p + length w"
  let ?t = "\<lparr>tok_type = IOT_JSON_PRIMITIVE, tok_start = of_nat p, tok_end = of_nat ?q, tok_size = 0\<rparr> :: iot_json_tok_t"
  obtain c w' where w: "w = c # w'" using assms(2) by (cases w) auto
  then have c: "p < length js" "js ! p = c" "plain c" "c \<notin> {CHR ''{'', CHR ''['', CHR 0x22}"
    using assms(1,3) by (auto simp: js_at_Cons)
  then have other: "c \<noteq> CHR 0x00" "c \<notin> {CHR ''}'', CHR '']'', CHR 0x09, CHR 0x0D, CHR 0x0A, CHR '' '', CHR '':'', CHR '',''}"
    by (auto simp: plain_def delimiter_def)
  have "moves js num (p, super, D, r # R) (Suc (?q - 1), super, bump super D @ [?t], R)"
  proof (rule moves_turn)
    assume room: "room num (p, super, D, r # R)"
    have "scan_primitive js p = Some ?q" using assms(1,3,4) by (intro scan_primitive_written) auto
    then have "iot_json_parse_primitive js num (at_point (p, super, D, r # R)) =
        Some (0, \<lparr>pos = ?q - 1, toknext = int (length D) + 1, toksuper = super\<rparr>, Some (D @ ?t # R))"
      by (simp add: iot_json_parse_primitive_def at_point_def alloc_at [OF room] iot_json_fill_token_def)
    then have "element (iot_json_parse_primitive js num (at_point (p, super, D, r # R))) = Some (0, at_point (?q - 1, super, bump super D @ [?t], R))"
      by (simp add: element_def count_child_at [OF assms(5,6)] at_point_def)
    with c other show "iot_json_char js num (at_point (p, super, D, r # R)) =
        Some (0, int (length (bump super D @ [?t])) - int (length D), at_point (?q - 1, super, bump super D @ [?t], R))"
      by (simp add: char_at)
  qed (use c other in auto)
  then show ?thesis by (simp add: w)
qed

section \<open>Values\<close>

definition filled :: "cstring \<Rightarrow> iot_json_tok_t list \<Rightarrow> token_view list \<Rightarrow> bool" where
  "filled js N T \<longleftrightarrow> map (token_view js) N = T \<and> (\<forall>t \<in> set N. \<not> unclosed t)"

lemma filled_append: "filled js N T \<Longrightarrow> filled js M U \<Longrightarrow> filled js (N @ M) (T @ U)"
  by (auto simp: filled_def)

lemma filled_part:
  assumes "js_at js a w" and "length js < 2 ^ 31"
  shows "filled js [\<lparr>tok_type = ty, tok_start = of_nat a, tok_end = of_nat (a + length w), tok_size = n\<rparr>] [(ty, w, n)]"
proof -
  have "a < 2 ^ 31" "a + length w < 2 ^ 31" using js_at_len [OF assms(1)] assms(2) by auto
  note pos = position(1) [OF this(1)] position [OF this(2)]
  with js_at_take [OF assms(1)] show ?thesis by (simp add: filled_def token_view_def unclosed_def del: of_nat_add)
qed

text \<open>The run over the text of a value, whose next child goes to \<open>super\<close>, and over a member of a container.\<close>

definition value_run :: "cstring \<Rightarrow> u32 \<Rightarrow> bool \<Rightarrow> cstring \<Rightarrow> token_view list \<Rightarrow> bool" where
  "value_run js num container x T \<longleftrightarrow> (\<forall>p super D R. js_at js p x \<longrightarrow> ends_at js (p + length x) \<longrightarrow> length T \<le> length R \<longrightarrow>
     - 1 \<le> super \<longrightarrow> super < int (length D) \<longrightarrow> (\<exists>N. filled js N T \<and>
       moves js num (p, super, D, R) (p + length x, if container then enclosing D else super, bump super D @ N, drop (length T) R)))"

definition item_run :: "cstring \<Rightarrow> u32 \<Rightarrow> cstring \<Rightarrow> token_view list \<Rightarrow> bool" where
  "item_run js num x T \<longleftrightarrow> (\<forall>p B t N R. js_at js p x \<longrightarrow> ends_at js (p + length x) \<longrightarrow> length T \<le> length R \<longrightarrow>
     unclosed t \<longrightarrow> is_container t \<longrightarrow> (\<forall>t \<in> set N. \<not> unclosed t) \<longrightarrow> (\<exists>N' super. filled js N' T \<and>
       moves js num (p, int (length B), B @ t # N, R) (p + length x, super, B @ t\<lparr>tok_size := tok_size t + 1\<rparr> # N @ N', drop (length T) R) \<and>
       (super = int (length B) \<or> 0 \<le> super \<and> super < int (length (B @ t # N @ N')) \<and>
          \<not> is_container ((B @ t\<lparr>tok_size := tok_size t + 1\<rparr> # N @ N') ! nat super))))"

lemma bump_at: "bump (int (length B)) (B @ t # N) = B @ t\<lparr>tok_size := tok_size t + 1\<rparr> # N"
  by (simp add: bump_def)

lemma value_item: "value_run js num container x T \<Longrightarrow> item_run js num x T"
  unfolding item_run_def
proof (intro allI impI)
  fix p B t N and R :: "iot_json_tok_t list"
  assume run: "value_run js num container x T" "js_at js p x" "ends_at js (p + length x)" "length T \<le> length R"
    and t: "unclosed t" "is_container t" "\<forall>t \<in> set N. \<not> unclosed t"
  have "(if container then enclosing (B @ t # N) else int (length B)) = int (length B)" using enclosing_open [OF t(1,3)] by simp
  with run(1) [unfolded value_run_def, rule_format, OF run(2-4), of "int (length B)" "B @ t # N"] bump_at [of B t N] obtain N' where
    "filled js N' T" "moves js num (p, int (length B), B @ t # N, R)
      (p + length x, int (length B), B @ t\<lparr>tok_size := tok_size t + 1\<rparr> # N @ N', drop (length T) R)" by auto
  then show "\<exists>N' super. filled js N' T \<and>
       moves js num (p, int (length B), B @ t # N, R) (p + length x, super, B @ t\<lparr>tok_size := tok_size t + 1\<rparr> # N @ N', drop (length T) R) \<and>
       (super = int (length B) \<or> 0 \<le> super \<and> super < int (length (B @ t # N @ N')) \<and>
          \<not> is_container ((B @ t\<lparr>tok_size := tok_size t + 1\<rparr> # N @ N') ! nat super))" by blast
qed

lemma member_item:
  assumes "value_run js num container (W v) T" and "nul_free k" and "length js < 2 ^ 31"
  shows "item_run js num (member_text pr W (k, v)) ((IOT_JSON_STRING, concat (map escape_char k), 1) # T)"
  unfolding item_run_def
proof (intro allI impI)
  fix p B t N and R :: "iot_json_tok_t list"
  let ?w = "concat (map escape_char k)" and ?key = "json_serialize_string k" and ?x = "member_text pr W (k, v)"
  let ?T = "(IOT_JSON_STRING, ?w, 1) # T"
  assume at: "js_at js p ?x" and ends: "ends_at js (p + length ?x)" and room: "length ?T \<le> length R"
    and t: "unclosed t" "is_container t" "\<forall>t \<in> set N. \<not> unclosed t"
  from room obtain r R' where R: "R = r # R'" "length T \<le> length R'" by (cases R) auto
  let ?gap = "if pr then '' '' else []"
  let ?q = "p + length ?key" and ?s = "Suc (p + length ?key)" and ?v = "Suc (p + length ?key) + length ?gap"
  have parts: "js_at js p ?key" "js_at js ?q '':''" "js_at js ?s ?gap" "js_at js ?v (W v)" "js_at js (Suc p) ?w"
    using at unfolding member_text_def by (auto simp: js_at_append js_at_Cons json_serialize_string_def)
  have len: "p + length ?x = ?v + length (W v)" by (simp add: member_text_def)
  let ?t = "t\<lparr>tok_size := tok_size t + 1\<rparr>"
  let ?k = "\<lambda>n. \<lparr>tok_type = IOT_JSON_STRING, tok_start = of_nat (Suc p), tok_end = of_nat (Suc p + length ?w), tok_size = n\<rparr> :: iot_json_tok_t"
  let ?D = "B @ ?t # N @ [?k 0]"
  have "moves js num (p, int (length B), B @ t # N, r # R') (?q, int (length B), ?D, R')"
    using string_moves [OF parts(1) assms(2), of "int (length B)" "B @ t # N" num r R'] by (simp add: bump_at)
  also have "moves js num \<dots> (?s, int (length ?D) - 1, ?D, R')" by (rule colon_moves [OF parts(2)])
  also have "moves js num \<dots> (?v, int (length ?D) - 1, ?D, R')" using parts(3) by (intro space_moves) auto
  finally have key: "moves js num (p, int (length B), B @ t # N, R) (?v, int (length ?D) - 1, ?D, R')" by (simp only: R(1))
  have "unclosed ?t" using t(1) by (simp add: unclosed_def)
  moreover have closed: "\<not> unclosed (?k n)" for n using filled_part [OF parts(5) assms(3)] by (auto simp: filled_def)
  ultimately have outer: "enclosing ?D = int (length B)" using t(3) by (intro enclosing_open) auto
  have bump: "bump (int (length ?D) - 1) ?D = B @ ?t # N @ [?k 1]"
    using list_update_length [of "B @ ?t # N" "?k 0" "[]" "?k 1"] nth_append_length [of "B @ ?t # N" "?k 0" "[]"]
    by (simp add: bump_def nat_add_distrib)
  have "ends_at js (?v + length (W v))" using ends by (simp only: len)
  from assms(1) [unfolded value_run_def, rule_format, OF parts(4) this R(2), of "int (length ?D) - 1" ?D] obtain N2 where
    N2: "filled js N2 T" "moves js num (?v, int (length ?D) - 1, ?D, R')
      (?v + length (W v), if container then int (length B) else int (length ?D) - 1, B @ ?t # N @ [?k 1] @ N2, drop (length T) R')"
    unfolding outer bump by auto
  let ?super = "if container then int (length B) else int (length ?D) - 1"
  have "moves js num (p, int (length B), B @ t # N, R) (p + length ?x, ?super, B @ ?t # N @ (?k 1 # N2), drop (length ?T) R)"
    using moves_trans [OF key N2(2)] unfolding len by (simp add: R(1))
  moreover have "filled js (?k 1 # N2) ?T" using filled_append [OF filled_part [OF parts(5) assms(3)] N2(1)] by simp
  moreover have "\<not> is_container ((B @ ?t # N @ ?k 1 # N2) ! nat (int (length ?D) - 1))"
    using nth_append_length [of "B @ ?t # N" "?k 1" N2] by (simp add: is_container_def nat_add_distrib)
  ultimately show "\<exists>N' super. filled js N' ?T \<and>
       moves js num (p, int (length B), B @ t # N, R) (p + length ?x, super, B @ ?t # N @ N', drop (length ?T) R) \<and>
       (super = int (length B) \<or> 0 \<le> super \<and> super < int (length (B @ t # N @ N')) \<and>
          \<not> is_container ((B @ ?t # N @ N') ! nat super))"
    by (intro exI [of _ "?k 1 # N2"] exI [of _ ?super] conjI) auto
qed

lemma between_run:
  assumes "js_at js p (between level pr cl (map fst its))" and "\<And>x T. (x, T) \<in> set its \<Longrightarrow> item_run js num x T"
    and "length (concat (map snd its)) \<le> length R" and "unclosed t" and "is_container t" and "tok_type t = bracket_type cl"
    and "cl = CHR ''}'' \<or> cl = CHR '']''" and "\<forall>t \<in> set N. \<not> unclosed t" and "its \<noteq> [] \<Longrightarrow> super = int (length B)"
    and "length js < 2 ^ 31"
  shows "\<exists>N'. filled js N' (concat (map snd its)) \<and>
    moves js num (p, super, B @ t # N, R) (p + length (between level pr cl (map fst its)), enclosing B,
      B @ t\<lparr>tok_size := tok_size t + of_nat (length its), tok_end := of_nat (p + length (between level pr cl (map fst its)))\<rparr> # N @ N',
      drop (length (concat (map snd its))) R)"
  using assms
proof (induction its arbitrary: p t N R super)
  case Nil
  let ?i = "if pr then append_indent level else []"
  have at: "js_at js p ?i" "js_at js (p + length ?i) [cl]" using Nil.prems(1) by (simp_all only: list.map between.simps js_at_append)
  have "moves js num (p, super, B @ t # N, R) (p + length ?i, super, B @ t # N, R)"
    using at(1) by (intro space_moves) (auto simp: append_indent_def)
  also have "moves js num \<dots> (Suc (p + length ?i), enclosing B, B @ t\<lparr>tok_end := of_nat (Suc (p + length ?i))\<rparr> # N, R)"
    using Nil.prems by (intro close_moves [OF at(2)]) auto
  finally show ?case by (intro exI [of _ "[]"]) (simp add: filled_def)
next
  case (Cons it its)
  obtain x T where it: "it = (x, T)" by (cases it)
  let ?i = "if pr then append_indent (level + 1) else []" and ?c = "if map fst its \<noteq> [] then '','' else []"
    and ?l = "if pr then [CHR 0x0A] else []" and ?rest = "between level pr cl (map fst its)"
  let ?t = "t\<lparr>tok_size := tok_size t + 1\<rparr>" and ?T = "concat (map snd its)"
  let ?p1 = "p + length ?i" and ?p2 = "p + length ?i + length x" and ?p3 = "p + length ?i + length x + length ?c"
    and ?p4 = "p + length ?i + length x + length ?c + length ?l"
  have at: "js_at js p ?i" "js_at js ?p1 x" "js_at js ?p2 ?c" "js_at js ?p3 ?l" "js_at js ?p4 ?rest"
    using Cons.prems(1) unfolding it list.map fst_conv between.simps js_at_append by (simp_all only: add.assoc)
  have len: "p + length (between level pr cl (map fst (it # its))) = ?p4 + length ?rest" by (simp add: it)
  have ends: "ends_at js ?p2"
  proof (cases "its = [] \<and> \<not> pr")
    case True
    with at(5) Cons.prems(7) show ?thesis by (auto simp: js_at_Cons ends_at_def delimiter_def)
  next
    case False
    with at(3,4) show ?thesis by (cases its) (auto simp: js_at_Cons ends_at_def delimiter_def)
  qed
  have room: "length T \<le> length R" "length ?T \<le> length (drop (length T) R)" using Cons.prems(3) by (auto simp: it)
  have super: "super = int (length B)" using Cons.prems(9) by simp
  have run: "item_run js num x T" using Cons.prems(2) [of x T] by (simp add: it)
  have indent: "moves js num (p, super, B @ t # N, R) (?p1, int (length B), B @ t # N, R)"
    unfolding super using at(1) by (intro space_moves) (auto simp: append_indent_def)
  obtain N1 super1 where N1: "filled js N1 T"
      "moves js num (?p1, int (length B), B @ t # N, R) (?p2, super1, B @ ?t # N @ N1, drop (length T) R)"
      "super1 = int (length B) \<or> 0 \<le> super1 \<and> super1 < int (length (B @ t # N @ N1)) \<and> \<not> is_container ((B @ ?t # N @ N1) ! nat super1)"
    using run [unfolded item_run_def, rule_format, OF at(2) ends room(1) Cons.prems(4,5), of N B] Cons.prems(8) by blast
  have t: "unclosed ?t" "is_container ?t" "tok_type ?t = bracket_type cl" using Cons.prems(4-6) by (simp_all add: unclosed_def is_container_def)
  have closed: "\<forall>t \<in> set (N @ N1). \<not> unclosed t" using Cons.prems(8) N1(1) by (auto simp: filled_def)
  let ?super = "if its = [] then super1 else int (length B)"
  have "moves js num (?p2, super1, B @ ?t # N @ N1, drop (length T) R) (?p3, ?super, B @ ?t # N @ N1, drop (length T) R)"
  proof (cases "its = []")
    case False
    with at(3) have "js_at js ?p2 '',''" by simp
    from comma_moves [OF this t(1,2) closed, of super1 B num "drop (length T) R"] N1(3) False show ?thesis by auto
  qed simp
  also have "moves js num \<dots> (?p4, ?super, B @ ?t # N @ N1, drop (length T) R)"
    using at(4) by (intro space_moves) auto
  finally have comma: "moves js num (?p2, super1, B @ ?t # N @ N1, drop (length T) R) (?p4, ?super, B @ ?t # N @ N1, drop (length T) R)" .
  have "its \<noteq> [] \<Longrightarrow> ?super = int (length B)" by simp
  from Cons.IH [OF at(5) _ room(2) t Cons.prems(7) closed this Cons.prems(10)] Cons.prems(2) obtain N2 where
    N2: "filled js N2 ?T" "moves js num (?p4, ?super, B @ ?t # N @ N1, drop (length T) R) (?p4 + length ?rest, enclosing B,
      B @ ?t\<lparr>tok_size := tok_size ?t + of_nat (length its), tok_end := of_nat (?p4 + length ?rest)\<rparr> # (N @ N1) @ N2, drop (length ?T) (drop (length T) R))"
    by auto
  have "moves js num (p, super, B @ t # N, R) (?p4 + length ?rest, enclosing B,
      B @ ?t\<lparr>tok_size := tok_size ?t + of_nat (length its), tok_end := of_nat (?p4 + length ?rest)\<rparr> # (N @ N1) @ N2, drop (length ?T) (drop (length T) R))"
    by (rule moves_trans [OF indent moves_trans [OF N1(2) moves_trans [OF comma N2(2)]]])
  then show ?case using filled_append [OF N1(1) N2(1)] unfolding len
    by (intro exI [of _ "N1 @ N2"]) (simp add: it add.commute add.left_commute)
qed

text \<open>A container in its brackets.\<close>

lemma bracketed_run:
  assumes "\<And>x T. (x, T) \<in> set its \<Longrightarrow> item_run js num x T" and "op = CHR ''{'' \<and> cl = CHR ''}'' \<or> op = CHR ''['' \<and> cl = CHR '']''"
    and "length js < 2 ^ 31"
  shows "value_run js num True (bracketed level pr op cl (map fst its))
    ((bracket_type op, bracketed level pr op cl (map fst its), of_nat (length its)) # concat (map snd its))"
  unfolding value_run_def
proof (intro allI impI)
  fix p super and D R :: "iot_json_tok_t list"
  let ?x = "bracketed level pr op cl (map fst its)" and ?T = "concat (map snd its)"
  assume at: "js_at js p ?x" and room: "length ((bracket_type op, ?x, of_nat (length its) :: u32) # ?T) \<le> length R"
    and super: "- 1 \<le> super" "super < int (length D)"
  from room obtain r R' where R: "R = r # R'" "length ?T \<le> length R'" by (cases R) auto
  let ?t = "\<lparr>tok_type = bracket_type op, tok_start = of_nat p, tok_end = - 1, tok_size = 0\<rparr> :: iot_json_tok_t"
  define pr' where "pr' \<longleftrightarrow> pr \<and> its \<noteq> []"
  let ?l = "if pr' then [CHR 0x0A] else []"
  have x: "?x = [op] @ ?l @ between level pr' cl (map fst its)" by (auto simp: bracketed_between pr'_def)
  have parts: "js_at js p [op]" "js_at js (Suc p) ?l" "js_at js (Suc p + length ?l) (between level pr' cl (map fst its))"
    using at unfolding x by (simp_all add: js_at_append js_at_Cons del: between.simps)
  have p: "p + length ?x \<le> length js" using js_at_len [OF at] .
  have start: "(of_nat p :: u32) \<noteq> - 1" using position(2) [of p] p assms(3) by simp
  have type: "bracket_type op = bracket_type cl" "is_container ?t" using assms(2) by (auto simp: bracket_type_def is_container_def)
  have "moves js num (p, super, D, r # R') (Suc p, int (length D), bump super D @ [?t], R')"
    using assms(2) super by (intro open_moves [OF parts(1)]) auto
  also have "moves js num \<dots> (Suc p + length ?l, int (length D), bump super D @ [?t], R')"
    using parts(2) by (intro space_moves) auto
  finally have opened: "moves js num (p, super, D, R) (Suc p + length ?l, int (length D), bump super D @ ?t # [], R')" by (simp only: R(1))
  have run: "\<exists>N'. filled js N' ?T \<and> moves js num (Suc p + length ?l, int (length D), bump super D @ ?t # [], R')
    (Suc p + length ?l + length (between level pr' cl (map fst its)), enclosing (bump super D),
      bump super D @ ?t\<lparr>tok_size := tok_size ?t + of_nat (length its), tok_end := of_nat (Suc p + length ?l + length (between level pr' cl (map fst its)))\<rparr> # [] @ N',
      drop (length ?T) R')"
    using assms type start R(2) by (intro between_run [OF parts(3)]) (auto simp: unclosed_def)
  have stop: "Suc p + length ?l + length (between level pr' cl (map fst its)) = p + length ?x" by (simp add: x)
  from run [unfolded stop] obtain N' where N': "filled js N' ?T" "moves js num (Suc p + length ?l, int (length D), bump super D @ ?t # [], R')
      (p + length ?x, enclosing D, bump super D @ ?t\<lparr>tok_size := of_nat (length its), tok_end := of_nat (p + length ?x)\<rparr> # N', drop (length ?T) R')"
    by auto
  have "filled js [?t\<lparr>tok_size := of_nat (length its), tok_end := of_nat (p + length ?x)\<rparr>] [(bracket_type op, ?x, of_nat (length its))]"
    using filled_part [OF at assms(3)] by simp
  from filled_append [OF this N'(1)] moves_trans [OF opened N'(2)] R(1)
  show "\<exists>N. filled js N ((bracket_type op, ?x, of_nat (length its)) # ?T) \<and> moves js num (p, super, D, R)
      (p + length ?x, if True then enclosing D else super, bump super D @ N, drop (length ((bracket_type op, ?x, of_nat (length its) :: u32) # ?T)) R)"
    by (intro exI [of _ "?t\<lparr>tok_size := of_nat (length its), tok_end := of_nat (p + length ?x)\<rparr> # N'"]) simp
qed

lemma json_write_array:
  "json_write level pr (JArray xs) = bracketed level pr (CHR ''['') (CHR '']'')
     (map fst (map (\<lambda>x. (json_write (level + 1) pr x, tokens_of (level + 1) pr x)) xs))"
  by (simp add: comp_def)

lemma number_plain: "number_char c \<Longrightarrow> plain c \<and> c \<notin> {CHR ''{'', CHR ''['', CHR 0x22}"
  by (auto simp: number_char_def plain_def delimiter_def is_digit_def)

lemma primitive_run:
  assumes "w \<noteq> []" and "\<forall>c \<in> set w. plain c \<and> c \<notin> {CHR ''{'', CHR ''['', CHR 0x22}" and "length js < 2 ^ 31"
  shows "value_run js num False w [(IOT_JSON_PRIMITIVE, w, 0)]"
  unfolding value_run_def
proof (intro allI impI)
  fix p super and D R :: "iot_json_tok_t list"
  assume at: "js_at js p w" "ends_at js (p + length w)" and R: "length [(IOT_JSON_PRIMITIVE, w, 0 :: u32)] \<le> length R"
    and super: "- 1 \<le> super" "super < int (length D)"
  from R obtain r R' where "R = r # R'" by (cases R) auto
  with primitive_moves [OF at(1) assms(1,2) at(2) super] filled_part [OF at(1) assms(3)]
  show "\<exists>N. filled js N [(IOT_JSON_PRIMITIVE, w, 0)] \<and> moves js num (p, super, D, R)
      (p + length w, if False then enclosing D else super, bump super D @ N, drop (length [(IOT_JSON_PRIMITIVE, w, 0 :: u32)]) R)"
    by fastforce
qed

lemma string_run:
  assumes "nul_free s" and "length js < 2 ^ 31"
  shows "value_run js num False (json_serialize_string s) [(IOT_JSON_STRING, concat (map escape_char s), 0)]"
  unfolding value_run_def
proof (intro allI impI)
  let ?w = "json_serialize_string s" and ?x = "concat (map escape_char s)"
  fix p super and D R :: "iot_json_tok_t list"
  assume at: "js_at js p ?w" and R: "length [(IOT_JSON_STRING, ?x, 0 :: u32)] \<le> length R"
    and super: "- 1 \<le> super" "super < int (length D)"
  from R obtain r R' where "R = r # R'" by (cases R) auto
  moreover have "js_at js (Suc p) ?x" using at by (simp add: json_serialize_string_def js_at_Cons js_at_append)
  note filled_part [OF this assms(2), of IOT_JSON_STRING 0]
  ultimately show "\<exists>N. filled js N [(IOT_JSON_STRING, ?x, 0)] \<and> moves js num (p, super, D, R)
      (p + length ?w, if False then enclosing D else super, bump super D @ N, drop (length [(IOT_JSON_STRING, ?x, 0 :: u32)]) R)"
    using string_moves [OF at assms(1) super, of num r R'] by (intro exI conjI) (assumption, simp)
qed

lemma primitives_written:
  assumes "length js < 2 ^ 31"
  shows "value_run js num False (json_write level pr JNull) [(IOT_JSON_PRIMITIVE, json_write level pr JNull, 0)] \<and>
    value_run js num False (json_write level pr (JNumber d)) [(IOT_JSON_PRIMITIVE, json_write level pr (JNumber d), 0)] \<and>
    value_run js num False (json_write level pr (JBoolean b)) [(IOT_JSON_PRIMITIVE, json_write level pr (JBoolean b), 0)]"
proof -
  have "value_run js num False ''null'' [(IOT_JSON_PRIMITIVE, ''null'', 0)]"
    "value_run js num False ''true'' [(IOT_JSON_PRIMITIVE, ''true'', 0)]" "value_run js num False ''false'' [(IOT_JSON_PRIMITIVE, ''false'', 0)]"
    using assms by (intro primitive_run; auto simp: plain_def delimiter_def)+
  moreover have "fmt_g17 d \<noteq> []" by (auto simp: fmt_g17_def with_point_def Let_def split: double.splits prod.splits)
  then have "value_run js num False (fmt_g17 d) [(IOT_JSON_PRIMITIVE, fmt_g17 d, 0)]"
    using assms number_plain fmt_g17_chars by (intro primitive_run) auto
  ultimately show ?thesis by simp
qed

lemma written_run:
  "json_ok v \<Longrightarrow> length js < 2 ^ 31 \<Longrightarrow> \<exists>container. value_run js num container (json_write level pr v) (tokens_of level pr v)"
proof (induction level pr v rule: tokens_of.induct)
  case (1 level pr xs)
  let ?its = "map (\<lambda>x. (json_write (level + 1) pr x, tokens_of (level + 1) pr x)) xs"
  have "item_run js num x T" if "(x, T) \<in> set ?its" for x T
    using that 1 value_item by fastforce
  from bracketed_run [where its = ?its and op = "CHR ''[''" and cl = "CHR '']''" and level = level and pr = pr, OF this] 1(3) show ?case
    unfolding json_write_array tokens_of.simps by (auto simp: bracket_type_def comp_def)
next
  case (2 level pr obj)
  let ?its = "map (\<lambda>(k, v). (member_text pr (json_write (level + 1) pr) (k, v), (IOT_JSON_STRING, concat (map escape_char k), 1) # tokens_of (level + 1) pr v)) obj"
  have "item_run js num x T" if "(x, T) \<in> set ?its" for x T
  proof -
    from that obtain k v where kv: "(k, v) \<in> set obj" "x = member_text pr (json_write (level + 1) pr) (k, v)"
        "T = (IOT_JSON_STRING, concat (map escape_char k), 1) # tokens_of (level + 1) pr v" by auto
    then have "nul_free k" "json_ok v" using 2(2) by auto
    with 2(1) [OF kv(1) refl] 2(3) kv(2,3) member_item show ?thesis by blast
  qed
  from bracketed_run [where its = ?its and op = "CHR ''{''" and cl = "CHR ''}''" and level = level and pr = pr, OF this] 2(3)
  have "value_run js num True (bracketed level pr (CHR ''{'') (CHR ''}'') (map fst ?its))
    ((IOT_JSON_OBJECT, bracketed level pr (CHR ''{'') (CHR ''}'') (map fst ?its), of_nat (length obj)) # concat (map snd ?its))"
    by (auto simp: bracket_type_def)
  moreover have "bracketed level pr (CHR ''{'') (CHR ''}'') (map fst ?its) = json_write level pr (JObject obj)"
    using 2(2) by (simp add: json_write_object comp_def split_def del: json_write.simps)
  moreover have "(IOT_JSON_OBJECT, json_write level pr (JObject obj), of_nat (length obj)) # concat (map snd ?its) = tokens_of level pr (JObject obj)"
    by (simp add: comp_def split_def)
  ultimately show ?case by auto
next
  case (3 level pr s)
  then show ?case using string_run [of s js num] by auto
qed (fastforce dest: primitives_written)+

section \<open>Properties\<close>

text \<open>
  C35: What the serialiser writes the tokeniser splits into the tokens of the value, in the
  compact and in the indented layout: for a well-formed value whose text is shorter than \<open>2^31\<close> bytes and
  an array with room, it returns the number of values and names. The tokens filled are, in the order
  of the text, those of \<open>tokens_of\<close>: each delimits exactly the text of its value, or of its name without the quotes,
  and counts its children; a name has its value as its child. The rest of the array is as it was.
\<close>

theorem written_tokens:
  assumes "json_ok v" and "length (json_write 0 pr v) < 2 ^ 31" and "length ts = unat num_tokens" and "unat num_tokens < 2 ^ 31"
    and "length (tokens_of 0 pr v) \<le> length ts"
  shows "\<exists>parser N. iot_json_parse iot_json_init (json_write 0 pr v) (Some ts) num_tokens =
      Some (int (length (tokens_of 0 pr v)), parser, Some (N @ drop (length (tokens_of 0 pr v)) ts)) \<and>
    map (token_view (json_write 0 pr v)) N = tokens_of 0 pr v"
proof -
  let ?js = "json_write 0 pr v" and ?T = "tokens_of 0 pr v"
  have at: "js_at ?js 0 ?js" "ends_at ?js (0 + length ?js)" by (simp_all add: js_at_def ends_at_def)
  from written_run [OF assms(1,2), of num_tokens 0 pr] obtain container where
    run: "value_run ?js num_tokens container ?js ?T" by blast
  obtain N super where N: "filled ?js N ?T"
    "moves ?js num_tokens (0, - 1, [], ts) (length ?js, super, N, drop (length ?T) ts)"
    using run [unfolded value_run_def, rule_format, OF at assms(5), of "- 1" "[]"] by (auto simp: bump_def)
  have len: "length N = length ?T" using N(1) by (metis filled_def length_map)
  have "last_index unclosed (N @ drop (length ?T) ts) (length N) = Some (- 1)"
    using last_index_none [of N unclosed "[]"] N(1) unfolding last_index_append [OF order_refl] by (simp add: filled_def)
  then have finish: "iot_json_loop ?js num_tokens (int (length N)) (at_point (length ?js, super, N, drop (length ?T) ts)) =
      Some (int (length N), at_point (length ?js, super, N, drop (length ?T) ts))"
    by (subst iot_json_loop.simps) (simp add: iot_json_finish_def)
  have "room num_tokens (0, - 1, [], ts)" using assms(3,4) by (simp add: room_def)
  with N(2) finish have "iot_json_loop ?js num_tokens 0 (at_point (0, - 1, [], ts)) =
      Some (int (length N), at_point (length ?js, super, N, drop (length ?T) ts))" by (simp add: moves_def)
  then have "iot_json_parse iot_json_init ?js (Some ts) num_tokens =
      Some (int (length N), at_point (length ?js, super, N, drop (length ?T) ts))"
    using assms(2) by (simp add: iot_json_parse_def iot_json_init_def at_point_def require_def)
  with N(1) len show ?thesis by (auto simp: at_point_def filled_def)
qed

theorem written_tokens_witness:
  "let v = JObject [(''a'', JArray [JNull, JString ''b''])];
       t = \<lparr>tok_type = IOT_JSON_UNDEFINED, tok_start = 0, tok_end = 0, tok_size = 0\<rparr>; js = json_write 0 False v in
   \<exists>parser N. iot_json_parse iot_json_init js (Some (replicate 6 t)) 6 = Some (5, parser, Some (N @ [t])) \<and>
     map (token_view js) N = [(IOT_JSON_OBJECT, js, 1), (IOT_JSON_STRING, ''a'', 1), (IOT_JSON_ARRAY, json_write 0 False (JArray [JNull, JString ''b'']), 2),
       (IOT_JSON_PRIMITIVE, ''null'', 0), (IOT_JSON_STRING, ''b'', 0)]"
proof -
  let ?v = "JObject [(''a'', JArray [JNull, JString ''b''])]"
  let ?t = "\<lparr>tok_type = IOT_JSON_UNDEFINED, tok_start = 0, tok_end = 0, tok_size = 0\<rparr> :: iot_json_tok_t"
  have ok: "json_ok ?v" by (simp add: nul_free_def)
  have short: "length (json_write 0 False ?v) < 2 ^ 31"
    by (simp add: bracketed_def json_serialize_string_def escape_char_def)
  have T: "tokens_of 0 False ?v = [(IOT_JSON_OBJECT, json_write 0 False ?v, 1), (IOT_JSON_STRING, ''a'', 1),
      (IOT_JSON_ARRAY, json_write 0 False (JArray [JNull, JString ''b'']), 2), (IOT_JSON_PRIMITIVE, ''null'', 0), (IOT_JSON_STRING, ''b'', 0)]"
    by (simp add: escape_char_def bracketed_def)
  have len: "length (tokens_of 0 False ?v) = 5" unfolding T by simp
  have rest: "drop 5 (replicate 6 ?t) = [?t]" "int 5 = 5" by simp_all
  have room: "length (replicate 6 ?t) = unat (6 :: u32)" "unat (6 :: u32) < 2 ^ 31" "length (tokens_of 0 False ?v) \<le> length (replicate 6 ?t)"
    unfolding len by simp_all
  from written_tokens [OF ok short room] show ?thesis unfolding Let_def len rest unfolding T .
qed

end
