(* ===== verification/JsonDot.thy ===== *)
theory JsonDot
  imports JsonAccess "HOL-Library.Sublist" "HOL-Library.Multiset"
begin

text \<open>
  The dotted names of \<^verbatim>\<open>common/parson.c\<close>: \<open>"a.b.c"\<close> names the member \<open>c\<close> of the object \<open>b\<close> in
  the object \<open>a\<close>. The functions of the code look for the next dot and call themselves on the
  rest of the name. The lemmas relate them to paths, the lists of the names between the dots:
  \<open>json_object_dotget_value\<close> follows a path, and \<open>json_object_dotset_value\<close> is an update of the
  function from paths to values.
\<close>

section \<open>The operations\<close>

definition dot :: char where "dot = CHR ''.''"

text \<open>\<open>strchr (name, '.')\<close> as an offset.\<close>

definition dot_position :: "cstring \<Rightarrow> nat option" where
  "dot_position name = (if dot \<in> set name then Some (length (takeWhile (\<lambda>c. c \<noteq> dot) name)) else None)"

lemma dot_position_less: "dot_position name = Some d \<Longrightarrow> d < length name"
proof -
  have "dot \<in> set name \<Longrightarrow> length (takeWhile (\<lambda>c. c \<noteq> dot) name) < length name" by (induction name) auto
  then show "dot_position name = Some d \<Longrightarrow> d < length name" by (auto simp: dot_position_def split: if_splits)
qed

function json_object_dotget_value :: "json_object option \<Rightarrow> cstring \<Rightarrow> json option" where
  "json_object_dotget_value object name =
     (case dot_position name of
        None \<Rightarrow> json_object_get_value object name
      | Some d \<Rightarrow> json_object_dotget_value
          (json_value_get_object (case object of None \<Rightarrow> None | Some obj \<Rightarrow> json_object_getn_value obj name d))
          (drop (d + 1) name))"
  by pat_completeness auto
termination by (relation "measure (\<lambda>(object, name). length name)") (auto dest: dot_position_less)

declare json_object_dotget_value.simps [simp del]

definition json_object_dotget_string :: "json_object option \<Rightarrow> cstring \<Rightarrow> cstring option" where
  "json_object_dotget_string object name = json_value_get_string (json_object_dotget_value object name)"

definition json_object_dotget_number :: "json_object option \<Rightarrow> cstring \<Rightarrow> double" where
  "json_object_dotget_number object name = json_value_get_number (json_object_dotget_value object name)"

definition json_object_dotget_object :: "json_object option \<Rightarrow> cstring \<Rightarrow> json_object option" where
  "json_object_dotget_object object name = json_value_get_object (json_object_dotget_value object name)"

definition json_object_dotget_array :: "json_object option \<Rightarrow> cstring \<Rightarrow> json list option" where
  "json_object_dotget_array object name = json_value_get_array (json_object_dotget_value object name)"

definition json_object_dotget_boolean :: "json_object option \<Rightarrow> cstring \<Rightarrow> int" where
  "json_object_dotget_boolean object name = json_value_get_boolean (json_object_dotget_value object name)"

definition json_object_dothas_value :: "json_object option \<Rightarrow> cstring \<Rightarrow> bool" where
  "json_object_dothas_value object name \<longleftrightarrow> json_object_dotget_value object name \<noteq> None"

definition json_object_dothas_value_of_type :: "json_object option \<Rightarrow> cstring \<Rightarrow> json_value_type \<Rightarrow> bool" where
  "json_object_dothas_value_of_type object name ty \<longleftrightarrow>
     (let val = json_object_dotget_value object name in val \<noteq> None \<and> json_value_get_type val = ty)"

text \<open>
  The object that is reached on the way is changed in place: it takes the place of the old one
  under its name. A new object is added only after the value has been set in it.
\<close>

function json_object_dotset_value :: "json_object \<Rightarrow> cstring \<Rightarrow> json option \<Rightarrow> json_status \<times> json_object" where
  "json_object_dotset_value object name v =
     (if v = None then (JSONFailure, object)
      else
        (case dot_position name of
           None \<Rightarrow> json_object_set_value object name v
         | Some d \<Rightarrow>
             (case json_object_getn_value object name d of
                Some temp_value \<Rightarrow>
                  (case json_value_get_object (Some temp_value) of
                     None \<Rightarrow> (JSONFailure, object)
                   | Some temp_object \<Rightarrow>
                       (case json_object_dotset_value temp_object (drop (d + 1) name) v of
                          (status, new_object) \<Rightarrow> (status, pair_assign (take d name) (JObject new_object) object)))
              | None \<Rightarrow>
                  (case json_object_dotset_value [] (drop (d + 1) name) v of
                     (JSONSuccess, new_object) \<Rightarrow> json_object_add object (take d name) (JObject new_object)
                   | (JSONFailure, new_object) \<Rightarrow> (JSONFailure, object)))))"
  by pat_completeness auto
termination by (relation "measure (\<lambda>(object, name, v). length name)") (auto dest: dot_position_less)

declare json_object_dotset_value.simps [simp del]

definition json_object_dotset_string :: "json_object \<Rightarrow> cstring \<Rightarrow> cstring option \<Rightarrow> json_status \<times> json_object" where
  "json_object_dotset_string object name str =
     (case json_value_init_string str of
        None \<Rightarrow> (JSONFailure, object)
      | Some v \<Rightarrow> json_object_dotset_value object name (Some v))"

definition json_object_dotset_number :: "json_object \<Rightarrow> cstring \<Rightarrow> double \<Rightarrow> json_status \<times> json_object" where
  "json_object_dotset_number object name number =
     (case json_value_init_number number of
        None \<Rightarrow> (JSONFailure, object)
      | Some v \<Rightarrow> json_object_dotset_value object name (Some v))"

definition json_object_dotset_boolean :: "json_object \<Rightarrow> cstring \<Rightarrow> int \<Rightarrow> json_status \<times> json_object" where
  "json_object_dotset_boolean object name boolean =
     (case json_value_init_boolean boolean of
        None \<Rightarrow> (JSONFailure, object)
      | Some v \<Rightarrow> json_object_dotset_value object name (Some v))"

definition json_object_dotset_null :: "json_object \<Rightarrow> cstring \<Rightarrow> json_status \<times> json_object" where
  "json_object_dotset_null object name =
     (case json_value_init_null of
        None \<Rightarrow> (JSONFailure, object)
      | Some v \<Rightarrow> json_object_dotset_value object name (Some v))"

function json_object_dotremove :: "json_object option \<Rightarrow> cstring \<Rightarrow> json_status \<times> json_object option" where
  "json_object_dotremove object name =
     (case dot_position name of
        None \<Rightarrow> json_object_remove object name
      | Some d \<Rightarrow>
          (case json_value_get_object (case object of None \<Rightarrow> None | Some obj \<Rightarrow> json_object_getn_value obj name d) of
             None \<Rightarrow> (JSONFailure, object)
           | Some temp_object \<Rightarrow>
               (case json_object_dotremove (Some temp_object) (drop (d + 1) name) of
                  (status, new_object) \<Rightarrow>
                    (status, map_option (pair_assign (take d name) (JObject (the new_object))) object))))"
  by pat_completeness auto
termination by (relation "measure (\<lambda>(object, name). length name)") (auto dest: dot_position_less)

declare json_object_dotremove.simps [simp del]

section \<open>Paths\<close>

text \<open>The names between the dots.\<close>

function components :: "cstring \<Rightarrow> cstring list" where
  "components name = (case dot_position name of None \<Rightarrow> [name] | Some d \<Rightarrow> take d name # components (drop (d + 1) name))"
  by pat_completeness auto
termination by (relation "measure length") (auto dest: dot_position_less)

declare components.simps [simp del]

text \<open>The value at the end of a path; the empty path leads nowhere.\<close>

fun follow :: "json_object option \<Rightarrow> cstring list \<Rightarrow> json option" where
  "follow object [] = None"
| "follow object [n] = json_object_get_value object n"
| "follow object (n # path) = follow (json_value_get_object (json_object_get_value object n)) path"

text \<open>Setting a value along a path of names.\<close>

fun put_at :: "json_object \<Rightarrow> cstring list \<Rightarrow> json \<Rightarrow> json_status \<times> json_object" where
  "put_at object [] v = (JSONFailure, object)"
| "put_at object [n] v = json_object_set_value object n (Some v)"
| "put_at object (n # path) v =
     (case map_of object n of
        Some (JObject o') \<Rightarrow> (case put_at o' path v of (status, o'') \<Rightarrow> (status, pair_assign n (JObject o'') object))
      | Some _ \<Rightarrow> (JSONFailure, object)
      | None \<Rightarrow>
          (case put_at [] path v of
             (JSONSuccess, o'') \<Rightarrow> (JSONSuccess, object @ [(n, JObject o'')])
           | (JSONFailure, _) \<Rightarrow> (JSONFailure, object)))"

lemma getn_take: "d \<le> length name \<Longrightarrow> json_object_getn_value obj name d = map_of obj (take d name)"
  by (induction obj name d rule: json_object_getn_value.induct) auto

lemma components_ne: "components name \<noteq> []"
  by (subst components.simps) (simp split: option.split)

lemma components_parts: "n \<in> set (components name) \<Longrightarrow> set n \<subseteq> set name \<and> dot \<notin> set n"
proof (induction name rule: components.induct)
  case (1 name)
  show ?case
  proof (cases "dot_position name")
    case None
    with 1(2) show ?thesis by (subst (asm) components.simps) (auto simp: dot_position_def split: if_splits)
  next
    case (Some d)
    then have "take d name = takeWhile (\<lambda>c. c \<noteq> dot) name"
      by (auto simp: dot_position_def simp flip: takeWhile_eq_take split: if_splits)
    then have d: "dot \<notin> set (take d name)" by (auto dest: set_takeWhileD)
    from 1(2) Some consider "n = take d name" | "n \<in> set (components (drop (d + 1) name))"
      by (subst (asm) components.simps) auto
    then show ?thesis
    proof cases
      case 2
      from 1(1) [OF Some this] show ?thesis using set_drop_subset [of "d + 1" name] by auto
    qed (use d set_take_subset [of d name] in auto)
  qed
qed

lemma dotget_follow: "json_object_dotget_value object name = follow object (components name)"
proof (induction object name rule: json_object_dotget_value.induct)
  case (1 object name)
  show ?case
  proof (cases "dot_position name")
    case None
    then show ?thesis by (subst json_object_dotget_value.simps, subst components.simps) simp
  next
    case (Some d)
    with dot_position_less [OF Some]
    have "(case object of None \<Rightarrow> None | Some obj \<Rightarrow> json_object_getn_value obj name d) = json_object_get_value object (take d name)"
      by (cases object) (simp_all add: getn_take)
    with 1 [OF Some] Some components_ne [of "drop (d + 1) name"] show ?thesis
      by (subst json_object_dotget_value.simps, subst components.simps)
        (cases "components (drop (d + 1) name)", simp_all)
  qed
qed

lemma pair_assign_same: "map_of obj n = Some v \<Longrightarrow> pair_assign n v obj = obj"
  by (induction n v obj rule: pair_assign.induct) auto

lemma set_value_success: "json_object_set_value obj n (Some v) = (status, obj') \<Longrightarrow> status = JSONSuccess"
  by (auto simp: json_object_set_value_def json_object_add_def json_object_getn_value_map_of split: if_splits)

text \<open>A call that fails has changed nothing.\<close>

lemma put_at_failure: "put_at obj path v = (JSONFailure, obj') \<Longrightarrow> obj' = obj"
proof (induction obj path v arbitrary: obj' rule: put_at.induct)
  case (3 object n m path v)
  show ?case
  proof (cases "map_of object n")
    case None
    with 3(3) show ?thesis by (auto split: prod.splits json_status.splits)
  next
    case (Some w)
    show ?thesis
    proof (cases "json_value_get_object (Some w)")
      case None
      with 3(3) Some show ?thesis by (cases w) auto
    next
      case (Some o')
      then have w: "w = JObject o'" by (cases w) auto
      obtain status o'' where r: "put_at o' (m # path) v = (status, o'')" by fastforce
      with 3(3) \<open>map_of object n = Some w\<close> have st: "status = JSONFailure" "obj' = pair_assign n (JObject o'') object"
        by (simp_all add: w)
      from 3(2) [OF \<open>map_of object n = Some w\<close> w r [unfolded st(1)]] show ?thesis
        using \<open>map_of object n = Some w\<close> by (simp add: st(2) w pair_assign_same)
    qed
  qed
qed (auto dest: set_value_success)

lemma dotset_put: "json_object_dotset_value object name (Some v) = put_at object (components name) v"
proof (induction "length name" arbitrary: object name rule: less_induct)
  case less
  show ?case
  proof (cases "dot_position name")
    case None
    then show ?thesis by (subst json_object_dotset_value.simps, subst components.simps) simp
  next
    case (Some d)
    note d = dot_position_less [OF Some]
    obtain m path where c: "components (drop (d + 1) name) = m # path" using components_ne by (meson neq_Nil_conv)
    have IH: "json_object_dotset_value obj (drop (d + 1) name) (Some v) = put_at obj (m # path) v" for obj
      using less [of "drop (d + 1) name" obj] d c by simp
    have comps: "components name = take d name # m # path" by (subst components.simps) (simp add: Some c [simplified])
    show ?thesis
    proof (cases "map_of object (take d name)")
      case None
      then show ?thesis unfolding comps
        by (subst json_object_dotset_value.simps)
          (auto simp: Some getn_take d less_imp_le IH [simplified] json_object_add_def json_object_getn_value_map_of
            split: prod.splits json_status.splits)
    next
      case val: (Some w)
      then show ?thesis unfolding comps
        by (subst json_object_dotset_value.simps)
          (cases w; auto simp: Some getn_take d less_imp_le IH [simplified] split: prod.splits)
    qed
  qed
qed

section \<open>Reading back\<close>

lemma follow_Cons: "q \<noteq> [] \<Longrightarrow> follow obj (n # q) = follow (json_value_get_object (json_object_get_value obj n)) q"
  by (cases q) auto

lemma follow_None [simp]: "follow None q = None"
  by (induction "None :: json_object option" q rule: follow.induct) simp_all

lemma follow_empty [simp]: "follow (Some []) q = None"
  by (cases q) (simp, metis follow.simps(2,3) follow_None json_object_get_value_Some json_value_get_object.simps(7)
      list.exhaust map_of.simps(1))

text \<open>What a name leads to after a value has been set under another.\<close>

definition path_after :: "json_object \<Rightarrow> cstring list \<Rightarrow> json \<Rightarrow> cstring list \<Rightarrow> json option \<Rightarrow> bool" where
  "path_after obj p v q r \<longleftrightarrow>
     (if prefix p q then r = (if q = p then Some v else follow (json_value_get_object (Some v)) (drop (length p) q))
      else if prefix q p then q \<noteq> [] \<longrightarrow> (\<exists>o'. r = Some (JObject o'))
      else r = follow (Some obj) q)"

lemma put_at_follow: "put_at obj p v = (JSONSuccess, obj') \<Longrightarrow> path_after obj p v q (follow (Some obj') q)"
proof (induction obj p v arbitrary: obj' q rule: put_at.induct)
  case (2 object n v)
  then have l: "map_of obj' = (map_of object)(n \<mapsto> v)" using json_object_set_value_lookup [of "Some v" v object n] by simp
  show ?case
  proof (cases q)
    case (Cons m q')
    then show ?thesis by (cases "q' = []") (auto simp: path_after_def l follow_Cons)
  qed (simp add: path_after_def)
next
  case (3 object n m path v)
  have step: "path_after object (n # m # path) v q (follow (Some obj') q)"
    if o: "map_of obj' = (map_of object)(n \<mapsto> JObject o'')" and o'': "\<And>q. path_after ob (m # path) v q (follow (Some o'') q)"
      and ob: "\<And>q. q \<noteq> [] \<Longrightarrow> follow (json_value_get_object (map_of object n)) q = follow (Some ob) q"
    for o'' ob
  proof (cases q)
    case (Cons k q')
    show ?thesis
    proof (cases "k = n \<and> q' \<noteq> []")
      case True
      with o'' [of q'] ob [of q'] show ?thesis by (auto simp: path_after_def Cons o follow_Cons split: if_splits)
    next
      case False
      then show ?thesis by (cases "q' = []") (auto simp: path_after_def Cons o follow_Cons)
    qed
  qed (simp add: path_after_def)
  show ?case
  proof (cases "map_of object n")
    case None
    with 3(3) obtain o'' where o'': "put_at [] (m # path) v = (JSONSuccess, o'')" "obj' = object @ [(n, JObject o'')]"
      by (auto split: prod.splits json_status.splits)
    show ?thesis
      using None by (intro step [of o'' "[]"] 3(1) [OF None o''(1)]) (auto simp: o'' map_add_def fun_eq_iff split: option.splits)
  next
    case (Some w)
    with 3(3) obtain o' o'' where w: "w = JObject o'" and o'': "put_at o' (m # path) v = (JSONSuccess, o'')"
      "obj' = pair_assign n (JObject o'') object"
      by (auto split: json.splits prod.splits)
    show ?thesis
      using Some w by (intro step [of o'' o'] 3(2) [OF Some w o''(1)]) (auto simp: o'' map_of_pair_assign)
  qed
qed simp

text \<open>A value that is not an object on the way stops the call.\<close>

definition blocked :: "json_object \<Rightarrow> cstring list \<Rightarrow> bool" where
  "blocked obj p \<longleftrightarrow> (\<exists>q v. strict_prefix q p \<and> follow (Some obj) q = Some v \<and> json_value_get_object (Some v) = None)"

lemma blocked_Cons:
  assumes "p \<noteq> []"
  shows "blocked object (n # p) \<longleftrightarrow>
    (\<exists>w. map_of object n = Some w \<and> (case w of JObject o' \<Rightarrow> blocked o' p | _ \<Rightarrow> True))"
proof
  assume "blocked object (n # p)"
  then obtain q v where q: "strict_prefix q (n # p)" "follow (Some object) q = Some v" "json_value_get_object (Some v) = None"
    by (auto simp: blocked_def)
  then obtain q' where q': "q = n # q'" "strict_prefix q' p" by (cases q) auto
  show "\<exists>w. map_of object n = Some w \<and> (case w of JObject o' \<Rightarrow> blocked o' p | _ \<Rightarrow> True)"
  proof (cases "q' = []")
    case True
    with q q' show ?thesis by (auto split: json.split)
  next
    case False
    with q(2) q'(1) obtain w where w: "map_of object n = Some w" "follow (json_value_get_object (Some w)) q' = Some v"
      by (cases "map_of object n") (auto simp: follow_Cons)
    then show ?thesis using q'(2) q(3) by (cases w) (auto simp: blocked_def)
  qed
next
  assume "\<exists>w. map_of object n = Some w \<and> (case w of JObject o' \<Rightarrow> blocked o' p | _ \<Rightarrow> True)"
  then obtain w where w: "map_of object n = Some w" "case w of JObject o' \<Rightarrow> blocked o' p | _ \<Rightarrow> True" by blast
  show "blocked object (n # p)"
  proof (cases "json_value_get_object (Some w)")
    case None
    with w(1) assms show ?thesis unfolding blocked_def by (intro exI [of _ "[n]"] exI [of _ w]) (auto simp: strict_prefix_def)
  next
    case (Some o')
    with w(2) have "blocked o' p" by (cases w) auto
    then obtain q v where q: "strict_prefix q p" "follow (Some o') q = Some v" "json_value_get_object (Some v) = None"
      by (auto simp: blocked_def)
    then have "q \<noteq> []" by auto
    with q w(1) Some show ?thesis
      unfolding blocked_def by (intro exI [of _ "n # q"] exI [of _ v]) (auto simp: follow_Cons)
  qed
qed

lemma put_at_status: "p \<noteq> [] \<Longrightarrow> fst (put_at obj p v) = JSONFailure \<longleftrightarrow> blocked obj p"
proof (induction obj p v rule: put_at.induct)
  case (2 object n v)
  have "fst (json_object_set_value object n (Some v)) = JSONSuccess" by (metis prod.collapse set_value_success)
  then show ?case by (auto simp: blocked_def strict_prefix_def prefix_Cons)
next
  case (3 object n m path v)
  note rec = blocked_Cons [OF list.distinct(2) [of m path], of object n]
  show ?case
  proof (cases "map_of object n")
    case None
    have "\<not> blocked [] (m # path)" by (simp add: blocked_def)
    with 3(1) [OF None] None show ?thesis by (auto simp: rec split: prod.splits json_status.splits)
  next
    case (Some w)
    with 3(2) [OF Some] show ?thesis by (cases w) (auto simp: rec split: prod.splits)
  qed
qed simp

lemma json_ok_member: "(n, w) \<in> set obj \<Longrightarrow> json_ok (JObject obj) \<Longrightarrow> json_ok w \<and> nul_free n"
  by auto

lemma put_at_ok: "json_ok (JObject obj) \<Longrightarrow> json_ok v \<Longrightarrow> (\<And>n. n \<in> set p \<Longrightarrow> nul_free n) \<Longrightarrow>
  json_ok (JObject (snd (put_at obj p v)))"
proof (induction obj p v rule: put_at.induct)
  case (2 object n v)
  then show ?case using json_ok_set_value [of object n "Some v"] by simp
next
  case (3 object n m path v)
  note free = 3(5)
  show ?case
  proof (cases "map_of object n")
    case None
    have "json_ok (JObject (snd (put_at [] (m # path) v)))"
      using 3(4) free by (intro 3(1) [OF None]) auto
    moreover have "n \<notin> fst ` set object" using None by (simp add: map_of_eq_None_iff)
    moreover obtain st o'' where "put_at [] (m # path) v = (st, o'')" by fastforce
    ultimately show ?thesis using 3(3) free None by (cases st) auto
  next
    case (Some w)
    show ?thesis
    proof (cases "json_value_get_object (Some w)")
      case None
      with 3(3) Some show ?thesis by (cases w) auto
    next
      case (Some o')
      then have w: "w = JObject o'" by (cases w) auto
      note val = \<open>map_of object n = Some w\<close>
      have "json_ok w" using 3(3) map_of_SomeD [OF val] by auto
      then have "json_ok (JObject (snd (put_at o' (m # path) v)))"
        using 3(4) free w by (intro 3(2) [OF val w]) auto
      then show ?thesis
        using 3(3) free set_pair_assign [of n "JObject (snd (put_at o' (m # path) v))" object]
        by (auto simp: val w split: prod.split)
    qed
  qed
qed simp

text \<open>
  C34: Setting a value under a dotted name. The call fails exactly when, on the way, a name that is
  followed by a dot leads to a value that is not an object; then nothing has been changed.
  Otherwise the value is read back under the name, every name whose path leaves that way
  (neither is a prefix of the other) leads where it led before, and the object is still
  well formed.
\<close>

theorem dotset_dotget:
  assumes "json_object_dotset_value obj name (Some v) = (status, obj')"
  shows "(status = JSONFailure \<longleftrightarrow> blocked obj (components name)) \<and>
    (status = JSONFailure \<longrightarrow> obj' = obj) \<and>
    (status = JSONSuccess \<longrightarrow> json_object_dotget_value (Some obj') name = Some v \<and>
       (\<forall>other. components name \<parallel> components other \<longrightarrow>
          json_object_dotget_value (Some obj') other = json_object_dotget_value (Some obj) other) \<and>
       (json_ok (JObject obj) \<and> json_ok v \<and> nul_free name \<longrightarrow> json_ok (JObject obj')))"
proof -
  let ?p = "components name"
  from assms have p: "put_at obj ?p v = (status, obj')" by (simp add: dotset_put)
  have "nul_free n" if "n \<in> set ?p" "nul_free name" for n
    using components_parts [OF that(1)] that(2) by (auto simp: nul_free_def)
  then have ok: "json_ok (JObject obj) \<and> json_ok v \<and> nul_free name \<longrightarrow> json_ok (JObject obj')"
    using put_at_ok [of obj v ?p] by (simp add: p)
  have "status = JSONFailure \<longleftrightarrow> blocked obj ?p" using put_at_status [OF components_ne, of obj name v] by (simp add: p)
  moreover have "status = JSONFailure \<longrightarrow> obj' = obj" using put_at_failure [of obj ?p v] by (auto simp: p)
  moreover have "json_object_dotget_value (Some obj') name = Some v \<and> (\<forall>other. ?p \<parallel> components other \<longrightarrow>
      json_object_dotget_value (Some obj') other = json_object_dotget_value (Some obj) other)" if "status = JSONSuccess"
  proof -
    from put_at_follow [OF p [unfolded that]] have a: "path_after obj ?p v q (follow (Some obj') q)" for q .
    have "follow (Some obj') ?p = Some v" using a [of ?p] by (simp add: path_after_def)
    moreover have "follow (Some obj') q = follow (Some obj) q" if "?p \<parallel> q" for q
      using a [of q] that by (auto simp: path_after_def parallel_def)
    ultimately show ?thesis by (simp add: dotget_follow)
  qed
  ultimately show ?thesis using ok by blast
qed

theorem dotset_dotget_witness:
  "\<exists>obj'. json_object_dotset_value [(''a'', JObject [])] ''a.b.c'' (Some JNull) = (JSONSuccess, obj') \<and>
    json_object_dotget_value (Some obj') ''a.b.c'' = Some JNull"
proof -
  have "fst (json_object_dotset_value [(''a'', JObject [])] ''a.b.c'' (Some JNull)) = JSONSuccess" by code_simp
  then obtain obj' where d: "json_object_dotset_value [(''a'', JObject [])] ''a.b.c'' (Some JNull) = (JSONSuccess, obj')"
    by (metis prod.collapse)
  from dotset_dotget [OF d] show ?thesis using d by blast
qed

section \<open>Removing\<close>

lemma index_of_name_Some: "map_of obj n = Some v \<Longrightarrow> \<exists>ys zs. obj = ys @ (n, v) # zs \<and> index_of_name n obj = Some (length ys)"
proof (induction obj)
  case (Cons m obj)
  obtain k w where m: "m = (k, w)" by fastforce
  show ?case
  proof (cases "k = n")
    case False
    with Cons m obtain ys zs where "obj = ys @ (n, v) # zs" "index_of_name n obj = Some (length ys)" by auto
    with False show ?thesis by (intro exI [of _ "m # ys"] exI [of _ zs]) (simp add: m)
  qed (use Cons m in \<open>auto intro: exI [of _ "[]"]\<close>)
qed simp

lemma remove_found:
  assumes "distinct (map fst obj)" and "map_of obj n = Some v"
  shows "\<exists>obj'. json_object_remove (Some obj) n = (JSONSuccess, Some obj') \<and>
    map_of obj' = (map_of obj)(n := None) \<and> set obj' \<subseteq> set obj \<and> distinct (map fst obj')"
proof -
  from index_of_name_Some [OF assms(2)] obtain ys zs where
    obj: "obj = ys @ (n, v) # zs" and i: "index_of_name n obj = Some (length ys)" by blast
  have "\<exists>us. json_object_remove (Some obj) n = (JSONSuccess, Some us) \<and> mset us = mset (ys @ zs)"
  proof (cases zs rule: rev_cases)
    case Nil
    with assms(2) i show ?thesis by (simp add: json_object_remove_def Let_def obj)
  next
    case (snoc zs' z)
    then have "butlast (obj[length ys := obj ! (length obj - 1)]) = ys @ z # zs'"
      by (simp add: obj nth_append butlast_append)
    with snoc assms(2) i show ?thesis by (simp add: json_object_remove_def Let_def obj)
  qed
  then obtain us where us: "json_object_remove (Some obj) n = (JSONSuccess, Some us)" "mset us = mset (ys @ zs)" by blast
  then have s: "set us = set (ys @ zs)" "mset (map fst us) = mset (map fst (ys @ zs))"
    by (metis set_mset_mset) (simp add: us(2))
  have d: "distinct (map fst (ys @ zs))" using assms(1) by (auto simp: obj)
  with s(2) have du: "distinct (map fst us)" using mset_eq_imp_distinct_iff by blast
  then have "map_of us = map_of (ys @ zs)" using s(1) d by (simp only: map_of_inject_set)
  also have "\<dots> = (map_of obj)(n := None)"
  proof -
    have "map_of ys n = None" "map_of zs n = None" using assms(1) by (auto simp: obj map_of_eq_None_iff)
    then show ?thesis by (auto simp: obj map_add_def fun_eq_iff split: option.split)
  qed
  finally show ?thesis using us s(1) du by (auto simp: obj)
qed

lemma remove_missing: "map_of obj n = None \<Longrightarrow> json_object_remove (Some obj) n = (JSONFailure, Some obj)"
  by (simp add: json_object_remove_def)

lemma dotremove_spec:
  "json_ok (JObject obj) \<Longrightarrow> \<exists>status obj'. json_object_dotremove (Some obj) name = (status, Some obj') \<and>
    (status = JSONSuccess \<longleftrightarrow> json_object_dotget_value (Some obj) name \<noteq> None) \<and>
    (status = JSONSuccess \<longrightarrow> json_object_dotget_value (Some obj') name = None) \<and>
    (status = JSONFailure \<longrightarrow> obj' = obj) \<and> json_ok (JObject obj')"
proof (induction "length name" arbitrary: obj name rule: less_induct)
  case less
  show ?case
  proof (cases "dot_position name")
    case None
    note simps = json_object_dotremove.simps [of _ name] json_object_dotget_value.simps [of _ name] None
    show ?thesis
    proof (cases "map_of obj name")
      case (Some v)
      from remove_found [OF _ Some] less.prems obtain obj' where
        "json_object_remove (Some obj) name = (JSONSuccess, Some obj')" "map_of obj' = (map_of obj)(name := None)"
        "set obj' \<subseteq> set obj" "distinct (map fst obj')" by auto
      with Some less.prems show ?thesis by (auto simp: simps)
    qed (use less.prems in \<open>simp add: simps remove_missing\<close>)
  next
    case (Some d)
    note d = dot_position_less [OF Some]
    let ?n = "take d name" and ?rest = "drop (d + 1) name"
    note simps = json_object_dotremove.simps [of _ name] json_object_dotget_value.simps [of _ name]
    have get: "json_object_getn_value ob name d = map_of ob ?n" for ob using d by (simp add: getn_take)
    show ?thesis
    proof (cases "json_value_get_object (map_of obj ?n)")
      case None
      have "json_object_dotget_value None ?rest = None" by (simp only: dotget_follow follow_None)
      with None less.prems Some show ?thesis by (simp add: simps get)
    next
      case (Some o')
      then have v: "map_of obj ?n = Some (JObject o')" by (elim json_value_get_object.elims) auto
      from json_ok_member [OF map_of_SomeD [OF v] less.prems] have o': "json_ok (JObject o')" by simp
      have lt: "length ?rest < length name" using d by simp
      from less.hyps [OF lt o'] obtain status o'' where
        r: "json_object_dotremove (Some o') ?rest = (status, Some o'')"
        "status = JSONSuccess \<longleftrightarrow> json_object_dotget_value (Some o') ?rest \<noteq> None"
        "status = JSONSuccess \<longrightarrow> json_object_dotget_value (Some o'') ?rest = None"
        "status = JSONFailure \<longrightarrow> o'' = o'" "json_ok (JObject o'')" by blast
      let ?obj' = "pair_assign ?n (JObject o'') obj"
      have "json_object_dotremove (Some obj) name = (status, Some ?obj')"
        using \<open>dot_position name = Some d\<close> v r(1) by (simp add: simps get)
      moreover have "json_object_dotget_value (Some obj) name = json_object_dotget_value (Some o') ?rest"
        "json_object_dotget_value (Some ?obj') name = json_object_dotget_value (Some o'') ?rest"
        using \<open>dot_position name = Some d\<close> v by (simp_all add: simps get map_of_pair_assign)
      moreover have "status = JSONFailure \<longrightarrow> ?obj' = obj" using r(4) v by (simp add: pair_assign_same)
      moreover have "nul_free ?n" using less.prems map_of_SomeD [OF v] by auto
      then have "json_ok (JObject ?obj')"
        using less.prems r(5) set_pair_assign [of ?n "JObject o''" obj] by auto
      ultimately show ?thesis using r(2,3) by auto
    qed
  qed
qed

text \<open>
  Removing a dotted name succeeds exactly when the name leads to a value. Afterwards it leads
  nowhere, and the object is still well formed; a call that fails changes nothing.
\<close>

theorem dotremove_dotget:
  assumes "json_ok (JObject obj)"
  shows "\<exists>status obj'. json_object_dotremove (Some obj) name = (status, Some obj') \<and>
    (status = JSONSuccess \<longleftrightarrow> json_object_dothas_value (Some obj) name) \<and>
    (status = JSONSuccess \<longrightarrow> \<not> json_object_dothas_value (Some obj') name) \<and>
    (status = JSONFailure \<longrightarrow> obj' = obj) \<and> json_ok (JObject obj')"
  using dotremove_spec [OF assms, of name] by (simp add: json_object_dothas_value_def)

theorem dotremove_dotget_witness:
  "\<exists>obj'. json_object_dotremove (Some [(''a'', JObject [(''b'', JNull)])]) ''a.b'' = (JSONSuccess, Some obj') \<and>
    \<not> json_object_dothas_value (Some obj') ''a.b''"
proof -
  have ok: "json_ok (JObject [(''a'', JObject [(''b'', JNull)])])" by code_simp
  have "json_object_dothas_value (Some [(''a'', JObject [(''b'', JNull)])]) ''a.b''" by code_simp
  with dotremove_dotget [OF ok, of "''a.b''"] show ?thesis by blast
qed

end
