(* ===== verification/JsonCompare.thy ===== *)
theory JsonCompare
  imports JsonAccess DoubleArith "HOL-Library.Multiset"
begin

text \<open>
  Copying, comparing and validating the values of \<^verbatim>\<open>common/parson.c\<close>. As in the serialiser, the
  members of an object are visited by name: the value under a name is the first one with it.
\<close>

section \<open>Deep copies\<close>

text \<open>The loops over the copies of the items, and of the members, of a value.\<close>

fun copy_items :: "json option list \<Rightarrow> json list \<Rightarrow> json option" where
  "copy_items [] acc = Some (JArray acc)"
| "copy_items (None # copies) acc = None"
| "copy_items (Some v # copies) acc = copy_items copies (acc @ [v])"

fun copy_members :: "(cstring \<times> json option) list \<Rightarrow> cstring list \<Rightarrow> json_object \<Rightarrow> json option" where
  "copy_members copies [] acc = Some (JObject acc)"
| "copy_members copies (key # keys) acc =
     (case Option.bind (map_of copies key) (\<lambda>v. v) of
        None \<Rightarrow> None
      | Some v \<Rightarrow>
          (case json_object_add acc key v of
             (JSONFailure, _) \<Rightarrow> None
           | (JSONSuccess, acc') \<Rightarrow> copy_members copies keys acc'))"

fun deep_copy :: "json \<Rightarrow> json option" where
  "deep_copy (JArray xs) = copy_items (map deep_copy xs) []"
| "deep_copy (JObject obj) = copy_members (map (\<lambda>(n, v). (n, deep_copy v)) obj) (map fst obj) []"
| "deep_copy (JBoolean b) = json_value_init_boolean (json_value_get_boolean (Some (JBoolean b)))"
| "deep_copy (JNumber d) = json_value_init_number d"
| "deep_copy (JString s) = Some (JString (c_str s))"
| "deep_copy JNull = json_value_init_null"

definition json_value_deep_copy :: "json option \<Rightarrow> json option" where
  "json_value_deep_copy v = (case v of None \<Rightarrow> None | Some w \<Rightarrow> deep_copy w)"

section \<open>Comparison\<close>

definition EPSILON :: double where "EPSILON = round_frac False 1 1000000"

definition numbers_equal :: "double \<Rightarrow> double \<Rightarrow> bool" where
  "numbers_equal x y = double_less (double_abs (double_add x (double_neg y))) EPSILON"

fun json_equals :: "json \<Rightarrow> json \<Rightarrow> bool" where
  "json_equals (JArray xs) b = (case b of
     JArray ys \<Rightarrow> length xs = length ys \<and> list_all2 (\<lambda>test y. test y) (map json_equals xs) ys
   | _ \<Rightarrow> False)"
| "json_equals (JObject obj) b = (case b of
     JObject obj' \<Rightarrow> length obj = length obj' \<and>
       (let tests = map (\<lambda>(n, v). (n, json_equals v)) obj in
        list_all (\<lambda>key. case json_object_get_value (Some obj') key of
          None \<Rightarrow> False | Some w \<Rightarrow> the (map_of tests key) w) (map fst obj))
   | _ \<Rightarrow> False)"
| "json_equals (JString s) b = (case b of JString t \<Rightarrow> c_str s = c_str t | _ \<Rightarrow> False)"
| "json_equals (JBoolean x) b = (case b of JBoolean y \<Rightarrow> x = y | _ \<Rightarrow> False)"
| "json_equals (JNumber x) b = (case b of JNumber y \<Rightarrow> numbers_equal x y | _ \<Rightarrow> False)"
| "json_equals JNull b = (case b of JNull \<Rightarrow> True | _ \<Rightarrow> False)"

text \<open>Two NULL values have the type \<open>JSONError\<close> both, and are equal.\<close>

definition json_value_equals :: "json option \<Rightarrow> json option \<Rightarrow> bool" where
  "json_value_equals a b = (case (a, b) of
     (None, None) \<Rightarrow> True
   | (Some v, Some w) \<Rightarrow> json_equals v w
   | _ \<Rightarrow> False)"

section \<open>Validation\<close>

fun validates :: "json \<Rightarrow> json \<Rightarrow> bool" where
  "validates JNull v = True"
| "validates (JArray schemas) v = (case v of
     JArray xs \<Rightarrow> (case map validates schemas of [] \<Rightarrow> True | test # _ \<Rightarrow> list_all test xs)
   | _ \<Rightarrow> False)"
| "validates (JObject schema) v = (case v of
     JObject obj \<Rightarrow>
       if schema = [] then True
       else if length obj < length schema then False
       else (let tests = map (\<lambda>(n, s). (n, validates s)) schema in
         list_all (\<lambda>key. case json_object_get_value (Some obj) key of
           None \<Rightarrow> False | Some w \<Rightarrow> the (map_of tests key) w) (map fst schema))
   | _ \<Rightarrow> False)"
| "validates (JString s) v = (json_value_get_type (Some v) = JSONString)"
| "validates (JNumber d) v = (json_value_get_type (Some v) = JSONNumber)"
| "validates (JBoolean b) v = (json_value_get_type (Some v) = JSONBoolean)"

definition json_validate :: "json option \<Rightarrow> json option \<Rightarrow> json_status" where
  "json_validate schema v = (case (schema, v) of
     (Some s, Some w) \<Rightarrow> if validates s w then JSONSuccess else JSONFailure
   | _ \<Rightarrow> JSONFailure)"

section \<open>A copy is the value itself\<close>

lemma copy_items_all: "copy_items (map Some xs) acc = Some (JArray (acc @ xs))"
  by (induction xs arbitrary: acc) auto

lemma copy_members_all:
  "distinct (map fst (acc @ obj)) \<Longrightarrow> (\<And>n v. (n, v) \<in> set obj \<Longrightarrow> map_of copies n = Some (Some v)) \<Longrightarrow>
    copy_members copies (map fst obj) acc = Some (JObject (acc @ obj))"
proof (induction obj arbitrary: acc)
  case (Cons m obj)
  obtain n v where m: "m = (n, v)" by fastforce
  with Cons.prems(1) have "map_of acc n = None" by (auto simp: map_of_eq_None_iff)
  then have "json_object_add acc n v = (JSONSuccess, acc @ [(n, v)])"
    by (simp add: json_object_add_def json_object_getn_value_map_of)
  moreover have "map_of copies n = Some (Some v)" using Cons.prems(2) m by simp
  moreover have "copy_members copies (map fst obj) (acc @ [(n, v)]) = Some (JObject ((acc @ [(n, v)]) @ obj))"
    using Cons.prems m by (intro Cons.IH) auto
  ultimately show ?case by (simp add: m)
qed simp

lemma deep_copy_same: "json_ok v \<Longrightarrow> deep_copy v = Some v"
proof (induction v rule: deep_copy.induct)
  case (1 xs)
  then have eq: "map deep_copy xs = map Some xs" by auto
  show ?case by (simp only: deep_copy.simps eq copy_items_all append_Nil)
next
  case (2 obj)
  have "map_of (map (\<lambda>(n, v). (n, deep_copy v)) obj) n = Some (Some v)" if "(n, v) \<in> set obj" for n v
  proof -
    have "map_of obj n = Some v" using 2(2) that by simp
    moreover have "deep_copy v = Some v" using 2 that by auto
    ultimately show ?thesis by (simp add: map_of_map_snd)
  qed
  with copy_members_all [of "[]" obj] 2(2) show ?case by auto
qed (auto simp: json_value_init_boolean_def json_value_init_null_def json_value_init_number_def)

section \<open>Comparison on well-formed values\<close>

lemma finite_cases: "is_finite x \<Longrightarrow> \<exists>s m e. x = Fin s m e"
  by (cases x) (auto simp: is_finite_def)

lemmas round_defs = round_frac_def floor_log2_def bitlen.simps frac_ge_pow_def round_at_def scaled_def rne_def Let_def

lemma EPSILON_eq: "EPSILON = Fin False 4722366482869645 (- 72)"
  by (simp add: EPSILON_def round_defs)

lemma numbers_equal_refl: "is_finite x \<Longrightarrow> numbers_equal x x"
  by (simp add: numbers_equal_def double_sub_self EPSILON_eq double_less_def double_abs_def with_sign_def Let_def)

lemma abs_round_frac: "double_abs (round_frac s n d) = double_abs (round_frac s' n d)"
  by (auto simp: round_frac_def double_abs_def Let_def split: prod.split)

lemma numbers_equal_sym: "is_finite x \<Longrightarrow> is_finite y \<Longrightarrow> numbers_equal x y = numbers_equal y x"
proof -
  assume "is_finite x" "is_finite y"
  then obtain s m e s' m' e' where x: "x = Fin s m e" and y: "y = Fin s' m' e'" by (meson finite_cases)
  define k where "k = min e e'"
  define t where "t = with_sign s (m * 2 ^ nat (e - k)) + with_sign (\<not> s') (m' * 2 ^ nat (e' - k))"
  have u: "with_sign s' (m' * 2 ^ nat (e' - k)) + with_sign (\<not> s) (m * 2 ^ nat (e - k)) = - t"
    by (simp add: t_def with_sign_def)
  obtain n d where nd: "fin_frac (nat \<bar>t\<bar>) k = (n, d)" by fastforce
  have "double_add x (double_neg y) = (if t = 0 then Fin (s \<and> \<not> s') 0 (- 1074) else round_frac (t < 0) n d)"
    by (simp add: x y double_add_def double_neg_def add_fin_def Let_def k_def [symmetric] t_def [symmetric] nd)
  moreover have "double_add y (double_neg x) = (if t = 0 then Fin (s' \<and> \<not> s) 0 (- 1074) else round_frac (- t < 0) n d)"
    by (simp add: x y double_add_def double_neg_def add_fin_def Let_def min.commute [of e'] k_def [symmetric] u nd)
  ultimately have "double_abs (double_add x (double_neg y)) = double_abs (double_add y (double_neg x))"
    using abs_round_frac [of "t < 0" n d "- t < 0"] by (simp add: double_abs_def)
  then show ?thesis by (simp add: numbers_equal_def)
qed

lemma equals_array: "json_equals (JArray xs) (JArray ys) \<longleftrightarrow> list_all2 json_equals xs ys"
  by (auto simp: list_all2_map1 dest: list_all2_lengthD)

lemma equals_object:
  assumes "distinct (map fst obj)"
  shows "json_equals (JObject obj) (JObject obj') \<longleftrightarrow> length obj = length obj' \<and>
    (\<forall>(n, v) \<in> set obj. \<exists>w. map_of obj' n = Some w \<and> json_equals v w)"
proof -
  have "the (map_of (map (\<lambda>(n, v). (n, json_equals v)) obj) n) = json_equals v" if "(n, v) \<in> set obj" for n v
    using assms that by (simp add: map_of_map_snd)
  then show ?thesis by (fastforce simp: list_all_iff split: option.splits)
qed

lemma equals_type: "json_equals v w \<Longrightarrow> json_value_get_type (Some v) = json_value_get_type (Some w)"
  by (cases v; cases w) auto

lemma equals_refl: "json_ok v \<Longrightarrow> json_equals v v"
proof (induction v rule: deep_copy.induct)
  case (1 xs)
  then show ?case by (auto simp only: equals_array json_ok.simps list_all2_same)
next
  case (2 obj)
  then have d: "distinct (map fst obj)" by simp
  with 2 show ?case unfolding equals_object [OF d] by fastforce
qed (auto simp: numbers_equal_refl)

lemma same_names:
  assumes "distinct (map fst obj)" and "distinct (map fst obj')" and "length obj = length obj'"
    and "\<And>n v. (n, v) \<in> set obj \<Longrightarrow> map_of obj' n \<noteq> None"
  shows "fst ` set obj = fst ` set obj'"
proof -
  have "fst ` set obj \<subseteq> fst ` set obj'" using assms(4) by (fastforce simp: map_of_eq_None_iff)
  moreover have "card (fst ` set obj) = card (fst ` set obj')"
    using distinct_card [OF assms(1)] distinct_card [OF assms(2)] assms(3) by simp
  ultimately show ?thesis by (intro card_subset_eq) auto
qed

lemma equals_sym: "json_ok v \<Longrightarrow> json_ok w \<Longrightarrow> json_equals v w \<Longrightarrow> json_equals w v"
proof (induction v arbitrary: w rule: deep_copy.induct)
  case (1 xs)
  then obtain ys where w: "w = JArray ys" by (cases w) auto
  have "list_all2 json_equals xs ys" using 1(4) unfolding w equals_array .
  then have "list_all2 json_equals ys xs"
    using 1(1-3) unfolding list_all2_conv_all_nth w by auto
  then show ?case unfolding w equals_array .
next
  case (2 obj)
  then obtain obj' where w: "w = JObject obj'" by (cases w) auto
  have d: "distinct (map fst obj)" "distinct (map fst obj')" using 2(2,3) by (simp_all add: w)
  from 2(4) have e: "length obj = length obj'" "\<And>n v. (n, v) \<in> set obj \<Longrightarrow> \<exists>w. map_of obj' n = Some w \<and> json_equals v w"
    unfolding w equals_object [OF d(1)] by auto
  have names: "fst ` set obj = fst ` set obj'" using d e by (intro same_names) auto
  have "\<exists>v. map_of obj n = Some v \<and> json_equals u v" if "(n, u) \<in> set obj'" for n u
  proof -
    from that names obtain v where v: "(n, v) \<in> set obj" by (metis fst_conv image_iff prod.collapse)
    from e(2) [OF v] d(2) that have "json_equals v u" by (metis map_of_eq_Some_iff option.inject)
    moreover have "json_ok v" "json_ok u" using 2(2,3) v that by (auto simp: w)
    ultimately have "json_equals u v" using 2(1) [OF v refl] by blast
    with v d(1) show ?thesis by auto
  qed
  then show ?case unfolding w equals_object [OF d(2)] using e(1) by auto
next
  case (3 b)
  then show ?case by (cases w) auto
next
  case (4 d)
  then show ?case by (cases w) (auto simp: numbers_equal_sym)
next
  case (5 s)
  then show ?case by (cases w) auto
next
  case 6
  then show ?case by (cases w) auto
qed

text \<open>Members in another order make an equal object.\<close>

lemma equals_reordered:
  assumes "json_ok (JObject obj)" and "mset obj = mset obj'"
  shows "json_equals (JObject obj) (JObject obj')"
proof -
  have d: "distinct (map fst obj)" using assms(1) by simp
  moreover have "mset (map fst obj) = mset (map fst obj')" using assms(2) by simp
  ultimately have d': "distinct (map fst obj')" using mset_eq_imp_distinct_iff by blast
  have s: "set obj = set obj'" using assms(2) by (metis set_mset_mset)
  have "\<exists>w. map_of obj' n = Some w \<and> json_equals v w" if "(n, v) \<in> set obj" for n v
    using that s d' assms(1) equals_refl [of v] by auto
  then show ?thesis unfolding equals_object [OF d] using mset_eq_length [OF assms(2)] by auto
qed

text \<open>
  Copies and comparison. The deep copy of a well-formed value is the value itself; a well-formed value equals
  itself and its copy, equality is symmetric, and it does not depend on the order
  of the members of an object.
\<close>

theorem copy_and_equality:
  assumes "json_ok v" and "json_ok w"
  shows "json_value_deep_copy (Some v) = Some v \<and> json_value_equals (json_value_deep_copy (Some v)) (Some v) \<and>
    (json_value_equals (Some v) (Some w) \<longleftrightarrow> json_value_equals (Some w) (Some v)) \<and>
    (\<forall>obj obj'. v = JObject obj \<and> mset obj = mset obj' \<longrightarrow> json_value_equals (Some v) (Some (JObject obj')))"
  using assms deep_copy_same [OF assms(1)] equals_refl [OF assms(1)] equals_sym [of v w] equals_sym [of w v]
    equals_reordered
  by (auto simp only: json_value_deep_copy_def json_value_equals_def option.case prod.case)

theorem copy_and_equality_witness:
  "json_value_equals (Some (JObject [(''a'', JNull), (''b'', JArray [])])) (Some (JObject [(''b'', JArray []), (''a'', JNull)]))"
proof -
  have "json_ok (JObject [(''a'', JNull), (''b'', JArray [])])" by simp
  from copy_and_equality [OF this this] show ?thesis by (simp del: json_equals.simps add: add_mset_commute)
qed

text \<open>Equality of numbers is not transitive: three numbers, each close to the next.\<close>

lemma equality_not_transitive:
  "\<exists>x y z. json_equals (JNumber x) (JNumber y) \<and> json_equals (JNumber y) (JNumber z) \<and> \<not> json_equals (JNumber x) (JNumber z)"
proof (intro exI conjI)
  let ?x = "Fin False 4503599627370496 (- 52)" and ?y = "Fin False 4503602779890235 (- 52)"
    and ?z = "Fin False 4503605932409974 (- 52)"
  have near: "round_frac True 3152519739 4503599627370496 = Fin True 6611313075683328 (- 73)" by (simp add: round_defs)
  have far: "round_frac True 6305039478 4503599627370496 = Fin True 6611313075683328 (- 72)" by (simp add: round_defs)
  note defs = double_add_def add_fin_def double_neg_def with_sign_def fin_frac_def Let_def
  have "double_add ?x (double_neg ?y) = Fin True 6611313075683328 (- 73)"
    and "double_add ?y (double_neg ?z) = Fin True 6611313075683328 (- 73)"
    and "double_add ?x (double_neg ?z) = Fin True 6611313075683328 (- 72)"
    by (simp_all add: defs near far)
  then show "json_equals (JNumber ?x) (JNumber ?y)" "json_equals (JNumber ?y) (JNumber ?z)"
    "\<not> json_equals (JNumber ?x) (JNumber ?z)"
    by (simp_all add: numbers_equal_def EPSILON_eq double_less_def double_abs_def with_sign_def)
qed

section \<open>What validation accepts\<close>

text \<open>
  A schema describes a value: null describes all values, a string, number or boolean all values of
  its type, an empty array all arrays, an array otherwise the arrays whose items its first item
  describes, an object the objects that have each of its members with a value it describes.
\<close>

inductive describes :: "json \<Rightarrow> json \<Rightarrow> bool" where
  any: "describes JNull v"
| str: "describes (JString s) (JString t)"
| num: "describes (JNumber x) (JNumber y)"
| bool: "describes (JBoolean b) (JBoolean c)"
| any_array: "describes (JArray []) (JArray xs)"
| array: "(\<And>x. x \<in> set xs \<Longrightarrow> describes s x) \<Longrightarrow> describes (JArray (s # ss)) (JArray xs)"
| object: "(\<And>n s. (n, s) \<in> set schema \<Longrightarrow> \<exists>w. map_of obj n = Some w \<and> describes s w) \<Longrightarrow>
    describes (JObject schema) (JObject obj)"

inductive_simps describes_simps:
  "describes JNull v" "describes (JString s) v" "describes (JNumber x) v" "describes (JBoolean b) v"
  "describes (JArray []) v" "describes (JArray (s # ss)) v" "describes (JObject schema) v"

lemma validates_object:
  assumes "distinct (map fst schema)"
  shows "validates (JObject schema) (JObject obj) \<longleftrightarrow> (schema = [] \<or> length schema \<le> length obj) \<and>
    (\<forall>(n, s) \<in> set schema. \<exists>w. map_of obj n = Some w \<and> validates s w)"
proof -
  let ?tests = "map (\<lambda>(n, s). (n, validates s)) schema"
  have "the (map_of ?tests n) = validates s" if "(n, s) \<in> set schema" for n s
    using assms that by (simp add: map_of_map_snd)
  then have "list_all (\<lambda>key. case map_of obj key of None \<Rightarrow> False | Some w \<Rightarrow> the (map_of ?tests key) w) (map fst schema)
      \<longleftrightarrow> (\<forall>(n, s) \<in> set schema. \<exists>w. map_of obj n = Some w \<and> validates s w)"
    by (fastforce simp: list_all_iff split: option.splits)
  then show ?thesis by (auto simp: Let_def)
qed

lemma validates_describes: "json_ok schema \<Longrightarrow> validates schema v \<longleftrightarrow> describes schema v"
proof (induction schema arbitrary: v rule: deep_copy.induct)
  case (1 xs)
  show ?case
  proof (cases xs)
    case Nil
    then show ?thesis by (cases v) (auto simp: describes_simps)
  next
    case (Cons s ss)
    with 1 have "validates s x \<longleftrightarrow> describes s x" for x by simp
    then show ?thesis by (cases v) (auto simp: describes_simps Cons list_all_iff)
  qed
next
  case (2 schema)
  show ?case
  proof (cases v)
    case (JObject obj)
    have d: "distinct (map fst schema)" using 2(2) by simp
    have IH: "validates s w \<longleftrightarrow> describes s w" if "(n, s) \<in> set schema" for n s w
      using 2 that by auto
    have "length schema \<le> length obj" if "\<And>n s. (n, s) \<in> set schema \<Longrightarrow> \<exists>w. map_of obj n = Some w \<and> describes s w"
    proof -
      have "fst ` set schema \<subseteq> fst ` set obj"
      proof (clarsimp)
        fix n s
        assume "(n, s) \<in> set schema"
        from that [OF this] obtain w where "map_of obj n = Some w" by blast
        then show "n \<in> fst ` set obj" by (auto dest!: map_of_SomeD intro: rev_image_eqI)
      qed
      then have "card (fst ` set schema) \<le> card (fst ` set obj)" by (intro card_mono) auto
      also have "\<dots> \<le> length obj" by (metis card_length length_map list.set_map)
      finally show ?thesis using distinct_card [OF d] by simp
    qed
    then show ?thesis unfolding JObject validates_object [OF d] describes_simps using IH by fastforce
  qed (auto simp: describes_simps)
next
  case (3 b)
  then show ?case by (cases v) (auto simp: describes_simps)
next
  case (4 d)
  then show ?case by (cases v) (auto simp: describes_simps)
next
  case (5 s)
  then show ?case by (cases v) (auto simp: describes_simps)
qed (simp add: describes_simps)

text \<open>
  C39: Validation accepts exactly the values that the schema describes, for every well-formed
  schema: the test on the number of members, which comes first in the code, never decides.
\<close>

theorem validation_describes:
  assumes "json_ok schema"
  shows "json_validate (Some schema) (Some v) = JSONSuccess \<longleftrightarrow> describes schema v"
  using validates_describes [OF assms, of v] by (simp add: json_validate_def)

theorem validation_describes_witness:
  "describes (JObject [(''a'', JArray [JNull])]) (JObject [(''b'', JNull), (''a'', JArray [JBoolean True])])"
proof -
  have "json_ok (JObject [(''a'', JArray [JNull])])" by simp
  moreover have "json_validate (Some (JObject [(''a'', JArray [JNull])]))
      (Some (JObject [(''b'', JNull), (''a'', JArray [JBoolean True])])) = JSONSuccess"
    by (simp add: json_validate_def)
  ultimately show ?thesis by (simp only: validation_describes)
qed

end
