(* ===== verification/JsonStore.thy ===== *)
theory JsonStore
  imports JsonValue
begin

text \<open>
  The growing arrays behind the objects and arrays of \<^verbatim>\<open>common/parson.c\<close>: slots of which the first
  \<open>count\<close> are in use, doubled when they are full. A slot that has not been written is \<open>None\<close>, and reading it
  is undefined, as is any access outside of the slots; an array that has not been allocated
  is \<open>None\<close>. Every \<open>malloc\<close> may fail: its outcome is an argument. The lemmas show that the operations are
  always defined, that a failed one changes no member, and that the others do to the members what
  the operations of \<open>JsonValue\<close> do. A capacity times the size of a pointer fits a \<open>size_t\<close>.
\<close>

section \<open>Slots\<close>

type_synonym 'a slots = "'a option list option"

definition slot_list :: "'a slots \<Rightarrow> 'a option list" where
  "slot_list s = (case s of None \<Rightarrow> [] | Some xs \<Rightarrow> xs)"

definition read_slot :: "'a slots \<Rightarrow> nat \<Rightarrow> 'a option" where
  "read_slot s i = do { x \<leftarrow> at (slot_list s) i; x }"

definition write_slot :: "'a slots \<Rightarrow> nat \<Rightarrow> 'a option \<Rightarrow> 'a slots option" where
  "write_slot s i x = do { require (i < length (slot_list s)); Some (map_option (\<lambda>xs. xs[i := x]) s) }"

text \<open>New slots, into which the first \<open>n\<close> of the old ones are copied where there are any.\<close>

definition copied_slots :: "nat \<Rightarrow> 'a slots \<Rightarrow> nat \<Rightarrow> 'a slots option" where
  "copied_slots new_capacity s n =
     (if s \<noteq> None \<and> n > 0 then do {
        require (n \<le> length (slot_list s) \<and> n \<le> new_capacity);
        Some (Some (take n (slot_list s) @ replicate (new_capacity - n) None)) }
      else Some (Some (replicate new_capacity None)))"

definition STARTING_CAPACITY :: nat where "STARTING_CAPACITY = 16"

definition grown :: "nat \<Rightarrow> nat" where
  "grown capacity = max (capacity * 2) STARTING_CAPACITY"

section \<open>Objects\<close>

record 'v object_store =
  name_slots :: "cstring slots"
  value_slots :: "'v slots"
  obj_capacity :: nat
  obj_count :: nat

record mallocs =
  names_ok :: bool
  values_ok :: bool
  dup_ok :: bool

definition json_object_init :: "'v object_store" where
  "json_object_init = \<lparr>name_slots = None, value_slots = None, obj_capacity = 0, obj_count = 0\<rparr>"

definition json_object_resize :: "mallocs \<Rightarrow> 'v object_store \<Rightarrow> nat \<Rightarrow> (json_status \<times> 'v object_store) option" where
  "json_object_resize m object new_capacity =
     (if (name_slots object = None) \<noteq> (value_slots object = None) \<or> new_capacity = 0 then Some (JSONFailure, object)
      else if \<not> names_ok m then Some (JSONFailure, object)
      else if \<not> values_ok m then Some (JSONFailure, object)
      else do {
        ns \<leftarrow> copied_slots new_capacity (name_slots object) (obj_count object);
        vs \<leftarrow> copied_slots new_capacity (value_slots object) (obj_count object);
        Some (JSONSuccess, object\<lparr>name_slots := ns, value_slots := vs, obj_capacity := new_capacity\<rparr>) })"

text \<open>The loop over the names from slot \<open>i\<close> on, \<open>k\<close> of them: the first slot with this name.\<close>

fun slot_of_name :: "cstring slots \<Rightarrow> cstring \<Rightarrow> nat \<Rightarrow> nat \<Rightarrow> nat option option" where
  "slot_of_name ns name 0 i = Some None"
| "slot_of_name ns name (Suc k) i = do {
     n \<leftarrow> read_slot ns i;
     if n = name then Some (Some i) else slot_of_name ns name k (Suc i) }"

definition store_get_value :: "'v object_store \<Rightarrow> cstring \<Rightarrow> 'v option option" where
  "store_get_value object name = do {
     found \<leftarrow> slot_of_name (name_slots object) name (obj_count object) 0;
     case found of
       None \<Rightarrow> Some None
     | Some i \<Rightarrow> do { v \<leftarrow> read_slot (value_slots object) i; Some (Some v) } }"

definition json_object_addn :: "mallocs \<Rightarrow> 'v object_store \<Rightarrow> cstring \<Rightarrow> 'v \<Rightarrow> (json_status \<times> 'v object_store) option" where
  "json_object_addn m object name v = do {
     old \<leftarrow> store_get_value object name;
     if old \<noteq> None then Some (JSONFailure, object)
     else do {
       (status, o1) \<leftarrow> if obj_count object \<ge> obj_capacity object
                      then json_object_resize m object (grown (obj_capacity object))
                      else Some (JSONSuccess, object);
       if status = JSONFailure then Some (JSONFailure, object)
       else do {
         let index = obj_count o1;
         ns \<leftarrow> write_slot (name_slots o1) index (if dup_ok m then Some name else None);
         if \<not> dup_ok m then Some (JSONFailure, o1\<lparr>name_slots := ns\<rparr>)
         else do {
           vs \<leftarrow> write_slot (value_slots o1) index (Some v);
           Some (JSONSuccess, o1\<lparr>name_slots := ns, value_slots := vs, obj_count := index + 1\<rparr>) } } } }"

text \<open>The last pair takes the place of the one that is removed.\<close>

definition store_remove :: "'v object_store \<Rightarrow> cstring \<Rightarrow> (json_status \<times> 'v object_store) option" where
  "store_remove object name = do {
     found \<leftarrow> slot_of_name (name_slots object) name (obj_count object) 0;
     case found of
       None \<Rightarrow> Some (JSONFailure, object)
     | Some i \<Rightarrow> do {
         let last_item_index = obj_count object - 1;
         o1 \<leftarrow> if i \<noteq> last_item_index then do {
                 n \<leftarrow> read_slot (name_slots object) last_item_index;
                 ns \<leftarrow> write_slot (name_slots object) i (Some n);
                 v \<leftarrow> read_slot (value_slots object) last_item_index;
                 vs \<leftarrow> write_slot (value_slots object) i (Some v);
                 Some (object\<lparr>name_slots := ns, value_slots := vs\<rparr>) }
               else Some object;
         Some (JSONSuccess, o1\<lparr>obj_count := obj_count object - 1\<rparr>) } }"

text \<open>The value of a name that is there is replaced in its slot.\<close>

definition store_set_value :: "mallocs \<Rightarrow> 'v object_store \<Rightarrow> cstring \<Rightarrow> 'v \<Rightarrow> (json_status \<times> 'v object_store) option" where
  "store_set_value m object name v = do {
     found \<leftarrow> slot_of_name (name_slots object) name (obj_count object) 0;
     case found of
       Some i \<Rightarrow> do {
         vs \<leftarrow> write_slot (value_slots object) i (Some v);
         Some (JSONSuccess, object\<lparr>value_slots := vs\<rparr>) }
     | None \<Rightarrow> json_object_addn m object name v }"

section \<open>Arrays\<close>

record 'v array_store =
  items :: "'v slots"
  arr_capacity :: nat
  arr_count :: nat

definition json_array_init :: "'v array_store" where
  "json_array_init = \<lparr>items = None, arr_capacity = 0, arr_count = 0\<rparr>"

definition json_array_resize :: "bool \<Rightarrow> 'v array_store \<Rightarrow> nat \<Rightarrow> (json_status \<times> 'v array_store) option" where
  "json_array_resize ok array new_capacity =
     (if new_capacity = 0 then Some (JSONFailure, array)
      else if \<not> ok then Some (JSONFailure, array)
      else do {
        xs \<leftarrow> copied_slots new_capacity (items array) (arr_count array);
        Some (JSONSuccess, array\<lparr>items := xs, arr_capacity := new_capacity\<rparr>) })"

definition json_array_add :: "bool \<Rightarrow> 'v array_store \<Rightarrow> 'v \<Rightarrow> (json_status \<times> 'v array_store) option" where
  "json_array_add ok array v = do {
     (status, a1) \<leftarrow> if arr_count array \<ge> arr_capacity array
                    then json_array_resize ok array (grown (arr_capacity array))
                    else Some (JSONSuccess, array);
     if status = JSONFailure then Some (JSONFailure, array)
     else do {
       xs \<leftarrow> write_slot (items a1) (arr_count a1) (Some v);
       Some (JSONSuccess, a1\<lparr>items := xs, arr_count := arr_count a1 + 1\<rparr>) } }"

text \<open>\<open>memmove\<close> of the slots behind \<open>ix\<close>.\<close>

definition store_array_remove :: "'v array_store \<Rightarrow> nat \<Rightarrow> (json_status \<times> 'v array_store) option" where
  "store_array_remove array ix =
     (if ix \<ge> arr_count array then Some (JSONFailure, array)
      else do {
        let n = arr_count array - 1 - ix;
        require (ix + 1 + n \<le> length (slot_list (items array)));
        let xs = slot_list (items array);
        Some (JSONSuccess, array\<lparr>items := Some (take ix xs @ take n (drop (ix + 1) xs) @ drop (ix + n) xs),
          arr_count := arr_count array - 1\<rparr>) })"

definition store_array_replace :: "'v array_store \<Rightarrow> nat \<Rightarrow> 'v \<Rightarrow> (json_status \<times> 'v array_store) option" where
  "store_array_replace array ix v =
     (if ix \<ge> arr_count array then Some (JSONFailure, array)
      else do { xs \<leftarrow> write_slot (items array) ix (Some v); Some (JSONSuccess, array\<lparr>items := xs\<rparr>) })"

section \<open>What the slots hold\<close>

text \<open>The first \<open>n\<close> of the slots are in use.\<close>

definition slots_ok :: "'a slots \<Rightarrow> nat \<Rightarrow> nat \<Rightarrow> bool" where
  "slots_ok s n capacity \<longleftrightarrow> length (slot_list s) = capacity \<and> n \<le> capacity \<and> None \<notin> set (take n (slot_list s))"

definition filled :: "'a slots \<Rightarrow> nat \<Rightarrow> 'a list" where
  "filled s n = map the (take n (slot_list s))"

lemma slot_list_simps [simp]: "slot_list None = []" "slot_list (Some xs) = xs"
  "slot_list (map_option f s) = (case s of None \<Rightarrow> [] | Some xs \<Rightarrow> f xs)"
  by (simp_all add: slot_list_def split: option.split)

lemma slots_empty [simp]: "slots_ok None 0 0" "filled s 0 = []"
  by (simp_all add: slots_ok_def filled_def)

lemma length_filled: "slots_ok s n c \<Longrightarrow> length (filled s n) = n"
  by (simp add: slots_ok_def filled_def)

lemma used_slot: "slots_ok s n c \<Longrightarrow> i < n \<Longrightarrow> i < length (slot_list s) \<and> slot_list s ! i = Some (filled s n ! i)"
proof -
  assume ok: "slots_ok s n c" and i: "i < n"
  then have "take n (slot_list s) ! i \<in> set (take n (slot_list s))" by (intro nth_mem) (simp add: slots_ok_def)
  with ok i obtain x where "slot_list s ! i = Some x" by (cases "slot_list s ! i") (auto simp: slots_ok_def)
  with ok i show ?thesis by (auto simp: slots_ok_def filled_def)
qed

lemma read_used: "slots_ok s n c \<Longrightarrow> i < n \<Longrightarrow> read_slot s i = Some (filled s n ! i)"
  by (simp add: read_slot_def used_slot)

lemma write_used:
  assumes "slots_ok s n c" and "i < n"
  shows "\<exists>t. write_slot s i (Some x) = Some t \<and> slots_ok t n c \<and> filled t n = (filled s n)[i := x] \<and> (t = None \<longleftrightarrow> s = None)"
  using assms set_update_subset_insert [of "take n (slot_list s)" i "Some x"]
  by (cases s) (auto simp: write_slot_def slots_ok_def filled_def take_update_swap map_update)

lemma write_end:
  assumes "slots_ok s n c" and "n < c"
  shows "\<exists>t. write_slot s n (Some x) = Some t \<and> slots_ok t (Suc n) c \<and> filled t (Suc n) = filled s n @ [x] \<and> (t = None \<longleftrightarrow> s = None)"
  using assms by (cases s) (auto simp: write_slot_def slots_ok_def filled_def take_Suc_conv_app_nth)

lemma write_free:
  assumes "slots_ok s n c" and "n < c"
  shows "\<exists>t. write_slot s n y = Some t \<and> slots_ok t n c \<and> filled t n = filled s n \<and> (t = None \<longleftrightarrow> s = None)"
  using assms by (cases s) (auto simp: write_slot_def slots_ok_def filled_def)

lemma copied_ok:
  assumes "slots_ok s n c" and "n \<le> d"
  shows "\<exists>t. copied_slots d s n = Some t \<and> slots_ok t n d \<and> filled t n = filled s n \<and> t \<noteq> None"
  using assms by (cases s) (auto simp: copied_slots_def slots_ok_def filled_def)

lemma fewer_slots: "slots_ok s n c \<Longrightarrow> m \<le> n \<Longrightarrow> slots_ok s m c \<and> filled s m = take m (filled s n)"
  by (auto simp: slots_ok_def filled_def min_absorb1 take_map dest: set_take_subset_set_take [THEN subsetD, rotated])

lemma grown_larger: "n \<le> c \<Longrightarrow> c \<le> n \<Longrightarrow> n < grown c"
  by (auto simp: grown_def STARTING_CAPACITY_def)

text \<open>The capacities an array can have.\<close>

definition capacity_ok :: "nat \<Rightarrow> bool" where
  "capacity_ok c \<longleftrightarrow> c = 0 \<or> (\<exists>k. c = STARTING_CAPACITY * 2 ^ k)"

lemma capacity_grown: "capacity_ok c \<Longrightarrow> capacity_ok (grown c)"
proof -
  assume "capacity_ok c"
  then consider "c = 0" | k where "c = STARTING_CAPACITY * 2 ^ k" by (auto simp: capacity_ok_def)
  then show ?thesis
  proof cases
    case 1
    then show ?thesis by (auto simp: grown_def capacity_ok_def intro: exI [of _ 0])
  next
    case 2
    then have "grown c = STARTING_CAPACITY * 2 ^ Suc k" by (simp add: grown_def STARTING_CAPACITY_def)
    then show ?thesis unfolding capacity_ok_def by blast
  qed
qed

section \<open>Objects refine lists of pairs\<close>

definition object_ok :: "'v object_store \<Rightarrow> bool" where
  "object_ok object \<longleftrightarrow>
     slots_ok (name_slots object) (obj_count object) (obj_capacity object) \<and>
     slots_ok (value_slots object) (obj_count object) (obj_capacity object) \<and>
     (name_slots object = None \<longleftrightarrow> value_slots object = None) \<and> capacity_ok (obj_capacity object)"

definition pairs :: "'v object_store \<Rightarrow> (cstring \<times> 'v) list" where
  "pairs object = zip (filled (name_slots object) (obj_count object)) (filled (value_slots object) (obj_count object))"

lemma object_okD:
  assumes "object_ok object"
  shows "slots_ok (name_slots object) (obj_count object) (obj_capacity object)"
    "slots_ok (value_slots object) (obj_count object) (obj_capacity object)"
    "length (pairs object) = obj_count object"
    "map fst (pairs object) = filled (name_slots object) (obj_count object)"
    "map snd (pairs object) = filled (value_slots object) (obj_count object)"
proof -
  show ok: "slots_ok (name_slots object) (obj_count object) (obj_capacity object)"
    "slots_ok (value_slots object) (obj_count object) (obj_capacity object)"
    using assms by (simp_all add: object_ok_def)
  show "length (pairs object) = obj_count object" "map fst (pairs object) = filled (name_slots object) (obj_count object)"
    "map snd (pairs object) = filled (value_slots object) (obj_count object)"
    by (simp_all add: pairs_def length_filled [OF ok(1)] length_filled [OF ok(2)])
qed

lemma init_object: "object_ok json_object_init" "pairs json_object_init = []"
  by (simp_all add: object_ok_def json_object_init_def pairs_def capacity_ok_def)

definition first_index :: "cstring \<Rightarrow> cstring list \<Rightarrow> nat option" where
  "first_index name ns = (if name \<in> set ns then Some (length (takeWhile (\<lambda>n. n \<noteq> name) ns)) else None)"

lemma first_index_Cons: "first_index name (n # ns) = (if n = name then Some 0 else map_option Suc (first_index name ns))"
  by (auto simp: first_index_def)

lemma first_index_less: "first_index name ns = Some i \<Longrightarrow> i < length ns \<and> ns ! i = name"
  by (induction ns arbitrary: i) (auto simp: first_index_Cons split: if_splits, simp add: first_index_def)

lemma slot_of_name_index:
  assumes "slots_ok ns n c" and "i + k = n"
  shows "slot_of_name ns name k i = Some (map_option (\<lambda>j. i + j) (first_index name (drop i (filled ns n))))"
  using assms(2)
proof (induction k arbitrary: i)
  case 0
  then show ?case by (simp add: length_filled [OF assms(1)] first_index_def)
next
  case (Suc k)
  then have "drop i (filled ns n) = filled ns n ! i # drop (Suc i) (filled ns n)"
    by (intro Cons_nth_drop_Suc [symmetric]) (simp add: length_filled [OF assms(1)])
  with Suc.IH [of "Suc i"] Suc.prems read_used [OF assms(1), of i] show ?case
    by (simp add: first_index_Cons option.map_comp comp_def)
qed

lemma found_slot:
  "object_ok object \<Longrightarrow>
    slot_of_name (name_slots object) name (obj_count object) 0 = Some (first_index name (map fst (pairs object)))"
  using slot_of_name_index [of "name_slots object" "obj_count object" "obj_capacity object" 0]
  by (simp add: object_okD option.map_ident)

lemma map_of_index: "map_of ps name = map_option (\<lambda>i. snd (ps ! i)) (first_index name (map fst ps))"
  by (induction ps) (auto simp: first_index_Cons option.map_comp comp_def, simp add: first_index_def)

lemma get_value_pairs:
  assumes "object_ok object"
  shows "store_get_value object name = Some (map_of (pairs object) name)"
proof (cases "first_index name (map fst (pairs object))")
  case (Some i)
  then have "i < obj_count object" using first_index_less [OF Some] object_okD(3) [OF assms] by simp
  with read_used [OF object_okD(2) [OF assms]] have "read_slot (value_slots object) i = Some (snd (pairs object ! i))"
    by (simp flip: object_okD(5) [OF assms] add: object_okD(3) [OF assms])
  then show ?thesis by (simp add: store_get_value_def found_slot [OF assms] map_of_index Some)
qed (simp add: store_get_value_def found_slot [OF assms] map_of_index)

text \<open>The outcome of a call: a failure that changes no member, or the members afterwards.\<close>

definition object_after :: "(json_status \<times> 'v object_store) option \<Rightarrow> bool \<Rightarrow> (cstring \<times> 'v) list \<Rightarrow> (cstring \<times> 'v) list \<Rightarrow> bool" where
  "object_after r success old new \<longleftrightarrow> (\<exists>status object. r = Some (status, object) \<and> object_ok object \<and>
     (status = JSONSuccess \<longleftrightarrow> success) \<and> pairs object = (if success then new else old))"

lemma resize_ok:
  assumes "object_ok object" and "obj_count object \<le> c" and "0 < c" and "capacity_ok c"
  shows "\<exists>object'. json_object_resize m object c =
      Some (if names_ok m \<and> values_ok m then JSONSuccess else JSONFailure, object') \<and>
    object_ok object' \<and> pairs object' = pairs object \<and> obj_count object' = obj_count object \<and>
    obj_capacity object' = (if names_ok m \<and> values_ok m then c else obj_capacity object) \<and>
    (names_ok m \<and> values_ok m \<or> object' = object)"
proof -
  have same: "(name_slots object = None) = (value_slots object = None)" using assms(1) by (simp add: object_ok_def)
  from copied_ok [OF object_okD(1) [OF assms(1)] assms(2)] obtain ns where
    ns: "copied_slots c (name_slots object) (obj_count object) = Some ns" "slots_ok ns (obj_count object) c"
    "filled ns (obj_count object) = filled (name_slots object) (obj_count object)" "ns \<noteq> None" by blast
  from copied_ok [OF object_okD(2) [OF assms(1)] assms(2)] obtain vs where
    vs: "copied_slots c (value_slots object) (obj_count object) = Some vs" "slots_ok vs (obj_count object) c"
    "filled vs (obj_count object) = filled (value_slots object) (obj_count object)" "vs \<noteq> None" by blast
  show ?thesis
    using assms ns vs same by (auto simp: json_object_resize_def object_ok_def pairs_def)
qed

lemma pair_added:
  assumes "object_ok object" and "slots_ok ns (Suc (obj_count object)) (obj_capacity object)"
    and "filled ns (Suc (obj_count object)) = filled (name_slots object) (obj_count object) @ [name]"
    and "slots_ok vs (Suc (obj_count object)) (obj_capacity object)"
    and "filled vs (Suc (obj_count object)) = filled (value_slots object) (obj_count object) @ [v]"
    and "ns = None \<longleftrightarrow> vs = None"
  shows "object_ok (object\<lparr>name_slots := ns, value_slots := vs, obj_count := Suc (obj_count object)\<rparr>) \<and>
    pairs (object\<lparr>name_slots := ns, value_slots := vs, obj_count := Suc (obj_count object)\<rparr>) = pairs object @ [(name, v)]"
  using assms(1,2,4,6) length_filled [OF object_okD(1) [OF assms(1)]] length_filled [OF object_okD(2) [OF assms(1)]]
  by (simp add: object_ok_def pairs_def assms(3,5))

lemma name_written:
  assumes "object_ok object" and "slots_ok ns (obj_count object) (obj_capacity object)"
    and "filled ns (obj_count object) = filled (name_slots object) (obj_count object)" and "ns = None \<longleftrightarrow> name_slots object = None"
  shows "object_ok (object\<lparr>name_slots := ns\<rparr>) \<and> pairs (object\<lparr>name_slots := ns\<rparr>) = pairs object"
  using assms(1,2,4) by (simp add: object_ok_def pairs_def assms(3))

lemma addn_object:
  assumes "object_ok object"
  shows "object_after (json_object_addn m object name v)
    (map_of (pairs object) name = None \<and> dup_ok m \<and> (obj_count object < obj_capacity object \<or> names_ok m \<and> values_ok m))
    (pairs object) (pairs object @ [(name, v)])"
proof (cases "map_of (pairs object) name")
  case None
  let ?room = "obj_count object < obj_capacity object \<or> names_ok m \<and> values_ok m"
  let ?status = "if ?room then JSONSuccess else JSONFailure"
  have n: "obj_count object \<le> obj_capacity object" using assms by (simp add: object_ok_def slots_ok_def)
  have "\<exists>o1. (if obj_count object \<ge> obj_capacity object then json_object_resize m object (grown (obj_capacity object))
      else Some (JSONSuccess, object)) = Some (?status, o1) \<and>
    object_ok o1 \<and> pairs o1 = pairs object \<and> obj_count o1 = obj_count object \<and> (?room \<longrightarrow> obj_count o1 < obj_capacity o1)"
  proof (cases "obj_capacity object \<le> obj_count object")
    case True
    with n have "obj_count object < grown (obj_capacity object)" by (rule grown_larger)
    with resize_ok [OF assms, of "grown (obj_capacity object)" m] capacity_grown assms True show ?thesis
      by (fastforce simp: object_ok_def)
  qed (use assms in auto)
  then obtain o1 where o1: "(if obj_count object \<ge> obj_capacity object then json_object_resize m object (grown (obj_capacity object))
      else Some (JSONSuccess, object)) = Some (?status, o1)" "object_ok o1" "pairs o1 = pairs object"
    "obj_count o1 = obj_count object" "?room \<Longrightarrow> obj_count o1 < obj_capacity o1" by blast
  note step = json_object_addn_def get_value_pairs [OF assms] None o1(1) Let_def
  show ?thesis
  proof (cases ?room)
    case False
    then show ?thesis unfolding step by (auto simp: object_after_def assms)
  next
    case True
    note free = object_okD(1,2) [OF o1(2)] o1(5) [OF True]
    show ?thesis
    proof (cases "dup_ok m")
      case True': False
      from write_free [OF free(1,3), of None] obtain ns where
        ns: "write_slot (name_slots o1) (obj_count o1) None = Some ns" "slots_ok ns (obj_count o1) (obj_capacity o1)"
        "filled ns (obj_count o1) = filled (name_slots o1) (obj_count o1)" "ns = None \<longleftrightarrow> name_slots o1 = None" by auto
      have "json_object_addn m object name v = Some (JSONFailure, o1\<lparr>name_slots := ns\<rparr>)"
        unfolding step if_P [OF True] using True' ns(1) by simp
      with name_written [OF o1(2) ns(2-4)] True' show ?thesis by (simp add: object_after_def o1(3))
    next
      case dup: True
      from write_end [OF free(1,3), of name] obtain ns where
        ns: "write_slot (name_slots o1) (obj_count o1) (Some name) = Some ns" "slots_ok ns (Suc (obj_count o1)) (obj_capacity o1)"
        "filled ns (Suc (obj_count o1)) = filled (name_slots o1) (obj_count o1) @ [name]" "ns = None \<longleftrightarrow> name_slots o1 = None" by auto
      from write_end [OF free(2,3), of v] obtain vs where
        vs: "write_slot (value_slots o1) (obj_count o1) (Some v) = Some vs" "slots_ok vs (Suc (obj_count o1)) (obj_capacity o1)"
        "filled vs (Suc (obj_count o1)) = filled (value_slots o1) (obj_count o1) @ [v]" "vs = None \<longleftrightarrow> value_slots o1 = None" by auto
      have "ns = None \<longleftrightarrow> vs = None" using ns(4) vs(4) o1(2) by (simp add: object_ok_def)
      note added = pair_added [OF o1(2) ns(2,3) vs(2,3) this]
      have "json_object_addn m object name v =
          Some (JSONSuccess, o1\<lparr>name_slots := ns, value_slots := vs, obj_count := Suc (obj_count o1)\<rparr>)"
        unfolding step if_P [OF True] using dup ns(1) vs(1) by simp
      with added dup True None show ?thesis by (simp add: object_after_def o1(3))
    qed
  qed
qed (simp add: json_object_addn_def get_value_pairs [OF assms] object_after_def assms)

lemma index_of_name_first: "index_of_name name obj = first_index name (map fst obj)"
  by (induction name obj rule: index_of_name.induct) (simp_all add: first_index_Cons, simp add: first_index_def)

lemma pair_assign_update: "first_index name (map fst obj) = Some i \<Longrightarrow> pair_assign name v obj = obj[i := (name, v)]"
proof (induction obj arbitrary: i)
  case (Cons m obj)
  then show ?case by (cases m) (auto simp: first_index_Cons split: if_splits)
qed (simp add: first_index_def)

text \<open>\<open>json_object_set_value\<close> on the slots.\<close>

lemma set_value_object:
  assumes "object_ok object"
  shows "object_after (store_set_value m object name v)
    (map_of (pairs object) name \<noteq> None \<or> dup_ok m \<and> (obj_count object < obj_capacity object \<or> names_ok m \<and> values_ok m))
    (pairs object) (snd (json_object_set_value (pairs object) name (Some v)))"
proof (cases "first_index name (map fst (pairs object))")
  case None
  then have "map_of (pairs object) name = None" by (simp add: map_of_index)
  with addn_object [OF assms, of m name v] None show ?thesis
    by (simp add: store_set_value_def found_slot [OF assms] json_object_set_value_def json_object_add_def json_object_getn_value_map_of)
next
  case (Some i)
  then have i: "i < obj_count object" "fst (pairs object ! i) = name"
    using first_index_less [OF Some] object_okD(3) [OF assms] by (auto simp: nth_map)
  from write_used [OF object_okD(2) [OF assms] i(1), of v] obtain vs where
    vs: "write_slot (value_slots object) i (Some v) = Some vs" "slots_ok vs (obj_count object) (obj_capacity object)"
    "filled vs (obj_count object) = (filled (value_slots object) (obj_count object))[i := v]" "vs = None \<longleftrightarrow> value_slots object = None"
    by auto
  have "filled (name_slots object) (obj_count object) ! i = name"
    using i object_okD(3) [OF assms] by (simp flip: object_okD(4) [OF assms])
  then have same: "(filled (name_slots object) (obj_count object))[i := name] = filled (name_slots object) (obj_count object)"
    using list_update_id [of "filled (name_slots object) (obj_count object)" i] by simp
  have "object_ok (object\<lparr>value_slots := vs\<rparr>)" using assms vs(2,4) by (simp add: object_ok_def)
  moreover have "pairs (object\<lparr>value_slots := vs\<rparr>) = (pairs object)[i := (name, v)]"
    using same by (simp add: pairs_def vs(3) update_zip)
  ultimately show ?thesis
    using Some vs(1)
    by (auto simp: object_after_def store_set_value_def found_slot [OF assms] json_object_set_value_def map_of_index
        pair_assign_update [OF Some])
qed

text \<open>\<open>json_object_remove_internal\<close> on the slots.\<close>

lemma remove_object:
  assumes "object_ok object"
  shows "object_after (store_remove object name) (map_of (pairs object) name \<noteq> None)
    (pairs object) (the (snd (json_object_remove (Some (pairs object)) name)))"
proof (cases "first_index name (map fst (pairs object))")
  case None
  then show ?thesis using assms by (simp add: object_after_def store_remove_def found_slot [OF assms] map_of_index)
next
  case (Some i)
  let ?last = "obj_count object - 1"
  have i: "i < obj_count object" using first_index_less [OF Some] object_okD(3) [OF assms] by simp
  then have last: "?last < obj_count object" by simp
  note used = object_okD(1,2) [OF assms]
  obtain ns vs where w: "write_slot (name_slots object) i (Some (filled (name_slots object) (obj_count object) ! ?last)) = Some ns"
      "write_slot (value_slots object) i (Some (filled (value_slots object) (obj_count object) ! ?last)) = Some vs"
    and ok: "object_ok (object\<lparr>name_slots := ns, value_slots := vs\<rparr>)"
    and new: "pairs (object\<lparr>name_slots := ns, value_slots := vs\<rparr>) = (pairs object)[i := pairs object ! ?last]"
  proof -
    from write_used [OF used(1) i] write_used [OF used(2) i] obtain ns vs where
      "write_slot (name_slots object) i (Some (filled (name_slots object) (obj_count object) ! ?last)) = Some ns"
      "write_slot (value_slots object) i (Some (filled (value_slots object) (obj_count object) ! ?last)) = Some vs"
      "slots_ok ns (obj_count object) (obj_capacity object)" "slots_ok vs (obj_count object) (obj_capacity object)"
      "filled ns (obj_count object) = (filled (name_slots object) (obj_count object))[i := filled (name_slots object) (obj_count object) ! ?last]"
      "filled vs (obj_count object) = (filled (value_slots object) (obj_count object))[i := filled (value_slots object) (obj_count object) ! ?last]"
      "ns = None \<longleftrightarrow> name_slots object = None" "vs = None \<longleftrightarrow> value_slots object = None"
      by metis
    then show ?thesis
      using that [of ns vs] assms last length_filled [OF used(1)] length_filled [OF used(2)]
      by (simp add: object_ok_def pairs_def update_zip)
  qed
  have fewer: "object_ok (b\<lparr>obj_count := obj_count b - 1\<rparr>) \<and> pairs (b\<lparr>obj_count := obj_count b - 1\<rparr>) = butlast (pairs b)"
    if "object_ok b" for b :: "json object_store"
    using that fewer_slots [OF object_okD(1) [OF that], of "obj_count b - 1"] fewer_slots [OF object_okD(2) [OF that], of "obj_count b - 1"]
      length_filled [OF object_okD(1) [OF that]] length_filled [OF object_okD(2) [OF that]]
    by (simp add: object_ok_def pairs_def butlast_conv_take take_zip)
  show ?thesis
  proof (cases "i = ?last")
    case True
    then show ?thesis
      using fewer [OF assms] Some
      by (simp add: object_after_def store_remove_def found_slot [OF assms] map_of_index json_object_remove_def Let_def
          index_of_name_first object_okD(3) [OF assms])
  next
    case False
    then show ?thesis
      using fewer [OF ok] Some w read_used [OF used(1) last] read_used [OF used(2) last]
      by (simp add: object_after_def store_remove_def found_slot [OF assms] map_of_index json_object_remove_def Let_def
          index_of_name_first object_okD(3) [OF assms] new)
  qed
qed

section \<open>Arrays refine lists\<close>

definition array_ok :: "'v array_store \<Rightarrow> bool" where
  "array_ok array \<longleftrightarrow> slots_ok (items array) (arr_count array) (arr_capacity array) \<and> capacity_ok (arr_capacity array)"

definition elements :: "'v array_store \<Rightarrow> 'v list" where
  "elements array = filled (items array) (arr_count array)"

definition array_after :: "(json_status \<times> 'v array_store) option \<Rightarrow> bool \<Rightarrow> 'v list \<Rightarrow> 'v list \<Rightarrow> bool" where
  "array_after r success old new \<longleftrightarrow> (\<exists>status array. r = Some (status, array) \<and> array_ok array \<and>
     (status = JSONSuccess \<longleftrightarrow> success) \<and> elements array = (if success then new else old))"

lemma init_array: "array_ok json_array_init" "elements json_array_init = []"
  by (simp_all add: array_ok_def json_array_init_def elements_def capacity_ok_def)

lemma add_array:
  assumes "array_ok array"
  shows "array_after (json_array_add ok array v) (arr_count array < arr_capacity array \<or> ok)
    (elements array) (elements array @ [v])"
proof -
  let ?n = "arr_count array" and ?c = "arr_capacity array"
  have used: "slots_ok (items array) ?n ?c" "?n \<le> ?c" "capacity_ok ?c" using assms by (simp_all add: array_ok_def slots_ok_def)
  have add: "array_after (Some (JSONSuccess, array\<lparr>items := xs, arr_capacity := c, arr_count := Suc ?n\<rparr>)) True (elements array) (elements array @ [v])"
    if "slots_ok xs (Suc ?n) c" "filled xs (Suc ?n) = filled (items array) ?n @ [v]" "capacity_ok c" for xs c
    using that by (simp add: array_after_def array_ok_def elements_def)
  consider (room) "?n < ?c" | (fails) "?n = ?c" "\<not> ok" | (grows) "?n = ?c" ok using used(2) by linarith
  then show ?thesis
  proof cases
    case room
    with write_end [OF used(1) room, of v] add [of _ ?c] used(3) show ?thesis
      by (cases array) (auto simp: json_array_add_def)
  next
    case fails
    then show ?thesis using assms by (simp add: json_array_add_def json_array_resize_def array_after_def)
  next
    case grows
    have more: "?n < grown ?c" using grown_larger [OF used(2)] grows by simp
    with copied_ok [OF used(1), of "grown ?c"] obtain xs where
      xs: "copied_slots (grown ?c) (items array) ?n = Some xs" "slots_ok xs ?n (grown ?c)" "filled xs ?n = filled (items array) ?n"
      by auto
    from write_end [OF xs(2) more, of v] obtain ys where
      "write_slot xs ?n (Some v) = Some ys" "slots_ok ys (Suc ?n) (grown ?c)" "filled ys (Suc ?n) = filled xs ?n @ [v]" by auto
    with add [of ys "grown ?c"] capacity_grown [OF used(3)] grows xs more show ?thesis
      by (cases array) (auto simp: json_array_add_def json_array_resize_def)
  qed
qed

lemma remove_array:
  assumes "array_ok array"
  shows "array_after (store_array_remove array ix) (ix < arr_count array)
    (elements array) (the (snd (json_array_remove (Some (elements array)) ix)))"
proof (cases "ix < arr_count array")
  case True
  let ?n = "arr_count array" and ?xs = "slot_list (items array)"
  have used: "slots_ok (items array) ?n (arr_capacity array)" using assms by (simp add: array_ok_def)
  then have len: "?n \<le> length ?xs" "length (elements array) = ?n" by (simp_all add: slots_ok_def elements_def length_filled [OF used])
  define ys where "ys = take ix ?xs @ take (?n - 1 - ix) (drop (ix + 1) ?xs) @ drop (ix + (?n - 1 - ix)) ?xs"
  have pre: "take (?n - 1) ys = take ix (take ?n ?xs) @ drop (Suc ix) (take ?n ?xs)" "length ys = length ?xs"
    using True len(1) by (simp_all add: ys_def min_absorb2 drop_take)
  then have "None \<notin> set (take (?n - 1) ys)" "slots_ok (Some ys) (?n - 1) (arr_capacity array)"
    using used set_take_subset [of ix "take ?n ?xs"] set_drop_subset [of "Suc ix" "take ?n ?xs"]
    by (auto simp: slots_ok_def)
  moreover have "map the (take (?n - 1) ys) = take ix (elements array) @ drop (Suc ix) (elements array)"
    unfolding pre by (simp add: elements_def filled_def take_map drop_map)
  moreover have "json_array_remove (Some (elements array)) ix = (JSONSuccess, Some (take ix (elements array) @ drop (Suc ix) (elements array)))"
    using True len(2) by (simp add: json_array_remove_def json_array_get_count_def)
  moreover have "store_array_remove array ix = Some (JSONSuccess, array\<lparr>items := Some ys, arr_count := ?n - 1\<rparr>)"
    using True len(1) by (simp add: store_array_remove_def ys_def Let_def)
  ultimately show ?thesis using True assms by (simp add: array_after_def array_ok_def elements_def filled_def)
qed (use assms in \<open>simp add: store_array_remove_def array_after_def\<close>)

lemma replace_array:
  assumes "array_ok array"
  shows "array_after (store_array_replace array ix v) (ix < arr_count array)
    (elements array) ((elements array)[ix := v])"
proof (cases "ix < arr_count array")
  case True
  have used: "slots_ok (items array) (arr_count array) (arr_capacity array)" using assms by (simp add: array_ok_def)
  from write_used [OF this True, of v] assms True show ?thesis
    by (auto simp: store_array_replace_def array_after_def array_ok_def elements_def)
qed (use assms in \<open>simp add: store_array_replace_def array_after_def\<close>)

section \<open>Sequences of operations\<close>

datatype object_op = Set_value cstring json mallocs | Remove_name cstring
datatype array_op = Append_value json bool | Replace_value nat json | Remove_value nat

fun object_step :: "object_op \<Rightarrow> json object_store \<Rightarrow> (json_status \<times> json object_store) option" where
  "object_step (Set_value name v m) object = store_set_value m object name v"
| "object_step (Remove_name name) object = store_remove object name"

fun array_step :: "array_op \<Rightarrow> json array_store \<Rightarrow> (json_status \<times> json array_store) option" where
  "array_step (Append_value v ok) array = json_array_add ok array v"
| "array_step (Replace_value ix v) array = store_array_replace array ix v"
| "array_step (Remove_value ix) array = store_array_remove array ix"

text \<open>The statuses of the calls, and the store after them.\<close>

fun run_ops :: "('op \<Rightarrow> 's \<Rightarrow> (json_status \<times> 's) option) \<Rightarrow> 'op list \<Rightarrow> 's \<Rightarrow> (json_status list \<times> 's) option" where
  "run_ops step [] s = Some ([], s)"
| "run_ops step (x # xs) s = do {
     (status, s1) \<leftarrow> step x s;
     (statuses, s2) \<leftarrow> run_ops step xs s1;
     Some (status # statuses, s2) }"

text \<open>
  What the calls are to do: the operations of \<open>JsonValue\<close>, except that one that adds a value may fail,
  without any effect, when memory is short.
\<close>

fun object_spec :: "object_op \<Rightarrow> json_object \<Rightarrow> json_status \<Rightarrow> json_object \<Rightarrow> bool" where
  "object_spec (Set_value name v m) obj status obj' \<longleftrightarrow>
     (status, obj') = json_object_set_value obj name (Some v) \<or>
     status = JSONFailure \<and> obj' = obj \<and> \<not> (names_ok m \<and> values_ok m \<and> dup_ok m)"
| "object_spec (Remove_name name) obj status obj' \<longleftrightarrow> (status, Some obj') = json_object_remove (Some obj) name"

fun array_spec :: "array_op \<Rightarrow> json list \<Rightarrow> json_status \<Rightarrow> json list \<Rightarrow> bool" where
  "array_spec (Append_value v ok) xs status xs' \<longleftrightarrow>
     (status, Some xs') = json_array_append_value (Some xs) (Some v) \<or> status = JSONFailure \<and> xs' = xs \<and> \<not> ok"
| "array_spec (Replace_value ix v) xs status xs' \<longleftrightarrow> (status, Some xs') = json_array_replace_value (Some xs) ix (Some v)"
| "array_spec (Remove_value ix) xs status xs' \<longleftrightarrow> (status, Some xs') = json_array_remove (Some xs) ix"

fun specified :: "('op \<Rightarrow> 'a \<Rightarrow> json_status \<Rightarrow> 'a \<Rightarrow> bool) \<Rightarrow> 'op list \<Rightarrow> json_status list \<Rightarrow> 'a \<Rightarrow> 'a \<Rightarrow> bool" where
  "specified spec [] [] a b \<longleftrightarrow> a = b"
| "specified spec (x # xs) (status # statuses) a c \<longleftrightarrow> (\<exists>b. spec x a status b \<and> specified spec xs statuses b c)"
| "specified spec _ _ a b \<longleftrightarrow> False"

locale store_refinement =
  fixes step :: "'op \<Rightarrow> 's \<Rightarrow> (json_status \<times> 's) option"
    and spec :: "'op \<Rightarrow> 'a \<Rightarrow> json_status \<Rightarrow> 'a \<Rightarrow> bool"
    and ok :: "'s \<Rightarrow> bool" and contents :: "'s \<Rightarrow> 'a"
  assumes step_ok: "ok s \<Longrightarrow> \<exists>status s'. step x s = Some (status, s') \<and> ok s' \<and> spec x (contents s) status (contents s')"
begin

lemma run_refines:
  "ok s \<Longrightarrow> \<exists>statuses s'. run_ops step xs s = Some (statuses, s') \<and> ok s' \<and> specified spec xs statuses (contents s) (contents s')"
proof (induction xs arbitrary: s)
  case (Cons x xs)
  from step_ok [OF Cons.prems, of x] obtain status s1 where
    one: "step x s = Some (status, s1)" "ok s1" "spec x (contents s) status (contents s1)" by blast
  from Cons.IH [OF one(2)] obtain statuses s2 where
    "run_ops step xs s1 = Some (statuses, s2)" "ok s2" "specified spec xs statuses (contents s1) (contents s2)" by blast
  with one show ?case by auto
qed simp

end

lemma not_success [simp]: "status \<noteq> JSONSuccess \<longleftrightarrow> status = JSONFailure"
  by (cases status) simp_all

lemma object_step_ok:
  assumes "object_ok object"
  shows "\<exists>status object'. object_step x object = Some (status, object') \<and> object_ok object' \<and>
    object_spec x (pairs object) status (pairs object')"
proof (cases x)
  case (Set_value name v m)
  have "fst (json_object_set_value (pairs object) name (Some v)) = JSONSuccess"
    by (simp add: json_object_set_value_def json_object_add_def json_object_getn_value_map_of)
  with set_value_object [OF assms, of m name v] show ?thesis
    by (cases "json_object_set_value (pairs object) name (Some v)") (auto simp: Set_value object_after_def split: if_splits)
next
  case (Remove_name name)
  have "json_object_remove (Some (pairs object)) name =
      (if map_of (pairs object) name = None then JSONFailure else JSONSuccess, snd (json_object_remove (Some (pairs object)) name))"
    "snd (json_object_remove (Some (pairs object)) name) \<noteq> None"
    by (auto simp: json_object_remove_def Let_def map_of_index index_of_name_first split: option.split)
  moreover have "map_of (pairs object) name = None \<Longrightarrow> snd (json_object_remove (Some (pairs object)) name) = Some (pairs object)"
    by (simp add: json_object_remove_def)
  ultimately show ?thesis
    using remove_object [OF assms, of name] by (force simp: Remove_name object_after_def split: if_splits)
qed

interpretation object_store: store_refinement object_step object_spec object_ok pairs
  by unfold_locales (rule object_step_ok)

lemma array_step_ok:
  assumes "array_ok array"
  shows "\<exists>status array'. array_step x array = Some (status, array') \<and> array_ok array' \<and>
    array_spec x (elements array) status (elements array')"
proof -
  have n: "length (elements array) = arr_count array" using assms by (auto simp: array_ok_def elements_def dest: length_filled)
  show ?thesis
  proof (cases x)
    case (Append_value v ok)
    with add_array [OF assms, of ok v] show ?thesis by (auto simp: array_after_def json_array_append_value_def split: if_splits)
  next
    case (Replace_value ix v)
    with replace_array [OF assms, of ix v] n show ?thesis
      by (auto simp: array_after_def json_array_replace_value_def split: if_splits)
  next
    case (Remove_value ix)
    with remove_array [OF assms, of ix] n show ?thesis
      by (auto simp: array_after_def json_array_remove_def json_array_get_count_def split: if_splits)
  qed
qed

interpretation array_store: store_refinement array_step array_spec array_ok elements
  by unfold_locales (rule array_step_ok)

text \<open>
  C15: The growing arrays. Every sequence of calls on a new object, or a new array, is defined, whatever
  memory it gets: no slot is accessed outside of the arrays or read before it has been written. Each call does
  to the members what the operation of \<open>JsonValue\<close> does, or it fails for want of memory and changes none;
  and the capacity is 0 or 16 times a power of two.
\<close>

theorem stores_refine:
  "(\<exists>statuses object. run_ops object_step ops json_object_init = Some (statuses, object) \<and>
      specified object_spec ops statuses [] (pairs object) \<and> length (pairs object) \<le> obj_capacity object \<and>
      capacity_ok (obj_capacity object)) \<and>
    (\<exists>statuses array. run_ops array_step ops' json_array_init = Some (statuses, array) \<and>
      specified array_spec ops' statuses [] (elements array) \<and> length (elements array) \<le> arr_capacity array \<and>
      capacity_ok (arr_capacity array))"
proof (rule conjI)
  from object_store.run_refines [OF init_object(1), of ops] obtain statuses object where
    "run_ops object_step ops json_object_init = Some (statuses, object)" "object_ok object"
    "specified object_spec ops statuses [] (pairs object)" by (auto simp: init_object)
  moreover from this(2) have "length (pairs object) \<le> obj_capacity object" "capacity_ok (obj_capacity object)"
    by (simp_all add: object_okD(3)) (simp_all add: object_ok_def slots_ok_def)
  ultimately show "\<exists>statuses object. run_ops object_step ops json_object_init = Some (statuses, object) \<and>
      specified object_spec ops statuses [] (pairs object) \<and> length (pairs object) \<le> obj_capacity object \<and>
      capacity_ok (obj_capacity object)" by blast
next
  from array_store.run_refines [OF init_array(1), of ops'] obtain statuses array where
    "run_ops array_step ops' json_array_init = Some (statuses, array)" "array_ok array"
    "specified array_spec ops' statuses [] (elements array)" by (auto simp: init_array)
  moreover from this(2) have "length (elements array) \<le> arr_capacity array" "capacity_ok (arr_capacity array)"
    by (auto simp: array_ok_def slots_ok_def elements_def filled_def)
  ultimately show "\<exists>statuses array. run_ops array_step ops' json_array_init = Some (statuses, array) \<and>
      specified array_spec ops' statuses [] (elements array) \<and> length (elements array) \<le> arr_capacity array \<and>
      capacity_ok (arr_capacity array)" by blast
qed

end
