(* ===== verification/JsonHeap.thy ===== *)
theory JsonHeap
  imports JsonStore
begin

text \<open>
  The memory of the values of \<^verbatim>\<open>common/parson.c\<close>: each value is a cell of the heap with a pointer
  to its parent, and objects and arrays hold the addresses of their members. A cell
  stands for the value with the object or array, the pointer arrays and the strings
  that are allocated and freed with it (their slots are in \<open>JsonStore\<close>). A pointer to an object or array is
  the address of the value that wraps it. Reading or freeing a cell that is not there is
  undefined. The lemmas show that the operations do to the trees in memory what the operations of
  \<open>JsonValue\<close> do to values, that nothing is freed twice and only a value that cannot be stored is lost, and what a value that is put into
  itself leads to.
\<close>

section \<open>Values in memory\<close>

datatype 'a json_union =
    Null_value
  | String_value cstring
  | Number_value double
  | Boolean_value bool
  | Object_value "(cstring \<times> 'a) list"
  | Array_value "'a list"

record json_cell =
  parent :: "nat option"
  content :: "nat json_union"

type_synonym json_heap = "json_cell heap"

fun children :: "'a json_union \<Rightarrow> 'a list" where
  "children (Object_value ms) = map snd ms"
| "children (Array_value xs) = xs"
| "children _ = []"

definition set_parent :: "nat \<Rightarrow> nat option \<Rightarrow> json_heap \<Rightarrow> json_heap option" where
  "set_parent a p h = do { c \<leftarrow> deref h a; hwrite a (c\<lparr>parent := p\<rparr>) h }"

definition set_content :: "nat \<Rightarrow> nat json_union \<Rightarrow> json_heap \<Rightarrow> json_heap option" where
  "set_content a u h = do { c \<leftarrow> deref h a; hwrite a (c\<lparr>content := u\<rparr>) h }"

definition object_at :: "json_heap \<Rightarrow> nat \<Rightarrow> (cstring \<times> nat) list option" where
  "object_at h a = do { c \<leftarrow> deref h a; case content c of Object_value ms \<Rightarrow> Some ms | _ \<Rightarrow> None }"

definition array_at :: "json_heap \<Rightarrow> nat \<Rightarrow> nat list option" where
  "array_at h a = do { c \<leftarrow> deref h a; case content c of Array_value xs \<Rightarrow> Some xs | _ \<Rightarrow> None }"

text \<open>\<open>json_value_init_object\<close> and its siblings: a value without a parent; \<open>None\<close> where there is no memory.\<close>

definition json_value_new :: "bool \<Rightarrow> nat json_union \<Rightarrow> json_heap \<Rightarrow> nat option \<times> json_heap" where
  "json_value_new ok u h = (if ok then (case alloc \<lparr>parent = None, content = u\<rparr> h of (a, h1) \<Rightarrow> (Some a, h1)) else (None, h))"

definition json_value_get_parent :: "nat option \<Rightarrow> json_heap \<Rightarrow> nat option option" where
  "json_value_get_parent v h = (case v of None \<Rightarrow> Some None | Some a \<Rightarrow> do { c \<leftarrow> deref h a; Some (parent c) })"

text \<open>
  \<open>json_value_free\<close> frees the members and then the value; it descends at most \<open>fuel\<close> levels. The
  number of values in a tree is always enough; without an end of the
  recursion there is no result for any fuel.
\<close>

fun json_value_free :: "nat \<Rightarrow> nat option \<Rightarrow> json_heap \<Rightarrow> json_heap option" where
  "json_value_free fuel None h = Some h"
| "json_value_free 0 (Some a) h = None"
| "json_value_free (Suc fuel) (Some a) h = do {
     c \<leftarrow> deref h a;
     h1 \<leftarrow> fold_ub (\<lambda>b. json_value_free fuel (Some b)) (children (content c)) h;
     hfree a h1 }"

section \<open>Operations on objects and arrays\<close>

text \<open>
  A value that has a parent is refused. \<open>ok\<close>: whether there is memory for what is added. The
  pointers are read again after a member has been freed.
\<close>

definition array_append :: "bool \<Rightarrow> nat option \<Rightarrow> nat option \<Rightarrow> json_heap \<Rightarrow> (json_status \<times> json_heap) option" where
  "array_append ok array v h =
     (case (array, v) of
        (Some a, Some b) \<Rightarrow> do {
          p \<leftarrow> json_value_get_parent v h;
          if p \<noteq> None then Some (JSONFailure, h)
          else do {
            xs \<leftarrow> array_at h a;
            if \<not> ok then Some (JSONFailure, h)
            else do {
              h1 \<leftarrow> set_parent b (Some a) h;
              h2 \<leftarrow> set_content a (Array_value (xs @ [b])) h1;
              Some (JSONSuccess, h2) } } }
      | _ \<Rightarrow> Some (JSONFailure, h))"

definition array_replace :: "nat \<Rightarrow> nat option \<Rightarrow> nat \<Rightarrow> nat option \<Rightarrow> json_heap \<Rightarrow> (json_status \<times> json_heap) option" where
  "array_replace fuel array ix v h =
     (case (array, v) of
        (Some a, Some b) \<Rightarrow> do {
          p \<leftarrow> json_value_get_parent v h;
          if p \<noteq> None then Some (JSONFailure, h)
          else do {
            xs \<leftarrow> array_at h a;
            if length xs \<le> ix then Some (JSONFailure, h)
            else do {
              h1 \<leftarrow> json_value_free fuel (Some (xs ! ix)) h;
              h2 \<leftarrow> set_parent b (Some a) h1;
              ys \<leftarrow> array_at h2 a;
              h3 \<leftarrow> set_content a (Array_value (ys[ix := b])) h2;
              Some (JSONSuccess, h3) } } }
      | _ \<Rightarrow> Some (JSONFailure, h))"

definition array_remove :: "nat \<Rightarrow> nat option \<Rightarrow> nat \<Rightarrow> json_heap \<Rightarrow> (json_status \<times> json_heap) option" where
  "array_remove fuel array ix h =
     (case array of
        None \<Rightarrow> Some (JSONFailure, h)
      | Some a \<Rightarrow> do {
          xs \<leftarrow> array_at h a;
          if length xs \<le> ix then Some (JSONFailure, h)
          else do {
            h1 \<leftarrow> json_value_free fuel (Some (xs ! ix)) h;
            ys \<leftarrow> array_at h1 a;
            h2 \<leftarrow> set_content a (Array_value (take ix ys @ drop (Suc ix) ys)) h1;
            Some (JSONSuccess, h2) } })"

text \<open>The pair with this name gets a new value.\<close>

fun assign_address :: "cstring \<Rightarrow> 'a \<Rightarrow> (cstring \<times> 'a) list \<Rightarrow> (cstring \<times> 'a) list" where
  "assign_address name b [] = []"
| "assign_address name b ((n, a) # ms) = (if n = name then (n, b) # ms else (n, a) # assign_address name b ms)"

definition object_set :: "nat \<Rightarrow> bool \<Rightarrow> nat option \<Rightarrow> cstring \<Rightarrow> nat option \<Rightarrow> json_heap \<Rightarrow> (json_status \<times> json_heap) option" where
  "object_set fuel ok object name v h =
     (case (object, v) of
        (Some a, Some b) \<Rightarrow> do {
          p \<leftarrow> json_value_get_parent v h;
          if p \<noteq> None then Some (JSONFailure, h)
          else do {
            ms \<leftarrow> object_at h a;
            case map_of ms name of
              Some old_value \<Rightarrow> do {
                h1 \<leftarrow> json_value_free fuel (Some old_value) h;
                h2 \<leftarrow> set_parent b (Some a) h1;
                ms1 \<leftarrow> object_at h2 a;
                h3 \<leftarrow> set_content a (Object_value (assign_address name b ms1)) h2;
                Some (JSONSuccess, h3) }
            | None \<Rightarrow>
                if \<not> ok then Some (JSONFailure, h)
                else do {
                  h1 \<leftarrow> set_parent b (Some a) h;
                  h2 \<leftarrow> set_content a (Object_value (ms @ [(name, b)])) h1;
                  Some (JSONSuccess, h2) } } }
      | _ \<Rightarrow> Some (JSONFailure, h))"

text \<open>
  \<open>json_object_set_string\<close> and its siblings: a new value is made and set. Where setting fails
  the new value is not freed.
\<close>

definition object_set_new :: "nat \<Rightarrow> bool \<Rightarrow> bool \<Rightarrow> nat option \<Rightarrow> cstring \<Rightarrow> nat json_union \<Rightarrow> json_heap \<Rightarrow> (json_status \<times> json_heap) option" where
  "object_set_new fuel made ok object name u h =
     (case json_value_new made u h of (v, h1) \<Rightarrow> object_set fuel ok object name v h1)"

text \<open>The slot of a name, and the pairs without it: the last pair takes its place.\<close>

definition remove_pair :: "nat \<Rightarrow> 'a list \<Rightarrow> 'a list" where
  "remove_pair i ms = butlast (if i \<noteq> length ms - 1 then ms[i := ms ! (length ms - 1)] else ms)"

definition object_remove :: "nat \<Rightarrow> nat option \<Rightarrow> cstring \<Rightarrow> bool \<Rightarrow> json_heap \<Rightarrow> (json_status \<times> json_heap) option" where
  "object_remove fuel object name free_value h =
     (case object of
        None \<Rightarrow> Some (JSONFailure, h)
      | Some a \<Rightarrow> do {
          ms \<leftarrow> object_at h a;
          case first_index name (map fst ms) of
            None \<Rightarrow> Some (JSONFailure, h)
          | Some i \<Rightarrow> do {
              h1 \<leftarrow> if free_value then json_value_free fuel (Some (snd (ms ! i))) h else Some h;
              ms1 \<leftarrow> object_at h1 a;
              h2 \<leftarrow> set_content a (Object_value (remove_pair i ms1)) h1;
              Some (JSONSuccess, h2) } })"

text \<open>Clearing keeps the slots.\<close>

definition array_clear :: "nat \<Rightarrow> nat option \<Rightarrow> json_heap \<Rightarrow> (json_status \<times> json_heap) option" where
  "array_clear fuel array h =
     (case array of
        None \<Rightarrow> Some (JSONFailure, h)
      | Some a \<Rightarrow> do {
          xs \<leftarrow> array_at h a;
          h1 \<leftarrow> fold_ub (\<lambda>b. json_value_free fuel (Some b)) xs h;
          h2 \<leftarrow> set_content a (Array_value []) h1;
          Some (JSONSuccess, h2) })"

definition object_clear :: "nat \<Rightarrow> nat option \<Rightarrow> json_heap \<Rightarrow> (json_status \<times> json_heap) option" where
  "object_clear fuel object h =
     (case object of
        None \<Rightarrow> Some (JSONFailure, h)
      | Some a \<Rightarrow> do {
          ms \<leftarrow> object_at h a;
          h1 \<leftarrow> fold_ub (\<lambda>b. json_value_free fuel (Some b)) (map snd ms) h;
          h2 \<leftarrow> set_content a (Object_value []) h1;
          Some (JSONSuccess, h2) })"

section \<open>Trees\<close>

text \<open>A value with the addresses of its cells.\<close>

datatype located = Located (addr: nat) (shape: "located json_union")

lemma child_smaller: "t \<in> set (children u) \<Longrightarrow> size t < size_json_union size u"
  by (cases u) (auto dest: size_list_estimation' [where f = size, OF _ order_refl] split: prod.splits
    intro!: le_imp_less_Suc elim!: size_list_estimation' [where f = "size_prod (\<lambda>_. 0) size"])

fun addrs :: "located \<Rightarrow> nat list" where
  "addrs (Located a (Object_value ms)) = a # concat (map (\<lambda>(n, t). addrs t) ms)"
| "addrs (Located a (Array_value ts)) = a # concat (map addrs ts)"
| "addrs (Located a u) = [a]"

fun erase :: "located \<Rightarrow> json" where
  "erase (Located a Null_value) = JNull"
| "erase (Located a (String_value s)) = JString s"
| "erase (Located a (Number_value d)) = JNumber d"
| "erase (Located a (Boolean_value b)) = JBoolean b"
| "erase (Located a (Object_value ms)) = JObject (map (\<lambda>(n, t). (n, erase t)) ms)"
| "erase (Located a (Array_value ts)) = JArray (map erase ts)"

definition at_cell :: "json_heap \<Rightarrow> nat option \<Rightarrow> nat \<Rightarrow> located json_union \<Rightarrow> bool" where
  "at_cell h p a u \<longleftrightarrow> cells h a = Some \<lparr>parent = p, content = map_json_union addr u\<rparr>"

function stored :: "json_heap \<Rightarrow> nat option \<Rightarrow> located \<Rightarrow> bool" where
  "stored h p (Located a u) \<longleftrightarrow> at_cell h p a u \<and> (\<forall>t \<in> set (children u). stored h (Some a) t)"
  by pat_completeness auto
termination by (relation "measure (\<lambda>(h, p, t). size t)") (auto dest: child_smaller)

declare stored.simps [simp del]

text \<open>The tree is in memory, and its cells are all different.\<close>

definition owns :: "json_heap \<Rightarrow> nat option \<Rightarrow> located \<Rightarrow> bool" where
  "owns h p t \<longleftrightarrow> stored h p t \<and> distinct (addrs t)"

lemma addrs_Located: "addrs (Located a u) = a # concat (map addrs (children u))"
  by (cases u) (simp_all add: split_def comp_def)

lemma children_map: "children (map_json_union f u) = map f (children u)"
  by (cases u) (simp_all add: case_prod_beta)

lemma addr_in: "addr t \<in> set (addrs t)"
  by (cases t) (simp add: addrs_Located)

lemma owns_Located:
  "owns h p (Located a u) \<longleftrightarrow> at_cell h p a u \<and> (\<forall>t \<in> set (children u). owns h (Some a) t) \<and>
     distinct (a # concat (map addrs (children u)))"
  by (auto simp: owns_def stored.simps addrs_Located distinct_concat_iff)

lemma stored_frame:
  "\<forall>x \<in> set (addrs t). cells h' x = cells h x \<Longrightarrow> stored h' p t = stored h p t"
proof (induction t arbitrary: p rule: measure_induct_rule [where f = size])
  case (less t)
  obtain a u where t: "t = Located a u" by (cases t)
  have "stored h' (Some a) s = stored h (Some a) s" if "s \<in> set (children u)" for s
    using that less.prems child_smaller [OF that] by (intro less.IH) (auto simp: t addrs_Located)
  with less.prems show ?case by (auto simp: t stored.simps at_cell_def addrs_Located)
qed

lemma owns_frame: "owns h p t \<Longrightarrow> \<forall>x \<in> set (addrs t). cells h' x = cells h x \<Longrightarrow> owns h' p t"
  using stored_frame [of t h' h p] by (simp add: owns_def)

lemma stored_live: "stored h p t \<Longrightarrow> set (addrs t) \<subseteq> dom (cells h)"
proof (induction t arbitrary: p rule: measure_induct_rule [where f = size])
  case (less t)
  obtain a u where t: "t = Located a u" by (cases t)
  have "set (addrs s) \<subseteq> dom (cells h)" if "s \<in> set (children u)" for s
    using that less.prems child_smaller [OF that] by (intro less.IH) (auto simp: t stored.simps)
  with less.prems show ?case by (auto simp: t stored.simps at_cell_def addrs_Located)
qed

section \<open>Freeing\<close>

text \<open>The heap without the cells of \<open>A\<close>.\<close>

definition without :: "nat set \<Rightarrow> json_heap \<Rightarrow> json_heap" where
  "without A h = h\<lparr>cells := cells h |` (- A)\<rparr>"

lemma cells_without [simp]: "cells (without A h) x = (if x \<in> A then None else cells h x)"
  by (simp add: without_def restrict_map_def)

lemma without_empty [simp]: "without {} h = h"
  by (cases h) (simp add: without_def restrict_map_def)

lemma without_without [simp]: "without A (without B h) = without (B \<union> A) h"
  by (simp add: without_def restrict_map_def fun_eq_iff)

lemma hfree_without: "cells h a \<noteq> None \<Longrightarrow> hfree a h = Some (without {a} h)"
  by (auto simp: hfree_def without_def restrict_map_def fun_eq_iff)

lemma free_trees:
  assumes "\<And>t g. t \<in> set ts \<Longrightarrow> owns g p t \<Longrightarrow> F (addr t) g = Some (without (set (addrs t)) g)"
    and "\<And>t. t \<in> set ts \<Longrightarrow> owns h p t" and "distinct (concat (map addrs ts))"
  shows "fold_ub F (map addr ts) h = Some (without (set (concat (map addrs ts))) h)"
  using assms
proof (induction ts arbitrary: h)
  case (Cons t ts)
  have "owns (without (set (addrs t)) h) p s" if "s \<in> set ts" for s
    using that Cons.prems(3) by (intro owns_frame [OF Cons.prems(2) [of s]]) auto
  with Cons.prems have "fold_ub F (map addr ts) (without (set (addrs t)) h) =
      Some (without (set (concat (map addrs ts))) (without (set (addrs t)) h))"
    by (intro Cons.IH) auto
  moreover have "F (addr t) h = Some (without (set (addrs t)) h)" using Cons.prems by auto
  ultimately show ?case by simp
qed simp

lemma free_tree:
  "owns h p t \<Longrightarrow> length (addrs t) \<le> fuel \<Longrightarrow> json_value_free fuel (Some (addr t)) h = Some (without (set (addrs t)) h)"
proof (induction t arbitrary: p h fuel rule: measure_induct_rule [where f = size])
  case (less t)
  obtain a u where t: "t = Located a u" by (cases t)
  from less.prems(2) obtain n where n: "fuel = Suc n" by (cases fuel) (auto simp: t addrs_Located)
  note own = less.prems(1) [unfolded t owns_Located]
  have "json_value_free n (Some (addr s)) g = Some (without (set (addrs s)) g)" if "s \<in> set (children u)" "owns g (Some a) s" for s g
  proof -
    have "length (addrs s) \<le> length (concat (map addrs (children u)))"
      using member_le_sum_list [of "length (addrs s)" "map (length \<circ> addrs) (children u)"] that(1)
      by (simp add: length_concat comp_def)
    with less.prems(2) that child_smaller [OF that(1)] show ?thesis
      by (intro less.IH) (auto simp: t n addrs_Located)
  qed
  then have "fold_ub (\<lambda>b. json_value_free n (Some b)) (map addr (children u)) h =
      Some (without (set (concat (map addrs (children u)))) h)"
    using own by (intro free_trees [where p = "Some a"]) auto
  then show ?case
    using own by (auto simp: t n addrs_Located at_cell_def deref_def children_map hfree_without)
qed

section \<open>Changing a tree\<close>

definition put :: "nat \<Rightarrow> json_cell \<Rightarrow> json_heap \<Rightarrow> json_heap" where
  "put a c h = h\<lparr>cells := (cells h)(a \<mapsto> c)\<rparr>"

lemma cells_put [simp]: "cells (put a c h) x = (if x = a then Some c else cells h x)"
  by (simp add: put_def)

lemma set_parent_put: "cells h a = Some c \<Longrightarrow> set_parent a p h = Some (put a (c\<lparr>parent := p\<rparr>) h)"
  by (simp add: set_parent_def deref_def hwrite_def put_def)

lemma set_content_put: "cells h a = Some c \<Longrightarrow> set_content a u h = Some (put a (c\<lparr>content := u\<rparr>) h)"
  by (simp add: set_content_def deref_def hwrite_def put_def)

lemma array_at_cell: "at_cell h p a (Array_value ts) \<Longrightarrow> array_at h a = Some (map addr ts)"
  by (simp add: array_at_def at_cell_def deref_def)

lemma object_at_cell: "at_cell h p a (Object_value ms) \<Longrightarrow> object_at h a = Some (map (\<lambda>(n, t). (n, addr t)) ms)"
  by (auto simp: object_at_def at_cell_def deref_def)

text \<open>A tree under another parent.\<close>

lemma owns_reparent:
  "owns h q s \<Longrightarrow> \<exists>c. cells h (addr s) = Some c \<and> parent c = q \<and> owns (put (addr s) (c\<lparr>parent := p\<rparr>) h) p s"
proof -
  assume own: "owns h q s"
  obtain b u where s: "s = Located b u" by (cases s)
  from own have o: "at_cell h q b u" "\<forall>t \<in> set (children u). owns h (Some b) t" "distinct (b # concat (map addrs (children u)))"
    by (simp_all add: s owns_Located)
  let ?h = "put b (\<lparr>parent = p, content = map_json_union addr u\<rparr>) h"
  have "owns ?h (Some b) t" if "t \<in> set (children u)" for t
    using that o(3) by (intro owns_frame [OF o(2) [rule_format, OF that]]) auto
  then have "owns ?h p s" using o(3) by (auto simp: s owns_Located at_cell_def)
  with o(1) show ?thesis by (simp add: s at_cell_def)
qed

text \<open>
  A container \<open>a\<close> of which the cells in \<open>D\<close> have been freed gets new contents, made of old members
  that are still there and of the trees in \<open>new\<close>, which are \<open>a\<close>'s already.
\<close>

lemma owns_contents:
  assumes "owns h p (Located a u)" and "\<forall>x. x \<notin> D \<union> N \<longrightarrow> cells g x = cells h x" and "a \<notin> D \<union> N"
    and "\<forall>t \<in> set (children u'). owns g (Some a) t \<or> t \<in> set (children u) \<and> set (addrs t) \<inter> (D \<union> N) = {}"
    and "distinct (a # concat (map addrs (children u')))"
  shows "set_content a (map_json_union addr u') g = Some (put a \<lparr>parent = p, content = map_json_union addr u'\<rparr> g) \<and>
    owns (put a \<lparr>parent = p, content = map_json_union addr u'\<rparr> g) p (Located a u')"
proof -
  let ?g = "put a \<lparr>parent = p, content = map_json_union addr u'\<rparr> g"
  note o = assms(1) [unfolded owns_Located]
  from o assms(2,3) have a: "cells g a = Some \<lparr>parent = p, content = map_json_union addr u\<rparr>" by (simp add: at_cell_def)
  have "owns ?g (Some a) t" if t: "t \<in> set (children u')" for t
  proof -
    have "a \<notin> set (addrs t)" using assms(5) t by auto
    moreover have "owns g (Some a) t"
      using assms(4) [rule_format, OF t]
    proof
      assume "t \<in> set (children u) \<and> set (addrs t) \<inter> (D \<union> N) = {}"
      then show ?thesis using o assms(2) by (intro owns_frame [of h "Some a" t g]) auto
    qed
    ultimately show ?thesis by (intro owns_frame [of g "Some a" t ?g]) auto
  qed
  with assms(5) a show ?thesis by (auto simp: owns_Located at_cell_def set_content_put)
qed

text \<open>What an operation on the cells in \<open>A\<close> does: \<open>A'\<close> is what is left of them, the others are as they were.\<close>

definition touches :: "json_heap \<Rightarrow> json_heap \<Rightarrow> nat set \<Rightarrow> nat set \<Rightarrow> bool" where
  "touches h h' A A' \<longleftrightarrow> A' \<subseteq> A \<and> (\<forall>x. x \<notin> A \<longrightarrow> cells h' x = cells h x) \<and> dom (cells h') = dom (cells h) - (A - A')"

text \<open>Freeing the cells in \<open>D\<close> and adopting the tree \<open>s\<close>.\<close>

lemma adopt:
  assumes "owns h p (Located a u)" and "owns h None s" and "set (addrs (Located a u)) \<inter> set (addrs s) = {}"
    and "D \<subseteq> set (addrs (Located a u))" and "a \<notin> D"
    and "\<forall>t \<in> set (children u'). t = s \<or> t \<in> set (children u) \<and> set (addrs t) \<inter> D = {}"
    and "distinct (a # concat (map addrs (children u')))"
    and "set (addrs (Located a u')) = set (addrs (Located a u)) \<union> set (addrs s) - D"
  shows "\<exists>g h'. set_parent (addr s) (Some a) (without D h) = Some g \<and> at_cell g p a u \<and>
    set_content a (map_json_union addr u') g = Some h' \<and> owns h' p (Located a u') \<and>
    touches h h' (set (addrs (Located a u)) \<union> set (addrs s)) (set (addrs (Located a u')))"
proof -
  let ?S = "set (addrs s)" and ?h1 = "without D h"
  have b: "addr s \<in> ?S" by (rule addr_in)
  have own: "owns ?h1 None s" using assms(3,4) by (intro owns_frame [OF assms(2)]) auto
  from owns_reparent [OF this, of "Some a"] obtain c where
    c: "cells ?h1 (addr s) = Some c" "owns (put (addr s) (c\<lparr>parent := Some a\<rparr>) ?h1) (Some a) s" by blast
  let ?g = "put (addr s) (c\<lparr>parent := Some a\<rparr>) ?h1"
  have a: "a \<in> set (addrs (Located a u))" using addr_in [of "Located a u"] by simp
  with assms(3) have ne: "a \<notin> ?S" by auto
  have frame: "\<forall>x. x \<notin> D \<union> {addr s} \<longrightarrow> cells ?g x = cells h x" by simp
  have "owns ?g (Some a) t \<or> t \<in> set (children u) \<and> set (addrs t) \<inter> (D \<union> {addr s}) = {}" if "t \<in> set (children u')" for t
  proof -
    have "addr s \<notin> set (addrs t)" if "t \<in> set (children u)" using that b assms(3) by (auto simp: addrs_Located)
    with assms(6) that c(2) show ?thesis by auto
  qed
  moreover have "a \<notin> D \<union> {addr s}" using assms(5) ne b by auto
  ultimately obtain h' where h': "h' = put a \<lparr>parent = p, content = map_json_union addr u'\<rparr> ?g"
    "set_content a (map_json_union addr u') ?g = Some h'" "owns h' p (Located a u')"
    using owns_contents [OF assms(1) frame _ _ assms(7)] by blast
  have live: "cells h a \<noteq> None" "cells h (addr s) \<noteq> None"
    using stored_live [of h p "Located a u"] stored_live [of h None s] assms(1,2) a b by (auto simp: owns_def)
  have "at_cell ?g p a u" using assms(1,5) ne b by (auto simp: owns_Located at_cell_def)
  moreover have "touches h h' (set (addrs (Located a u)) \<union> ?S) (set (addrs (Located a u')))"
    unfolding touches_def
  proof (intro conjI)
    show "set (addrs (Located a u')) \<subseteq> set (addrs (Located a u)) \<union> ?S" using assms(8) by blast
    show "\<forall>x. x \<notin> set (addrs (Located a u)) \<union> ?S \<longrightarrow> cells h' x = cells h x"
      using assms(4) a b by (auto simp: h'(1))
    have "dom (cells h') = dom (cells h) - D"
      using live assms(5) ne b c(1) by (auto simp: h'(1) dom_def split: if_splits)
    then show "dom (cells h') = dom (cells h) - (set (addrs (Located a u)) \<union> ?S - set (addrs (Located a u')))"
      using assms(3,4,8) by auto
  qed
  ultimately show ?thesis using h'(2,3) set_parent_put [OF c(1)] by blast
qed

text \<open>Freeing the cells in \<open>D\<close> and keeping the other members.\<close>

lemma forget:
  assumes "owns h p (Located a u)" and "D \<subseteq> set (addrs (Located a u))" and "a \<notin> D"
    and "\<forall>t \<in> set (children u'). t \<in> set (children u) \<and> set (addrs t) \<inter> D = {}"
    and "distinct (a # concat (map addrs (children u')))"
    and "set (addrs (Located a u')) = set (addrs (Located a u)) - D"
  shows "\<exists>h'. at_cell (without D h) p a u \<and> set_content a (map_json_union addr u') (without D h) = Some h' \<and>
    owns h' p (Located a u') \<and> touches h h' (set (addrs (Located a u))) (set (addrs (Located a u')))"
proof -
  let ?g = "without D h"
  have frame: "\<forall>x. x \<notin> D \<union> {} \<longrightarrow> cells ?g x = cells h x" by simp
  obtain h' where h': "h' = put a \<lparr>parent = p, content = map_json_union addr u'\<rparr> ?g"
    "set_content a (map_json_union addr u') ?g = Some h'" "owns h' p (Located a u')"
    using owns_contents [OF assms(1) frame _ _ assms(5)] assms(3,4) by auto
  have a: "a \<in> set (addrs (Located a u))" using addr_in [of "Located a u"] by simp
  moreover have "cells h a \<noteq> None" using stored_live [of h p "Located a u"] assms(1) a by (auto simp: owns_def)
  then have "dom (cells h') = dom (cells h) - D" using assms(3) by (auto simp: h'(1) dom_def split: if_splits)
  then have "touches h h' (set (addrs (Located a u))) (set (addrs (Located a u')))"
    using assms(2,6) a unfolding touches_def by (auto simp: h'(1))
  moreover have "at_cell ?g p a u" using assms(1,3) by (auto simp: owns_Located at_cell_def)
  ultimately show ?thesis using h' by blast
qed

text \<open>One member takes the place of another.\<close>

lemma swap_member:
  assumes "owns h p (Located a u)" and "owns h None s" and "set (addrs (Located a u)) \<inter> set (addrs s) = {}"
    and "children u = xs @ t # ys" and "children u' = xs @ s # ys"
  shows "\<exists>g h'. set_parent (addr s) (Some a) (without (set (addrs t)) h) = Some g \<and> at_cell g p a u \<and>
    set_content a (map_json_union addr u') g = Some h' \<and> owns h' p (Located a u') \<and>
    touches h h' (set (addrs (Located a u)) \<union> set (addrs s)) (set (addrs (Located a u')))"
proof (rule adopt [OF assms(1-3)])
  have d: "distinct (addrs s)" "distinct (a # concat (map addrs (xs @ t # ys)))"
    using assms(1,2,4) by (simp_all add: owns_def addrs_Located)
  have n: "set (addrs s) \<inter> insert a (set (concat (map addrs (xs @ t # ys)))) = {}"
    using assms(3,4) by (auto simp: addrs_Located)
  show "set (addrs t) \<subseteq> set (addrs (Located a u))" using assms(4) by (auto simp: addrs_Located)
  show "a \<notin> set (addrs t)" using d(2) by auto
  show "\<forall>r \<in> set (children u'). r = s \<or> r \<in> set (children u) \<and> set (addrs r) \<inter> set (addrs t) = {}"
    using d(2) unfolding assms(4,5) by auto
  show "distinct (a # concat (map addrs (children u')))" using d n unfolding assms(5) by auto
  show "set (addrs (Located a u')) = set (addrs (Located a u)) \<union> set (addrs s) - set (addrs t)"
    unfolding addrs_Located assms(4,5) using d n by auto
qed

text \<open>A member is freed, and the others move up, or the last one takes its place.\<close>

lemma drop_member:
  assumes "owns h p (Located a u)" and "children u = xs @ t # ys"
    and "children u' = xs @ ys \<or> (\<exists>l zs. ys = zs @ [l] \<and> children u' = xs @ l # zs)"
  shows "\<exists>h'. at_cell (without (set (addrs t)) h) p a u \<and>
    set_content a (map_json_union addr u') (without (set (addrs t)) h) = Some h' \<and>
    owns h' p (Located a u') \<and> touches h h' (set (addrs (Located a u))) (set (addrs (Located a u')))"
proof (rule forget [OF assms(1)])
  have d: "distinct (a # concat (map addrs (xs @ t # ys)))" using assms(1,2) by (simp add: owns_def addrs_Located)
  show "set (addrs t) \<subseteq> set (addrs (Located a u))" using assms(2) by (auto simp: addrs_Located)
  show "a \<notin> set (addrs t)" using d by auto
  show "\<forall>r \<in> set (children u'). r \<in> set (children u) \<and> set (addrs r) \<inter> set (addrs t) = {}"
    using assms(3) d unfolding assms(2) by (elim disjE exE conjE) auto
  show "distinct (a # concat (map addrs (children u')))"
    using assms(3) d by (elim disjE exE conjE) auto
  show "set (addrs (Located a u')) = set (addrs (Located a u)) - set (addrs t)"
    unfolding addrs_Located assms(2) using assms(3) d by (elim disjE exE conjE) auto
qed

text \<open>A value in memory, and the cells of its tree.\<close>

definition holds :: "json_heap \<Rightarrow> nat option \<Rightarrow> nat \<Rightarrow> json \<Rightarrow> nat set \<Rightarrow> bool" where
  "holds h p a v A \<longleftrightarrow> (\<exists>t. owns h p t \<and> addr t = a \<and> erase t = v \<and> set (addrs t) = A)"

lemma holds_array:
  "holds h p a (JArray vs) A \<longleftrightarrow> (\<exists>ts. owns h p (Located a (Array_value ts)) \<and> map erase ts = vs \<and>
     set (addrs (Located a (Array_value ts))) = A)"
  unfolding holds_def
proof (intro iffI; elim exE conjE)
  fix t assume t: "owns h p t" "addr t = a" "erase t = JArray vs" "set (addrs t) = A"
  obtain u where "t = Located a u" using t(2) by (cases t) auto
  with t show "\<exists>ts. owns h p (Located a (Array_value ts)) \<and> map erase ts = vs \<and> set (addrs (Located a (Array_value ts))) = A"
    by (cases u) auto
next
  fix ts assume "owns h p (Located a (Array_value ts))" "map erase ts = vs" "set (addrs (Located a (Array_value ts))) = A"
  then show "\<exists>t. owns h p t \<and> addr t = a \<and> erase t = JArray vs \<and> set (addrs t) = A"
    by (intro exI [of _ "Located a (Array_value ts)"]) simp
qed

lemma holds_object:
  "holds h p a (JObject obj) A \<longleftrightarrow> (\<exists>ms. owns h p (Located a (Object_value ms)) \<and> map (\<lambda>(n, t). (n, erase t)) ms = obj \<and>
     set (addrs (Located a (Object_value ms))) = A)"
  unfolding holds_def
proof (intro iffI; elim exE conjE)
  fix t assume t: "owns h p t" "addr t = a" "erase t = JObject obj" "set (addrs t) = A"
  obtain u where "t = Located a u" using t(2) by (cases t) auto
  with t show "\<exists>ms. owns h p (Located a (Object_value ms)) \<and> map (\<lambda>(n, t). (n, erase t)) ms = obj \<and>
     set (addrs (Located a (Object_value ms))) = A"
    by (cases u) auto
next
  fix ms assume "owns h p (Located a (Object_value ms))" "map (\<lambda>(n, t). (n, erase t)) ms = obj"
    "set (addrs (Located a (Object_value ms))) = A"
  then show "\<exists>t. owns h p t \<and> addr t = a \<and> erase t = JObject obj \<and> set (addrs t) = A"
    by (intro exI [of _ "Located a (Object_value ms)"]) simp
qed

lemma owns_parent: "owns h p t \<Longrightarrow> json_value_get_parent (Some (addr t)) h = Some p"
  by (cases t) (auto simp: owns_Located at_cell_def json_value_get_parent_def deref_def)

lemma owns_card: "owns h p t \<Longrightarrow> card (set (addrs t)) = length (addrs t)"
  by (simp add: owns_def distinct_card)

text \<open>The member at a position: freeing it leaves the others.\<close>

lemma member_tree:
  assumes "owns h p (Located a u)" and "t \<in> set (children u)" and "length (addrs (Located a u)) \<le> fuel"
  shows "json_value_free fuel (Some (addr t)) h = Some (without (set (addrs t)) h)"
proof -
  have "length (addrs t) \<le> length (concat (map addrs (children u)))"
    using member_le_sum_list [of "length (addrs t)" "map (length \<circ> addrs) (children u)"] assms(2)
    by (simp add: length_concat comp_def)
  with assms show ?thesis by (intro free_tree [of h "Some a"]) (auto simp: owns_Located addrs_Located)
qed

section \<open>Arrays\<close>

lemma array_append_tree:
  assumes "owns h p (Located a (Array_value ts))" and "owns h None s"
    and "set (addrs (Located a (Array_value ts))) \<inter> set (addrs s) = {}"
  shows "\<exists>h'. array_append True (Some a) (Some (addr s)) h = Some (JSONSuccess, h') \<and>
    owns h' p (Located a (Array_value (ts @ [s]))) \<and>
    touches h h' (set (addrs (Located a (Array_value ts))) \<union> set (addrs s)) (set (addrs (Located a (Array_value (ts @ [s])))))"
proof -
  have "distinct (addrs s)" "distinct (addrs (Located a (Array_value ts)))" using assms(1,2) by (simp_all add: owns_def)
  with adopt [OF assms(1-3), of "{}" "Array_value (ts @ [s])"] assms(3) obtain g h' where
    "set_parent (addr s) (Some a) h = Some g" "set_content a (Array_value (map addr (ts @ [s]))) g = Some h'"
    "owns h' p (Located a (Array_value (ts @ [s])))"
    "touches h h' (set (addrs (Located a (Array_value ts))) \<union> set (addrs s)) (set (addrs (Located a (Array_value (ts @ [s])))))"
    by auto
  with assms(1) owns_parent [OF assms(2)] show ?thesis
    by (auto simp: array_append_def owns_Located dest: array_at_cell)
qed

lemma array_replace_tree:
  assumes "owns h p (Located a (Array_value (xs @ t # ys)))" and "owns h None s"
    and "set (addrs (Located a (Array_value (xs @ t # ys)))) \<inter> set (addrs s) = {}"
    and "length (addrs (Located a (Array_value (xs @ t # ys)))) \<le> fuel"
  shows "\<exists>h'. array_replace fuel (Some a) (length xs) (Some (addr s)) h = Some (JSONSuccess, h') \<and>
    owns h' p (Located a (Array_value (xs @ s # ys))) \<and>
    touches h h' (set (addrs (Located a (Array_value (xs @ t # ys)))) \<union> set (addrs s))
      (set (addrs (Located a (Array_value (xs @ s # ys)))))"
proof -
  from swap_member [OF assms(1-3), of xs t ys "Array_value (xs @ s # ys)"] obtain g h' where
    g: "set_parent (addr s) (Some a) (without (set (addrs t)) h) = Some g" "at_cell g p a (Array_value (xs @ t # ys))"
    "set_content a (Array_value (map addr (xs @ s # ys))) g = Some h'"
    "owns h' p (Located a (Array_value (xs @ s # ys)))"
    "touches h h' (set (addrs (Located a (Array_value (xs @ t # ys)))) \<union> set (addrs s)) (set (addrs (Located a (Array_value (xs @ s # ys)))))"
    by (auto simp del: addrs.simps)
  moreover have "json_value_free fuel (Some (addr t)) h = Some (without (set (addrs t)) h)"
    using assms(4) by (intro member_tree [OF assms(1)]) auto
  moreover have "array_at h a = Some (map addr (xs @ t # ys))" using assms(1) by (auto simp: owns_Located dest: array_at_cell)
  moreover have "(map addr (xs @ t # ys))[length xs := addr s] = map addr (xs @ s # ys)" "map addr (xs @ t # ys) ! length xs = addr t"
    by (simp_all add: map_update [symmetric] nth_append del: map_append)
  ultimately show ?thesis
    using owns_parent [OF assms(2)] array_at_cell [OF g(2)] by (auto simp: array_replace_def simp del: map_append addrs.simps)
qed

lemma array_remove_tree:
  assumes "owns h p (Located a (Array_value (xs @ t # ys)))"
    and "length (addrs (Located a (Array_value (xs @ t # ys)))) \<le> fuel"
  shows "\<exists>h'. array_remove fuel (Some a) (length xs) h = Some (JSONSuccess, h') \<and>
    owns h' p (Located a (Array_value (xs @ ys))) \<and>
    touches h h' (set (addrs (Located a (Array_value (xs @ t # ys))))) (set (addrs (Located a (Array_value (xs @ ys)))))"
proof -
  from drop_member [OF assms(1), of xs t ys "Array_value (xs @ ys)"] obtain h' where
    h': "at_cell (without (set (addrs t)) h) p a (Array_value (xs @ t # ys))"
    "set_content a (Array_value (map addr (xs @ ys))) (without (set (addrs t)) h) = Some h'"
    "owns h' p (Located a (Array_value (xs @ ys)))"
    "touches h h' (set (addrs (Located a (Array_value (xs @ t # ys))))) (set (addrs (Located a (Array_value (xs @ ys)))))"
    by (auto simp del: addrs.simps)
  moreover have "json_value_free fuel (Some (addr t)) h = Some (without (set (addrs t)) h)"
    using assms(2) by (intro member_tree [OF assms(1)]) auto
  moreover have "array_at h a = Some (map addr (xs @ t # ys))" using assms(1) by (auto simp: owns_Located dest: array_at_cell)
  moreover have "take (length xs) (map addr (xs @ t # ys)) @ drop (Suc (length xs)) (map addr (xs @ t # ys)) = map addr (xs @ ys)"
    "map addr (xs @ t # ys) ! length xs = addr t"
    by (simp_all add: nth_append)
  ultimately show ?thesis
    using array_at_cell [OF h'(1)] by (auto simp: array_remove_def simp del: map_append addrs.simps)
qed

section \<open>Objects\<close>

abbreviation located_pairs :: "(cstring \<times> located) list \<Rightarrow> (cstring \<times> nat) list" where
  "located_pairs ms \<equiv> map (\<lambda>(n, t). (n, addr t)) ms"

lemma map_of_located: "map_of (located_pairs ms) name = map_option addr (map_of ms name)"
  by (induction ms) auto

lemma assign_address_split: "name \<notin> fst ` set xs \<Longrightarrow> assign_address name b (xs @ (name, t) # ys) = xs @ (name, b) # ys"
  by (induction xs) auto

lemma pair_assign_address: "pair_assign name v obj = assign_address name v obj"
  by (induction name v obj rule: pair_assign.induct) auto

lemma map_of_split: "map_of ms name = Some t \<Longrightarrow> \<exists>xs ys. ms = xs @ (name, t) # ys \<and> name \<notin> fst ` set xs"
proof (induction ms)
  case (Cons m ms)
  show ?case
  proof (cases "fst m = name")
    case True
    with Cons.prems show ?thesis by (cases m) (auto intro: exI [of _ "[]"])
  next
    case False
    with Cons obtain xs ys where "ms = xs @ (name, t) # ys" "name \<notin> fst ` set xs" by (cases m) auto
    with False show ?thesis by (intro exI [of _ "m # xs"] exI [of _ ys]) auto
  qed
qed simp

lemma object_replace_tree:
  assumes "owns h p (Located a (Object_value (xs @ (name, t) # ys)))" and "owns h None s"
    and "set (addrs (Located a (Object_value (xs @ (name, t) # ys)))) \<inter> set (addrs s) = {}" and "name \<notin> fst ` set xs"
    and "length (addrs (Located a (Object_value (xs @ (name, t) # ys)))) \<le> fuel"
  shows "\<exists>h'. object_set fuel True (Some a) name (Some (addr s)) h = Some (JSONSuccess, h') \<and>
    owns h' p (Located a (Object_value (xs @ (name, s) # ys))) \<and>
    touches h h' (set (addrs (Located a (Object_value (xs @ (name, t) # ys)))) \<union> set (addrs s))
      (set (addrs (Located a (Object_value (xs @ (name, s) # ys)))))"
proof -
  let ?ms = "located_pairs (xs @ (name, t) # ys)"
  from swap_member [OF assms(1-3), of "map snd xs" t "map snd ys" "Object_value (xs @ (name, s) # ys)"] obtain g h' where
    g: "set_parent (addr s) (Some a) (without (set (addrs t)) h) = Some g" "at_cell g p a (Object_value (xs @ (name, t) # ys))"
    "set_content a (map_json_union addr (Object_value (xs @ (name, s) # ys))) g = Some h'"
    "owns h' p (Located a (Object_value (xs @ (name, s) # ys)))"
    "touches h h' (set (addrs (Located a (Object_value (xs @ (name, t) # ys)))) \<union> set (addrs s)) (set (addrs (Located a (Object_value (xs @ (name, s) # ys)))))"
    by (auto simp del: addrs.simps json_union.map)
  moreover have "json_value_free fuel (Some (addr t)) h = Some (without (set (addrs t)) h)"
    using assms(5) by (intro member_tree [OF assms(1)]) auto
  moreover have "object_at h a = Some ?ms" using assms(1) by (auto simp: owns_Located dest: object_at_cell)
  moreover have "map_of ?ms name = Some (addr t)" using assms(4) by (simp add: map_of_located map_add_def map_of_eq_None_iff [symmetric] split: option.split)
  moreover have "Object_value (assign_address name (addr s) ?ms) = map_json_union addr (Object_value (xs @ (name, s) # ys))"
    using assign_address_split [of name "located_pairs xs" "addr s" "addr t" "located_pairs ys"] assms(4)
    by (auto simp: image_iff split_def map_prod_def)
  ultimately show ?thesis
    using owns_parent [OF assms(2)] object_at_cell [OF g(2)]
    by (auto simp: object_set_def simp del: map_append addrs.simps json_union.map)
qed

lemma object_add_tree:
  assumes "owns h p (Located a (Object_value ms))" and "owns h None s"
    and "set (addrs (Located a (Object_value ms))) \<inter> set (addrs s) = {}" and "map_of ms name = None"
  shows "\<exists>h'. object_set fuel True (Some a) name (Some (addr s)) h = Some (JSONSuccess, h') \<and>
    owns h' p (Located a (Object_value (ms @ [(name, s)]))) \<and>
    touches h h' (set (addrs (Located a (Object_value ms))) \<union> set (addrs s)) (set (addrs (Located a (Object_value (ms @ [(name, s)])))))"
proof -
  have "distinct (addrs s)" "distinct (addrs (Located a (Object_value ms)))" using assms(1,2) by (simp_all add: owns_def)
  with adopt [OF assms(1-3), of "{}" "Object_value (ms @ [(name, s)])"] assms(3) obtain g h' where
    "set_parent (addr s) (Some a) h = Some g" "set_content a (map_json_union addr (Object_value (ms @ [(name, s)]))) g = Some h'"
    "owns h' p (Located a (Object_value (ms @ [(name, s)])))"
    "touches h h' (set (addrs (Located a (Object_value ms))) \<union> set (addrs s)) (set (addrs (Located a (Object_value (ms @ [(name, s)])))))"
    by (auto simp: addrs_Located simp del: addrs.simps json_union.map)
  moreover have "object_at h a = Some (located_pairs ms)" using assms(1) by (auto simp: owns_Located dest: object_at_cell)
  moreover have "map_json_union addr (Object_value (ms @ [(name, s)])) = Object_value (located_pairs ms @ [(name, addr s)])"
    by (auto simp: map_prod_def)
  ultimately show ?thesis
    using owns_parent [OF assms(2)] assms(4) by (auto simp: object_set_def map_of_located simp del: json_union.map addrs.simps)
qed

lemma remove_pair_split:
  "remove_pair (length xs) (xs @ m # ys) = (if ys = [] then xs else xs @ last ys # butlast ys)"
  by (cases ys rule: rev_cases) (simp_all add: remove_pair_def butlast_append nth_append list_update_append)

lemma object_remove_tree:
  assumes "owns h p (Located a (Object_value (xs @ (name, t) # ys)))" and "name \<notin> fst ` set xs"
    and "length (addrs (Located a (Object_value (xs @ (name, t) # ys)))) \<le> fuel"
  defines "ms' \<equiv> remove_pair (length xs) (xs @ (name, t) # ys)"
  shows "\<exists>h'. object_remove fuel (Some a) name True h = Some (JSONSuccess, h') \<and>
    owns h' p (Located a (Object_value ms')) \<and>
    touches h h' (set (addrs (Located a (Object_value (xs @ (name, t) # ys))))) (set (addrs (Located a (Object_value ms'))))"
proof -
  let ?ms = "located_pairs (xs @ (name, t) # ys)"
  have "children (Object_value ms') = map snd xs @ map snd ys \<or>
      (\<exists>l zs. map snd ys = zs @ [l] \<and> children (Object_value ms') = map snd xs @ l # zs)"
    by (cases ys rule: rev_cases) (simp_all add: ms'_def remove_pair_split)
  with drop_member [OF assms(1), of "map snd xs" t "map snd ys" "Object_value ms'"] obtain h' where
    h': "at_cell (without (set (addrs t)) h) p a (Object_value (xs @ (name, t) # ys))"
    "set_content a (map_json_union addr (Object_value ms')) (without (set (addrs t)) h) = Some h'"
    "owns h' p (Located a (Object_value ms'))"
    "touches h h' (set (addrs (Located a (Object_value (xs @ (name, t) # ys))))) (set (addrs (Located a (Object_value ms'))))"
    by (auto simp del: addrs.simps json_union.map)
  moreover have "json_value_free fuel (Some (addr t)) h = Some (without (set (addrs t)) h)"
    using assms(3) by (intro member_tree [OF assms(1)]) auto
  moreover have "object_at h a = Some ?ms" using assms(1) by (auto simp: owns_Located dest: object_at_cell)
  moreover have "first_index name (map fst ?ms) = Some (length xs)"
  proof -
    have "first_index name (us @ name # vs) = Some (length us)" if "name \<notin> set us" for us vs
      using that by (induction us) (auto simp: first_index_Cons)
    from this [of "map fst xs" "map fst ys"] assms(2) show ?thesis by (simp add: split_def comp_def)
  qed
  moreover have "Object_value (remove_pair (length xs) ?ms) = map_json_union addr (Object_value ms')"
    using remove_pair_split [of "located_pairs xs" "(name, addr t)" "located_pairs ys"]
    by (cases ys rule: rev_cases) (simp_all add: ms'_def remove_pair_split split_def map_prod_def)
  moreover have "snd (?ms ! length xs) = addr t" by (simp add: nth_append)
  ultimately show ?thesis
    using object_at_cell [OF h'(1)] by (auto simp: object_remove_def simp del: map_append addrs.simps json_union.map)
qed

lemma clear_tree:
  assumes "owns h p (Located a u)" and "children u' = []" and "length (addrs (Located a u)) \<le> fuel"
  shows "\<exists>g h'. fold_ub (\<lambda>b. json_value_free fuel (Some b)) (map addr (children u)) h = Some g \<and>
    set_content a (map_json_union addr u') g = Some h' \<and> owns h' p (Located a u') \<and>
    touches h h' (set (addrs (Located a u))) (set (addrs (Located a u')))"
proof -
  let ?D = "set (concat (map addrs (children u)))"
  note o = assms(1) [unfolded owns_Located]
  have "json_value_free fuel (Some (addr t)) g = Some (without (set (addrs t)) g)"
    if t: "t \<in> set (children u)" and "owns g (Some a) t" for t g
  proof -
    have "length (addrs t) \<le> length (concat (map addrs (children u)))"
      using member_le_sum_list [of "length (addrs t)" "map (length \<circ> addrs) (children u)"] t
      by (simp add: length_concat comp_def)
    with that assms(3) show ?thesis by (intro free_tree [of g "Some a"]) (simp_all add: addrs_Located)
  qed
  then have "fold_ub (\<lambda>b. json_value_free fuel (Some b)) (map addr (children u)) h = Some (without ?D h)"
    using o by (intro free_trees [where p = "Some a"]) auto
  moreover have "\<exists>h'. at_cell (without ?D h) p a u \<and> set_content a (map_json_union addr u') (without ?D h) = Some h' \<and>
    owns h' p (Located a u') \<and> touches h h' (set (addrs (Located a u))) (set (addrs (Located a u')))"
    using o assms(2) by (intro forget [OF assms(1)]) (auto simp: addrs_Located)
  ultimately show ?thesis by blast
qed

section \<open>The operations refine those on values\<close>

text \<open>
  The outcome \<open>out\<close> of an operation on the container at \<open>a\<close>: the status \<open>fst r\<close> and, at \<open>a\<close>, the value \<open>snd r\<close>. A call
  that succeeds touches no cell outside of \<open>A\<close> and frees those it does not keep; one that fails changes nothing.
\<close>

definition performs :: "json_heap \<Rightarrow> nat option \<Rightarrow> nat \<Rightarrow> nat set \<Rightarrow> json_status \<times> json \<Rightarrow> (json_status \<times> json_heap) option \<Rightarrow> bool" where
  "performs h p a A r out \<longleftrightarrow> (\<exists>h' A'. out = Some (fst r, h') \<and> holds h' p a (snd r) A' \<and>
     (if fst r = JSONSuccess then touches h h' A A' else h' = h))"

lemma performs_success:
  "out = Some (JSONSuccess, h') \<Longrightarrow> owns h' p (Located a u) \<Longrightarrow> erase (Located a u) = v \<Longrightarrow>
    touches h h' A (set (addrs (Located a u))) \<Longrightarrow> performs h p a A (JSONSuccess, v) out"
  by (auto simp: performs_def holds_def simp del: addrs.simps intro!: exI [of _ "Located a u"])

lemma performs_failure: "out = Some (JSONFailure, h) \<Longrightarrow> holds h p a v A' \<Longrightarrow> performs h p a A (JSONFailure, v) out"
  by (auto simp: performs_def)

lemma holds_arrayE:
  assumes "holds h p a (JArray vs) A"
  obtains ts where "owns h p (Located a (Array_value ts))" and "vs = map erase ts" and "length vs = length ts"
    and "set (addrs (Located a (Array_value ts))) = A" and "length (addrs (Located a (Array_value ts))) = card A"
    and "array_at h a = Some (map addr ts)"
proof -
  from assms obtain ts where ts: "owns h p (Located a (Array_value ts))" "map erase ts = vs"
    "set (addrs (Located a (Array_value ts))) = A" unfolding holds_array by blast
  moreover have "array_at h a = Some (map addr ts)" using ts(1) by (auto simp: owns_Located dest: array_at_cell)
  ultimately show ?thesis using that [of ts] owns_card [OF ts(1)] by auto
qed

lemma array_append_performs:
  assumes "holds h p a (JArray vs) A" and "holds h None b v B" and "A \<inter> B = {}"
  shows "performs h p a (A \<union> B) (map_prod id (JArray \<circ> the) (json_array_append_value (Some vs) (Some v)))
    (array_append True (Some a) (Some b) h)"
proof -
  from assms(1) obtain ts where ts: "owns h p (Located a (Array_value ts))" "vs = map erase ts"
    "set (addrs (Located a (Array_value ts))) = A" by (rule holds_arrayE)
  from assms(2) obtain s where s: "owns h None s" "addr s = b" "erase s = v" "set (addrs s) = B" by (auto simp: holds_def)
  have "set (addrs (Located a (Array_value ts))) \<inter> set (addrs s) = {}" using assms(3) ts(3) s(4) by simp
  from array_append_tree [OF ts(1) s(1) this] have
    "performs h p a (A \<union> B) (JSONSuccess, JArray (vs @ [v])) (array_append True (Some a) (Some b) h)"
    using ts(2,3) s(2-4) by (elim exE conjE) (rule performs_success, auto simp del: addrs.simps)
  then show ?thesis by (simp add: json_array_append_value_def)
qed

lemma split_at: "ix < length ts \<Longrightarrow> take ix ts @ ts ! ix # drop (Suc ix) ts = ts"
  by (simp add: id_take_nth_drop [symmetric])

lemma array_replace_performs:
  assumes "holds h p a (JArray vs) A" and "holds h None b v B" and "A \<inter> B = {}" and "card A \<le> fuel"
  shows "performs h p a (A \<union> B) (map_prod id (JArray \<circ> the) (json_array_replace_value (Some vs) ix (Some v)))
    (array_replace fuel (Some a) ix (Some b) h)"
proof -
  from assms(1) obtain ts where ts: "owns h p (Located a (Array_value ts))" "vs = map erase ts" "length vs = length ts"
    "set (addrs (Located a (Array_value ts))) = A" "length (addrs (Located a (Array_value ts))) = card A"
    "array_at h a = Some (map addr ts)" by (rule holds_arrayE)
  from assms(2) obtain s where s: "owns h None s" "addr s = b" "erase s = v" "set (addrs s) = B" by (auto simp: holds_def)
  show ?thesis
  proof (cases "ix < length ts")
    case True
    from array_replace_tree [of h p a "take ix ts" "ts ! ix" "drop (Suc ix) ts" s fuel] ts(1,4,5) s(1,4) assms(3,4)
    obtain h' where h': "array_replace fuel (Some a) ix (Some b) h = Some (JSONSuccess, h')"
      "owns h' p (Located a (Array_value (take ix ts @ s # drop (Suc ix) ts)))"
      "touches h h' (A \<union> B) (set (addrs (Located a (Array_value (take ix ts @ s # drop (Suc ix) ts)))))"
      unfolding split_at [OF True] s(2) [symmetric] using True by (auto simp del: addrs.simps)
    have "json_array_replace_value (Some vs) ix (Some v) = (JSONSuccess, Some (map erase (take ix ts @ s # drop (Suc ix) ts)))"
      using True s(3) by (simp add: json_array_replace_value_def ts(2) upd_conv_take_nth_drop flip: take_map drop_map)
    then show ?thesis by (simp add: performs_success [OF h'(1,2) _ h'(3)] del: map_append)
  next
    case False
    moreover from this have "array_replace fuel (Some a) ix (Some b) h = Some (JSONFailure, h)"
      using owns_parent [OF s(1)] by (simp add: array_replace_def s(2) ts(6))
    ultimately show ?thesis using assms(1) by (simp add: json_array_replace_value_def ts(3) performs_failure)
  qed
qed

lemma array_remove_performs:
  assumes "holds h p a (JArray vs) A" and "card A \<le> fuel"
  shows "performs h p a A (map_prod id (JArray \<circ> the) (json_array_remove (Some vs) ix)) (array_remove fuel (Some a) ix h)"
proof -
  from assms(1) obtain ts where ts: "owns h p (Located a (Array_value ts))" "vs = map erase ts" "length vs = length ts"
    "set (addrs (Located a (Array_value ts))) = A" "length (addrs (Located a (Array_value ts))) = card A"
    "array_at h a = Some (map addr ts)" by (rule holds_arrayE)
  show ?thesis
  proof (cases "ix < length ts")
    case True
    from array_remove_tree [of h p a "take ix ts" "ts ! ix" "drop (Suc ix) ts" fuel] ts(1,4,5) assms(2)
    obtain h' where h': "array_remove fuel (Some a) ix h = Some (JSONSuccess, h')"
      "owns h' p (Located a (Array_value (take ix ts @ drop (Suc ix) ts)))"
      "touches h h' A (set (addrs (Located a (Array_value (take ix ts @ drop (Suc ix) ts)))))"
      unfolding split_at [OF True] using True by (auto simp del: addrs.simps)
    have "json_array_remove (Some vs) ix = (JSONSuccess, Some (map erase (take ix ts @ drop (Suc ix) ts)))"
      using True by (simp add: json_array_remove_def json_array_get_count_def ts(2) flip: take_map drop_map)
    then show ?thesis by (simp add: performs_success [OF h'(1,2) _ h'(3)] del: map_append)
  next
    case False
    moreover from this have "array_remove fuel (Some a) ix h = Some (JSONFailure, h)" by (simp add: array_remove_def ts(6))
    ultimately show ?thesis using assms(1) by (simp add: json_array_remove_def json_array_get_count_def ts(3) performs_failure)
  qed
qed

lemma array_clear_performs:
  assumes "holds h p a (JArray vs) A" and "card A \<le> fuel"
  shows "performs h p a A (JSONSuccess, JArray []) (array_clear fuel (Some a) h)"
proof -
  from assms(1) obtain ts where ts: "owns h p (Located a (Array_value ts))"
    "set (addrs (Located a (Array_value ts))) = A" "length (addrs (Located a (Array_value ts))) = card A"
    "array_at h a = Some (map addr ts)" by (rule holds_arrayE)
  from clear_tree [OF ts(1), of "Array_value []" fuel] ts assms(2) show ?thesis
    by (auto simp: array_clear_def simp del: addrs.simps intro!: performs_success)
qed

text \<open>A value that has a parent is refused.\<close>

lemma owned_refused:
  assumes "holds h (Some q) b v B"
  shows "array_append ok (Some a) (Some b) h = Some (JSONFailure, h)"
    "array_replace fuel (Some a) ix (Some b) h = Some (JSONFailure, h)"
    "object_set fuel ok (Some a) name (Some b) h = Some (JSONFailure, h)"
  using assms by (auto simp: holds_def array_append_def array_replace_def object_set_def dest: owns_parent)

text \<open>
  C18: Arrays in memory. A value without a parent that is not part of the array can be appended to it, or take
  the place of one of its items; the array in memory then is the one that the operation on values
  gives, its items point back to it, the items that were replaced or removed have
  been freed with all they held, and no other cell has changed. The same for removing an item and clearing the array.
  An index out of range changes nothing. A value that has a parent is refused.
\<close>

theorem arrays_in_memory:
  assumes "holds h p a (JArray vs) A" and "card A \<le> fuel"
  shows "(\<forall>b v B ix. holds h None b v B \<and> A \<inter> B = {} \<longrightarrow>
      performs h p a (A \<union> B) (map_prod id (JArray \<circ> the) (json_array_append_value (Some vs) (Some v)))
        (array_append True (Some a) (Some b) h) \<and>
      performs h p a (A \<union> B) (map_prod id (JArray \<circ> the) (json_array_replace_value (Some vs) ix (Some v)))
        (array_replace fuel (Some a) ix (Some b) h)) \<and>
    (\<forall>ix. performs h p a A (map_prod id (JArray \<circ> the) (json_array_remove (Some vs) ix)) (array_remove fuel (Some a) ix h)) \<and>
    performs h p a A (JSONSuccess, JArray []) (array_clear fuel (Some a) h) \<and>
    (\<forall>q b v B ok ix. holds h (Some q) b v B \<longrightarrow> array_append ok (Some a) (Some b) h = Some (JSONFailure, h) \<and>
      array_replace fuel (Some a) ix (Some b) h = Some (JSONFailure, h))"
  by (intro conjI allI impI array_append_performs [OF assms(1)] array_replace_performs [OF assms(1) _ _ assms(2)]
      array_remove_performs [OF assms] array_clear_performs [OF assms] owned_refused(1,2)) blast+

lemma holds_objectE:
  assumes "holds h p a (JObject obj) A"
  obtains ms where "owns h p (Located a (Object_value ms))" and "obj = map (\<lambda>(n, t). (n, erase t)) ms"
    and "set (addrs (Located a (Object_value ms))) = A" and "length (addrs (Located a (Object_value ms))) = card A"
    and "object_at h a = Some (located_pairs ms)"
proof -
  from assms obtain ms where ms: "owns h p (Located a (Object_value ms))" "map (\<lambda>(n, t). (n, erase t)) ms = obj"
    "set (addrs (Located a (Object_value ms))) = A" unfolding holds_object by blast
  moreover have "object_at h a = Some (located_pairs ms)" using ms(1) by (auto simp: owns_Located dest: object_at_cell)
  ultimately show ?thesis using that [of ms] owns_card [OF ms(1)] by auto
qed

lemma map_of_erased: "map_of (map (\<lambda>(n, t). (n, erase t)) ms) name = map_option erase (map_of ms name)"
  by (induction ms) auto

lemma object_set_performs:
  assumes "holds h p a (JObject obj) A" and "holds h None b v B" and "A \<inter> B = {}" and "card A \<le> fuel"
  shows "performs h p a (A \<union> B) (map_prod id JObject (json_object_set_value obj name (Some v)))
    (object_set fuel True (Some a) name (Some b) h)"
proof -
  from assms(1) obtain ms where ms: "owns h p (Located a (Object_value ms))" "obj = map (\<lambda>(n, t). (n, erase t)) ms"
    "set (addrs (Located a (Object_value ms))) = A" "length (addrs (Located a (Object_value ms))) = card A" by (rule holds_objectE)
  from assms(2) obtain s where s: "owns h None s" "addr s = b" "erase s = v" "set (addrs s) = B" by (auto simp: holds_def)
  have apart: "set (addrs (Located a (Object_value ms))) \<inter> set (addrs s) = {}" using assms(3) ms(3) s(4) by simp
  show ?thesis
  proof (cases "map_of ms name")
    case None
    then have "json_object_set_value obj name (Some v) = (JSONSuccess, map (\<lambda>(n, t). (n, erase t)) (ms @ [(name, s)]))"
      by (simp add: json_object_set_value_def json_object_add_def json_object_getn_value_map_of ms(2) map_of_erased s(3))
    with object_add_tree [OF ms(1) s(1) apart None, of fuel] ms(3) s(2,4) show ?thesis
      by (auto simp del: addrs.simps intro!: performs_success)
  next
    case (Some t)
    from map_of_split [OF Some] obtain xs ys where sp: "ms = xs @ (name, t) # ys" "name \<notin> fst ` set xs" by blast
    have "json_object_set_value obj name (Some v) = (JSONSuccess, map (\<lambda>(n, t). (n, erase t)) (xs @ (name, s) # ys))"
      using assign_address_split [of name "map (\<lambda>(n, t). (n, erase t)) xs" v "erase t" "map (\<lambda>(n, t). (n, erase t)) ys"]
        Some sp(2) map_of_erased [of ms name]
      by (auto simp: json_object_set_value_def ms(2) pair_assign_address s(3) sp(1) image_iff split_def)
    with object_replace_tree [of h p a xs name t ys s fuel] ms s apart sp assms(4) show ?thesis
      by (auto simp del: addrs.simps intro!: performs_success)
  qed
qed

lemma object_remove_performs:
  assumes "holds h p a (JObject obj) A" and "card A \<le> fuel"
  shows "performs h p a A (map_prod id (JObject \<circ> the) (json_object_remove (Some obj) name)) (object_remove fuel (Some a) name True h)"
proof -
  from assms(1) obtain ms where ms: "owns h p (Located a (Object_value ms))" "obj = map (\<lambda>(n, t). (n, erase t)) ms"
    "set (addrs (Located a (Object_value ms))) = A" "length (addrs (Located a (Object_value ms))) = card A"
    "object_at h a = Some (located_pairs ms)" by (rule holds_objectE)
  show ?thesis
  proof (cases "map_of ms name")
    case None
    then have "first_index name (map fst (located_pairs ms)) = None"
      by (auto simp: map_of_eq_None_iff first_index_def image_iff split_def)
    then have "object_remove fuel (Some a) name True h = Some (JSONFailure, h)" by (simp add: object_remove_def ms(5))
    with None assms(1) show ?thesis
      by (auto simp: json_object_remove_def ms(2) map_of_erased intro!: performs_failure)
  next
    case (Some t)
    from map_of_split [OF Some] obtain xs ys where sp: "ms = xs @ (name, t) # ys" "name \<notin> fst ` set xs" by blast
    let ?e = "map (\<lambda>(n, t). (n, erase t))"
    have "index_of_name name (us @ (name, w) # vs) = Some (length us)" if "name \<notin> fst ` set us" for us vs and w :: json
      using that by (induction us) auto
    from this [of "?e xs" "erase t" "?e ys"] sp(2) have "index_of_name name obj = Some (length xs)"
      by (auto simp: ms(2) sp(1) image_iff split_def)
    then have "json_object_remove (Some obj) name = (JSONSuccess, Some (remove_pair (length xs) obj))"
      using Some by (simp add: json_object_remove_def Let_def remove_pair_def ms(2) map_of_erased)
    moreover have "remove_pair (length xs) obj = ?e (remove_pair (length xs) (xs @ (name, t) # ys))"
      using remove_pair_split [of "?e xs" "(name, erase t)" "?e ys"] remove_pair_split [of xs "(name, t)" ys]
      by (cases ys rule: rev_cases) (simp_all add: ms(2) sp(1) split_def)
    ultimately show ?thesis
      using object_remove_tree [of h p a xs name t ys fuel] ms sp assms(2)
      by (auto simp del: addrs.simps intro!: performs_success)
  qed
qed

lemma object_clear_performs:
  assumes "holds h p a (JObject obj) A" and "card A \<le> fuel"
  shows "performs h p a A (JSONSuccess, JObject []) (object_clear fuel (Some a) h)"
proof -
  from assms(1) obtain ms where ms: "owns h p (Located a (Object_value ms))"
    "set (addrs (Located a (Object_value ms))) = A" "length (addrs (Located a (Object_value ms))) = card A"
    "object_at h a = Some (located_pairs ms)" by (rule holds_objectE)
  have "map snd (located_pairs ms) = map addr (children (Object_value ms))" by (simp add: split_def comp_def)
  moreover have "children (Object_value []) = ([] :: located list)" by simp
  note clear_tree [OF ms(1) this, of fuel]
  ultimately show ?thesis using ms assms(2)
    by (auto simp: object_clear_def simp del: addrs.simps children.simps intro!: performs_success)
qed

text \<open>
  C17: Objects in memory. Setting a name to a value without a parent that is not part of the object, and
  removing a name, do to the object in memory what the operations on values do; the value that was
  there before has been freed with all it held, and no other cell has changed. Clearing frees all members.
  A value that has a parent is refused.
\<close>

theorem objects_in_memory:
  assumes "holds h p a (JObject obj) A" and "card A \<le> fuel"
  shows "(\<forall>b v B name. holds h None b v B \<and> A \<inter> B = {} \<longrightarrow>
      performs h p a (A \<union> B) (map_prod id JObject (json_object_set_value obj name (Some v)))
        (object_set fuel True (Some a) name (Some b) h)) \<and>
    (\<forall>name. performs h p a A (map_prod id (JObject \<circ> the) (json_object_remove (Some obj) name))
      (object_remove fuel (Some a) name True h)) \<and>
    performs h p a A (JSONSuccess, JObject []) (object_clear fuel (Some a) h) \<and>
    (\<forall>q b v B ok name. holds h (Some q) b v B \<longrightarrow> object_set fuel ok (Some a) name (Some b) h = Some (JSONFailure, h))"
  by (intro conjI allI impI object_set_performs [OF assms(1) _ _ assms(2)]
      object_remove_performs [OF assms] object_clear_performs [OF assms] owned_refused(3)) blast+

theorem objects_in_memory_witness:
  "\<exists>h'. object_set 3 True (Some 0) ''a'' (Some 1)
      \<lparr>cells = [0 \<mapsto> \<lparr>parent = None, content = Object_value []\<rparr>, 1 \<mapsto> \<lparr>parent = None, content = Null_value\<rparr>], next_addr = 2\<rparr> =
    Some (JSONSuccess, h') \<and> (\<exists>A'. holds h' None 0 (JObject [(''a'', JNull)]) A')"
proof -
  let ?h = "\<lparr>cells = [0 \<mapsto> \<lparr>parent = None, content = Object_value []\<rparr>, 1 \<mapsto> \<lparr>parent = None, content = Null_value\<rparr>], next_addr = 2\<rparr> :: json_heap"
  have "holds ?h None 0 (JObject []) {0}" unfolding holds_def
    by (rule exI [of _ "Located 0 (Object_value [])"]) (simp add: owns_Located at_cell_def)
  moreover have "holds ?h None 1 JNull {1}" unfolding holds_def
    by (rule exI [of _ "Located 1 Null_value"]) (simp add: owns_Located at_cell_def)
  moreover have "card {0 :: nat} \<le> 3" "{0 :: nat} \<inter> {1} = {}" by simp_all
  ultimately have "performs ?h None 0 ({0} \<union> {1}) (map_prod id JObject (json_object_set_value [] ''a'' (Some JNull)))
      (object_set 3 True (Some 0) ''a'' (Some 1) ?h)"
    using objects_in_memory [of ?h None 0 "[]" "{0}" 3] by blast
  then show ?thesis
    by (auto simp: performs_def json_object_set_value_def json_object_add_def)
qed

theorem arrays_in_memory_witness:
  "\<exists>h'. array_append True (Some 0) (Some 1)
      \<lparr>cells = [0 \<mapsto> \<lparr>parent = None, content = Array_value []\<rparr>, 1 \<mapsto> \<lparr>parent = None, content = Null_value\<rparr>], next_addr = 2\<rparr> =
    Some (JSONSuccess, h') \<and> (\<exists>A'. holds h' None 0 (JArray [JNull]) A')"
proof -
  let ?h = "\<lparr>cells = [0 \<mapsto> \<lparr>parent = None, content = Array_value []\<rparr>, 1 \<mapsto> \<lparr>parent = None, content = Null_value\<rparr>], next_addr = 2\<rparr> :: json_heap"
  have "holds ?h None 0 (JArray []) {0}" unfolding holds_def
    by (rule exI [of _ "Located 0 (Array_value [])"]) (simp add: owns_Located at_cell_def)
  moreover have "holds ?h None 1 JNull {1}" unfolding holds_def
    by (rule exI [of _ "Located 1 Null_value"]) (simp add: owns_Located at_cell_def)
  moreover have "card {0 :: nat} \<le> 3" "{0 :: nat} \<inter> {1} = {}" by simp_all
  ultimately have "performs ?h None 0 ({0} \<union> {1}) (map_prod id (JArray \<circ> the) (json_array_append_value (Some []) (Some JNull)))
      (array_append True (Some 0) (Some 1) ?h)"
    using arrays_in_memory [of ?h None 0 "[]" "{0}" 3] by blast
  then show ?thesis by (auto simp: performs_def json_array_append_value_def)
qed

section \<open>A value that is put into itself\<close>

text \<open>
  The parent of a root is NULL, so that an array can be appended to itself. Freeing it then
  never ends.
\<close>

lemma self_append:
  defines "h \<equiv> \<lparr>cells = [0 \<mapsto> \<lparr>parent = None, content = Array_value []\<rparr>], next_addr = 1\<rparr> :: json_heap"
  shows "\<exists>h'. array_append True (Some 0) (Some 0) h = Some (JSONSuccess, h') \<and> (\<forall>fuel. json_value_free fuel (Some 0) h' = None)"
proof -
  let ?h = "h\<lparr>cells := [0 \<mapsto> \<lparr>parent = Some 0, content = Array_value [0]\<rparr>]\<rparr>"
  have "json_value_free fuel (Some 0) ?h = None" for fuel
    by (induction fuel) (simp_all add: deref_def)
  moreover have "array_append True (Some 0) (Some 0) h = Some (JSONSuccess, ?h)"
    by (simp add: h_def array_append_def json_value_get_parent_def array_at_def deref_def set_parent_def set_content_def hwrite_def)
  ultimately show ?thesis by blast
qed

section \<open>From the first allocation to the last free\<close>

lemma next_hwrite: "hwrite a c h = Some h' \<Longrightarrow> next_addr h' = next_addr h"
  by (auto simp: hwrite_def split: option.splits)

lemma next_hfree: "hfree a h = Some h' \<Longrightarrow> next_addr h' = next_addr h"
  by (auto simp: hfree_def split: option.splits)

lemma next_value_free: "json_value_free fuel v h = Some h' \<Longrightarrow> next_addr h' = next_addr h"
proof (induction fuel v h arbitrary: h' rule: json_value_free.induct)
  case (3 fuel a h)
  from 3(2) obtain c h1 where c: "fold_ub (\<lambda>b. json_value_free fuel (Some b)) (children (content c)) h = Some h1"
    "deref h a = Some c" "hfree a h1 = Some h'" by (auto simp: bind_Some_iff)
  have "next_addr h1 = next_addr h"
    using c(1) by (rule fold_ub_invariant [where P = "\<lambda>g. next_addr g = next_addr h"]) (use 3(1) [OF c(2)] in auto)
  with next_hfree [OF c(3)] show ?case by simp
qed auto

lemma next_object_set: "object_set fuel ok object name v h = Some (status, h') \<Longrightarrow> next_addr h' = next_addr h"
  unfolding object_set_def set_parent_def set_content_def
  by (auto simp: bind_Some_iff split: option.splits if_splits dest!: next_hwrite next_value_free)

text \<open>The value of a cell without members.\<close>

fun scalar :: "nat json_union \<Rightarrow> json option" where
  "scalar Null_value = Some JNull"
| "scalar (String_value s) = Some (JString s)"
| "scalar (Number_value d) = Some (JNumber d)"
| "scalar (Boolean_value b) = Some (JBoolean b)"
| "scalar _ = None"

lemma holds_new:
  assumes "scalar u = Some v" and "heap_ok h"
  shows "\<exists>h'. json_value_new True u h = (Some (next_addr h), h') \<and> holds h' None (next_addr h) v {next_addr h} \<and>
    heap_ok h' \<and> (\<forall>x. x \<noteq> next_addr h \<longrightarrow> cells h' x = cells h x)"
proof -
  let ?h = "snd (alloc \<lparr>parent = None, content = u\<rparr> h)"
  have "holds ?h None (next_addr h) v {next_addr h}"
    using assms(1) unfolding holds_def
    by (cases u) (auto simp: owns_Located at_cell_def alloc_def intro!: exI [of _ "Located (next_addr h) (map_json_union (\<lambda>_. undefined) u)"])
  moreover have "json_value_new True u h = (Some (next_addr h), ?h)" by (simp add: json_value_new_def alloc_def)
  moreover have "\<forall>x. x \<noteq> next_addr h \<longrightarrow> cells ?h x = cells h x" by (simp add: alloc_def)
  ultimately show ?thesis using heap_ok_alloc [OF assms(2)] by blast
qed

lemma holds_frame: "holds h p a v A \<Longrightarrow> \<forall>x \<in> A. cells h' x = cells h x \<Longrightarrow> holds h' p a v A"
  by (auto simp: holds_def intro: owns_frame)

lemma holds_live: "holds h p a v A \<Longrightarrow> A \<subseteq> dom (cells h) \<and> finite A \<and> a \<in> A"
  by (auto simp: holds_def owns_def intro: addr_in dest: stored_live)

text \<open>
  A new object and its members, as the program builds its replies and messages: a sequence of
  calls of \<open>json_object_set_string\<close>, \<open>_number\<close>, \<open>_boolean\<close> and \<open>_null\<close>, each with whether the value could
  be made (there is memory, the string is UTF-8, the number finite) and whether there is memory to add a
  member. The program goes on whatever a call returns.
\<close>

type_synonym member_call = "bool \<times> bool \<times> cstring \<times> nat json_union"

fun set_members :: "nat \<Rightarrow> nat \<Rightarrow> member_call list \<Rightarrow> json_heap \<Rightarrow> json_heap option" where
  "set_members fuel a [] h = Some h"
| "set_members fuel a ((made, ok, n, u) # ms) h = do {
     (status, h1) \<leftarrow> object_set_new fuel made ok (Some a) n u h;
     set_members fuel a ms h1 }"

text \<open>What a call does to the object, and the values that are made and then neither stored nor freed.\<close>

fun member_set :: "json_object \<Rightarrow> member_call \<Rightarrow> json_object" where
  "member_set obj (made, ok, n, u) =
     (if made \<and> (ok \<or> map_of obj n \<noteq> None) then snd (json_object_set_value obj n (scalar u)) else obj)"

fun lost_values :: "json_object \<Rightarrow> member_call list \<Rightarrow> nat json_union list" where
  "lost_values obj [] = []"
| "lost_values obj ((made, ok, n, u) # ms) =
     (if made \<and> \<not> ok \<and> map_of obj n = None then [u] else []) @ lost_values (member_set obj (made, ok, n, u)) ms"

text \<open>A memory with one more cell, at an address that was free, for each of these values.\<close>

fun leaked :: "(nat \<rightharpoonup> json_cell) \<Rightarrow> nat json_union list \<Rightarrow> (nat \<rightharpoonup> json_cell) \<Rightarrow> bool" where
  "leaked m [] m' \<longleftrightarrow> m' = m"
| "leaked m (u # us) m' \<longleftrightarrow> (\<exists>b. m b = None \<and> leaked (m(b \<mapsto> \<lparr>parent = None, content = u\<rparr>)) us m')"

text \<open>The object \<open>a\<close> is the only thing in the heap that is not in the memory \<open>m\<close>.\<close>

definition only_new :: "(nat \<rightharpoonup> json_cell) \<Rightarrow> nat \<Rightarrow> json_object \<Rightarrow> nat \<Rightarrow> json_heap \<Rightarrow> bool" where
  "only_new m a obj k h \<longleftrightarrow> heap_ok h \<and> (\<exists>A. holds h None a (JObject obj) A \<and> A \<inter> dom m = {} \<and> card A \<le> k \<and>
     (\<forall>x. x \<notin> A \<longrightarrow> cells h x = m x))"

lemma object_set_without_memory:
  assumes "holds h p a (JObject obj) A" and "holds h None b v B"
  shows "object_set fuel False (Some a) n (Some b) h =
    (if map_of obj n = None then Some (JSONFailure, h) else object_set fuel True (Some a) n (Some b) h)"
proof -
  from assms(1) obtain ms where ms: "obj = map (\<lambda>(n, t). (n, erase t)) ms" "object_at h a = Some (located_pairs ms)"
    by (rule holds_objectE)
  from assms(2) obtain t where "owns h None t" "addr t = b" by (auto simp: holds_def)
  then have "json_value_get_parent (Some b) h = Some None"
    by (cases t) (auto simp: json_value_get_parent_def owns_Located at_cell_def deref_def)
  moreover have "map_of (located_pairs ms) n = None \<longleftrightarrow> map_of obj n = None"
    by (auto simp: ms(1) map_of_eq_None_iff image_iff split_def)
  ultimately show ?thesis by (auto simp: object_set_def ms(2) split: option.split)
qed

lemma set_stored_member:
  assumes "only_new m a obj k h" and "scalar u = Some v" and "k \<le> fuel" and "ok \<or> map_of obj n \<noteq> None"
  shows "\<exists>h'. object_set_new fuel True ok (Some a) n u h = Some (JSONSuccess, h') \<and>
    only_new m a (snd (json_object_set_value obj n (Some v))) (Suc k) h'"
proof -
  from assms(1) obtain A where A: "heap_ok h" "holds h None a (JObject obj) A" "A \<inter> dom m = {}" "card A \<le> k"
    "\<forall>x. x \<notin> A \<longrightarrow> cells h x = m x" by (auto simp: only_new_def)
  let ?b = "next_addr h"
  from holds_new [OF assms(2) A(1)] obtain h1 where
    h1: "json_value_new True u h = (Some ?b, h1)" "holds h1 None ?b v {?b}" "heap_ok h1" "\<forall>x. x \<noteq> ?b \<longrightarrow> cells h1 x = cells h x" by blast
  have free: "cells h ?b = None" using A(1) by (simp add: heap_ok_def)
  have b: "?b \<notin> A" using free holds_live [OF A(2)] by auto
  then have "\<forall>x \<in> A. cells h1 x = cells h x" using h1(4) by metis
  then have o: "holds h1 None a (JObject obj) A" by (rule holds_frame [OF A(2)])
  have "object_set fuel ok (Some a) n (Some ?b) h1 = object_set fuel True (Some a) n (Some ?b) h1"
    using object_set_without_memory [OF o h1(2), of fuel n] assms(4) by (cases ok) auto
  with object_set_performs [OF o h1(2), of fuel n] b A(4) assms(3) obtain h' A' where
    h': "object_set fuel ok (Some a) n (Some ?b) h1 = Some (fst (json_object_set_value obj n (Some v)), h')"
    "holds h' None a (JObject (snd (json_object_set_value obj n (Some v)))) A'"
    "if fst (json_object_set_value obj n (Some v)) = JSONSuccess then touches h1 h' (A \<union> {?b}) A' else h' = h1"
    by (auto simp: performs_def)
  have added: "fst (json_object_set_value obj n (Some v)) = JSONSuccess"
    by (simp add: json_object_set_value_def json_object_add_def json_object_getn_value_map_of)
  then have t: "A' \<subseteq> insert ?b A" "\<forall>x. x \<notin> insert ?b A \<longrightarrow> cells h' x = cells h1 x"
    "dom (cells h') = dom (cells h1) - (insert ?b A - A')" using h'(3) by (auto simp: touches_def)
  have "card A' \<le> Suc k"
    using card_mono [of "insert ?b A" A'] t(1) holds_live [OF A(2)] A(4) b by (simp add: card_insert_if)
  moreover have "\<forall>x. x \<notin> A' \<longrightarrow> cells h' x = m x"
  proof (intro allI impI)
    fix x assume x: "x \<notin> A'"
    show "cells h' x = m x"
    proof (cases "x \<in> insert ?b A")
      case True
      with x t(3) have "cells h' x = None" by auto
      moreover have "m x = None" using True free A(3,5) b by auto
      ultimately show ?thesis by simp
    next
      case False
      with t(2) h1(4) A(5) show ?thesis by simp
    qed
  qed
  moreover have "insert ?b A \<inter> dom m = {}" using A(3,5) free b by auto
  then have "A' \<inter> dom m = {}" using t(1) by blast
  moreover have "dom (cells h') \<subseteq> dom (cells h1)" using t(3) by auto
  then have "heap_ok h'" using h1(3) next_object_set [OF h'(1)] unfolding heap_ok_def by (metis domIff subsetD)
  ultimately show ?thesis using h'(1,2) h1(1) added unfolding only_new_def by (auto simp: object_set_new_def)
qed

text \<open>A value that is made for a new name and finds no memory stays behind.\<close>

lemma set_lost_member:
  assumes "only_new m a obj k h" and "scalar u = Some v" and "map_of obj n = None"
  shows "\<exists>b h'. object_set_new fuel True False (Some a) n u h = Some (JSONFailure, h') \<and> m b = None \<and>
    only_new (m(b \<mapsto> \<lparr>parent = None, content = u\<rparr>)) a obj k h'"
proof -
  from assms(1) obtain A where A: "heap_ok h" "holds h None a (JObject obj) A" "A \<inter> dom m = {}" "card A \<le> k"
    "\<forall>x. x \<notin> A \<longrightarrow> cells h x = m x" by (auto simp: only_new_def)
  let ?b = "next_addr h"
  from holds_new [OF assms(2) A(1)] obtain h1 where
    h1: "json_value_new True u h = (Some ?b, h1)" "holds h1 None ?b v {?b}" "heap_ok h1" "\<forall>x. x \<noteq> ?b \<longrightarrow> cells h1 x = cells h x" by blast
  have free: "cells h ?b = None" using A(1) by (simp add: heap_ok_def)
  have b: "?b \<notin> A" using free holds_live [OF A(2)] by auto
  then have "\<forall>x \<in> A. cells h1 x = cells h x" using h1(4) by metis
  then have o: "holds h1 None a (JObject obj) A" by (rule holds_frame [OF A(2)])
  have "cells h1 ?b = Some \<lparr>parent = None, content = u\<rparr>" using h1(1) by (auto simp: json_value_new_def alloc_def)
  then have "only_new (m(?b \<mapsto> \<lparr>parent = None, content = u\<rparr>)) a obj k h1"
    unfolding only_new_def using h1(3,4) o A(3-5) b by (auto intro!: exI [of _ A])
  moreover have "object_set_new fuel True False (Some a) n u h = Some (JSONFailure, h1)"
    using object_set_without_memory [OF o h1(2), of fuel n] assms(3) h1(1) by (simp add: object_set_new_def)
  moreover have "m ?b = None" using A(5) free b by auto
  ultimately show ?thesis by blast
qed

lemma only_new_mono: "only_new m a obj k h \<Longrightarrow> k \<le> k' \<Longrightarrow> only_new m a obj k' h"
  unfolding only_new_def by (meson order_trans)

lemma set_members_ok:
  "only_new m a obj k h \<Longrightarrow> \<forall>(made, ok, n, u) \<in> set ms. scalar u \<noteq> None \<Longrightarrow> k + length ms \<le> fuel \<Longrightarrow>
    \<exists>h' m'. set_members fuel a ms h = Some h' \<and> leaked m (lost_values obj ms) m' \<and>
      only_new m' a (foldl member_set obj ms) (k + length ms) h'"
proof (induction ms arbitrary: m obj k h)
  case (Cons c ms)
  obtain made ok n u where c: "c = (made, ok, n, u)" by (cases c) auto
  with Cons.prems(2) obtain v where v: "scalar u = Some v" by auto
  have rest: "\<forall>(made, ok, n, u) \<in> set ms. scalar u \<noteq> None" "Suc k + length ms \<le> fuel" using Cons.prems(2,3) by auto
  consider (stored) "made" "ok \<or> map_of obj n \<noteq> None" | (lost) "made" "\<not> ok" "map_of obj n = None" | (unmade) "\<not> made" by blast
  then show ?case
  proof cases
    case stored
    from set_stored_member [OF Cons.prems(1) v _ stored(2), of fuel] rest(2) obtain h1 where
      h1: "object_set_new fuel True ok (Some a) n u h = Some (JSONSuccess, h1)"
      "only_new m a (snd (json_object_set_value obj n (Some v))) (Suc k) h1" by auto
    from Cons.IH [OF h1(2) rest] h1(1) stored show ?thesis by (auto simp: c v)
  next
    case lost
    from set_lost_member [OF Cons.prems(1) v lost(3), of fuel] obtain b h1 where
      h1: "object_set_new fuel True False (Some a) n u h = Some (JSONFailure, h1)" "m b = None"
      "only_new (m(b \<mapsto> \<lparr>parent = None, content = u\<rparr>)) a obj k h1" by blast
    from only_new_mono [OF h1(3)] have "only_new (m(b \<mapsto> \<lparr>parent = None, content = u\<rparr>)) a obj (Suc k) h1" by simp
    from Cons.IH [OF this rest] obtain h' m' where "set_members fuel a ms h1 = Some h'"
      "leaked (m(b \<mapsto> \<lparr>parent = None, content = u\<rparr>)) (lost_values obj ms) m'"
      "only_new m' a (foldl member_set obj ms) (Suc k + length ms) h'" by blast
    with h1(1,2) lost show ?thesis by (intro exI [of _ h'] exI [of _ m']) (auto simp: c simp del: fun_upd_apply)
  next
    case unmade
    have "object_set_new fuel False ok (Some a) n u h = Some (JSONFailure, h)"
      by (simp add: object_set_new_def json_value_new_def object_set_def)
    with Cons.IH [OF only_new_mono [OF Cons.prems(1)] rest] unmade show ?thesis by (auto simp: c)
  qed
qed simp

lemma nothing_lost: "\<forall>(made, ok, n, u) \<in> set ms. ok \<Longrightarrow> lost_values obj ms = []"
  by (induction obj ms rule: lost_values.induct) auto

text \<open>
  C14: From the first allocation to the last free. An object is made, gets any sequence of strings,
  numbers, booleans and nulls as members, names that come again included, and is freed, while any of
  the allocations of the members may fail. In between it holds what the
  operations on values give for the calls that had their memory. Freed, it leaves the memory as it was
  but for the values that were made for a new name and could not be stored: each of these stays behind
  as one cell that nothing points to. Where storing never fails, nothing is lost. Nothing is freed twice: a second
  free of the object is undefined.
\<close>

theorem built_and_freed:
  assumes "heap_ok h" and "\<forall>(made, ok, n, u) \<in> set ms. scalar u \<noteq> None" and "length ms < fuel"
  shows "\<exists>a h1 h2 h3 A. json_value_new True (Object_value []) h = (Some a, h1) \<and> set_members fuel a ms h1 = Some h2 \<and>
    holds h2 None a (JObject (foldl member_set [] ms)) A \<and>
    json_value_free fuel (Some a) h2 = Some h3 \<and> leaked (cells h) (lost_values [] ms) (cells h3) \<and>
    ((\<forall>(made, ok, n, u) \<in> set ms. ok) \<longrightarrow> cells h3 = cells h) \<and> json_value_free fuel (Some a) h3 = None"
proof -
  let ?a = "next_addr h" and ?h1 = "snd (alloc \<lparr>parent = None, content = Object_value []\<rparr> h)"
  have a: "cells h ?a = None" using assms(1) by (simp add: heap_ok_def)
  have "holds ?h1 None ?a (JObject []) {?a}" unfolding holds_object
    by (simp add: owns_Located at_cell_def alloc_def)
  moreover have "heap_ok ?h1" using assms(1) by (rule heap_ok_alloc)
  ultimately have "only_new (cells h) ?a [] 1 ?h1"
    unfolding only_new_def using a by (auto intro!: exI [of _ "{?a}"]) (auto simp: alloc_def split: if_splits)
  from set_members_ok [OF this assms(2), of fuel] assms(3) obtain h2 m where
    h2: "set_members fuel ?a ms ?h1 = Some h2" "leaked (cells h) (lost_values [] ms) m"
    "only_new m ?a (foldl member_set [] ms) (1 + length ms) h2" by auto
  from h2(3) obtain A where A: "holds h2 None ?a (JObject (foldl member_set [] ms)) A" "A \<inter> dom m = {}"
    "card A \<le> 1 + length ms" "\<forall>x. x \<notin> A \<longrightarrow> cells h2 x = m x" by (auto simp: only_new_def)
  from A(1) obtain t where t: "owns h2 None t" "addr t = ?a" "set (addrs t) = A" by (auto simp: holds_def)
  from free_tree [OF t(1), of fuel] t(2,3) owns_card [OF t(1)] A(3) assms(3) have
    f: "json_value_free fuel (Some ?a) h2 = Some (without A h2)" by simp
  have "cells (without A h2) x = m x" for x using A(2,4) by (cases "x \<in> A") (auto simp: domIff disjoint_iff)
  then have m: "cells (without A h2) = m" by blast
  have "m ?a = None" using holds_live [OF A(1)] A(2) by auto
  with m have "json_value_free fuel (Some ?a) (without A h2) = None" by (cases fuel) (simp_all add: deref_def)
  moreover have "json_value_new True (Object_value []) h = (Some ?a, ?h1)" by (simp add: json_value_new_def alloc_def)
  moreover have "(\<forall>(made, ok, n, u) \<in> set ms. ok) \<longrightarrow> m = cells h" using h2(2) nothing_lost [of ms "[]"] by auto
  ultimately show ?thesis using h2(1,2) A(1) f m
    by (intro exI [of _ ?a] exI [of _ ?h1] exI [of _ h2] exI [of _ "without A h2"] exI [of _ A]) simp
qed

theorem built_and_freed_witness:
  "\<exists>a h1 h2 h3 b. json_value_new True (Object_value []) empty_heap = (Some a, h1) \<and>
    set_members 4 a [(True, True, ''x'', Null_value), (True, False, ''x'', String_value ''y''), (True, False, ''z'', Null_value)] h1 = Some h2 \<and>
    json_value_free 4 (Some a) h2 = Some h3 \<and> cells h3 = [b \<mapsto> \<lparr>parent = None, content = Null_value\<rparr>]"
proof -
  let ?ms = "[(True, True, ''x'', Null_value), (True, False, ''x'', String_value ''y''), (True, False, ''z'', Null_value)]"
  have s: "\<forall>(made, ok, n, u) \<in> set ?ms. scalar u \<noteq> None" by simp
  have "lost_values [] ?ms = [Null_value]" by (simp add: json_object_set_value_def json_object_add_def json_object_getn_value_map_of)
  with built_and_freed [OF heap_ok_empty s, of 4] show ?thesis
    by (auto simp: empty_heap_def simp del: set_members.simps lost_values.simps)
qed

end
