(* ===== verification/JsonAlloc.thy ===== *)
theory JsonAlloc
  imports JsonHeap JsonParse
begin

text \<open>
  Parsing and copying in memory: \<open>parse_value\<close> and \<open>json_value_deep_copy\<close> of \<^verbatim>\<open>common/parson.c\<close>
  with the cells they allocate and, where a step fails, free again. Whether there is memory is a
  sequence of answers: each step that allocates asks once, and the parameter \<open>ok\<close> says what
  the answer to the \<open>n\<close>-th question is. The lemmas show that for all answers the result is either a
  new tree that holds the parsed or copied value, or NULL with the memory as it was before.
\<close>

section \<open>Steps\<close>

text \<open>The number of questions so far, and the heap.\<close>

type_synonym memory = "nat \<times> json_heap"

definition ask :: "(nat \<Rightarrow> bool) \<Rightarrow> memory \<Rightarrow> bool \<times> memory" where
  "ask ok m = (ok (fst m), Suc (fst m), snd m)"

definition new_value :: "(nat \<Rightarrow> bool) \<Rightarrow> nat json_union \<Rightarrow> memory \<Rightarrow> nat option \<times> memory" where
  "new_value ok u m = (case ask ok m of (enough, k, h) \<Rightarrow>
     (case json_value_new enough u h of (v, h1) \<Rightarrow> (v, k, h1)))"

text \<open>No tree is deeper than the number of addresses that have ever been handed out.\<close>

definition discard :: "nat \<Rightarrow> memory \<Rightarrow> memory option" where
  "discard a m = do { h \<leftarrow> json_value_free (next_addr (snd m)) (Some a) (snd m); Some (fst m, h) }"

text \<open>\<open>json_array_add\<close> and \<open>json_object_add\<close> of a new value.\<close>

definition add_item :: "(nat \<Rightarrow> bool) \<Rightarrow> nat \<Rightarrow> cstring \<Rightarrow> nat \<Rightarrow> memory \<Rightarrow> (json_status \<times> memory) option" where
  "add_item ok a name b m = (case ask ok m of (enough, k, h) \<Rightarrow> do {
     xs \<leftarrow> array_at h a;
     if \<not> enough then Some (JSONFailure, k, h)
     else do {
       h1 \<leftarrow> set_parent b (Some a) h;
       h2 \<leftarrow> set_content a (Array_value (xs @ [b])) h1;
       Some (JSONSuccess, k, h2) } })"

definition add_pair :: "(nat \<Rightarrow> bool) \<Rightarrow> nat \<Rightarrow> cstring \<Rightarrow> nat \<Rightarrow> memory \<Rightarrow> (json_status \<times> memory) option" where
  "add_pair ok a name b m = (case ask ok m of (enough, k, h) \<Rightarrow> do {
     ms \<leftarrow> object_at h a;
     if map_of ms name \<noteq> None \<or> \<not> enough then Some (JSONFailure, k, h)
     else do {
       h1 \<leftarrow> set_parent b (Some a) h;
       h2 \<leftarrow> set_content a (Object_value (ms @ [(name, b)])) h1;
       Some (JSONSuccess, k, h2) } })"

section \<open>Parsing\<close>

fun union_of :: "json \<Rightarrow> nat json_union" where
  "union_of JNull = Null_value"
| "union_of (JString s) = String_value s"
| "union_of (JNumber d) = Number_value d"
| "union_of (JBoolean b) = Boolean_value b"
| "union_of (JObject obj) = Object_value []"
| "union_of (JArray xs) = Array_value []"

definition heap_parse_scalar :: "(nat \<Rightarrow> bool) \<Rightarrow> cstring \<Rightarrow> memory \<Rightarrow> (nat parsed \<times> memory) option" where
  "heap_parse_scalar ok s m =
     (case parse_scalar s of
        Parsed v r \<Rightarrow> (case new_value ok (union_of v) m of
            (None, m1) \<Rightarrow> Some (Failed, m1)
          | (Some a, m1) \<Rightarrow> Some (Parsed a r, m1))
      | _ \<Rightarrow> Some (Failed, m))"

text \<open>\<open>json_value_free (output_value); return NULL;\<close>\<close>

definition give_up :: "nat \<Rightarrow> memory \<Rightarrow> (nat parsed \<times> memory) option" where
  "give_up a m = do { m1 \<leftarrow> discard a m; Some (Failed, m1) }"

text \<open>The bracket that closes: the arrays are trimmed, which allocates as well.\<close>

definition close_value :: "(nat \<Rightarrow> bool) \<Rightarrow> nat \<Rightarrow> char \<Rightarrow> cstring \<Rightarrow> memory \<Rightarrow> (nat parsed \<times> memory) option" where
  "close_value ok a c s m =
     (if \<not> at_char c s then give_up a m
      else (case ask ok m of (enough, m1) \<Rightarrow> if \<not> enough then give_up a m1 else Some (Parsed a (tl s), m1)))"

function (sequential) heap_parse_value :: "(nat \<Rightarrow> bool) \<Rightarrow> nat \<Rightarrow> nat \<Rightarrow> cstring \<Rightarrow> memory \<Rightarrow> (nat parsed \<times> memory) option"
  and heap_parse_members :: "(nat \<Rightarrow> bool) \<Rightarrow> nat \<Rightarrow> nat \<Rightarrow> nat \<Rightarrow> cstring \<Rightarrow> memory \<Rightarrow> (nat parsed \<times> memory) option"
  and heap_parse_elements :: "(nat \<Rightarrow> bool) \<Rightarrow> nat \<Rightarrow> nat \<Rightarrow> nat \<Rightarrow> cstring \<Rightarrow> memory \<Rightarrow> (nat parsed \<times> memory) option" where
  "heap_parse_value ok 0 nesting s m = Some (OutOfFuel, m)"
| "heap_parse_value ok (Suc fuel) nesting s m =
     (if nesting > MAX_NESTING then Some (Failed, m)
      else (let s1 = skip_ws s in
        if at_char (CHR ''{'') s1 then
          (case new_value ok (Object_value []) m of
             (None, m1) \<Rightarrow> Some (Failed, m1)
           | (Some a, m1) \<Rightarrow>
               (let r1 = skip_ws (tl s1) in
                if at_char (CHR ''}'') r1 then Some (Parsed a (tl r1), m1)
                else heap_parse_members ok fuel (nesting + 1) a r1 m1))
        else if at_char (CHR ''['') s1 then
          (case new_value ok (Array_value []) m of
             (None, m1) \<Rightarrow> Some (Failed, m1)
           | (Some a, m1) \<Rightarrow>
               (let r1 = skip_ws (tl s1) in
                if at_char (CHR '']'') r1 then Some (Parsed a (tl r1), m1)
                else heap_parse_elements ok fuel (nesting + 1) a r1 m1))
        else heap_parse_scalar ok s1 m))"
| "heap_parse_members ok 0 nesting a s m = Some (OutOfFuel, m)"
| "heap_parse_members ok (Suc fuel) nesting a s m =
     (if s = [] then give_up a m
      else (case ask ok m of (enough, m1) \<Rightarrow>
        (case get_quoted_string s of
           None \<Rightarrow> give_up a m1
         | Some (key, s1) \<Rightarrow>
             (let s2 = skip_ws s1 in
              if \<not> enough then give_up a m1
              else if \<not> at_char (CHR '':'') s2 then give_up a m1
              else do {
                (p, m2) \<leftarrow> heap_parse_value ok fuel nesting (tl s2) m1;
                case p of
                  OutOfFuel \<Rightarrow> Some (OutOfFuel, m2)
                | Failed \<Rightarrow> give_up a m2
                | Parsed b s3 \<Rightarrow> do {
                    (status, m3) \<leftarrow> add_pair ok a key b m2;
                    if status = JSONFailure then do { m4 \<leftarrow> discard b m3; give_up a m4 }
                    else (let s4 = skip_ws s3 in
                      if at_char (CHR '','') s4 then heap_parse_members ok fuel nesting a (skip_ws (tl s4)) m3
                      else close_value ok a (CHR ''}'') s4 m3) } }))))"
| "heap_parse_elements ok 0 nesting a s m = Some (OutOfFuel, m)"
| "heap_parse_elements ok (Suc fuel) nesting a s m =
     (if s = [] then give_up a m
      else do {
        (p, m1) \<leftarrow> heap_parse_value ok fuel nesting s m;
        case p of
          OutOfFuel \<Rightarrow> Some (OutOfFuel, m1)
        | Failed \<Rightarrow> give_up a m1
        | Parsed b s1 \<Rightarrow> do {
            (status, m2) \<leftarrow> add_item ok a [] b m1;
            if status = JSONFailure then do { m3 \<leftarrow> discard b m2; give_up a m3 }
            else (let s2 = skip_ws s1 in
              if at_char (CHR '','') s2 then heap_parse_elements ok fuel nesting a (skip_ws (tl s2)) m2
              else close_value ok a (CHR '']'') s2 m2) } })"
  by pat_completeness auto
termination
  by (relation "measure (\<lambda>x. case x of Inl (_, fuel, _) \<Rightarrow> fuel | Inr (Inl (_, fuel, _)) \<Rightarrow> fuel | Inr (Inr (_, fuel, _)) \<Rightarrow> fuel)") auto

definition heap_parse_string :: "(nat \<Rightarrow> bool) \<Rightarrow> cstring option \<Rightarrow> memory \<Rightarrow> (nat option \<times> memory) option" where
  "heap_parse_string ok str m =
     (case str of
        None \<Rightarrow> Some (None, m)
      | Some s \<Rightarrow> (let t = skip_bom (c_str s) in do {
          (p, m1) \<leftarrow> heap_parse_value ok (2 * length t + 2) 0 t m;
          Some (case p of Parsed a r \<Rightarrow> Some a | _ \<Rightarrow> None, m1) }))"

section \<open>Copying\<close>

text \<open>The loop over the members: each is copied and added; where that fails, all is freed.\<close>

fun copy_into :: "(nat \<Rightarrow> memory \<Rightarrow> (nat option \<times> memory) option) \<Rightarrow>
    (nat \<Rightarrow> cstring \<Rightarrow> nat \<Rightarrow> memory \<Rightarrow> (json_status \<times> memory) option) \<Rightarrow>
    nat \<Rightarrow> (cstring \<times> nat) list \<Rightarrow> memory \<Rightarrow> (nat option \<times> memory) option" where
  "copy_into copy add b [] m = Some (Some b, m)"
| "copy_into copy add b ((key, x) # xs) m = do {
     (c, m1) \<leftarrow> copy x m;
     case c of
       None \<Rightarrow> do { m2 \<leftarrow> discard b m1; Some (None, m2) }
     | Some c \<Rightarrow> do {
         (status, m2) \<leftarrow> add b key c m1;
         if status = JSONFailure then do { m3 \<leftarrow> discard b m2; m4 \<leftarrow> discard c m3; Some (None, m4) }
         else copy_into copy add b xs m2 } }"

text \<open>The members of an object are looked up by their names.\<close>

fun heap_deep_copy :: "(nat \<Rightarrow> bool) \<Rightarrow> nat \<Rightarrow> nat \<Rightarrow> memory \<Rightarrow> (nat option \<times> memory) option" where
  "heap_deep_copy ok 0 a m = None"
| "heap_deep_copy ok (Suc fuel) a m = do {
     c \<leftarrow> deref (snd m) a;
     case content c of
       Array_value xs \<Rightarrow>
         (case new_value ok (Array_value []) m of
            (None, m1) \<Rightarrow> Some (None, m1)
          | (Some b, m1) \<Rightarrow> copy_into (heap_deep_copy ok fuel) (add_item ok) b (map (\<lambda>x. ([], x)) xs) m1)
     | Object_value ms \<Rightarrow>
         (case new_value ok (Object_value []) m of
            (None, m1) \<Rightarrow> Some (None, m1)
          | (Some b, m1) \<Rightarrow> copy_into (heap_deep_copy ok fuel) (add_pair ok) b (map (\<lambda>(key, x). (key, the (map_of ms key))) ms) m1)
     | u \<Rightarrow> Some (new_value ok u m) }"

section \<open>New trees\<close>

text \<open>The tree at \<open>a\<close> is the only thing in the heap \<open>h\<close> that is not in \<open>h0\<close>.\<close>

definition fresh_tree :: "json_heap \<Rightarrow> nat \<Rightarrow> json \<Rightarrow> json_heap \<Rightarrow> bool" where
  "fresh_tree h0 a v h \<longleftrightarrow> heap_ok h \<and> (\<exists>A. holds h None a v A \<and> A \<inter> dom (cells h0) = {} \<and>
     (\<forall>x. x \<notin> A \<longrightarrow> cells h x = cells h0 x))"

lemma fresh_same: "cells h0 = cells g0 \<Longrightarrow> fresh_tree h0 a v h = fresh_tree g0 a v h"
  by (simp add: fresh_tree_def)

lemma tree_card: "heap_ok h \<Longrightarrow> holds h p a v A \<Longrightarrow> card A \<le> next_addr h"
proof -
  assume "heap_ok h" "holds h p a v A"
  then have "A \<subseteq> {..<next_addr h}" using holds_live [of h p a v A] by (fastforce simp: heap_ok_def not_le [symmetric])
  then show ?thesis using card_mono [of "{..<next_addr h}" A] by simp
qed

lemma free_fresh:
  assumes "fresh_tree h0 a v h"
  shows "\<exists>h'. json_value_free (next_addr h) (Some a) h = Some h' \<and> cells h' = cells h0 \<and> heap_ok h'"
proof -
  from assms obtain A where A: "heap_ok h" "holds h None a v A" "A \<inter> dom (cells h0) = {}" "\<forall>x. x \<notin> A \<longrightarrow> cells h x = cells h0 x"
    by (auto simp: fresh_tree_def)
  from A(2) obtain t where t: "owns h None t" "addr t = a" "set (addrs t) = A" by (auto simp: holds_def)
  from tree_card [OF A(1,2)] t owns_card [OF t(1)] have
    f: "json_value_free (next_addr h) (Some a) h = Some (without A h)" using free_tree [OF t(1), of "next_addr h"] by simp
  have "cells (without A h) x = cells h0 x" for x using A(3,4) by (cases "x \<in> A") (auto simp: domIff disjoint_iff)
  moreover have "heap_ok (without A h)" using A(1) next_value_free [OF f] by (auto simp: heap_ok_def)
  ultimately show ?thesis using f by blast
qed

lemma discard_fresh:
  "fresh_tree h0 a v h \<Longrightarrow> \<exists>h'. discard a (k, h) = Some (k, h') \<and> cells h' = cells h0 \<and> heap_ok h'"
  using free_fresh [of h0 a v h] by (auto simp: discard_def)

lemma new_value_fresh:
  assumes "heap_ok h"
  shows "new_value ok u (k, h) = (None, Suc k, h) \<and> \<not> ok k \<or>
    (\<exists>a h1. new_value ok u (k, h) = (Some a, Suc k, h1) \<and> ok k \<and>
      (\<forall>v. scalar u = Some v \<longrightarrow> fresh_tree h a v h1) \<and> (u = Object_value [] \<longrightarrow> fresh_tree h a (JObject []) h1) \<and>
      (u = Array_value [] \<longrightarrow> fresh_tree h a (JArray []) h1))"
proof (cases "ok k")
  case True
  let ?a = "next_addr h" and ?h1 = "snd (alloc \<lparr>parent = None, content = u\<rparr> h)"
  have free: "cells h ?a = None" using assms by (simp add: heap_ok_def)
  have ok1: "heap_ok ?h1" using assms by (rule heap_ok_alloc)
  have new: "new_value ok u (k, h) = (Some ?a, Suc k, ?h1)" using True by (simp add: new_value_def ask_def json_value_new_def alloc_def)
  have fresh: "fresh_tree h ?a v ?h1" if "holds ?h1 None ?a v {?a}" for v
    unfolding fresh_tree_def using that ok1 free by (auto intro!: exI [of _ "{?a}"]) (auto simp: alloc_def split: if_splits)
  have "fresh_tree h ?a v ?h1" if "scalar u = Some v" for v
    using holds_new [OF that assms] by (intro fresh) (auto simp: json_value_new_def alloc_def)
  moreover have "holds ?h1 None ?a (JObject []) {?a}" if "u = Object_value []"
    unfolding holds_object using that by (simp add: owns_Located at_cell_def alloc_def)
  moreover have "holds ?h1 None ?a (JArray []) {?a}" if "u = Array_value []"
    unfolding holds_array using that by (simp add: owns_Located at_cell_def alloc_def)
  ultimately show ?thesis using new True fresh by blast
next
  case False
  then show ?thesis by (simp add: new_value_def ask_def json_value_new_def)
qed

text \<open>A container and a new value beside it: what the container may become.\<close>

lemma fresh_touch:
  assumes "fresh_tree h0 a v h" and "fresh_tree h b w h1"
  obtains A B where "holds h1 None a v A" and "holds h1 None b w B" and "A \<inter> B = {}" and "heap_ok h1"
    and "\<And>h2 v' A'. holds h2 None a v' A' \<Longrightarrow> touches h1 h2 (A \<union> B) A' \<Longrightarrow> next_addr h2 = next_addr h1 \<Longrightarrow> fresh_tree h0 a v' h2"
proof -
  from assms(1) obtain A where A: "holds h None a v A" "A \<inter> dom (cells h0) = {}" "\<forall>x. x \<notin> A \<longrightarrow> cells h x = cells h0 x"
    by (auto simp: fresh_tree_def)
  from assms(2) obtain B where B: "heap_ok h1" "holds h1 None b w B" "B \<inter> dom (cells h) = {}" "\<forall>x. x \<notin> B \<longrightarrow> cells h1 x = cells h x"
    by (auto simp: fresh_tree_def)
  have AB: "A \<inter> B = {}" using holds_live [OF A(1)] B(3) by blast
  have a1: "holds h1 None a v A" using AB B(4) by (intro holds_frame [OF A(1)]) auto
  have none: "cells h0 x = None" if "x \<in> A \<union> B" for x
    using that A(2,3) B(3) by (cases "x \<in> A") (auto simp: domIff disjoint_iff)
  have "fresh_tree h0 a v' h2" if h2: "holds h2 None a v' A'" "touches h1 h2 (A \<union> B) A'" "next_addr h2 = next_addr h1" for h2 v' A'
  proof -
    have t: "A' \<subseteq> A \<union> B" "\<forall>x. x \<notin> A \<union> B \<longrightarrow> cells h2 x = cells h1 x" "dom (cells h2) = dom (cells h1) - (A \<union> B - A')"
      using h2(2) by (auto simp: touches_def)
    have "heap_ok h2" unfolding heap_ok_def h2(3)
    proof (intro allI impI)
      fix x assume "next_addr h1 \<le> x"
      with B(1) have "x \<notin> dom (cells h1)" by (auto simp: heap_ok_def)
      with t(3) show "cells h2 x = None" by auto
    qed
    moreover have "cells h2 x = cells h0 x" if "x \<notin> A'" for x
    proof (cases "x \<in> A \<union> B")
      case True
      with that t(3) have "x \<notin> dom (cells h2)" by blast
      with none [OF True] show ?thesis by (simp add: domIff)
    next
      case False
      with t(2) A(3) B(4) show ?thesis by simp
    qed
    moreover have "A' \<inter> dom (cells h0) = {}" using t(1) none by (auto simp: domIff)
    ultimately show ?thesis using h2(1) by (auto simp: fresh_tree_def)
  qed
  with that a1 AB B(1,2) show ?thesis by blast
qed

lemma next_set_parent: "set_parent b p h = Some h' \<Longrightarrow> next_addr h' = next_addr h"
  by (auto simp: set_parent_def bind_Some_iff dest: next_hwrite)

lemma next_set_content: "set_content b u h = Some h' \<Longrightarrow> next_addr h' = next_addr h"
  by (auto simp: set_content_def bind_Some_iff dest: next_hwrite)

text \<open>Adding to a new array or object: the new value becomes a part of it, or both are as they were.\<close>

lemma add_item_fresh:
  assumes "fresh_tree h0 a (JArray vs) h" and "fresh_tree h b w h1"
  shows "(\<exists>h2. add_item ok a n b (k, h1) = Some (JSONSuccess, Suc k, h2) \<and> fresh_tree h0 a (JArray (vs @ [w])) h2) \<or>
    add_item ok a n b (k, h1) = Some (JSONFailure, Suc k, h1) \<and> \<not> ok k"
proof -
  obtain A B where t: "holds h1 None a (JArray vs) A" "holds h1 None b w B" "A \<inter> B = {}" "heap_ok h1"
    "\<And>h2 v' A'. holds h2 None a v' A' \<Longrightarrow> touches h1 h2 (A \<union> B) A' \<Longrightarrow> next_addr h2 = next_addr h1 \<Longrightarrow> fresh_tree h0 a v' h2"
    using fresh_touch [OF assms] by metis
  obtain ts where items: "array_at h1 a = Some ts" using t(1) by (auto elim: holds_arrayE)
  have "json_value_get_parent (Some b) h1 = Some None" using t(2) by (auto simp: holds_def dest: owns_parent)
  then have same: "array_append True (Some a) (Some b) h1 = do {
      h1 \<leftarrow> set_parent b (Some a) h1; h2 \<leftarrow> set_content a (Array_value (ts @ [b])) h1; Some (JSONSuccess, h2) }"
    by (simp add: array_append_def items)
  from array_append_performs [OF t(1-3)] obtain h2 A' where
    h2: "array_append True (Some a) (Some b) h1 = Some (JSONSuccess, h2)" "holds h2 None a (JArray (vs @ [w])) A'" "touches h1 h2 (A \<union> B) A'"
    by (auto simp: performs_def json_array_append_value_def)
  have "next_addr h2 = next_addr h1" using h2(1) unfolding same by (auto simp: bind_Some_iff dest!: next_set_parent next_set_content)
  with t(5) h2 have "fresh_tree h0 a (JArray (vs @ [w])) h2" by blast
  moreover have "ok k \<Longrightarrow> add_item ok a n b (k, h1) = Some (JSONSuccess, Suc k, h2)"
    using h2(1) unfolding same by (auto simp: add_item_def ask_def items bind_Some_iff)
  ultimately show ?thesis by (cases "ok k") (auto simp: add_item_def ask_def items)
qed

lemma add_pair_fresh:
  assumes "fresh_tree h0 a (JObject obj) h" and "fresh_tree h b w h1"
  shows "(\<exists>h2. add_pair ok a n b (k, h1) = Some (JSONSuccess, Suc k, h2) \<and> map_of obj n = None \<and> fresh_tree h0 a (JObject (obj @ [(n, w)])) h2) \<or>
    add_pair ok a n b (k, h1) = Some (JSONFailure, Suc k, h1) \<and> (map_of obj n \<noteq> None \<or> \<not> ok k)"
proof -
  obtain A B where t: "holds h1 None a (JObject obj) A" "holds h1 None b w B" "A \<inter> B = {}" "heap_ok h1"
    "\<And>h2 v' A'. holds h2 None a v' A' \<Longrightarrow> touches h1 h2 (A \<union> B) A' \<Longrightarrow> next_addr h2 = next_addr h1 \<Longrightarrow> fresh_tree h0 a v' h2"
    using fresh_touch [OF assms] by metis
  from t(1) obtain ms where ms: "obj = map (\<lambda>(n, t). (n, erase t)) ms" "object_at h1 a = Some (located_pairs ms)"
    by (auto elim: holds_objectE)
  have none: "map_of obj n = None \<longleftrightarrow> map_of ms n = None" by (simp add: ms(1) map_of_erased)
  show ?thesis
  proof (cases "map_of ms n = None \<and> ok k")
    case False
    then show ?thesis using none by (auto simp: add_pair_def ask_def ms(2) map_of_located)
  next
    case True
    have "json_value_get_parent (Some b) h1 = Some None" using t(2) by (auto simp: holds_def dest: owns_parent)
    then have same: "object_set (next_addr h1) True (Some a) n (Some b) h1 = do {
        h1 \<leftarrow> set_parent b (Some a) h1; h2 \<leftarrow> set_content a (Object_value (located_pairs ms @ [(n, b)])) h1; Some (JSONSuccess, h2) }"
      using True by (simp add: object_set_def ms(2) map_of_located)
    from object_set_performs [OF t(1-3) tree_card [OF t(4,1)], of n] True none obtain h2 A' where
      h2: "object_set (next_addr h1) True (Some a) n (Some b) h1 = Some (JSONSuccess, h2)"
        "holds h2 None a (JObject (obj @ [(n, w)])) A'" "touches h1 h2 (A \<union> B) A'"
      by (auto simp: performs_def json_object_set_value_def json_object_add_def json_object_getn_value_map_of)
    from t(5) [OF h2(2,3) next_object_set [OF h2(1)]] have "fresh_tree h0 a (JObject (obj @ [(n, w)])) h2" .
    moreover have "add_pair ok a n b (k, h1) = Some (JSONSuccess, Suc k, h2)"
      using h2(1) True unfolding same by (auto simp: add_pair_def ask_def ms(2) map_of_located bind_Some_iff)
    ultimately show ?thesis using True none by auto
  qed
qed

section \<open>Parsing leaves a tree or nothing\<close>

text \<open>
  The result \<open>out\<close> of a parser against the result \<open>q\<close> on values: the same value in a new tree, or a
  failure with the cells as they were in \<open>h0\<close>, for which memory was short if \<open>q\<close> is not a failure too.
\<close>

definition parsed_as :: "(nat \<Rightarrow> bool) \<Rightarrow> json_heap \<Rightarrow> json parsed \<Rightarrow> (nat parsed \<times> memory) option \<Rightarrow> bool" where
  "parsed_as ok h0 q out \<longleftrightarrow> (\<exists>p k h. out = Some (p, k, h) \<and>
     (case p of
        OutOfFuel \<Rightarrow> q = OutOfFuel
      | Failed \<Rightarrow> cells h = cells h0 \<and> heap_ok h \<and> ((\<forall>i. ok i) \<longrightarrow> q = Failed)
      | Parsed a r \<Rightarrow> \<exists>v. q = Parsed v r \<and> fresh_tree h0 a v h))"

lemma parsed_as_failed:
  "cells h = cells h0 \<Longrightarrow> heap_ok h \<Longrightarrow> (\<forall>i. ok i) \<longrightarrow> q = Failed \<Longrightarrow> parsed_as ok h0 q (Some (Failed, k, h))"
  by (auto simp: parsed_as_def)

lemma parsed_as_short: "\<not> ok i \<Longrightarrow> cells h = cells h0 \<Longrightarrow> heap_ok h \<Longrightarrow> parsed_as ok h0 q (Some (Failed, k, h))"
  by (auto simp: parsed_as_def)

lemma parsed_as_tree: "fresh_tree h0 a v h \<Longrightarrow> parsed_as ok h0 (Parsed v r) (Some (Parsed a r, k, h))"
  by (auto simp: parsed_as_def)

lemma parsed_as_fuel: "parsed_as ok h0 OutOfFuel (Some (OutOfFuel, m))"
  by (cases m) (auto simp: parsed_as_def)

lemma fresh_cells: "fresh_tree h0 a v h \<Longrightarrow> cells g = cells h \<Longrightarrow> heap_ok g \<Longrightarrow> fresh_tree h0 a v g"
  unfolding fresh_tree_def by (metis holds_frame)

lemma give_up_ok:
  "fresh_tree h0 a v h \<Longrightarrow> (\<forall>i. ok i) \<longrightarrow> q = Failed \<Longrightarrow> parsed_as ok h0 q (give_up a (k, h))"
  using discard_fresh [of h0 a v h k] by (auto simp: give_up_def parsed_as_def)

lemma close_value_ok:
  "fresh_tree h0 a v h \<Longrightarrow> parsed_as ok h0 (if at_char c s then Parsed v (tl s) else Failed) (close_value ok a c s (k, h))"
  by (auto simp: close_value_def ask_def intro: give_up_ok parsed_as_tree)

text \<open>A member that could not be added is freed, and so is the container.\<close>

lemma discard_both:
  assumes "fresh_tree h0 a v h" and "fresh_tree h b w h1" and "(\<forall>i. ok i) \<longrightarrow> q = Failed"
  shows "parsed_as ok h0 q (do { m \<leftarrow> discard b (k, h1); give_up a m })"
proof -
  from discard_fresh [OF assms(2)] obtain h2 where h2: "discard b (k, h1) = Some (k, h2)" "cells h2 = cells h" "heap_ok h2" by blast
  from give_up_ok [OF fresh_cells [OF assms(1) h2(2,3)] assms(3)] h2(1) show ?thesis by simp
qed

lemma parse_scalar_union: "parse_scalar s = Parsed v r \<Longrightarrow> scalar (union_of v) = Some v"
  by (auto simp: parse_scalar_def parse_string_value_def parse_boolean_value_def parse_null_value_def parse_number_value_def
      json_value_init_number_def Let_def split: if_splits option.splits prod.splits)

lemma heap_scalar_ok: "heap_ok h \<Longrightarrow> parsed_as ok h (parse_scalar s) (heap_parse_scalar ok s (k, h))"
proof (cases "parse_scalar s")
  case (Parsed v r)
  assume "heap_ok h"
  with new_value_fresh [of h ok "union_of v" k] parse_scalar_union [OF Parsed] show ?thesis
    by (auto simp: heap_parse_scalar_def Parsed intro: parsed_as_short parsed_as_tree)
qed (auto simp: heap_parse_scalar_def parse_scalar_fuel intro: parsed_as_failed)

lemma heap_parse_ok:
  "(heap_ok h \<longrightarrow> parsed_as ok h (parse_value f n s) (heap_parse_value ok f n s (k, h))) \<and>
   (fresh_tree h0 a (JObject obj) h \<longrightarrow> parsed_as ok h0 (parse_members f n obj s) (heap_parse_members ok f n a s (k, h))) \<and>
   (fresh_tree h0 a (JArray arr) h \<longrightarrow> parsed_as ok h0 (parse_elements f n arr s) (heap_parse_elements ok f n a s (k, h)))"
proof (induction f arbitrary: n s k h h0 a obj arr)
  case 0
  then show ?case by (simp add: parsed_as_fuel)
next
  case (Suc f)
  note IHv = conjunct1 [OF Suc.IH, rule_format]
    and IHm = conjunct1 [OF conjunct2 [OF Suc.IH], rule_format]
    and IHe = conjunct2 [OF conjunct2 [OF Suc.IH], rule_format]
  have "parsed_as ok h (parse_value (Suc f) n s) (heap_parse_value ok (Suc f) n s (k, h))" if "heap_ok h"
  proof (cases "n > MAX_NESTING")
    case True
    with that show ?thesis by (simp add: parsed_as_failed)
  next
    case False
    consider (obj) "at_char (CHR ''{'') (skip_ws s)" | (arr) "\<not> at_char (CHR ''{'') (skip_ws s)" "at_char (CHR ''['') (skip_ws s)"
      | (scalar) "\<not> at_char (CHR ''{'') (skip_ws s)" "\<not> at_char (CHR ''['') (skip_ws s)" by blast
    then show ?thesis
    proof cases
      case obj
      with False that new_value_fresh [OF that, of ok "Object_value []" k] show ?thesis
        by (auto simp: Let_def simp del: parse_members.simps intro!: parsed_as_tree IHm intro: parsed_as_short)
    next
      case arr
      with False that new_value_fresh [OF that, of ok "Array_value []" k] show ?thesis
        by (auto simp: Let_def simp del: parse_elements.simps intro!: parsed_as_tree IHe intro: parsed_as_short)
    next
      case scalar
      with False heap_scalar_ok [OF that] show ?thesis by (simp add: Let_def)
    qed
  qed
  moreover have "parsed_as ok h0 (parse_members (Suc f) n obj s) (heap_parse_members ok (Suc f) n a s (k, h))"
    if fresh: "fresh_tree h0 a (JObject obj) h"
  proof (cases "s = [] \<or> get_quoted_string s = None")
    case True
    with give_up_ok [OF fresh] show ?thesis by (auto simp: ask_def)
  next
    case False
    then obtain key s1 where key: "s \<noteq> []" "get_quoted_string s = Some (key, s1)" by auto
    show ?thesis
    proof (cases "ok k \<and> at_char (CHR '':'') (skip_ws s1)")
      case False
      with key show ?thesis by (auto simp: ask_def Let_def intro: give_up_ok [OF fresh])
    next
      case colon: True
      have "heap_ok h" using fresh by (simp add: fresh_tree_def)
      from IHv [OF this, of n "tl (skip_ws s1)" "Suc k"] obtain p k1 h1 where
        p: "heap_parse_value ok f n (tl (skip_ws s1)) (Suc k, h) = Some (p, k1, h1)"
        "case p of OutOfFuel \<Rightarrow> parse_value f n (tl (skip_ws s1)) = OutOfFuel
         | Failed \<Rightarrow> cells h1 = cells h \<and> heap_ok h1 \<and> ((\<forall>i. ok i) \<longrightarrow> parse_value f n (tl (skip_ws s1)) = Failed)
         | Parsed b r \<Rightarrow> \<exists>v. parse_value f n (tl (skip_ws s1)) = Parsed v r \<and> fresh_tree h b v h1"
        unfolding parsed_as_def by blast
      note step = key colon p(1) ask_def Let_def
      show ?thesis
      proof (cases p)
        case OutOfFuel
        with p(2) show ?thesis by (simp add: step parsed_as_fuel)
      next
        case Failed
        with p(2) give_up_ok [OF fresh_cells [OF fresh]] show ?thesis by (simp add: step)
      next
        case (Parsed b s3)
        with p(2) obtain w where w: "parse_value f n (tl (skip_ws s1)) = Parsed w s3" "fresh_tree h b w h1" by auto
        consider (added) h2 where "add_pair ok a key b (k1, h1) = Some (JSONSuccess, Suc k1, h2)" "map_of obj key = None"
            "fresh_tree h0 a (JObject (obj @ [(key, w)])) h2"
          | (refused) "add_pair ok a key b (k1, h1) = Some (JSONFailure, Suc k1, h1)" "map_of obj key \<noteq> None \<or> \<not> ok k1"
          using add_pair_fresh [OF fresh w(2), of ok key k1] by blast
        then show ?thesis
        proof cases
          case (added h2)
          note h2 = added
          have "map_of obj key = None" by (rule h2(2))
          then have add: "json_object_add obj key w = (JSONSuccess, obj @ [(key, w)])"
            by (simp add: json_object_add_def json_object_getn_value_map_of)
          show ?thesis
            using IHm [OF h2(3)] close_value_ok [OF h2(3)] by (auto simp: step Parsed w(1) h2(1) add)
        next
          case refused
          moreover from refused(2) have "(\<forall>i. ok i) \<longrightarrow> fst (json_object_add obj key w) = JSONFailure"
            by (auto simp: json_object_add_def json_object_getn_value_map_of)
          ultimately show ?thesis
            using discard_both [OF fresh w(2)] by (auto simp: step Parsed w(1) split: prod.split)
        qed
      qed
    qed
  qed
  moreover have "parsed_as ok h0 (parse_elements (Suc f) n arr s) (heap_parse_elements ok (Suc f) n a s (k, h))"
    if fresh: "fresh_tree h0 a (JArray arr) h"
  proof (cases "s = []")
    case True
    with give_up_ok [OF fresh] show ?thesis by simp
  next
    case False
    have "heap_ok h" using fresh by (simp add: fresh_tree_def)
    from IHv [OF this, of n s k] obtain p k1 h1 where
      p: "heap_parse_value ok f n s (k, h) = Some (p, k1, h1)"
      "case p of OutOfFuel \<Rightarrow> parse_value f n s = OutOfFuel
       | Failed \<Rightarrow> cells h1 = cells h \<and> heap_ok h1 \<and> ((\<forall>i. ok i) \<longrightarrow> parse_value f n s = Failed)
       | Parsed b r \<Rightarrow> \<exists>v. parse_value f n s = Parsed v r \<and> fresh_tree h b v h1"
      unfolding parsed_as_def by blast
    note step = False p(1) Let_def
    show ?thesis
    proof (cases p)
      case OutOfFuel
      with p(2) show ?thesis by (simp add: step parsed_as_fuel)
    next
      case Failed
      with p(2) give_up_ok [OF fresh_cells [OF fresh]] show ?thesis by (simp add: step)
    next
      case (Parsed b s1)
      with p(2) obtain w where w: "parse_value f n s = Parsed w s1" "fresh_tree h b w h1" by auto
      from add_item_fresh [OF fresh w(2), of ok "[]" k1] show ?thesis
      proof (elim disjE exE conjE)
        fix h2
        assume h2: "add_item ok a [] b (k1, h1) = Some (JSONSuccess, Suc k1, h2)" "fresh_tree h0 a (JArray (arr @ [w])) h2"
        then show ?thesis
          using IHe [OF h2(2)] close_value_ok [OF h2(2)] by (auto simp: step Parsed w(1) h2(1))
      next
        assume "add_item ok a [] b (k1, h1) = Some (JSONFailure, Suc k1, h1)" "\<not> ok k1"
        then show ?thesis using discard_both [OF fresh w(2)] by (auto simp: step Parsed w(1))
      qed
    qed
  qed
  ultimately show ?case by blast
qed

section \<open>Copying leaves a tree or nothing\<close>

definition copied_as :: "(nat \<Rightarrow> bool) \<Rightarrow> json_heap \<Rightarrow> json \<Rightarrow> (nat option \<times> memory) option \<Rightarrow> bool" where
  "copied_as ok h0 v out \<longleftrightarrow> (\<exists>r k h. out = Some (r, k, h) \<and>
     (case r of
        None \<Rightarrow> cells h = cells h0 \<and> heap_ok h \<and> (\<exists>i. \<not> ok i)
      | Some a \<Rightarrow> fresh_tree h0 a v h))"

text \<open>Here the container is freed first, and then the member that could not be added.\<close>

lemma discard_container_first:
  assumes "fresh_tree h0 b v h" and "fresh_tree h c w h1"
  shows "\<exists>h2 h3. discard b (k, h1) = Some (k, h2) \<and> discard c (k, h2) = Some (k, h3) \<and> cells h3 = cells h0 \<and> heap_ok h3"
proof -
  from assms(1) obtain A where A: "holds h None b v A" "A \<inter> dom (cells h0) = {}" "\<forall>x. x \<notin> A \<longrightarrow> cells h x = cells h0 x"
    by (auto simp: fresh_tree_def)
  from assms(2) obtain B where B: "heap_ok h1" "holds h1 None c w B" "B \<inter> dom (cells h) = {}" "\<forall>x. x \<notin> B \<longrightarrow> cells h1 x = cells h x"
    by (auto simp: fresh_tree_def)
  have AB: "A \<inter> B = {}" using holds_live [OF A(1)] B(3) by blast
  have a1: "holds h1 None b v A" using AB B(4) by (intro holds_frame [OF A(1)]) auto
  from a1 obtain t where t: "owns h1 None t" "addr t = b" "set (addrs t) = A" by (auto simp: holds_def)
  from tree_card [OF B(1) a1] t owns_card [OF t(1)] have
    f: "json_value_free (next_addr h1) (Some b) h1 = Some (without A h1)" using free_tree [OF t(1), of "next_addr h1"] by simp
  have "heap_ok (without A h1)" using B(1) next_value_free [OF f] by (auto simp: heap_ok_def)
  moreover have "holds (without A h1) None c w B" using AB by (intro holds_frame [OF B(2)]) auto
  moreover have "\<forall>x. x \<notin> B \<longrightarrow> cells (without A h1) x = cells h0 x"
    using A(2,3) B(4) by (auto simp: domIff disjoint_iff)
  moreover have "B \<inter> dom (cells h0) = {}" using A(2,3) B(3) AB by (auto simp: domIff disjoint_iff)
  ultimately have "fresh_tree h0 c w (without A h1)" unfolding fresh_tree_def by blast
  from discard_fresh [OF this] f show ?thesis by (auto simp: discard_def)
qed

text \<open>Adding pairs to a container: what an array and an object have in common.\<close>

locale container =
  fixes ok :: "nat \<Rightarrow> bool"
    and add :: "nat \<Rightarrow> cstring \<Rightarrow> nat \<Rightarrow> memory \<Rightarrow> (json_status \<times> memory) option"
    and wrap :: "(cstring \<times> json) list \<Rightarrow> json"
    and allowed :: "(cstring \<times> json) list \<Rightarrow> cstring \<Rightarrow> bool"
  assumes add_fresh: "fresh_tree h0 b (wrap ms) h \<Longrightarrow> fresh_tree h c w h1 \<Longrightarrow> allowed ms n \<Longrightarrow>
    (\<exists>h2. add b n c (k, h1) = Some (JSONSuccess, Suc k, h2) \<and> fresh_tree h0 b (wrap (ms @ [(n, w)])) h2) \<or>
    add b n c (k, h1) = Some (JSONFailure, Suc k, h1) \<and> \<not> ok k"
begin

lemma copy_into_ok:
  assumes "\<And>n t g k. (n, t) \<in> set ts \<Longrightarrow> heap_ok g \<Longrightarrow> owns g q t \<Longrightarrow> copied_as ok g (erase t) (copy (addr t) (k, g))"
    and "\<And>n t. (n, t) \<in> set ts \<Longrightarrow> owns h0 q t"
    and "\<And>us n t vs. ts = us @ (n, t) # vs \<Longrightarrow> allowed (ms @ map (\<lambda>(n, t). (n, erase t)) us) n"
    and "fresh_tree h0 b (wrap ms) h"
  shows "copied_as ok h0 (wrap (ms @ map (\<lambda>(n, t). (n, erase t)) ts)) (copy_into copy add b (located_pairs ts) (k, h))"
  using assms
proof (induction ts arbitrary: ms h k)
  case Nil
  then show ?case by (auto simp: copied_as_def)
next
  case (Cons m ts)
  obtain n t where m: "m = (n, t)" by fastforce
  note fresh = Cons.prems(4)
  have hok: "heap_ok h" using fresh by (simp add: fresh_tree_def)
  have o: "owns h0 q t" by (rule Cons.prems(2) [of n]) (simp add: m)
  from fresh obtain A where A: "A \<inter> dom (cells h0) = {}" "\<forall>x. x \<notin> A \<longrightarrow> cells h x = cells h0 x" by (auto simp: fresh_tree_def)
  have "\<forall>x \<in> set (addrs t). cells h x = cells h0 x" using A stored_live [of h0 q t] o by (auto simp: owns_def)
  with o have "owns h q t" by (rule owns_frame)
  then have "copied_as ok h (erase t) (copy (addr t) (k, h))" by (intro Cons.prems(1) [of n t]) (simp_all add: m hok)
  then obtain r k1 h1 where r: "copy (addr t) (k, h) = Some (r, k1, h1)"
    "case r of None \<Rightarrow> cells h1 = cells h \<and> heap_ok h1 \<and> (\<exists>i. \<not> ok i) | Some c \<Rightarrow> fresh_tree h c (erase t) h1"
    unfolding copied_as_def by blast
  show ?case
  proof (cases r)
    case None
    with r(2) have h1: "cells h1 = cells h" "heap_ok h1" "\<exists>i. \<not> ok i" by simp_all
    from discard_fresh [OF fresh_cells [OF fresh h1(1,2)], of k1] h1(3) None show ?thesis
      by (auto simp: m r(1) copied_as_def)
  next
    case (Some c)
    with r(2) have c: "fresh_tree h c (erase t) h1" by simp
    have "allowed ms n" using Cons.prems(3) [of "[]"] by (simp add: m)
    from add_fresh [OF fresh c this, of k1] show ?thesis
    proof (elim disjE exE conjE)
      fix h2 assume h2: "add b n c (k1, h1) = Some (JSONSuccess, Suc k1, h2)" "fresh_tree h0 b (wrap (ms @ [(n, erase t)])) h2"
      have "copied_as ok h0 (wrap ((ms @ [(n, erase t)]) @ map (\<lambda>(n, t). (n, erase t)) ts)) (copy_into copy add b (located_pairs ts) (Suc k1, h2))"
      proof (rule Cons.IH)
        show "allowed ((ms @ [(n, erase t)]) @ map (\<lambda>(n, t). (n, erase t)) us) n'" if "ts = us @ (n', t') # vs" for us n' t' vs
          using Cons.prems(3) [of "m # us" n' t' vs] that by (simp add: m)
        show "owns h0 q t'" if "(n', t') \<in> set ts" for n' t' using Cons.prems(2) [of n' t'] that by simp
        show "copied_as ok g (erase t') (copy (addr t') (j, g))" if "(n', t') \<in> set ts" "heap_ok g" "owns g q t'" for n' t' g j
          using Cons.prems(1) [of n' t'] that by simp
      qed (rule h2(2))
      then show ?thesis by (simp add: m r(1) Some h2(1))
    next
      assume "add b n c (k1, h1) = Some (JSONFailure, Suc k1, h1)" "\<not> ok k1"
      with discard_container_first [OF fresh c, of "Suc k1"] show ?thesis
        by (auto simp: m r(1) Some copied_as_def)
    qed
  qed
qed

end

interpretation items: container ok "add_item ok" "\<lambda>ms. JArray (map snd ms)" "\<lambda>ms n. True" for ok
proof
  fix h0 b h c w h1 n k and ms :: "(cstring \<times> json) list"
  assume "fresh_tree h0 b (JArray (map snd ms)) h" "fresh_tree h c w h1"
  from add_item_fresh [OF this, of ok n k] show "(\<exists>h2. add_item ok b n c (k, h1) = Some (JSONSuccess, Suc k, h2) \<and>
      fresh_tree h0 b (JArray (map snd (ms @ [(n, w)]))) h2) \<or>
    add_item ok b n c (k, h1) = Some (JSONFailure, Suc k, h1) \<and> \<not> ok k" by simp
qed

interpretation pairs: container ok "add_pair ok" JObject "\<lambda>ms n. map_of ms n = None" for ok
proof
  fix h0 b h c w h1 n k and ms :: "(cstring \<times> json) list"
  assume fresh: "fresh_tree h0 b (JObject ms) h" "fresh_tree h c w h1" and none: "map_of ms n = None"
  from add_pair_fresh [OF fresh, of ok n k] none show "(\<exists>h2. add_pair ok b n c (k, h1) = Some (JSONSuccess, Suc k, h2) \<and>
      fresh_tree h0 b (JObject (ms @ [(n, w)])) h2) \<or>
    add_pair ok b n c (k, h1) = Some (JSONFailure, Suc k, h1) \<and> \<not> ok k" by blast
qed

lemma member_owned:
  assumes "owns h p (Located a u)" and "t \<in> set (children u)"
  shows "owns h (Some a) t" "length (addrs t) < length (addrs (Located a u))"
proof -
  show "owns h (Some a) t" using assms by (simp add: owns_Located)
  show "length (addrs t) < length (addrs (Located a u))"
    using member_le_sum_list [of "length (addrs t)" "map (length \<circ> addrs) (children u)"] assms(2)
    by (simp add: addrs_Located length_concat comp_def less_Suc_eq_le)
qed

lemma heap_deep_copy_ok:
  "owns h p t \<Longrightarrow> heap_ok h \<Longrightarrow> json_ok (erase t) \<Longrightarrow> length (addrs t) \<le> fuel \<Longrightarrow>
    copied_as ok h (erase t) (heap_deep_copy ok fuel (addr t) (k, h))"
proof (induction t arbitrary: h p fuel k rule: measure_induct_rule [where f = size])
  case (less t)
  obtain a u where t: "t = Located a u" by (cases t)
  from less.prems(4) obtain n where n: "fuel = Suc n" by (cases fuel) (auto simp: t addrs_Located)
  have own: "owns h p (Located a u)" using less.prems(1) by (simp add: t)
  then have cell: "deref h a = Some \<lparr>parent = p, content = map_json_union addr u\<rparr>"
    by (simp add: owns_Located at_cell_def deref_def)
  have IH: "copied_as ok g (erase s) (heap_deep_copy ok n (addr s) (j, g))"
    if "s \<in> set (children u)" "heap_ok g" "owns g q s" "json_ok (erase s)" for s g q j
    using that member_owned(2) [OF own that(1)] less.prems(4) child_smaller [OF that(1)]
    by (intro less.IH) (auto simp: t n)
  note new = new_value_fresh [OF less.prems(2), of ok _ k]
  have scalar_case: "copied_as ok h v (Some (new_value ok w (k, h)))" if "scalar w = Some v" for w v
    using new [of w] that less.prems(2) by (auto simp: copied_as_def)
  show ?case
  proof (cases u)
    case (Array_value ts)
    have "copied_as ok h (JArray (map erase ts)) (copy_into (heap_deep_copy ok n) (add_item ok) b (map (\<lambda>x. ([], x)) (map addr ts)) (Suc k, h1))"
      if "fresh_tree h b (JArray []) h1" for b h1
    proof -
      have "copied_as ok h (JArray (map snd ([] @ map (\<lambda>(n, t). (n, erase t)) (map (Pair ([] :: cstring)) ts))))
          (copy_into (heap_deep_copy ok n) (add_item ok) b (located_pairs (map (Pair []) ts)) (Suc k, h1))"
        using less.prems(3) member_owned(1) [OF own]
        by (intro items.copy_into_ok [where q = "Some a" and ms = "[]" and ts = "map (Pair []) ts"] IH) (auto simp: Array_value t that)
      then show ?thesis by (simp add: comp_def)
    qed
    with new [of "Array_value []"] less.prems(2) show ?thesis by (auto simp: t n cell Array_value copied_as_def)
  next
    case (Object_value ms)
    have d: "distinct (map fst ms)" using less.prems(3) by (simp add: t Object_value comp_def split_def)
    have located: "map (map_prod id addr) ms = located_pairs ms" by (simp add: map_prod_def)
    have same: "map (\<lambda>(key, x). (key, the (map_of (located_pairs ms) key))) (located_pairs ms) = located_pairs ms"
    proof (rule map_idI)
      fix m assume "m \<in> set (located_pairs ms)"
      moreover have "distinct (map fst (located_pairs ms))" using d by (simp add: comp_def split_def)
      ultimately have "map_of (located_pairs ms) (fst m) = Some (snd m)" by (intro map_of_is_SomeI) simp_all
      then show "(case m of (key, x) \<Rightarrow> (key, the (map_of (located_pairs ms) key))) = m" by (cases m) simp
    qed
    have "copied_as ok h (JObject (map (\<lambda>(n, t). (n, erase t)) ms)) (copy_into (heap_deep_copy ok n) (add_pair ok) b (located_pairs ms) (Suc k, h1))"
      if "fresh_tree h b (JObject []) h1" for b h1
    proof -
      have "map_of (map (\<lambda>(n, t). (n, erase t)) us) key = None" if "ms = us @ (key, s) # vs" for us key s vs
        using d that by (force simp: map_of_eq_None_iff split_def)
      then have "copied_as ok h (JObject ([] @ map (\<lambda>(n, t). (n, erase t)) ms))
          (copy_into (heap_deep_copy ok n) (add_pair ok) b (located_pairs ms) (Suc k, h1))"
        using that less.prems(3) member_owned(1) [OF own]
        by (intro pairs.copy_into_ok [where q = "Some a" and ms = "[]" and ts = ms] IH) (force simp: Object_value t)+
      then show ?thesis by simp
    qed
    with new [of "Object_value []"] less.prems(2) show ?thesis
      by (auto simp: t n cell Object_value copied_as_def located same simp del: map_map)
  qed (auto simp: t n cell intro!: scalar_case)
qed

section \<open>Properties\<close>

text \<open>
  C16: Parsing never leaks. Whatever the text, and whichever allocations fail, the parser returns:
  either NULL, with every cell of the memory as it was before (and then, if no allocation failed,
  the text is one the parser on values rejects), or the root of a new tree, disjoint from all
  that was there, that holds the value which \<open>json_parse_string\<close> gives; and freeing that tree gives the
  memory back as it was.
\<close>

theorem parse_in_memory:
  assumes "heap_ok h"
  shows "\<exists>r k' h'. heap_parse_string ok str (k, h) = Some (r, k', h') \<and>
    (case r of
       None \<Rightarrow> cells h' = cells h \<and> ((\<forall>i. ok i) \<longrightarrow> json_parse_string str = None)
     | Some a \<Rightarrow> \<exists>v. json_parse_string str = Some v \<and> fresh_tree h a v h' \<and>
         (\<exists>h''. json_value_free (next_addr h') (Some a) h' = Some h'' \<and> cells h'' = cells h))"
proof (cases str)
  case None
  then show ?thesis by (simp add: heap_parse_string_def json_parse_string_def)
next
  case (Some s)
  let ?t = "skip_bom (c_str s)"
  have enough: "parse_value (2 * length ?t + 2) 0 ?t \<noteq> OutOfFuel" using parse_enough_fuel by blast
  have "parsed_as ok h (parse_value (2 * length ?t + 2) 0 ?t) (heap_parse_value ok (2 * length ?t + 2) 0 ?t (k, h))"
    using heap_parse_ok assms by blast
  then obtain p k' h' where out: "heap_parse_value ok (2 * length ?t + 2) 0 ?t (k, h) = Some (p, k', h')"
    "case p of OutOfFuel \<Rightarrow> parse_value (2 * length ?t + 2) 0 ?t = OutOfFuel
     | Failed \<Rightarrow> cells h' = cells h \<and> heap_ok h' \<and> ((\<forall>i. ok i) \<longrightarrow> parse_value (2 * length ?t + 2) 0 ?t = Failed)
     | Parsed a r \<Rightarrow> \<exists>v. parse_value (2 * length ?t + 2) 0 ?t = Parsed v r \<and> fresh_tree h a v h'"
    unfolding parsed_as_def by blast
  note parsers = heap_parse_string_def json_parse_string_def Let_def Some
  show ?thesis
  proof (cases p)
    case OutOfFuel
    with out(2) enough show ?thesis by simp
  next
    case Failed
    with out show ?thesis by (auto simp: parsers)
  next
    case (Parsed a r)
    with out(2) obtain v where v: "parse_value (2 * length ?t + 2) 0 ?t = Parsed v r" "fresh_tree h a v h'" by auto
    with free_fresh [OF v(2)] out(1) Parsed show ?thesis by (auto simp: parsers)
  qed
qed

theorem parse_in_memory_witness:
  "\<exists>r k' h'. heap_parse_string (\<lambda>i. i < 4) (Some ''[null,[true,7]]'') (0, empty_heap) = Some (r, k', h') \<and>
    (case r of
       None \<Rightarrow> cells h' = cells empty_heap \<and> ((\<forall>i::nat. i < 4) \<longrightarrow> json_parse_string (Some ''[null,[true,7]]'') = None)
     | Some a \<Rightarrow> \<exists>v. json_parse_string (Some ''[null,[true,7]]'') = Some v \<and> fresh_tree empty_heap a v h' \<and>
         (\<exists>h''. json_value_free (next_addr h') (Some a) h' = Some h'' \<and> cells h'' = cells empty_heap))"
  by (rule parse_in_memory) (simp add: heap_ok_def empty_heap_def)

text \<open>
  C19: Copying is all or nothing. Of a well formed value in memory, \<open>json_value_deep_copy\<close> makes a
  new tree that shares no cell with the old one and holds the same value, which stays where it was;
  or it returns NULL because an allocation failed, and has freed every cell it had allocated.
\<close>

theorem copy_in_memory:
  assumes "heap_ok h" and "holds h p a v A" and "json_ok v"
  shows "\<exists>r k' h'. heap_deep_copy ok (card A) a (k, h) = Some (r, k', h') \<and> holds h' p a v A \<and>
    (case r of
       None \<Rightarrow> cells h' = cells h \<and> (\<exists>i. \<not> ok i)
     | Some b \<Rightarrow> fresh_tree h b v h' \<and> b \<notin> A)"
proof -
  from assms(2) obtain t where t: "owns h p t" "addr t = a" "erase t = v" "set (addrs t) = A" by (auto simp: holds_def)
  have "length (addrs t) = card A" using owns_card [OF t(1)] t(4) by simp
  with heap_deep_copy_ok [OF t(1) assms(1), of "card A" ok k] assms(3) t(2,3)
  obtain r k' h' where r: "heap_deep_copy ok (card A) a (k, h) = Some (r, k', h')"
    "case r of None \<Rightarrow> cells h' = cells h \<and> heap_ok h' \<and> (\<exists>i. \<not> ok i) | Some b \<Rightarrow> fresh_tree h b v h'"
    unfolding copied_as_def by auto
  have live: "A \<subseteq> dom (cells h)" using holds_live [OF assms(2)] by blast
  show ?thesis
  proof (cases r)
    case None
    with r have "holds h' p a v A" by (intro holds_frame [OF assms(2)]) simp
    with None r show ?thesis by simp
  next
    case (Some b)
    with r(2) obtain B where B: "holds h' None b v B" "B \<inter> dom (cells h) = {}" "\<forall>x. x \<notin> B \<longrightarrow> cells h' x = cells h x"
      by (auto simp: fresh_tree_def)
    have "holds h' p a v A" using live B(2,3) by (intro holds_frame [OF assms(2)]) blast
    moreover have "b \<in> B" using holds_live [OF B(1)] by blast
    ultimately show ?thesis using Some r live B(2) by auto
  qed
qed

theorem copy_in_memory_witness:
  "\<exists>a h h'. new_value (\<lambda>i. True) (String_value ''x'') (0, empty_heap) = (Some a, 1, h) \<and>
    (\<exists>r k'. heap_deep_copy (\<lambda>i. True) (card {a}) a (1, h) = Some (r, k', h') \<and> holds h' None a (JString ''x'') {a} \<and>
      (case r of
         None \<Rightarrow> cells h' = cells h \<and> (\<exists>i::nat. \<not> True)
       | Some b \<Rightarrow> fresh_tree h b (JString ''x'') h' \<and> b \<notin> {a}))"
proof -
  let ?a = "next_addr (empty_heap :: json_heap)" and ?h = "snd (alloc \<lparr>parent = None, content = String_value ''x''\<rparr> empty_heap)"
  have "holds ?h None ?a (JString ''x'') {?a}"
    using holds_new [of "String_value ''x''" "JString ''x''" empty_heap] by (simp add: heap_ok_empty json_value_new_def alloc_def)
  from copy_in_memory [OF heap_ok_alloc [OF heap_ok_empty] this, of "\<lambda>i. True" 1] have
    "\<exists>r k' h'. heap_deep_copy (\<lambda>i. True) (card {?a}) ?a (1, ?h) = Some (r, k', h') \<and> holds h' None ?a (JString ''x'') {?a} \<and>
      (case r of None \<Rightarrow> cells h' = cells ?h \<and> (\<exists>i::nat. \<not> True) | Some b \<Rightarrow> fresh_tree ?h b (JString ''x'') h' \<and> b \<notin> {?a})"
    by (simp add: nul_free_def)
  moreover have "new_value (\<lambda>i. True) (String_value ''x'') (0, empty_heap) = (Some ?a, 1, ?h)"
    by (simp add: new_value_def ask_def json_value_new_def alloc_def)
  ultimately show ?thesis by blast
qed

end
