(* ===== verification/Development.thy ===== *)
theory Development
  imports AgentState DoubleArith "HOL-Library.Signed_Division" "HOL-Library.Sublist"
begin

text \<open>
  The part of \<^verbatim>\<open>CanMonitor.c\<close> that is compiled only with \<open>DEV\<close> set: five sensors and two
  groups to start with, and the functions that print the tables. The printing functions give
  the text they print. The lemmas show that the dummy objects leave a well-formed agent whose
  groups are resolved, and that the tables of every well-formed agent are printed in full.
\<close>

section \<open>Dummy objects\<close>

text \<open>The five sensors differ in their number only.\<close>

definition dummy_sensor :: "nat \<Rightarrow> sensor" where
  "dummy_sensor n = \<lparr>sens_id = ''id_'' @ show_nat n, sens_name = ''Name_'' @ show_nat n, sens_type = ''Uint8'',
     can_id = of_nat n, init_bit = of_nat n, end_bit = of_nat (10 * n), sampling_rate = of_nat n,
     sens_value = ''Value_'' @ show_nat n, sens_timestamp = of_nat (11111111111 * n)\<rparr>"

definition dummy_group :: "cstring \<Rightarrow> u32 \<Rightarrow> cstring list \<Rightarrow> sensorgroup" where
  "dummy_group k rate ids = \<lparr>sg_id = k, publish_rate = rate, sensorcount = length ids, sensor_list = ids,
     last_tv_sec = 0, last_tv_usec = 0\<rparr>"

text \<open>\<open>sensor_list[i] = malloc (sizeof (char*)); strcpy (sensor_list[i], id);\<close>\<close>

definition list_overruns :: "cstring list \<Rightarrow> ledger" where
  "list_overruns ids = concat (map (\<lambda>k. overrun Sensor_list_entry 8 (length k + 1)) ids)"

definition create_dummy_struct :: "agent \<Rightarrow> agent option" where
  "create_dummy_struct a = do {
     s1 \<leftarrow> hts_new (dummy_sensor 1) (sensors_table a);
     s2 \<leftarrow> hts_new (dummy_sensor 2) s1;
     s3 \<leftarrow> hts_new (dummy_sensor 3) s2;
     g1 \<leftarrow> htsg_new (dummy_group ''id_11'' 11000 [''id_3'']) (sensorgroup_table a);
     s4 \<leftarrow> hts_new (dummy_sensor 4) s3;
     s5 \<leftarrow> hts_new (dummy_sensor 5) s4;
     g2 \<leftarrow> htsg_new (dummy_group ''id_22'' 5000 [''id_4'', ''id_5'']) g1;
     Some (a\<lparr>sensors_table := s5, sensorgroup_table := g2,
       overruns := overruns a @ list_overruns [''id_3''] @ list_overruns [''id_4'', ''id_5'']\<rparr>) }"

section \<open>Printing\<close>

definition line :: "cstring \<Rightarrow> cstring" where
  "line s = s @ [CHR 0x0A]"

definition tab :: cstring where
  "tab = [CHR 0x09]"

text \<open>\<open>%f\<close>\<close>

definition fmt_f6 :: "double \<Rightarrow> cstring" where
  "fmt_f6 v = (case v of
     Infinite s \<Rightarrow> sign_text s @ ''inf''
   | NaN s \<Rightarrow> sign_text s @ ''nan''
   | Fin s m e \<Rightarrow>
       let (n, d) = fin_frac m e; c = round_at 10 n d (- 6)
       in sign_text s @ show_nat (c div 10 ^ 6) @ ''.'' @ pad_left 6 (show_nat (c mod 10 ^ 6)))"

definition fmt_u64 :: "u64 \<Rightarrow> cstring" where
  "fmt_u64 w = show_nat (unat w)"

definition print_sensor :: "sensor \<Rightarrow> cstring" where
  "print_sensor s =
     line ''Printing new sensor'' @
     line (tab @ ''Sensor ID: '' @ sens_id s) @
     line (tab @ ''Sensor name: '' @ sens_name s) @
     line (tab @ ''Sensor type: '' @ sens_type s) @
     line (tab @ ''Sensor settings:'') @
     line (tab @ tab @ ''Can ID: '' @ fmt_d32 (can_id s)) @
     line (tab @ tab @ ''Init bit: '' @ fmt_d32 (init_bit s)) @
     line (tab @ tab @ ''End bit: '' @ fmt_d32 (end_bit s)) @
     line (tab @ ''Sampling rate: '' @ fmt_d32 (sampling_rate s)) @
     line (tab @ ''Value: '' @ sens_value s) @
     line (tab @ ''Timestamp: '' @ fmt_u64 (sens_timestamp s))"

text \<open>The ids that the count covers; a count past the end of the array is undefined.\<close>

definition listed :: "sensorgroup \<Rightarrow> cstring list option" where
  "listed g = map_ub (\<lambda>i. if i < length (sensor_list g) then Some (sensor_list g ! i) else None) [0..<sensorcount g]"

definition print_sensorgroup :: "sensorgroup \<Rightarrow> cstring option" where
  "print_sensorgroup g = do {
     ids \<leftarrow> listed g;
     Some (line ''Printing new sensorgroup'' @
       line (tab @ ''Sensor ID: '' @ sg_id g) @
       line (tab @ ''Publish_rate: '' @ fmt_d32 (publish_rate g)) @
       line (tab @ ''Last published: '' @ fmt_u64 (last_tv_sec g * 1000000 + last_tv_usec g)) @
       line (tab @ ''Sensorlist:'') @
       concat (map (\<lambda>k. line (tab @ tab @ k)) ids)) }"

definition dashes :: cstring where
  "dashes = line (tab @ ''--------'')"

definition sensor_line :: "sensor \<Rightarrow> cstring" where
  "sensor_line s =
     ''ID: '' @ sens_id s @ ''. Name: '' @ sens_name s @ ''. Type: '' @ sens_type s @
     ''. CanID: '' @ fmt_d32 (can_id s) @ ''. Init bit: '' @ fmt_d32 (init_bit s) @
     ''. End bit: '' @ fmt_d32 (end_bit s) @ ''. Sampling_rate: '' @ fmt_d32 (sampling_rate s) @
     ''. Value: '' @ sens_value s @ line (''. Timestamp: '' @ fmt_u64 (sens_timestamp s))"

text \<open>\<open>tv_sec * 1.0 + (tv_usec / 1000) / 1000.0\<close>\<close>

definition last_published :: "sensorgroup \<Rightarrow> double" where
  "last_published g = double_add (double_mult (double_of_int (sint (last_tv_sec g))) (double_of_int 1))
     (double_divide (double_of_int (sint (last_tv_usec g) sdiv 1000)) (double_of_int 1000))"

definition group_line :: "sensorgroup \<Rightarrow> cstring list \<Rightarrow> cstring" where
  "group_line g ids =
     ''ID: '' @ sg_id g @ ''. Publish_rate: '' @ fmt_d32 (publish_rate g) @
     ''. Last published: '' @ fmt_f6 (last_published g) @ ''. Sensor count: '' @ show_nat (sensorcount g) @
     ''. Sensorlist:'' @ concat (map (\<lambda>k. '' '' @ k) ids) @ line ''.''"

text \<open>One node of a chain, one bucket, and the loop over the buckets.\<close>

definition print_node :: "('v \<Rightarrow> cstring option) \<Rightarrow> 'v heap \<Rightarrow> cstring \<times> nat \<Rightarrow> cstring option" where
  "print_node row h node = do {
     v \<leftarrow> deref h (snd node);
     r \<leftarrow> row v;
     Some (line (tab @ ''key: '' @ fst node) @ tab @ ''val: '' @ r @ dashes) }"

definition print_bucket :: "('v \<Rightarrow> cstring option) \<Rightarrow> 'v heap \<Rightarrow> htable \<Rightarrow> nat \<Rightarrow> cstring option" where
  "print_bucket row h t i =
     (if i < length (ht_array t) then do {
        nodes \<leftarrow> map_ub (print_node row h) (ht_array t ! i);
        Some (line (fmt_d32 (of_nat i)) @ dashes @ concat nodes @ line (tab @ ''NULL'') @ dashes) }
      else None)"

definition print_table :: "('v \<Rightarrow> cstring option) \<Rightarrow> 'v store \<Rightarrow> cstring option" where
  "print_table row s = do {
     t \<leftarrow> st_table s;
     buckets \<leftarrow> map_ub (print_bucket row (st_heap s) t) [0..<unat (ht_size t)];
     Some (concat buckets) }"

definition stars :: cstring where
  "stars = line (replicate 26 (CHR ''*''))"

definition print_sensors_table :: "agent \<Rightarrow> cstring option" where
  "print_sensors_table a = do {
     rows \<leftarrow> print_table (\<lambda>s. Some (sensor_line s)) (sensors_table a);
     Some (stars @ line ''******** Sensors *********'' @ stars @ rows) }"

definition print_sensorgroups_table :: "agent \<Rightarrow> cstring option" where
  "print_sensorgroups_table a = do {
     rows \<leftarrow> print_table (\<lambda>g. do { ids \<leftarrow> listed g; Some (group_line g ids) }) (sensorgroup_table a);
     Some (stars @ line ''****** Sensorgroups ******'' @ stars @ rows) }"

definition print_struct :: "agent \<Rightarrow> cstring option" where
  "print_struct a = do {
     sensors \<leftarrow> print_sensors_table a;
     groups \<leftarrow> print_sensorgroups_table a;
     Some (sensors @ groups) }"

text \<open>The block in \<open>main\<close>, before the loop: what is printed and the agent.\<close>

definition development_start :: "agent \<Rightarrow> (cstring \<times> agent) option" where
  "development_start a = do {
     a1 \<leftarrow> create_dummy_struct a;
     text \<leftarrow> print_struct a1;
     Some (text, a1\<lparr>status := configured\<rparr>) }"

section \<open>Dummy objects are well formed\<close>

lemma listed_members: "group_ok g \<Longrightarrow> listed g = Some (members g)"
  by (auto simp: listed_def map_ub_eq_Some members_def group_ok_def)

lemma dummy_numbers: "show_nat 1 = ''1''" "show_nat (Suc 0) = ''1''" "show_nat 2 = ''2''" "show_nat 3 = ''3''" "show_nat 4 = ''4''" "show_nat 5 = ''5''"
  by (simp_all add: show_nat_small digit_char_def char_of_def bit_0)

lemma create_dummy_struct_ok:
  assumes "agent_ok a" and "sensors_of a = Map.empty" and "groups_of a = Map.empty"
  shows "\<exists>a'. create_dummy_struct a = Some a' \<and> agent_ok a' \<and> references_ok a' \<and> same_control a a' \<and>
    overruns a' = overruns a \<and>
    sensors_of a' = map_of (map (\<lambda>n. (''id_'' @ show_nat n, dummy_sensor n)) [1, 2, 3, 4, 5]) \<and>
    groups_of a' = [''id_11'' \<mapsto> dummy_group ''id_11'' 11000 [''id_3''], ''id_22'' \<mapsto> dummy_group ''id_22'' 5000 [''id_4'', ''id_5'']]"
proof -
  let ?ss = "map dummy_sensor [1, 2, 3, 4, 5]"
  let ?gs = "[dummy_group ''id_11'' 11000 [''id_3''], dummy_group ''id_22'' 5000 [''id_4'', ''id_5'']]"
  have ready: "store_ready (sensors_table a)" "store_ready (sensorgroup_table a)" using assms(1) by (simp_all add: agent_ok_def)
  have empty: "store_lookup (sensors_table a) = Map.empty" "store_lookup (sensorgroup_table a) = Map.empty"
    using assms(2,3) by (simp_all add: sensors_of_def groups_of_def)
  have d: "distinct (map sens_id ?ss)" by (simp add: dummy_sensor_def dummy_numbers)
  have dg: "distinct (map sg_id ?gs)" by (simp add: dummy_group_def)
  obtain s where s: "fold_ub hts_new ?ss (sensors_table a) = Some s" "store_ready s"
      "store_lookup s = map_of (map (\<lambda>v. (sens_id v, v)) ?ss)"
    using insert_all [OF ready(1) d] empty(1) unfolding hts_new_insert [abs_def] by fastforce
  obtain g where g: "fold_ub htsg_new ?gs (sensorgroup_table a) = Some g" "store_ready g"
      "store_lookup g = map_of (map (\<lambda>v. (sg_id v, v)) ?gs)"
    using insert_all [OF ready(2) dg] empty(2) unfolding htsg_new_insert [abs_def] by fastforce
  let ?a = "a\<lparr>sensors_table := s, sensorgroup_table := g\<rparr>"
  have "create_dummy_struct a = Some ?a"
    using s(1) g(1) by (auto simp: create_dummy_struct_def list_overruns_def bind_Some_iff)
  moreover have "sensors_of ?a = map_of (map (\<lambda>n. (''id_'' @ show_nat n, dummy_sensor n)) [1, 2, 3, 4, 5])"
    using s(3) by (simp add: sensors_of_def dummy_sensor_def)
  moreover have "groups_of ?a = [''id_11'' \<mapsto> dummy_group ''id_11'' 11000 [''id_3''], ''id_22'' \<mapsto> dummy_group ''id_22'' 5000 [''id_4'', ''id_5'']]"
    using g(3) by (auto simp: groups_of_def dummy_group_def)
  moreover from this calculation(2) s(2) g(2) have "agent_ok ?a"
    by (auto simp: agent_ok_def sensor_ok_def group_ok_def dummy_sensor_def dummy_group_def nul_free_def dummy_numbers split: if_splits)
  ultimately show ?thesis
    by (auto simp: references_ok_def group_resolved_def members_def dummy_group_def dummy_numbers split: if_splits)
qed

section \<open>The tables are printed in full\<close>

lemma sublist_concat: "sublist r x \<Longrightarrow> x \<in> set xs \<Longrightarrow> sublist r (concat xs)"
  by (metis concat.simps(2) concat_append sublist_appendI sublist_order.order_trans split_list)

lemma print_table_ok:
  assumes "store_ready s" and "\<And>k v. store_lookup s k = Some v \<Longrightarrow> row v \<noteq> None"
  shows "\<exists>text. print_table row s = Some text \<and>
    (\<forall>k v r. store_lookup s k = Some v \<longrightarrow> row v = Some r \<longrightarrow> sublist (''key: '' @ line k @ tab @ ''val: '' @ r) text)"
proof -
  from assms(1) obtain t where t: "st_table s = Some t" "store_ok s" by (auto simp: store_ready_def)
  note ok = store_okD [OF t(2,1)]
  have len: "length (ht_array t) = unat (ht_size t)" using ok(1) by (simp add: table_ok_def)
  have node: "\<exists>v r. store_lookup s (fst n) = Some v \<and> row v = Some r \<and>
      print_node row (st_heap s) n = Some (line (tab @ ''key: '' @ fst n) @ tab @ ''val: '' @ r @ dashes)"
    if "n \<in> set (entries t)" for n
  proof -
    obtain k p where n: "n = (k, p)" by (cases n)
    from ok(4) that obtain v where v: "cells (st_heap s) p = Some v" unfolding n by blast
    have "map_of (entries t) k = Some p" using ok(1) that unfolding n by (simp add: table_ok_def)
    with v t(1) have look: "store_lookup s k = Some v" by (simp add: store_lookup_def st_entries_def)
    with assms(2) obtain r where "row v = Some r" by blast
    with look v show ?thesis by (simp add: n print_node_def deref_def)
  qed
  have bucket: "\<exists>nodes. map_ub (print_node row (st_heap s)) (ht_array t ! i) = Some nodes"
    if "i < length (ht_array t)" for i
    using node bucket_sub_entries [OF that] by (intro map_ub_total) fastforce
  have "\<exists>bs. map_ub (print_bucket row (st_heap s) t) [0..<unat (ht_size t)] = Some bs"
  proof (rule map_ub_total)
    show "print_bucket row (st_heap s) t i \<noteq> None" if "i \<in> set [0..<unat (ht_size t)]" for i
      using bucket [of i] that len by (auto simp: print_bucket_def)
  qed
  then obtain bs where bs: "map_ub (print_bucket row (st_heap s) t) [0..<unat (ht_size t)] = Some bs" by blast
  have "sublist (''key: '' @ line k @ tab @ ''val: '' @ r) (concat bs)" if look: "store_lookup s k = Some v" "row v = Some r" for k v r
  proof -
    from look(1) t(1) obtain p where "(k, p) \<in> set (entries t)"
      by (auto simp: store_lookup_def split: option.splits dest: map_of_SomeD)
    then obtain b where "b \<in> set (ht_array t)" "(k, p) \<in> set b" by (auto simp: entries_def)
    then obtain i where i: "i < length (ht_array t)" "(k, p) \<in> set (ht_array t ! i)" by (metis in_set_conv_nth)
    from bucket [OF i(1)] obtain nodes where nodes: "map_ub (print_node row (st_heap s)) (ht_array t ! i) = Some nodes" by blast
    from i(2) obtain j where j: "j < length (ht_array t ! i)" "ht_array t ! i ! j = (k, p)" by (auto simp: in_set_conv_nth)
    from node [OF bucket_sub_entries [OF i]] look nodes j have
      "nodes ! j = line (tab @ ''key: '' @ k) @ tab @ ''val: '' @ r @ dashes" "j < length nodes"
      by (auto simp: map_ub_eq_Some)
    then have "line (tab @ ''key: '' @ k) @ tab @ ''val: '' @ r @ dashes \<in> set nodes" by (metis nth_mem)
    moreover have "sublist (''key: '' @ line k @ tab @ ''val: '' @ r) (line (tab @ ''key: '' @ k) @ tab @ ''val: '' @ r @ dashes)"
      unfolding sublist_def by (intro exI [of _ tab] exI [of _ dashes]) (simp add: line_def)
    ultimately have "sublist (''key: '' @ line k @ tab @ ''val: '' @ r) (concat nodes)" by (rule sublist_concat [rotated])
    moreover have "bs ! i = line (fmt_d32 (of_nat i)) @ dashes @ concat nodes @ line (tab @ ''NULL'') @ dashes" "i < length bs"
      using bs [unfolded map_ub_eq_Some] i(1) len by (auto simp: print_bucket_def nodes)
    moreover from this have "sublist (concat nodes) (bs ! i)"
      unfolding sublist_def by (intro exI [of _ "line (fmt_d32 (of_nat i)) @ dashes"] exI [of _ "line (tab @ ''NULL'') @ dashes"]) simp
    ultimately show ?thesis by (meson nth_mem sublist_concat sublist_order.order_trans)
  qed
  with bs t(1) show ?thesis by (simp add: print_table_def)
qed

text \<open>
  The tables of a well-formed agent are printed, with a line for every sensor and for every
  group under its key, whether or not the sensors a group lists exist.
\<close>

theorem print_struct_complete:
  assumes "agent_ok a"
  shows "\<exists>text. print_struct a = Some text \<and>
    (\<forall>k s. sensors_of a k = Some s \<longrightarrow> sublist (''key: '' @ line k @ tab @ ''val: '' @ sensor_line s) text) \<and>
    (\<forall>k g. groups_of a k = Some g \<longrightarrow> sublist (''key: '' @ line k @ tab @ ''val: '' @ group_line g (members g)) text)"
proof -
  note ok = agent_okD [OF assms]
  obtain rows where rows: "print_table (\<lambda>s. Some (sensor_line s)) (sensors_table a) = Some rows"
      "\<And>k s. sensors_of a k = Some s \<Longrightarrow> sublist (''key: '' @ line k @ tab @ ''val: '' @ sensor_line s) rows"
    using print_table_ok [OF ok(1), of "\<lambda>s. Some (sensor_line s)"] by (auto simp: sensors_of_def)
  let ?row = "\<lambda>g. do { ids \<leftarrow> listed g; Some (group_line g ids) }"
  have row: "?row g = Some (group_line g (members g))" if "store_lookup (sensorgroup_table a) k = Some g" for k g
    using ok(4) [of k g] that by (simp add: groups_of_def listed_members)
  then obtain groups where groups: "print_table ?row (sensorgroup_table a) = Some groups"
      "\<And>k g. groups_of a k = Some g \<Longrightarrow> sublist (''key: '' @ line k @ tab @ ''val: '' @ group_line g (members g)) groups"
    using print_table_ok [OF ok(2), of ?row] by (fastforce simp: groups_of_def)
  let ?head = "stars @ line ''******** Sensors *********'' @ stars" and ?mid = "stars @ line ''****** Sensorgroups ******'' @ stars"
  let ?text = "?head @ rows @ ?mid @ groups"
  have "print_struct a = Some ?text"
    by (simp add: print_struct_def print_sensors_table_def print_sensorgroups_table_def rows(1) groups(1))
  moreover have "sublist rows ?text" unfolding sublist_def by blast
  moreover have "sublist groups ?text"
    unfolding sublist_def by (intro exI [of _ "?head @ rows @ ?mid"] exI [of _ "[]"]) simp
  ultimately show ?thesis using rows(2) groups(2) sublist_order.order_trans by blast
qed

text \<open>
  The development build starts from the empty tables of the program with five sensors and two groups
  whose lists are resolved, prints them all, and enters the loop as a configured agent.
\<close>

theorem development_start_ok:
  assumes "agent_ok a" and "sensors_of a = Map.empty" and "groups_of a = Map.empty"
  shows "\<exists>text a'. development_start a = Some (text, a') \<and> agent_ok a' \<and> references_ok a' \<and>
    status a' = configured \<and> overruns a' = overruns a \<and>
    dom (sensors_of a') = {''id_1'', ''id_2'', ''id_3'', ''id_4'', ''id_5''} \<and> dom (groups_of a') = {''id_11'', ''id_22''} \<and>
    (\<forall>k s. sensors_of a' k = Some s \<longrightarrow> sublist (sensor_line s) text)"
proof -
  from create_dummy_struct_ok [OF assms] obtain a1 where a1: "create_dummy_struct a = Some a1" "agent_ok a1" "references_ok a1"
      "overruns a1 = overruns a" "sensors_of a1 = map_of (map (\<lambda>n. (''id_'' @ show_nat n, dummy_sensor n)) [1, 2, 3, 4, 5])"
      "groups_of a1 = [''id_11'' \<mapsto> dummy_group ''id_11'' 11000 [''id_3''], ''id_22'' \<mapsto> dummy_group ''id_22'' 5000 [''id_4'', ''id_5'']]"
    by blast
  from print_struct_complete [OF a1(2)] obtain out where out: "print_struct a1 = Some out"
      "\<And>k s. sensors_of a1 k = Some s \<Longrightarrow> sublist (''key: '' @ line k @ tab @ ''val: '' @ sensor_line s) out"
    by blast
  let ?a = "a1\<lparr>status := configured\<rparr>"
  have same: "same_tables ?a a1" by (simp add: same_tables_def)
  have "sensors_of ?a = sensors_of a1" "groups_of ?a = groups_of a1" by (simp_all add: sensors_of_def groups_of_def)
  moreover have "sublist (sensor_line s) out" if "sensors_of a1 k = Some s" for k s
    using out(2) [OF that] by (meson sublist_append_leftI sublist_order.order_trans)
  moreover have "dom (sensors_of a1) = {''id_1'', ''id_2'', ''id_3'', ''id_4'', ''id_5''}"
    unfolding a1(5) by (simp add: dom_map_of_conv_image_fst dummy_numbers insert_commute)
  moreover have "dom (groups_of a1) = {''id_11'', ''id_22''}" unfolding a1(6) by auto
  ultimately show ?thesis using a1(1-4) out(1) same_tables_ok [OF same] by (simp add: development_start_def)
qed

end
