(* ===== verification/Spec2Isabelle.thy ===== *)
theory Spec2Isabelle
  imports Config Monitoring Interleaving MetricsSpec TokensWritten JsonDot JsonCompare JsonAlloc Development
begin

text \<open>
  A model of the CAN monitor agent (\<^verbatim>\<open>src/src/CanMonitor\<close>), a C program that reads
  frames from a CAN interface, decodes the bit fields of configured sensors, and publishes
  groups of sensors over MQTT; it is configured over a REST interface. The theories follow the
  code: a C function is a definition of the same name, a struct is a record, \<open>uint32_t\<close> and
  \<open>int\<close> are 32-bit words (read with \<open>sint\<close> where they are signed), a C string is a list of
  characters up to its terminator, a NULL pointer is \<open>None\<close> where the code can see one.

  \<^bold>\<open>Undefined behaviour.\<close> Almost every function returns an \<open>option\<close>. \<open>None\<close> means that the C
  code has undefined behaviour on that input: a NULL or dangling pointer is dereferenced, a
  shift is too wide, a double does not fit the integer it is converted to, an uninitialised
  value is used. A theorem that a result is \<open>Some\<close> therefore states that the code returns
  and is defined. Writes past the end of a fixed buffer (\<open>sprintf\<close>, \<open>strcpy\<close> and \<open>strcat\<close>
  into a block that is too small) would make nearly every reply undefined; they are recorded
  in the ledger \<open>overruns\<close> of the agent instead, with the size of the block and the bytes
  written, and the execution goes on. In the same way it goes on after the serialiser has been
  called on a value whose text is 2 GB or longer: \<open>json_serialize_to_string\<close> is undefined there, as the
  size of the text is summed up in an \<open>int\<close>, and its callers continue with the text (\<open>serialized\<close>).

  \<^bold>\<open>The theories\<close>, each after those it uses.

  \<^item> \<open>CPrelude\<close>: the heap of payloads with addresses (\<open>alloc\<close>, \<open>deref\<close>, \<open>hwrite\<close>, \<open>hfree\<close>),
    loops that may be undefined (\<open>fold_ub\<close>, \<open>map_ub\<close>), reachability of a step relation and
    the locale \<open>step_invariant\<close>. \<open>CText\<close>: C strings, \<open>printf\<close> of integers, \<open>atoi\<close>.
    \<open>Doubles\<close>: IEEE doubles as sign, mantissa and exponent, \<open>strtod\<close>, \<open>%1.17g\<close>,
    \<open>%.15f\<close> and the conversions to and from integers; \<open>NumberText\<close> shows that the text of
    an integer is read back as the same double, \<open>NumberRoundtrip\<close> the same for zero and every
    normal double, by bounds on the two roundings.
  \<^item> \<open>HashTable\<close> (\<^verbatim>\<open>implementation/tables\<close>): the two hash tables, one definition for both
    as they differ in the type of the payload only. Buckets hold chains of keys and addresses
    of payloads. The lemmas show the refinement of a finite map (locale \<open>keyed_store\<close>), that
    the guarded operations are defined, and what an insertion under a present key breaks.
  \<^item> \<open>JsonValue\<close>, \<open>JsonParse\<close>, \<open>JsonSerialize\<close>, \<open>JsonRoundtrip\<close> (\<^verbatim>\<open>common/parson.c\<close>):
    values, objects and arrays; the recursive parser; both passes of the serialiser, the counting one
    with its \<open>int\<close> sums, which may overflow; parsing what has been written gives the value back, unless
    it holds a subnormal number. The parser carries fuel, for
    which twice the length of the text and a constant is enough on every text
    (\<open>parse_value_fuel\<close>); the nesting bound 2048 is the one of the code.
  \<^item> \<open>JsonAccess\<close>, \<open>JsonDot\<close>, \<open>JsonCompare\<close>, \<open>JsonComments\<close> (\<^verbatim>\<open>common/parson.c\<close>): the rest of
    the JSON library, which this program does not call. Every accessor, setter and writer; dotted
    names as paths through nested objects; copies, comparison and validation against a schema,
    with the relation \<open>describes\<close> as its specification; the parser that blanks comments out first.
  \<^item> \<open>JsonStore\<close>, \<open>JsonHeap\<close>, \<open>JsonAlloc\<close> (\<^verbatim>\<open>common/parson.c\<close>): the memory behind the values. \<open>JsonStore\<close> has the growing
    arrays of names, values and items with every allocation that may fail (locale \<open>store_refinement\<close>);
    \<open>JsonHeap\<close> the cells with their parent pointers, the operations on
    them and \<open>json_value_free\<close>, and which values are lost when a member cannot be stored (\<open>leaked\<close>). Both refine the operations of \<open>JsonValue\<close>; a tree of cells is
    described by a value with addresses (\<open>located\<close>, \<open>owns\<close>). The fuel of \<open>json_value_free\<close> bounds the nesting; the
    number of values in a tree is enough. \<open>JsonAlloc\<close> has the parser and the deep copy on cells, with a
    sequence of answers to the question whether there is memory; both give a new tree or leave
    everything as it was (locale \<open>container\<close> for the loop that copies the members of an array or an object).
  \<^item> \<open>Tokens\<close>, \<open>TokensSpec\<close>, \<open>TokensWritten\<close> (\<^verbatim>\<open>common/json.c\<close>): the tokeniser jsmn, its loop over the text and its
    array of tokens. An invariant of the array (\<open>tokens_inv\<close>) shows that every index is within
    it and what each token delimits; a simulation relates the run without an array to the one with it. What the
    serialiser writes is split into exactly the tokens of the value (\<open>tokens_of\<close>).
  \<^item> \<open>CanDecode\<close> (\<^verbatim>\<open>CanMonitor.c\<close>, \<^verbatim>\<open>implementation/impl.c\<close>): \<open>mask_can_frame\<close>,
    \<open>var_cast\<close>, \<open>can_read\<close>.
  \<^item> \<open>AgentState\<close>: the structs \<open>sensor\<close> and \<open>sensorgroup\<close>, the record \<open>agent\<close> of the global
    variables, the invariant \<open>agent_ok\<close> (tables well formed, ids equal to keys, counters
    within the allocated lists).
  \<^item> \<open>SensorConfig\<close>, \<open>GroupConfig\<close>, \<open>AgentConfig\<close> (\<^verbatim>\<open>implementation/sensor.c\<close>,
    \<^verbatim>\<open>sensorgroup.c\<close>, \<^verbatim>\<open>impl.c\<close>): the operations behind the URLs. Each takes the payload
    and the agent and gives the reply and the new agent. For each the lemmas give its outcome
    on every branch, refusals included, and that \<open>agent_ok\<close> is kept. What a payload for a group asks for
    is read from it by \<open>requested_group\<close> and \<open>put_entry\<close>, apart from the code of the handler.
  \<^item> \<open>RestServer\<close>, \<open>RestHandlers\<close> (\<^verbatim>\<open>common/rest-server.c\<close>, \<^verbatim>\<open>common/adeptnessSvc.c\<close>,
    \<^verbatim>\<open>rest_server/rest_server_impl.c\<close>): collecting the body, normalising the URL, the
    dispatch over the registered handlers and the service handlers with their status codes.
    \<open>http_handler\<close> composes them into one request.
  \<^item> \<open>DoubleArith\<close>, \<open>DoubleSpec\<close>, \<open>Metrics\<close>, \<open>MetricsSpec\<close> (\<^verbatim>\<open>common/metrics.c\<close>): addition,
    multiplication and division of doubles with correct rounding, the handler of the performance
    resource with the clock it reads, and which members its reply has.
  \<^item> \<open>Service\<close>: the contract of the configuration interface. \<open>perform\<close> specifies orders on an
    abstract catalogue of sensors and groups; sent as requests with JSON bodies they do to the
    agent exactly that (locale \<open>functional_refinement\<close>), for every sequence of orders.
  \<^item> \<open>MqttClient\<close> (\<^verbatim>\<open>mqtt\<close>), \<open>TableWalk\<close>, \<open>MainLoop\<close>: the published texts, the loop over the
    buckets and chains of a table (locale \<open>payload_update\<close>), and its two uses,
    \<open>parse_can_frame\<close> and the publishing loop.
  \<^item> \<open>Interleaving\<close> (\<^verbatim>\<open>CanMonitor.c\<close>): those loops turn by turn, while the threads of the server
    change the table between two turns, as the code takes no lock: which changes are harmless,
    which make the loop read a freed node, and that without changes the turns are \<open>parse_can_frame\<close>.
  \<^item> \<open>Monitoring\<close>: from a CAN frame to the message a subscriber reads.
  \<^item> \<open>Lifecycle\<close>, \<open>Config\<close>: the service and its server, the start-up, the parts of the main
    loop interleaved with requests, SIGINT and lost connections as a step relation, the end
    of \<open>main\<close>, with the invariant that exactly one server is alive (\<open>one_server\<close>) and when each part
    of the loop is undefined; the command line, the environment and the configuration file.
  \<^item> \<open>Development\<close> (\<^verbatim>\<open>CanMonitor.c\<close>): what is compiled only with \<open>DEV\<close> set, the objects the development
    build starts with and the text of the tables it prints.

  \<^bold>\<open>Bounds.\<close> Table sizes are those of the code (10); the lemmas on tables hold for every
  non-zero size. Counters that C keeps in \<open>size_t\<close> are natural numbers, as the lists they
  count cannot outgrow the memory; the sizes the serialiser keeps in an \<open>int\<close> are bounded by \<open>INT_MAX\<close>.

  \<^bold>\<open>Parameters.\<close> libmicrohttpd (what a connection delivers, whether the daemon starts; a request has its
  body as the chunks that are delivered, each with the byte that lies behind it, which the code may
  read; \<open>Service\<close> sends each body as one chunk with a NUL behind it), the
  paho client (whether a connection is accepted; all other results are ignored by the code),
  the kernel (what \<open>read\<close> delivers on the socket, the clock, files, the environment, the exit
  status of the shell commands) and the resolver are arguments of the definitions that use
  them. \<open>os_counters\<close> holds what \<open>mallinfo\<close>, \<open>getloadavg\<close>, \<open>getrusage\<close> and the clock return to
  \<^verbatim>\<open>common/metrics.c\<close>, and the time at which the service was started.

  \<^bold>\<open>Not modelled.\<close> Exhaustion of memory outside of \<open>JsonStore\<close>, \<open>JsonHeap\<close> and \<open>JsonAlloc\<close> (every allocation succeeds) and
  leaks outside of them; \<open>json_set_allocation_functions\<close>, which the program does not call;
  the console output outside of \<open>Development\<close>; data races within one turn of a loop, within the publishing of a
  group (its sensors are looked up in one step) or within one request, and the window in which the server runs before the tables are created.
\<close>

end
